(* ===== verification/Copper_Prelude.thy ===== *)
theory Copper_Prelude
  imports Main "HOL-Library.Word" "HOL-Library.Monad_Syntax"
begin

text \<open>
  What every other theory of the development shares: the widths of Go's integers, slices with
  their run-time checks, the big-endian conversions of \<^verbatim>\<open>encoding/binary\<close>, and the generic
  lemmas on lists, options and words.

  A Go run-time panic (an index or a slice bound out of range, a negative length given to
  \<^verbatim>\<open>make\<close>, closing a closed channel) is the value \<^term>\<open>None\<close> of the option monad,
  so that ``this code never panics'' is a theorem and not an assumption. An error that the code
  returns is an ordinary value.
\<close>

unbundle bit_operations_syntax

section \<open>Names for the model's types and the development's collections\<close>

type_synonym u8 = "8 word"
type_synonym u16 = "16 word"
type_synonym u32 = "32 word"
type_synonym u64 = "64 word"
type_synonym go_string = "u8 list"

named_theorems go_defs "definitions of the Go primitives (slices, copy, make, channels)"
named_theorems flag_simps "the stream flag words, read bit by bit"
named_theorems be_simps "lengths and round trips of the big-endian conversions"

abbreviation str :: "string \<Rightarrow> go_string" where
  "str s \<equiv> map of_char s"

abbreviation zlen :: "'a list \<Rightarrow> int" where
  "zlen xs \<equiv> int (length xs)"

section \<open>Slices\<close>

text \<open>
  \<^verbatim>\<open>xs[i:j]\<close>. Every slice that is modelled with this function comes from \<^verbatim>\<open>make\<close>
  (or is a full slice of such an array), so its capacity is its length.
\<close>

definition slice :: "'a list \<Rightarrow> int \<Rightarrow> int \<Rightarrow> 'a list option" where
  [go_defs]: "slice xs i j =
     (if 0 \<le> i \<and> i \<le> j \<and> j \<le> zlen xs then Some (take (nat (j - i)) (drop (nat i) xs)) else None)"

text \<open>\<^verbatim>\<open>xs[i]\<close> read and written.\<close>

definition index :: "'a list \<Rightarrow> int \<Rightarrow> 'a option" where
  [go_defs]: "index xs i = (if 0 \<le> i \<and> i < zlen xs then Some (xs ! nat i) else None)"

definition store :: "'a list \<Rightarrow> int \<Rightarrow> 'a \<Rightarrow> 'a list option" where
  [go_defs]: "store xs i v = (if 0 \<le> i \<and> i < zlen xs then Some (xs[nat i := v]) else None)"

text \<open>
  \<^verbatim>\<open>n := copy(dst[i:j], src)\<close>: the number of elements copied and the array behind
  \<^verbatim>\<open>dst\<close> afterwards. \<^verbatim>\<open>copy\<close> behaves as \<^verbatim>\<open>memmove\<close>, so the source is
  always what it was before the call.
\<close>

definition copy :: "'a list \<Rightarrow> int \<Rightarrow> int \<Rightarrow> 'a list \<Rightarrow> (int \<times> 'a list) option" where
  [go_defs]: "copy dst i j src =
     (if 0 \<le> i \<and> i \<le> j \<and> j \<le> zlen dst
      then let n = min (nat (j - i)) (length src)
           in Some (int n, take (nat i) dst @ take n src @ drop (nat i + n) dst)
      else None)"

text \<open>\<^verbatim>\<open>make([]T, n)\<close>, filled with the zero value of the type.\<close>

definition go_make :: "'a \<Rightarrow> int \<Rightarrow> 'a list option" where
  [go_defs]: "go_make z n = (if 0 \<le> n then Some (replicate (nat n) z) else None)"

text \<open>\<^verbatim>\<open>close(ch)\<close> on a channel that is only ever closed: \<^term>\<open>True\<close> once closed.\<close>

definition close_chan :: "bool \<Rightarrow> bool option" where
  [go_defs]: "close_chan closed = (if closed then None else Some True)"

lemma close_chan_Some [simp]: "close_chan c = Some d \<longleftrightarrow> \<not> c \<and> d"
  by (auto simp: close_chan_def)

lemma close_chan_False [simp]: "close_chan False = Some True"
  by (simp add: close_chan_def)

lemma length_copy: "copy dst i j src = Some (n, dst') \<Longrightarrow> length dst' = length dst"
  by (auto simp: copy_def Let_def split: if_splits)

subsection \<open>Slices of arrays whose shape is known\<close>

lemma take_drop_append [simp]: "take n xs @ drop n xs @ zs = xs @ zs"
  by (metis append_assoc append_take_drop_id)

lemma slice_eq:
  "xs = as @ bs @ cs \<Longrightarrow> i = zlen as \<Longrightarrow> j = i + zlen bs \<Longrightarrow> slice xs i j = Some bs"
  by (simp add: slice_def)

lemma copy_eq:
  "dst = as @ bs @ cs \<Longrightarrow> i = zlen as \<Longrightarrow> i + zlen bs \<le> j \<Longrightarrow> j \<le> zlen dst \<Longrightarrow>
   length src = length bs \<Longrightarrow> copy dst i j src = Some (zlen src, as @ src @ cs)"
  by (auto simp: copy_def Let_def min_def)

lemma copy_single:
  "0 \<le> i \<Longrightarrow> i < j \<Longrightarrow> j \<le> zlen xs \<Longrightarrow> copy xs i j [c] = Some (1, xs[nat i := c])"
  by (simp add: copy_def Let_def upd_conv_take_nth_drop min_absorb2)

lemma store_Some: "0 \<le> i \<Longrightarrow> i < zlen xs \<Longrightarrow> store xs i c = Some (xs[nat i := c])"
  by (simp add: store_def)

lemma split_list3:
  assumes "a + b \<le> length xs"
  obtains xs1 xs2 xs3 where "xs = xs1 @ xs2 @ xs3" "length xs1 = a" "length xs2 = b"
  using assms by (intro that [of "take a xs" "take b (drop a xs)" "drop b (drop a xs)"])
    (simp_all only: append_take_drop_id, simp_all)

lemmas slice_simps = slice_def index_def store_def copy_def go_make_def nat_add_distrib Let_def

section \<open>Big-endian integers\<close>

text \<open>
  \<^verbatim>\<open>binary.BigEndian.PutUint16/32/64\<close> and their inverses. Reading from a slice that is
  too short panics; a longer slice is allowed.
\<close>

definition put_u16 :: "u16 \<Rightarrow> u8 list" where
  "put_u16 v = [ucast (drop_bit 8 v), ucast v]"

definition put_u32 :: "u32 \<Rightarrow> u8 list" where
  "put_u32 v = [ucast (drop_bit 24 v), ucast (drop_bit 16 v), ucast (drop_bit 8 v), ucast v]"

definition put_u64 :: "u64 \<Rightarrow> u8 list" where
  "put_u64 v = [ucast (drop_bit 56 v), ucast (drop_bit 48 v), ucast (drop_bit 40 v), ucast (drop_bit 32 v),
     ucast (drop_bit 24 v), ucast (drop_bit 16 v), ucast (drop_bit 8 v), ucast v]"

fun get_u16 :: "u8 list \<Rightarrow> u16 option" where
  "get_u16 (a # b # _) = Some (ucast b OR push_bit 8 (ucast a))"
| "get_u16 _ = None"

fun get_u32 :: "u8 list \<Rightarrow> u32 option" where
  "get_u32 (a # b # c # d # _) =
     Some (ucast d OR push_bit 8 (ucast c) OR push_bit 16 (ucast b) OR push_bit 24 (ucast a))"
| "get_u32 _ = None"

fun get_u64 :: "u8 list \<Rightarrow> u64 option" where
  "get_u64 (a # b # c # d # e # f # g # h # _) =
     Some (ucast h OR push_bit 8 (ucast g) OR push_bit 16 (ucast f) OR push_bit 24 (ucast e)
       OR push_bit 32 (ucast d) OR push_bit 40 (ucast c) OR push_bit 48 (ucast b) OR push_bit 56 (ucast a))"
| "get_u64 _ = None"

lemma length_put [be_simps, simp]:
  "length (put_u16 a) = 2" "length (put_u32 b) = 4" "length (put_u64 c) = 8"
  by (simp_all add: put_u16_def put_u32_def put_u64_def)

text \<open>The byte at offset \<open>i\<close> of a word, shifted back, holds exactly the bits \<open>i .. i+7\<close>.\<close>

lemma bit_push_byte:
  fixes v :: "'a::len word"
  shows "bit (push_bit i (ucast (ucast (drop_bit i v) :: u8)) :: 'a word) n \<longleftrightarrow> i \<le> n \<and> n < i + 8 \<and> bit v n"
  using bit_imp_le_length [of v n] by (auto simp: bit_simps)

lemma bit_low_byte:
  fixes v :: "'a::len word"
  shows "bit (ucast (ucast v :: u8) :: 'a word) n \<longleftrightarrow> n < 8 \<and> bit v n"
  using bit_imp_le_length [of v n] by (auto simp: bit_simps)

lemmas bit_bytes = bit_or_iff bit_push_byte bit_low_byte

lemma get_put_u16 [be_simps]: "get_u16 (put_u16 v @ rest) = Some v"
  unfolding put_u16_def by (simp, rule bit_word_eqI) (simp only: bit_bytes, auto)

lemma get_put_u32 [be_simps]: "get_u32 (put_u32 v @ rest) = Some v"
  unfolding put_u32_def by (simp, rule bit_word_eqI) (simp only: bit_bytes, auto)

lemma get_put_u64 [be_simps]: "get_u64 (put_u64 v @ rest) = Some v"
  unfolding put_u64_def by (simp, rule bit_word_eqI) (simp only: bit_bytes, auto)

lemma not_bit_byte: "8 \<le> n \<Longrightarrow> \<not> bit (b :: u8) n"
  using bit_imp_le_length [of b n] by auto

lemma put_get_u16: "get_u16 bs = Some v \<Longrightarrow> put_u16 v = take 2 bs"
  by (cases bs rule: get_u16.cases)
    (auto simp: put_u16_def bit_simps not_bit_byte intro!: bit_word_eqI)

lemma put_get_u32: "get_u32 bs = Some v \<Longrightarrow> put_u32 v = take 4 bs"
  by (cases bs rule: get_u32.cases)
    (auto simp: put_u32_def bit_simps not_bit_byte intro!: bit_word_eqI)

lemma get_u32_Some: "4 \<le> length bs \<Longrightarrow> \<exists>v. get_u32 bs = Some v"
  by (cases bs rule: get_u32.cases) auto

lemma get_u64_Some: "8 \<le> length bs \<Longrightarrow> \<exists>v. get_u64 bs = Some v"
  by (cases bs rule: get_u64.cases) auto

section \<open>Decimal and hexadecimal text\<close>

text \<open>The verbs \<^verbatim>\<open>%d\<close> and \<^verbatim>\<open>%02x\<close> of \<^verbatim>\<open>fmt.Sprintf\<close>.\<close>

fun show_nat :: "nat \<Rightarrow> go_string" where
  "show_nat n = (if n < 10 then [of_nat (48 + n)] else show_nat (n div 10) @ [of_nat (48 + n mod 10)])"

declare show_nat.simps [simp del]

definition show_int :: "int \<Rightarrow> go_string" where
  "show_int i = (if i < 0 then str ''-'' @ show_nat (nat (- i)) else show_nat (nat i))"

definition hex_digit :: "nat \<Rightarrow> u8" where
  "hex_digit d = of_nat (if d < 10 then 48 + d else 87 + d)"

definition show_hex2 :: "u8 \<Rightarrow> go_string" where
  "show_hex2 b = [hex_digit (unat b div 16), hex_digit (unat b mod 16)]"

end
