(* ===== verification/Copper_Errors.thy ===== *)
theory Copper_Errors
  imports Copper_Prelude "HOL-Library.AList"
begin

text \<open>
  The error values of \<^verbatim>\<open>errors.go\<close> and the error classification of \<^verbatim>\<open>util.go\<close>.

  Go compares errors by dynamic type and value, and a pointer by its address. An error that the
  program allocates therefore carries the reference of its allocation (type \<open>eref\<close>), so that
  equality of two values of type \<open>go_error\<close> is Go's \<^verbatim>\<open>==\<close>.
\<close>

section \<open>Error codes\<close>

abbreviation (input) EINTERNAL :: int where "EINTERNAL \<equiv> 1"
abbreviation (input) ECLOSED :: int where "ECLOSED \<equiv> 100"
abbreviation (input) EINVALID :: int where "EINVALID \<equiv> 101"
abbreviation (input) ETIMEOUT :: int where "ETIMEOUT \<equiv> 102"
abbreviation (input) ENOROUTE :: int where "ENOROUTE \<equiv> 103"
abbreviation (input) ENOTARGET :: int where "ENOTARGET \<equiv> 104"
abbreviation (input) EUNSUPPORTED :: int where "EUNSUPPORTED \<equiv> 105"
abbreviation (input) EOVERCAPACITY :: int where "EOVERCAPACITY \<equiv> 106"
abbreviation (input) ECONNCLOSED :: int where "ECONNCLOSED \<equiv> 200"
abbreviation (input) ECONNSHUTDOWN :: int where "ECONNSHUTDOWN \<equiv> 201"
abbreviation (input) EUNKNOWNFRAME :: int where "EUNKNOWNFRAME \<equiv> 202"
abbreviation (input) EINVALIDFRAME :: int where "EINVALIDFRAME \<equiv> 203"
abbreviation (input) EWINDOWOVERFLOW :: int where "EWINDOWOVERFLOW \<equiv> 204"
abbreviation (input) EINVALIDSTREAM :: int where "EINVALIDSTREAM \<equiv> 205"
abbreviation (input) EUNKNOWNSTREAM :: int where "EUNKNOWNSTREAM \<equiv> 206"
abbreviation (input) ECONNTIMEOUT :: int where "ECONNTIMEOUT \<equiv> 207"

text \<open>The two tables are Go maps: a missing key reads as the empty string.\<close>

definition errorMessages :: "int \<Rightarrow> go_string" where
  "errorMessages e = str
     (if e = EINTERNAL then ''internal error''
      else if e = ECLOSED then ''stream closed''
      else if e = EINVALID then ''data is not valid''
      else if e = ETIMEOUT then ''operation timed out''
      else if e = ENOROUTE then ''no route to target''
      else if e = ENOTARGET then ''no such target''
      else if e = EUNSUPPORTED then ''feature is not supported''
      else if e = EOVERCAPACITY then ''server is over capacity''
      else if e = ECONNCLOSED then ''connection closed''
      else if e = ECONNSHUTDOWN then ''connection is shutting down''
      else if e = EUNKNOWNFRAME then ''unknown frame type''
      else if e = EINVALIDFRAME then ''invalid frame data''
      else if e = EWINDOWOVERFLOW then ''receive window overflow''
      else if e = EINVALIDSTREAM then ''received invalid stream id''
      else if e = EUNKNOWNSTREAM then ''received unknown stream id''
      else if e = ECONNTIMEOUT then ''connection timed out''
      else '''')"

definition errorNames :: "int \<Rightarrow> go_string" where
  "errorNames e = str
     (if e = EINTERNAL then ''EINTERNAL''
      else if e = ECLOSED then ''ECLOSED''
      else if e = EINVALID then ''EINVALID''
      else if e = ETIMEOUT then ''ETIMEOUT''
      else if e = ENOROUTE then ''ENOROUTE''
      else if e = ENOTARGET then ''ENOTARGET''
      else if e = EUNSUPPORTED then ''EUNSUPPORTED''
      else if e = EOVERCAPACITY then ''EOVERCAPACITY''
      else if e = ECONNCLOSED then ''ECONNCLOSED''
      else if e = ECONNSHUTDOWN then ''ECONNSHUTDOWN''
      else if e = EUNKNOWNFRAME then ''EUNKNOWNFRAME''
      else if e = EINVALIDFRAME then ''EINVALIDFRAME''
      else if e = EWINDOWOVERFLOW then ''EWINDOWOVERFLOW''
      else if e = EINVALIDSTREAM then ''EINVALIDSTREAM''
      else if e = EUNKNOWNSTREAM then ''EUNKNOWNSTREAM''
      else if e = ECONNTIMEOUT then ''ECONNTIMEOUT''
      else '''')"

definition ErrorCode_Error :: "int \<Rightarrow> go_string" where
  "ErrorCode_Error e =
     (let text = errorMessages e
      in if length text = 0 then str ''copper error '' @ show_int e else text)"

definition ErrorCode_String :: "int \<Rightarrow> go_string" where
  "ErrorCode_String e =
     (let text = errorNames e
      in if length text = 0 then str ''ERROR_'' @ show_int e else text)"

section \<open>Error values\<close>

type_synonym eref = nat

text \<open>
  \<open>CopperError\<close> is a pointer \<^verbatim>\<open>&copperError{...}\<close> and \<open>CopperErrorVal\<close> a plain
  struct value \<^verbatim>\<open>copperError{...}\<close>; the code builds both. Only the message of the embedded
  error is kept, because embedding promotes no other method. \<open>OtherError\<close> is any error the
  program did not create itself; its flag says whether it is a \<^verbatim>\<open>net.Error\<close> whose
  \<^verbatim>\<open>Timeout()\<close> is true.
\<close>

datatype go_error =
    ErrCode int
  | CopperError eref go_string int
  | CopperErrorVal eref go_string int
  | UnknownFrameError u8
  | TimeoutError
  | IoEOF
  | IoUnexpectedEOF
  | ErrNoFreeStreamID
  | OtherError eref go_string bool

text \<open>The method \<^verbatim>\<open>Error() string\<close>.\<close>

fun err_text :: "go_error \<Rightarrow> go_string" where
  "err_text (ErrCode c) = ErrorCode_Error c"
| "err_text (CopperError _ msg _) = msg"
| "err_text (CopperErrorVal _ msg _) = msg"
| "err_text (UnknownFrameError t) = str ''unknown frame 0x'' @ show_hex2 t"
| "err_text TimeoutError = str ''i/o timeout''"
| "err_text IoEOF = str ''EOF''"
| "err_text IoUnexpectedEOF = str ''unexpected EOF''"
| "err_text ErrNoFreeStreamID = str ''there are no free stream ids available''"
| "err_text (OtherError _ msg _) = msg"

text \<open>
  The type assertion \<^verbatim>\<open>err.(Error)\<close> and, where it succeeds, \<^verbatim>\<open>ErrorCode()\<close>. The
  method \<^verbatim>\<open>ErrorCode\<close> of \<^verbatim>\<open>copperError\<close> has a pointer receiver, so a
  \<^verbatim>\<open>copperError\<close> value does not implement \<^verbatim>\<open>Error\<close>.
\<close>

fun as_Error :: "go_error \<Rightarrow> int option" where
  "as_Error (ErrCode c) = Some c"
| "as_Error (CopperError _ _ c) = Some c"
| "as_Error (CopperErrorVal _ _ _) = None"
| "as_Error (UnknownFrameError _) = Some EUNKNOWNFRAME"
| "as_Error TimeoutError = Some ETIMEOUT"
| "as_Error IoEOF = None"
| "as_Error IoUnexpectedEOF = None"
| "as_Error ErrNoFreeStreamID = None"
| "as_Error (OtherError _ _ _) = None"

section \<open>Classification (util.go)\<close>

fun isTimeout :: "go_error \<Rightarrow> bool" where
  "isTimeout TimeoutError = True"
| "isTimeout (OtherError _ _ t) = t"
| "isTimeout _ = False"

definition isCopperError :: "go_error \<Rightarrow> bool" where
  "isCopperError e \<longleftrightarrow> as_Error e \<noteq> None"

definition isOverCapacity :: "go_error \<Rightarrow> bool" where
  "isOverCapacity e \<longleftrightarrow> (case as_Error e of Some c \<Rightarrow> c = EOVERCAPACITY | None \<Rightarrow> False)"

text \<open>
  \<^verbatim>\<open>decrementCounterUint32\<close>: a counter map (an association list) whose zero entries are deleted. Reading a
  missing key gives 0.
\<close>

definition decrementCounterUint32 :: "(u32 \<times> int) list \<Rightarrow> u32 \<Rightarrow> (u32 \<times> int) list \<times> bool" where
  "decrementCounterUint32 counters key =
     (let newValue = (case map_of counters key of Some v \<Rightarrow> v | None \<Rightarrow> 0) - 1
      in if newValue \<noteq> 0 then (AList.update key newValue counters, False)
         else (AList.delete key counters, True))"

section \<open>Properties\<close>

lemma errorMessages_nonempty_iff: "errorMessages e \<noteq> [] \<longleftrightarrow> errorNames e \<noteq> []"
  by (simp add: errorMessages_def errorNames_def)

lemma show_nat_nonempty: "show_nat n \<noteq> []"
  by (subst show_nat.simps) simp

lemma ErrorCode_Error_nonempty: "ErrorCode_Error e \<noteq> []"
  by (simp add: ErrorCode_Error_def Let_def)

lemma decrementCounterUint32_keeps_positive:
  assumes "\<forall>k v. map_of counters k = Some v \<longrightarrow> 0 < v" and "map_of counters key \<noteq> None"
    and "decrementCounterUint32 counters key = (counters', gone)"
  shows "(\<forall>k v. map_of counters' k = Some v \<longrightarrow> 0 < v) \<and> (gone \<longleftrightarrow> map_of counters' key = None)"
proof -
  from assms(1,2) obtain v where v: "map_of counters key = Some v" "0 < v" by auto
  with assms(3) have c': "map_of counters' = (if v = 1 then (map_of counters)(key := None) else (map_of counters)(key \<mapsto> v - 1))"
    and g: "gone \<longleftrightarrow> v = 1"
    by (auto simp: decrementCounterUint32_def Let_def AList.update_conv' AList.delete_conv' split: if_splits)
  have "v \<noteq> 1 \<Longrightarrow> 1 < v" using v by simp
  with assms(1) v show ?thesis unfolding c' g by auto
qed

end
