(* ===== verification/Interfaces.thy ===== *)
theory Interfaces
  imports Copper_Prelude
begin

text \<open>
  The contracts between the components, as locales: what a bounded FIFO queue promises its users
  (the byte buffer, the queues of streams that wait for the writer), and what the byte buffer
  promises the two sides of a stream. The lemmas of a locale are proved once from the contract and
  come to the model through the interpretations in the providers' theories.
\<close>

section \<open>Bounded first-in first-out queues\<close>

text \<open>Enqueue a list element by element, and dequeue a given number of elements.\<close>

fun fifo_puts :: "('q \<Rightarrow> 'a \<Rightarrow> 'q option) \<Rightarrow> 'q \<Rightarrow> 'a list \<Rightarrow> 'q option" where
  "fifo_puts put q [] = Some q"
| "fifo_puts put q (x # xs) = do { q' \<leftarrow> put q x; fifo_puts put q' xs }"

fun fifo_gets :: "('q \<Rightarrow> ('a \<times> 'q) option) \<Rightarrow> 'q \<Rightarrow> nat \<Rightarrow> ('a list \<times> 'q) option" where
  "fifo_gets get q 0 = Some ([], q)"
| "fifo_gets get q (Suc n) = do { (x, q') \<leftarrow> get q; (xs, q'') \<leftarrow> fifo_gets get q' n; Some (x # xs, q'') }"

locale fifo =
  fixes inv :: "'q \<Rightarrow> bool"
    and elems :: "'q \<Rightarrow> 'a list"
    and cap :: nat
    and put :: "'q \<Rightarrow> 'a \<Rightarrow> 'q option"
    and get :: "'q \<Rightarrow> ('a \<times> 'q) option"
  assumes put_ok: "inv q \<Longrightarrow> length (elems q) < cap \<Longrightarrow>
      \<exists>q'. put q x = Some q' \<and> inv q' \<and> elems q' = elems q @ [x]"
    and get_ok: "inv q \<Longrightarrow> elems q \<noteq> [] \<Longrightarrow>
      \<exists>q'. get q = Some (hd (elems q), q') \<and> inv q' \<and> elems q' = tl (elems q)"
begin

lemma puts_ok:
  "inv q \<Longrightarrow> length (elems q) + length xs \<le> cap \<Longrightarrow>
   \<exists>q'. fifo_puts put q xs = Some q' \<and> inv q' \<and> elems q' = elems q @ xs"
proof (induction xs arbitrary: q)
  case (Cons x xs)
  then obtain q' where "put q x = Some q'" "inv q'" "elems q' = elems q @ [x]"
    using put_ok [of q x] by auto
  with Cons.IH [of q'] Cons.prems show ?case by auto
qed simp

lemma gets_ok:
  "inv q \<Longrightarrow> n \<le> length (elems q) \<Longrightarrow>
   \<exists>q'. fifo_gets get q n = Some (take n (elems q), q') \<and> inv q' \<and> elems q' = drop n (elems q)"
proof (induction n arbitrary: q)
  case (Suc n)
  then have ne: "elems q \<noteq> []" by auto
  with Suc.prems obtain q' where q': "get q = Some (hd (elems q), q')" "inv q'" "elems q' = tl (elems q)"
    using get_ok [of q] by auto
  with Suc.IH [of q'] Suc.prems ne show ?case
    by (cases "elems q") auto
qed simp

text \<open>What goes in comes out, in the same order, and nothing is left.\<close>

lemma first_in_first_out:
  assumes "inv q" "elems q = []" "length xs \<le> cap"
  shows "\<exists>q' q''. fifo_puts put q xs = Some q' \<and> fifo_gets get q' (length xs) = Some (xs, q'') \<and>
    inv q'' \<and> elems q'' = []"
proof -
  from puts_ok [of q xs] assms obtain q' where
    q': "fifo_puts put q xs = Some q'" "inv q'" "elems q' = xs" by auto
  with gets_ok [of q' "length xs"] show ?thesis by auto
qed

end

section \<open>The byte store behind a stream\<close>

text \<open>
  The operations a stream uses on its read and write buffers. \<open>peek\<close> may move the data but not
  change it, so that a chunk that was peeked can be handed to the wire and discarded afterwards.
\<close>

locale byte_store =
  fixes inv :: "'b \<Rightarrow> bool"
    and contents :: "'b \<Rightarrow> u8 list"
    and room :: "'b \<Rightarrow> nat \<Rightarrow> bool"
    and bwrite :: "'b \<Rightarrow> u8 list \<Rightarrow> 'b option"
    and bread :: "'b \<Rightarrow> u8 list \<Rightarrow> (int \<times> u8 list \<times> 'b) option"
    and bpeek :: "'b \<Rightarrow> (u8 list \<times> 'b) option"
    and bdiscard :: "'b \<Rightarrow> int \<Rightarrow> int \<times> 'b"
  assumes write_ok: "inv b \<Longrightarrow> room b (length src) \<Longrightarrow>
      \<exists>b'. bwrite b src = Some b' \<and> inv b' \<and> contents b' = contents b @ src"
    and read_ok: "inv b \<Longrightarrow>
      \<exists>b'. bread b dst = Some (int (min (length dst) (length (contents b))),
          take (length dst) (contents b) @ drop (length (contents b)) dst, b') \<and>
        inv b' \<and> contents b' = drop (length dst) (contents b)"
    and peek_ok: "inv b \<Longrightarrow>
      \<exists>b'. bpeek b = Some (contents b, b') \<and> inv b' \<and> contents b' = contents b"
    and discard_ok: "inv b \<Longrightarrow> 0 \<le> n \<Longrightarrow>
      \<exists>b'. bdiscard b n = (min n (int (length (contents b))), b') \<and> inv b' \<and>
        contents b' = drop (nat n) (contents b)"
begin

text \<open>
  The send path: peek, hand a prefix to the wire, discard it later. The bytes handed out are
  exactly the ones that leave the store, in order.
\<close>

lemma peek_then_discard:
  assumes "inv b" "n \<le> length (contents b)"
  shows "\<exists>b1 b2. bpeek b = Some (contents b, b1) \<and> bdiscard b1 (int n) = (int n, b2) \<and> inv b2 \<and>
    contents b = take n (contents b) @ contents b2"
proof -
  from peek_ok [OF assms(1)] obtain b1 where
    b1: "bpeek b = Some (contents b, b1)" "inv b1" "contents b1 = contents b" by blast
  with discard_ok [of b1 "int n"] assms(2) obtain b2 where
    "bdiscard b1 (int n) = (int n, b2)" "inv b2" "contents b2 = drop n (contents b)" by auto
  with b1 show ?thesis by auto
qed

text \<open>Discarding what a read would have returned leaves the same store contents.\<close>

lemma discard_as_read:
  assumes "inv b"
  shows "\<exists>n d b1 b2. bread b dst = Some (n, d, b1) \<and> bdiscard b (int (length dst)) = (n, b2) \<and>
    contents b1 = contents b2"
  using read_ok [OF assms, of dst] discard_ok [OF assms, of "int (length dst)"] by auto

end

end
