(* ===== verification/Buffer.thy ===== *)
theory Buffer
  imports Interfaces
begin

text \<open>
  The dynamic ring buffer of bytes of \<^verbatim>\<open>buffer.go\<close> and the rounding function
  \<^verbatim>\<open>minpow2\<close> it grows with. The operations are written with every slice expression and
  every \<^verbatim>\<open>copy\<close> of the source, each of which can panic; the lemmas show that under the
  buffer's invariant none does, and that each operation is the list operation one expects of a
  byte queue. The fields \<^verbatim>\<open>off\<close> and \<^verbatim>\<open>size\<close> are Go ints; the invariant keeps both
  within the length of the backing array, so sums of two of them stay far below \<open>2 ^ 63\<close>.
\<close>

unbundle bit_operations_syntax

section \<open>Rounding up to a power of two\<close>

text \<open>
  \<^verbatim>\<open>minpow2\<close> works on Go's 64-bit \<^verbatim>\<open>int\<close>: the decrement and the increment wrap
  around and the right shifts are arithmetic.
\<close>

definition minpow2_word :: "u64 \<Rightarrow> u64" where
  "minpow2_word n0 =
     (let n = n0 - 1;
          n = n OR signed_drop_bit 1 n;
          n = n OR signed_drop_bit 2 n;
          n = n OR signed_drop_bit 4 n;
          n = n OR signed_drop_bit 8 n;
          n = n OR signed_drop_bit 16 n;
          n = n OR signed_drop_bit 32 n
      in n + 1)"

definition minpow2 :: "int \<Rightarrow> int" where
  "minpow2 n = sint (minpow2_word (word_of_int n))"

section \<open>The buffer and its operations\<close>

record buffer =
  b_buf :: "u8 list"
  b_off :: int
  b_size :: int

definition empty_buffer :: buffer where
  "empty_buffer = \<lparr>b_buf = [], b_off = 0, b_size = 0\<rparr>"

text \<open>\<^verbatim>\<open>read\<close> returns the count, the destination slice afterwards and the buffer.\<close>

definition buffer_read :: "buffer \<Rightarrow> u8 list \<Rightarrow> (int \<times> u8 list \<times> buffer) option" where
  "buffer_read b dst = do {
     (n, dst, b) \<leftarrow>
       (if b_off b + b_size b \<le> zlen (b_buf b) then do {
          part \<leftarrow> slice (b_buf b) (b_off b) (b_off b + b_size b);
          (n, dst) \<leftarrow> copy dst 0 (zlen dst) part;
          Some (n, dst, b\<lparr>b_off := b_off b + n, b_size := b_size b - n\<rparr>)
        } else do {
          part \<leftarrow> slice (b_buf b) (b_off b) (zlen (b_buf b));
          (n, dst) \<leftarrow> copy dst 0 (zlen dst) part;
          (n, dst, b) \<leftarrow>
            (if b_off b + n = zlen (b_buf b) then do {
               part \<leftarrow> slice (b_buf b) 0 (b_size b - n);
               (k, dst) \<leftarrow> copy dst n (zlen dst) part;
               Some (n + k, dst, b\<lparr>b_off := k\<rparr>)
             } else Some (n, dst, b\<lparr>b_off := b_off b + n\<rparr>));
          Some (n, dst, b\<lparr>b_size := b_size b - n\<rparr>)
        });
     Some (n, dst, if b_size b = 0 then b\<lparr>b_off := 0\<rparr> else b)
   }"

definition buffer_readbyte :: "buffer \<Rightarrow> (u8 \<times> buffer) option" where
  "buffer_readbyte b = do {
     c \<leftarrow> index (b_buf b) (b_off b);
     Some (c,
       if b_size b = 1 then b\<lparr>b_off := 0, b_size := 0\<rparr>
       else b\<lparr>b_off := (if b_off b + 1 = zlen (b_buf b) then 0 else b_off b + 1),
              b_size := b_size b - 1\<rparr>)
   }"

text \<open>
  The growing branch that \<^verbatim>\<open>write\<close> and \<^verbatim>\<open>writebyte\<close> share: the data is copied to
  the start of a new array.
\<close>

definition buffer_move :: "buffer \<Rightarrow> u8 list \<Rightarrow> u8 list option" where
  "buffer_move b dst =
     (if b_off b + b_size b \<le> zlen (b_buf b) then do {
        part \<leftarrow> slice (b_buf b) (b_off b) (b_off b + b_size b);
        (z, dst) \<leftarrow> copy dst 0 (zlen dst) part;
        Some dst
      } else do {
        part \<leftarrow> slice (b_buf b) (b_off b) (zlen (b_buf b));
        (z, dst) \<leftarrow> copy dst 0 (zlen dst) part;
        part \<leftarrow> slice (b_buf b) 0 (b_size b - z);
        (_, dst) \<leftarrow> copy dst z (zlen dst) part;
        Some dst
      })"

definition buffer_write :: "buffer \<Rightarrow> u8 list \<Rightarrow> buffer option" where
  "buffer_write b src = do {
     let m = b_size b;
     let n = zlen src;
     let e = b_off b + m;
     b \<leftarrow>
       (if zlen (b_buf b) < m + n then do {
          dst \<leftarrow> go_make 0 (minpow2 (m + n));
          dst \<leftarrow> buffer_move b dst;
          (_, dst) \<leftarrow> copy dst m (zlen dst) src;
          Some (b\<lparr>b_buf := dst, b_off := 0\<rparr>)
        } else if zlen (b_buf b) \<le> e then do {
          (_, buf) \<leftarrow> copy (b_buf b) (e - zlen (b_buf b)) (zlen (b_buf b)) src;
          Some (b\<lparr>b_buf := buf\<rparr>)
        } else if e + n \<le> zlen (b_buf b) then do {
          (_, buf) \<leftarrow> copy (b_buf b) e (e + n) src;
          Some (b\<lparr>b_buf := buf\<rparr>)
        } else do {
          (z, buf) \<leftarrow> copy (b_buf b) e (zlen (b_buf b)) src;
          rest \<leftarrow> slice src z n;
          (_, buf) \<leftarrow> copy buf 0 (zlen buf) rest;
          Some (b\<lparr>b_buf := buf\<rparr>)
        });
     Some (b\<lparr>b_size := b_size b + n\<rparr>)
   }"

definition buffer_writebyte :: "buffer \<Rightarrow> u8 \<Rightarrow> buffer option" where
  "buffer_writebyte b c = do {
     let m = b_size b;
     let e = b_off b + b_size b;
     b \<leftarrow>
       (if m = zlen (b_buf b) then do {
          dst \<leftarrow> go_make 0 (minpow2 (m + 1));
          dst \<leftarrow> buffer_move b dst;
          dst \<leftarrow> store dst m c;
          Some (b\<lparr>b_buf := dst, b_off := 0\<rparr>)
        } else if zlen (b_buf b) \<le> e then do {
          buf \<leftarrow> store (b_buf b) (e - zlen (b_buf b)) c;
          Some (b\<lparr>b_buf := buf\<rparr>)
        } else do {
          buf \<leftarrow> store (b_buf b) e c;
          Some (b\<lparr>b_buf := buf\<rparr>)
        });
     Some (b\<lparr>b_size := b_size b + 1\<rparr>)
   }"

definition buffer_clear :: "buffer \<Rightarrow> buffer" where
  "buffer_clear b = b\<lparr>b_buf := [], b_off := 0, b_size := 0\<rparr>"

definition buffer_peek :: "buffer \<Rightarrow> (u8 list \<times> buffer) option" where
  "buffer_peek b = do {
     let e = b_off b + b_size b;
     b \<leftarrow>
       (if zlen (b_buf b) < e then do {
          let e = e - zlen (b_buf b);
          if zlen (b_buf b) < b_size b * 2 then do {
            dst \<leftarrow> go_make 0 (zlen (b_buf b) * 2);
            part \<leftarrow> slice (b_buf b) (b_off b) (zlen (b_buf b));
            (n, dst) \<leftarrow> copy dst 0 (zlen dst) part;
            part \<leftarrow> slice (b_buf b) 0 e;
            (_, dst) \<leftarrow> copy dst n (zlen dst) part;
            Some (b\<lparr>b_buf := dst, b_off := 0\<rparr>)
          } else do {
            part \<leftarrow> slice (b_buf b) (b_off b) (zlen (b_buf b));
            (n, buf) \<leftarrow> copy (b_buf b) e (zlen (b_buf b)) part;
            part \<leftarrow> slice buf 0 e;
            (_, buf) \<leftarrow> copy buf (e + n) (b_off b) part;
            Some (b\<lparr>b_buf := buf, b_off := e\<rparr>)
          }
        } else Some b);
     data \<leftarrow> slice (b_buf b) (b_off b) (b_off b + b_size b);
     Some (data, b)
   }"

definition buffer_discard :: "buffer \<Rightarrow> int \<Rightarrow> int \<times> buffer" where
  "buffer_discard b n =
     (if b_size b < n then (b_size b, b\<lparr>b_off := 0, b_size := 0\<rparr>)
      else (let off = b_off b + n;
                off = (if zlen (b_buf b) \<le> off then off - zlen (b_buf b) else off)
            in (n, b\<lparr>b_off := off, b_size := b_size b - n\<rparr>)))"

section \<open>Correctness of the rounding\<close>

lemma ex_less_double_iff:
  "(\<exists>d<2 * k. P d) \<longleftrightarrow> (\<exists>d<k. P d) \<or> (\<exists>d<k. P (k + d))" for k :: nat
proof
  assume "\<exists>d<2 * k. P d"
  then obtain d where "d < 2 * k" "P d" by blast
  then show "(\<exists>d<k. P d) \<or> (\<exists>d<k. P (k + d))"
    by (cases "d < k") (auto intro: exI [of _ "d - k"])
next
  assume "(\<exists>d<k. P d) \<or> (\<exists>d<k. P (k + d))"
  then show "\<exists>d<2 * k. P d"
  proof
    assume "\<exists>d<k. P (k + d)"
    then obtain d where "k + d < 2 * k" "P (k + d)" by auto
    then show ?thesis by blast
  qed (metis trans_less_add1 mult_2)
qed

lemma smear_step:
  fixes m x :: u64
  assumes top: "\<not> bit m 63" and k: "0 < k" "k < 64" "l = 2 * k"
    and x: "\<And>i. bit x i \<longleftrightarrow> (\<exists>d<k. bit m (i + d))"
  shows "bit (x OR signed_drop_bit k x) i \<longleftrightarrow> (\<exists>d<l. bit m (i + d))"
proof -
  have hi: "\<not> bit m j" if "63 \<le> j" for j
    using top that bit_imp_le_length [of m j] by (cases "j = 63") auto
  have "bit (signed_drop_bit k x) i \<longleftrightarrow> bit x (k + i)"
    using hi by (auto simp: bit_signed_drop_bit_iff x)
  then show ?thesis
    unfolding \<open>l = 2 * k\<close> ex_less_double_iff bit_or_iff by (simp add: x ac_simps)
qed

lemma minpow2_word_smear:
  fixes n :: u64
  assumes "\<not> bit (n - 1) 63"
  shows "\<exists>r. minpow2_word n = r + 1 \<and> (\<forall>i. bit r i \<longleftrightarrow> (\<exists>d<64. bit (n - 1) (i + d)))"
  unfolding minpow2_word_def Let_def
  by (rule exI, rule conjI, rule refl, rule allI)
    ((rule smear_step [OF assms], simp, simp, simp)+, simp add: less_Suc_eq)

lemma minpow2_eq:
  assumes "0 \<le> m" and lt: "m < 2 ^ h" and ge: "h = 0 \<or> 2 ^ (h - 1) \<le> m" and h: "h \<le> 62"
  shows "minpow2 (m + 1) = 2 ^ h"
proof -
  let ?m = "word_of_int (m + 1) - 1 :: u64"
  have m: "?m = word_of_int m" by simp
  have self: "take_bit h m = m" using assms by (simp add: take_bit_int_eq_self)
  have hi: "\<not> bit m j" if "h \<le> j" for j
    using that by (metis self bit_take_bit_iff not_le)
  have lo: "bit m (h - 1)" if "0 < h"
  proof (rule ccontr)
    assume "\<not> bit m (h - 1)"
    then have "take_bit (Suc (h - 1)) m = take_bit (h - 1) m"
      by (simp add: take_bit_Suc_from_most)
    then have "m < 2 ^ (h - 1)" using self that take_bit_int_less_exp [of "h - 1" m] by simp
    with ge that show False by simp
  qed
  have "\<not> bit ?m 63" unfolding m using hi h by (simp add: bit_word_of_int_iff)
  from minpow2_word_smear [OF this] obtain r where
    r: "minpow2_word (word_of_int (m + 1)) = r + 1" and
    bits: "\<And>i. bit r i \<longleftrightarrow> (\<exists>d<64. bit ?m (i + d))" by blast
  have "r = mask h"
  proof (rule bit_word_eqI)
    fix i assume "i < LENGTH(64)"
    show "bit r i = bit (mask h :: u64) i"
    proof (cases "i < h")
      case True
      then have "bit ?m (i + (h - 1 - i))" unfolding m
        using lo h by (simp add: bit_word_of_int_iff)
      with True h show ?thesis unfolding bits by (auto simp: bit_mask_iff intro: exI [of _ "h - 1 - i"])
    next
      case False
      then show ?thesis unfolding bits m using hi by (auto simp: bit_mask_iff bit_word_of_int_iff)
    qed
  qed
  then have "minpow2_word (word_of_int (m + 1)) = 2 ^ h"
    using r by (simp add: mask_eq_decr_exp)
  moreover have "sint (2 ^ h :: u64) = 2 ^ h"
  proof -
    have "(2::int) ^ h \<le> 2 ^ 62" using h by (rule power_increasing) simp
    moreover have "- (2 ^ 63) \<le> (2::int) ^ h" by (rule order_trans [of _ 0]) simp_all
    ultimately have "signed_take_bit 63 ((2::int) ^ h) = 2 ^ h"
      by (intro signed_take_bit_int_eq_self) simp_all
    then have "sint (word_of_int (2 ^ h) :: u64) = 2 ^ h"
      unfolding sint_sbintrunc' by simp
    then show ?thesis by simp
  qed
  ultimately show ?thesis unfolding minpow2_def by simp
qed

lemma ex_pow2_bracket:
  fixes m :: int
  assumes "0 \<le> m" "m < 2 ^ k"
  shows "\<exists>h\<le>k. m < 2 ^ h \<and> (h = 0 \<or> 2 ^ (h - 1) \<le> m)"
  using assms
proof (induction k)
  case 0
  then show ?case by auto
next
  case (Suc k)
  show ?case
  proof (cases "m < 2 ^ k")
    case True
    with Suc obtain h where "h \<le> k" "m < 2 ^ h \<and> (h = 0 \<or> 2 ^ (h - 1) \<le> m)" by blast
    then show ?thesis by (auto intro: exI [of _ h])
  next
    case False
    with Suc.prems show ?thesis by (auto intro: exI [of _ "Suc k"])
  qed
qed

lemma minpow2_spec:
  assumes "1 \<le> n" "n \<le> 2 ^ 62"
  shows "\<exists>h\<le>62. minpow2 n = 2 ^ h \<and> n \<le> 2 ^ h \<and> (h = 0 \<or> 2 ^ (h - 1) < n)"
proof -
  from assms have "0 \<le> n - 1" "n - 1 < 2 ^ 62" by simp_all
  from ex_pow2_bracket [OF this] obtain h where
    h: "h \<le> 62" "n - 1 < 2 ^ h" "h = 0 \<or> 2 ^ (h - 1) \<le> n - 1" by blast
  with minpow2_eq [of "n - 1" h] assms have "minpow2 n = 2 ^ h" by simp
  with h show ?thesis by (auto intro!: exI [of _ h])
qed

lemma minpow2_ge: "0 \<le> n \<Longrightarrow> n \<le> 2 ^ 62 \<Longrightarrow> n \<le> minpow2 n"
  using minpow2_spec [of n] by (cases "n = 0") (auto simp: minpow2_def minpow2_word_def Let_def)

lemma minpow2_0: "minpow2 0 = 0"
  by (simp add: minpow2_def minpow2_word_def Let_def)

section \<open>Invariant and contents\<close>

text \<open>
  The offset is inside the array (or 0) and the data fits. The contents are the \<open>size\<close> bytes that
  start at \<open>off\<close>, wrapping around the end of the array.
\<close>

definition buffer_inv :: "buffer \<Rightarrow> bool" where
  "buffer_inv b \<longleftrightarrow> 0 \<le> b_off b \<and> 0 \<le> b_size b \<and> b_size b \<le> zlen (b_buf b) \<and>
     (b_off b < zlen (b_buf b) \<or> b_off b = 0)"

definition buffer_contents :: "buffer \<Rightarrow> u8 list" where
  "buffer_contents b =
     take (nat (b_size b)) (drop (nat (b_off b)) (b_buf b) @ take (nat (b_off b)) (b_buf b))"

text \<open>
  Beyond \<open>2 ^ 62\<close> bytes \<^verbatim>\<open>minpow2\<close> overflows and \<^verbatim>\<open>make\<close> panics; a write has room as
  long as the data stays within that bound.
\<close>

definition buffer_room :: "buffer \<Rightarrow> nat \<Rightarrow> bool" where
  "buffer_room b n \<longleftrightarrow> b_size b + int n \<le> 2 ^ 62"

text \<open>
  Either the data is one run in the array, or it wraps: its end \<open>lo\<close> is at the start of the array
  and its beginning \<open>hi\<close> at the end, with a gap between them.
\<close>

lemma buffer_flatI:
  assumes "b_buf b = pre @ data @ post" "b_off b = zlen pre" "b_size b = zlen data"
    and "pre = [] \<or> data @ post \<noteq> []"
  shows "buffer_inv b \<and> buffer_contents b = data"
  using assms by (auto simp: buffer_inv_def buffer_contents_def simp flip: of_nat_add)

lemma buffer_wrapI:
  assumes "b_buf b = lo @ gap @ hi" "b_off b = zlen lo + zlen gap" "b_size b = zlen hi + zlen lo"
    and "hi \<noteq> []"
  shows "buffer_inv b \<and> buffer_contents b = hi @ lo"
  using assms by (auto simp: buffer_inv_def buffer_contents_def nat_add_distrib)

lemma buffer_shape:
  assumes inv: "buffer_inv b"
  obtains (flat) pre data post where
      "b_buf b = pre @ data @ post" "b_off b = zlen pre" "b_size b = zlen data"
      "buffer_contents b = data" "pre = [] \<or> data @ post \<noteq> []" "b_off b + b_size b \<le> zlen (b_buf b)"
    | (wrap) lo gap hi where
      "b_buf b = lo @ gap @ hi" "b_off b = zlen lo + zlen gap" "b_size b = zlen hi + zlen lo"
      "buffer_contents b = hi @ lo" "lo \<noteq> []" "hi \<noteq> []" "\<not> b_off b + b_size b \<le> zlen (b_buf b)"
proof -
  let ?o = "nat (b_off b)" and ?s = "nat (b_size b)" and ?buf = "b_buf b"
  have nn: "0 \<le> b_off b" "0 \<le> b_size b" "b_size b \<le> zlen ?buf" "b_off b \<le> zlen ?buf"
    using inv by (auto simp: buffer_inv_def)
  show thesis
  proof (cases "b_off b + b_size b \<le> zlen ?buf")
    case True
    have split: "?buf = take ?o ?buf @ take ?s (drop ?o ?buf) @ drop ?s (drop ?o ?buf)"
      by (simp only: append_take_drop_id)
    show thesis
      by (rule flat [OF split]) (use True nn inv in \<open>auto simp: buffer_contents_def buffer_inv_def min_def\<close>)
  next
    case False
    define k where "k = ?o + ?s - length ?buf"
    have k: "k \<le> ?o" "0 < k" "?o < length ?buf" "int k = b_off b + b_size b - zlen ?buf"
      "length ?buf - ?o \<le> ?s"
      using nn False inv unfolding k_def buffer_inv_def by linarith+
    have split: "?buf = take k ?buf @ drop k (take ?o ?buf) @ drop ?o ?buf"
      using k by (metis append_assoc append_take_drop_id take_take min.absorb1)
    have lens: "length (take k ?buf) = k" "length (drop k (take ?o ?buf)) = ?o - k"
      "length (drop ?o ?buf) = length ?buf - ?o"
      using k by simp_all
    show thesis
    proof (rule wrap [OF split])
      show "buffer_contents b = drop ?o ?buf @ take k ?buf"
        using k nn by (simp add: buffer_contents_def k_def add.commute)
      show "take k ?buf \<noteq> []" "drop ?o ?buf \<noteq> []" using k by auto
    qed (use nn False k lens in \<open>simp_all add: of_nat_diff\<close>)
  qed
qed

lemma buffer_size_contents: "buffer_inv b \<Longrightarrow> b_size b = zlen (buffer_contents b)"
  by (auto simp: buffer_inv_def buffer_contents_def min_def)

section \<open>Each operation is its list operation\<close>

lemma buffer_read_spec:
  assumes inv: "buffer_inv b"
  shows "\<exists>b'. buffer_read b dst = Some (int (min (length dst) (length (buffer_contents b))),
             take (length dst) (buffer_contents b) @ drop (length (buffer_contents b)) dst, b') \<and>
           buffer_inv b' \<and> buffer_contents b' = drop (length dst) (buffer_contents b) \<and>
           length (b_buf b') = length (b_buf b)"
  using inv
proof (cases b rule: buffer_shape)
  case (flat pre data post)
  let ?n = "min (length dst) (length data)"
  let ?b' = "if length data \<le> length dst then b\<lparr>b_off := 0, b_size := 0\<rparr>
             else b\<lparr>b_off := zlen pre + zlen dst, b_size := zlen data - zlen dst\<rparr>"
  have "buffer_read b dst = Some (int ?n, take (length dst) data @ drop (length data) dst, ?b')"
    using flat by (auto simp: buffer_read_def slice_simps min_def)
  moreover have "buffer_inv ?b' \<and> buffer_contents ?b' = drop (length dst) data"
  proof (cases "length data \<le> length dst")
    case False
    then show ?thesis
      using flat buffer_flatI [of ?b' "pre @ take (length dst) data" "drop (length dst) data" post]
      by auto
  qed (simp add: buffer_inv_def buffer_contents_def)
  ultimately show ?thesis using flat by auto
next
  case (wrap lo gap hi)
  let ?n = "min (length dst) (length (hi @ lo))"
  let ?b' = "if length (hi @ lo) \<le> length dst then b\<lparr>b_off := 0, b_size := 0\<rparr>
             else if length hi \<le> length dst
             then b\<lparr>b_off := zlen dst - zlen hi, b_size := zlen lo + zlen hi - zlen dst\<rparr>
             else b\<lparr>b_off := zlen lo + zlen gap + zlen dst, b_size := zlen hi + zlen lo - zlen dst\<rparr>"
  have "buffer_read b dst = Some (int ?n, take (length dst) (hi @ lo) @ drop (length (hi @ lo)) dst, ?b')"
    using wrap by (auto simp: buffer_read_def slice_simps min_def add.commute)
  moreover have "buffer_inv ?b' \<and> buffer_contents ?b' = drop (length dst) (hi @ lo)"
  proof -
    consider "length (hi @ lo) \<le> length dst" | "length hi \<le> length dst" "length dst < length (hi @ lo)"
      | "length dst < length hi" by linarith
    then show ?thesis
    proof cases
      case 1
      then show ?thesis by (simp add: buffer_inv_def buffer_contents_def)
    next
      case 2
      let ?k = "length dst - length hi"
      from 2 wrap buffer_flatI [of ?b' "take ?k lo" "drop ?k lo" "gap @ hi"] show ?thesis
        by auto
    next
      case 3
      with wrap buffer_wrapI [of ?b' lo "gap @ take (length dst) hi" "drop (length dst) hi"] show ?thesis
        by auto
    qed
  qed
  ultimately show ?thesis using wrap by auto
qed

lemma buffer_readbyte_spec:
  assumes inv: "buffer_inv b" and ne: "buffer_contents b \<noteq> []"
  shows "\<exists>b'. buffer_readbyte b = Some (hd (buffer_contents b), b') \<and>
           buffer_inv b' \<and> buffer_contents b' = tl (buffer_contents b) \<and> b_buf b' = b_buf b"
  using inv
proof (cases b rule: buffer_shape)
  case (flat pre data post)
  with ne obtain c cs where data: "data = c # cs" by (cases data) auto
  let ?b' = "if cs = [] then b\<lparr>b_off := 0, b_size := 0\<rparr>
             else b\<lparr>b_off := zlen pre + 1, b_size := zlen cs\<rparr>"
  have "buffer_readbyte b = Some (c, ?b')"
    using flat data by (auto simp: buffer_readbyte_def slice_simps add_nonneg_eq_0_iff)
  moreover have "buffer_inv ?b' \<and> buffer_contents ?b' = cs"
  proof (cases "cs = []")
    case False
    with flat data buffer_flatI [of ?b' "pre @ [c]" cs post] show ?thesis by auto
  qed (simp add: buffer_inv_def buffer_contents_def)
  ultimately show ?thesis using flat data by auto
next
  case (wrap lo gap hi)
  then obtain c cs where hi: "hi = c # cs" by (cases hi) auto
  let ?b' = "if cs = [] then b\<lparr>b_off := 0, b_size := zlen lo\<rparr>
             else b\<lparr>b_off := zlen lo + zlen gap + 1, b_size := zlen lo + zlen cs\<rparr>"
  have "buffer_readbyte b = Some (c, ?b')"
    using wrap hi by (auto simp: buffer_readbyte_def slice_simps nth_append add_nonneg_eq_0_iff)
  moreover have "buffer_inv ?b' \<and> buffer_contents ?b' = cs @ lo"
  proof (cases "cs = []")
    case True
    with wrap hi buffer_flatI [of ?b' "[]" lo "gap @ hi"] show ?thesis by auto
  next
    case False
    with wrap hi buffer_wrapI [of ?b' lo "gap @ [c]" cs] show ?thesis by auto
  qed
  ultimately show ?thesis using wrap hi by auto
qed

lemma buffer_move_spec:
  assumes inv: "buffer_inv b" and len: "length (buffer_contents b) \<le> length dst"
  shows "buffer_move b dst = Some (buffer_contents b @ drop (length (buffer_contents b)) dst)"
  using inv
proof (cases b rule: buffer_shape)
  case (flat pre data post)
  with len show ?thesis by (auto simp: buffer_move_def slice_simps min_def)
next
  case (wrap lo gap hi)
  with len show ?thesis by (cases lo) (auto simp: buffer_move_def slice_simps min_def add.commute)
qed

lemma buffer_write_spec:
  assumes inv: "buffer_inv b" and room: "buffer_room b (length src)"
  shows "\<exists>b'. buffer_write b src = Some b' \<and> buffer_inv b' \<and>
           buffer_contents b' = buffer_contents b @ src"
proof (cases "zlen (b_buf b) < b_size b + zlen src")
  case True
  let ?N = "minpow2 (b_size b + zlen src)" and ?c = "buffer_contents b"
  note size = buffer_size_contents [OF inv]
  have N: "b_size b + zlen src \<le> ?N"
    using room inv by (intro minpow2_ge) (auto simp: buffer_room_def buffer_inv_def)
  let ?dst = "?c @ replicate (nat ?N - length ?c) 0"
  have mv: "buffer_move b (replicate (nat ?N) 0) = Some ?dst"
    using N size by (subst buffer_move_spec [OF inv]) auto
  let ?b' = "b\<lparr>b_buf := ?c @ src @ replicate (nat ?N - length ?c - length src) 0, b_off := 0,
               b_size := zlen ?c + zlen src\<rparr>"
  have "buffer_write b src = Some ?b'"
    using True N size mv by (auto simp: buffer_write_def slice_simps min_def)
  moreover have "buffer_inv ?b' \<and> buffer_contents ?b' = ?c @ src"
    using buffer_flatI [of ?b' "[]" "?c @ src"] by simp
  ultimately show ?thesis by blast
next
  case fits: False
  from inv show ?thesis
  proof (cases b rule: buffer_shape)
    case (flat pre data post)
    consider (touch) "post = []" | (nowrap) "post \<noteq> []" "length src \<le> length post"
      | (wraps) "post \<noteq> []" "length post < length src" by fastforce
    then show ?thesis
    proof cases
      case touch
      let ?b' = "b\<lparr>b_buf := src @ drop (length src) pre @ data, b_size := zlen data + zlen src\<rparr>"
      have "buffer_write b src = Some ?b'"
        using flat fits touch by (cases data) (auto simp: buffer_write_def slice_simps min_def)
      moreover have "buffer_inv ?b' \<and> buffer_contents ?b' = data @ src"
        using flat fits touch buffer_wrapI [of ?b' src "drop (length src) pre" data]
          buffer_flatI [of ?b' "[]" "[]" "drop (length src) pre"]
        by (cases "data = []") auto
      ultimately show ?thesis using flat by auto
    next
      case nowrap
      let ?b' = "b\<lparr>b_buf := pre @ data @ src @ drop (length src) post, b_size := zlen data + zlen src\<rparr>"
      have "buffer_write b src = Some ?b'"
        using flat fits nowrap by (auto simp: buffer_write_def slice_simps min_def)
      moreover have "buffer_inv ?b' \<and> buffer_contents ?b' = data @ src"
        using flat fits nowrap buffer_flatI [of ?b' pre "data @ src" "drop (length src) post"] by auto
      ultimately show ?thesis using flat by auto
    next
      case wraps
      let ?k = "length post"
      let ?b' = "b\<lparr>b_buf := drop ?k src @ drop (length src - ?k) pre @ data @ take ?k src,
                   b_size := zlen data + zlen src\<rparr>"
      have "buffer_write b src = Some ?b'"
        using flat fits wraps by (cases post) (auto simp: buffer_write_def slice_simps min_def)
      moreover have "buffer_inv ?b' \<and> buffer_contents ?b' = data @ src"
        using flat fits wraps
          buffer_wrapI [of ?b' "drop ?k src" "drop (length src - ?k) pre" "data @ take ?k src"]
        by (cases src) auto
      ultimately show ?thesis using flat by auto
    qed
  next
    case (wrap lo gap hi)
    let ?b' = "b\<lparr>b_buf := lo @ src @ drop (length src) gap @ hi, b_size := zlen hi + zlen lo + zlen src\<rparr>"
    have "buffer_write b src = Some ?b'"
      using wrap fits by (cases hi) (auto simp: buffer_write_def slice_simps min_def)
    moreover have "buffer_inv ?b' \<and> buffer_contents ?b' = hi @ lo @ src"
      using wrap fits buffer_wrapI [of ?b' "lo @ src" "drop (length src) gap" hi] by auto
    ultimately show ?thesis using wrap by auto
  qed
qed

lemma buffer_writebyte_write:
  assumes inv: "buffer_inv b" and room: "buffer_room b 1"
  shows "buffer_writebyte b c = buffer_write b [c]"
proof (cases "b_size b = zlen (b_buf b)")
  case True
  let ?N = "minpow2 (b_size b + 1)" and ?c = "buffer_contents b"
  note size = buffer_size_contents [OF inv]
  have N: "b_size b + 1 \<le> ?N"
    using room inv by (intro minpow2_ge) (auto simp: buffer_room_def buffer_inv_def)
  have mv: "buffer_move b (replicate (nat ?N) 0) = Some (?c @ replicate (nat ?N - length ?c) 0)"
    using N size by (subst buffer_move_spec [OF inv]) auto
  obtain k where k: "nat ?N - length ?c = Suc k"
    using N size by (cases "nat ?N - length ?c") auto
  show ?thesis using True N size mv k
    by (simp add: buffer_writebyte_def buffer_write_def slice_simps list_update_append)
next
  case False
  then have lt: "b_size b < zlen (b_buf b)" using inv by (simp add: buffer_inv_def)
  let ?e = "b_off b + b_size b" and ?L = "zlen (b_buf b)"
  from inv lt have e: "0 \<le> ?e" "?e < 2 * ?L" by (auto simp: buffer_inv_def)
  show ?thesis
  proof (cases "?L \<le> ?e")
    case True
    then show ?thesis using False lt e
      by (simp add: buffer_writebyte_def buffer_write_def Let_def copy_single store_Some)
  next
    case below: False
    then show ?thesis using False lt e
      by (simp add: buffer_writebyte_def buffer_write_def Let_def copy_single store_Some)
  qed
qed

lemma buffer_peek_spec:
  assumes inv: "buffer_inv b"
  shows "\<exists>b'. buffer_peek b = Some (buffer_contents b, b') \<and> buffer_inv b' \<and>
           buffer_contents b' = buffer_contents b \<and> b_size b' = b_size b"
  using inv
proof (cases b rule: buffer_shape)
  case (flat pre data post)
  then have "buffer_peek b = Some (data, b)"
    by (auto simp: buffer_peek_def slice_simps)
  with flat inv show ?thesis by auto
next
  case (wrap lo gap hi)
  show ?thesis
  proof (cases "zlen (b_buf b) < b_size b * 2")
    case True
    let ?z = "replicate (nat (zlen (b_buf b) * 2)) (0::u8)"
    have "length hi + length lo \<le> length ?z"
      using wrap by (simp add: nat_mult_distrib nat_add_distrib)
    then obtain z1 z2 z3 where z: "?z = z1 @ z2 @ z3" "length z1 = length hi" "length z2 = length lo"
      by (rule split_list3)
    let ?b' = "b\<lparr>b_buf := hi @ lo @ z3, b_off := 0\<rparr>"
    have mk: "go_make 0 (zlen (b_buf b) * 2) = Some (z1 @ z2 @ z3)"
      unfolding z(1) [symmetric] by (simp add: go_make_def)
    have c1: "copy (z1 @ z2 @ z3) 0 (zlen (z1 @ z2 @ z3)) hi = Some (zlen hi, [] @ hi @ z2 @ z3)"
      using z by (intro copy_eq [of _ "[]" z1]) auto
    have c2: "copy (hi @ z2 @ z3) (zlen hi) (zlen (hi @ z2 @ z3)) lo = Some (zlen lo, hi @ lo @ z3)"
      using z by (intro copy_eq [of _ hi z2]) auto
    have s1: "slice (b_buf b) (b_off b) (zlen (b_buf b)) = Some hi"
      using wrap by (intro slice_eq [of _ "lo @ gap" _ "[]"]) auto
    have s2: "slice (b_buf b) 0 (zlen lo) = Some lo"
      using wrap by (intro slice_eq [of _ "[]"]) auto
    have s3: "slice (hi @ lo @ z3) 0 (b_size b) = Some (hi @ lo)"
      using wrap by (intro slice_eq [of _ "[]"]) auto
    have e: "b_off b + b_size b - zlen (b_buf b) = zlen lo" using wrap by simp
    have "buffer_peek b = Some (hi @ lo, ?b')"
      using wrap(7) True s1 s2 s3 c1 c2 mk
      by (simp add: buffer_peek_def Let_def e not_le del: length_append)
    moreover have "buffer_inv ?b' \<and> buffer_contents ?b' = hi @ lo"
      using wrap buffer_flatI [of ?b' "[]" "hi @ lo"] by auto
    ultimately show ?thesis using wrap by auto
  next
    case False
    from wrap False have "length hi + length lo \<le> length gap" by simp
    then obtain g1 g2 g3 where g: "gap = g1 @ g2 @ g3" "length g1 = length hi" "length g2 = length lo"
      by (rule split_list3)
    let ?b' = "b\<lparr>b_buf := lo @ hi @ lo @ g3 @ hi, b_off := zlen lo\<rparr>"
    have c1: "copy (b_buf b) (zlen lo) (zlen (b_buf b)) hi = Some (zlen hi, lo @ hi @ g2 @ g3 @ hi)"
      using wrap g by (intro copy_eq [of _ lo g1]) auto
    have c2: "copy (lo @ hi @ g2 @ g3 @ hi) (zlen lo + zlen hi) (b_off b) lo =
        Some (zlen lo, (lo @ hi) @ lo @ g3 @ hi)"
      using wrap g by (intro copy_eq [of _ "lo @ hi" g2]) auto
    have s1: "slice (b_buf b) (b_off b) (zlen (b_buf b)) = Some hi"
      using wrap by (intro slice_eq [of _ "lo @ gap" _ "[]"]) auto
    have s2: "slice (lo @ hi @ g2 @ g3 @ hi) 0 (zlen lo) = Some lo"
      by (intro slice_eq [of _ "[]"]) auto
    have s3: "slice (lo @ hi @ lo @ g3 @ hi) (zlen lo) (zlen lo + b_size b) = Some (hi @ lo)"
      using wrap by (intro slice_eq [of _ lo]) auto
    have e: "b_off b + b_size b - zlen (b_buf b) = zlen lo" using wrap by simp
    have "buffer_peek b = Some (hi @ lo, ?b')"
      using wrap(7) False s1 s2 s3 c1 c2
      by (simp add: buffer_peek_def Let_def e not_le del: length_append)
    moreover have "buffer_inv ?b' \<and> buffer_contents ?b' = hi @ lo"
      using wrap buffer_flatI [of ?b' lo "hi @ lo"] by auto
    ultimately show ?thesis using wrap by auto
  qed
qed

lemma buffer_discard_spec:
  assumes inv: "buffer_inv b" and n: "0 \<le> n"
  shows "\<exists>b'. buffer_discard b n = (min n (zlen (buffer_contents b)), b') \<and> buffer_inv b' \<and>
           buffer_contents b' = drop (nat n) (buffer_contents b) \<and> b_buf b' = b_buf b"
proof -
  obtain m where m: "n = int m" using n nonneg_int_cases by blast
  note size = buffer_size_contents [OF inv]
  show ?thesis
  proof (cases "b_size b < n")
    case True
    then have "buffer_discard b n = (zlen (buffer_contents b), b\<lparr>b_off := 0, b_size := 0\<rparr>)"
      and "zlen (buffer_contents b) < int m"
      using size m by (simp_all add: buffer_discard_def)
    moreover have "buffer_inv (b\<lparr>b_off := 0, b_size := 0\<rparr>)" "buffer_contents (b\<lparr>b_off := 0, b_size := 0\<rparr>) = []"
      by (simp_all add: buffer_inv_def buffer_contents_def)
    ultimately show ?thesis using m by simp
  next
    case False
    from inv show ?thesis
    proof (cases b rule: buffer_shape)
      case (flat pre data post)
      let ?b' = "snd (buffer_discard b n)"
      have le: "m \<le> length data" using False flat m by simp
      show ?thesis
      proof (cases "length pre + m = length (b_buf b)")
        case True
        with le flat have "post = []" "m = length data" by auto
        then have "buffer_discard b n = (n, b\<lparr>b_off := 0, b_size := 0\<rparr>)"
          using flat m by (simp add: buffer_discard_def)
        with \<open>m = length data\<close> flat m show ?thesis by (simp add: buffer_inv_def buffer_contents_def)
      next
        case F: False
        have lt: "int (length pre + m) < zlen (b_buf b)" using le F flat by simp
        have d: "?b' = b\<lparr>b_off := zlen pre + int m, b_size := zlen data - int m\<rparr>" "fst (buffer_discard b n) = n"
          using lt False flat m by (auto simp: buffer_discard_def)
        have "buffer_inv ?b' \<and> buffer_contents ?b' = drop m data"
          unfolding d using lt flat le
          by (intro buffer_flatI [of _ "pre @ take m data" _ post]) auto
        then show ?thesis using d le m flat by (intro exI [of _ ?b']) (auto simp: prod_eq_iff)
      qed
    next
      case (wrap lo gap hi)
      let ?b' = "snd (buffer_discard b n)"
      show ?thesis
      proof (cases "m < length hi")
        case True
        with wrap m False buffer_wrapI [of ?b' lo "gap @ take m hi" "drop m hi"] show ?thesis
          by (auto simp: buffer_discard_def)
      next
        case F: False
        let ?k = "m - length hi"
        from F wrap m False buffer_flatI [of ?b' "take ?k lo" "drop ?k lo" "gap @ hi"] show ?thesis
          by (auto simp: buffer_discard_def)
      qed
    qed
  qed
qed

section \<open>Interpretations\<close>

interpretation bytes: byte_store buffer_inv buffer_contents buffer_room
    buffer_write buffer_read buffer_peek buffer_discard
proof
  fix b :: buffer and src dst :: "u8 list" and n :: int
  assume inv: "buffer_inv b"
  show "buffer_room b (length src) \<Longrightarrow>
      \<exists>b'. buffer_write b src = Some b' \<and> buffer_inv b' \<and> buffer_contents b' = buffer_contents b @ src"
    by (rule buffer_write_spec [OF inv])
  show "\<exists>b'. buffer_read b dst = Some (int (min (length dst) (length (buffer_contents b))),
          take (length dst) (buffer_contents b) @ drop (length (buffer_contents b)) dst, b') \<and>
        buffer_inv b' \<and> buffer_contents b' = drop (length dst) (buffer_contents b)"
    using buffer_read_spec [OF inv, of dst] by blast
  show "\<exists>b'. buffer_peek b = Some (buffer_contents b, b') \<and> buffer_inv b' \<and>
      buffer_contents b' = buffer_contents b"
    using buffer_peek_spec [OF inv] by blast
  show "0 \<le> n \<Longrightarrow> \<exists>b'. buffer_discard b n = (min n (zlen (buffer_contents b)), b') \<and> buffer_inv b' \<and>
      buffer_contents b' = drop (nat n) (buffer_contents b)"
    using buffer_discard_spec [OF inv, of n] by blast
qed

interpretation bytewise: fifo buffer_inv buffer_contents "2 ^ 62" buffer_writebyte buffer_readbyte
proof
  fix b :: buffer and c :: u8
  assume inv: "buffer_inv b"
  show "\<exists>b'. buffer_writebyte b c = Some b' \<and> buffer_inv b' \<and> buffer_contents b' = buffer_contents b @ [c]"
    if "length (buffer_contents b) < 2 ^ 62"
  proof -
    from that have "zlen (buffer_contents b) < int (2 ^ 62)" by (simp only: of_nat_less_iff)
    then have room: "buffer_room b 1"
      using buffer_size_contents [OF inv] by (simp add: buffer_room_def)
    with buffer_write_spec [OF inv, of "[c]"] buffer_writebyte_write [OF inv room] show ?thesis by simp
  qed
  show "buffer_contents b \<noteq> [] \<Longrightarrow> \<exists>b'. buffer_readbyte b = Some (hd (buffer_contents b), b') \<and>
      buffer_inv b' \<and> buffer_contents b' = tl (buffer_contents b)"
    using buffer_readbyte_spec [OF inv] by blast
qed

end
