(* ===== verification/Frames.thy ===== *)
theory Frames
  imports Copper_Errors Buffer "HOL-Library.Sublist"
begin

text \<open>
  The wire format of \<^verbatim>\<open>frame.go\<close>: frame headers, the six kinds of frames, their parsers and
  their writers. The underlying \<^verbatim>\<open>io.Writer\<close> is a parameter (its state type \<open>'w\<close> and its
  \<^verbatim>\<open>Write\<close>); the underlying \<^verbatim>\<open>io.Reader\<close> is the sequence of bytes it will deliver and the
  error it ends with. The lemmas show that parsing inverts writing, which frames each parser
  accepts, and that no input makes the reader panic.
\<close>

unbundle bit_operations_syntax

section \<open>Constants\<close>

abbreviation (input) MaxStreamID :: u32 where "MaxStreamID \<equiv> 0x7fffffff"
abbreviation (input) MinWindowSize :: u32 where "MinWindowSize \<equiv> 1024"
abbreviation (input) MaxWindowSize :: u32 where "MaxWindowSize \<equiv> 0x7fffffff"
abbreviation (input) MaxFramePayloadSize :: nat where "MaxFramePayloadSize \<equiv> 0xffffff"
abbreviation (input) MaxDataFramePayloadSize :: nat where "MaxDataFramePayloadSize \<equiv> MaxFramePayloadSize"
abbreviation (input) MaxResetFrameMessageSize :: nat where "MaxResetFrameMessageSize \<equiv> MaxFramePayloadSize - 4"
abbreviation (input) MaxSettingsFramePayloadSize :: nat where "MaxSettingsFramePayloadSize \<equiv> 6 * 1024"
abbreviation (input) InitialStreamWindow :: int where "InitialStreamWindow \<equiv> 65536"
abbreviation (input) InitialInactivityTimeout :: int where "InitialInactivityTimeout \<equiv> 60 * 1000000000"

abbreviation (input) SettingStreamWindow :: u16 where "SettingStreamWindow \<equiv> 1"
abbreviation (input) SettingInactivityMilliseconds :: u16 where "SettingInactivityMilliseconds \<equiv> 2"

abbreviation (input) FramePing :: u8 where "FramePing \<equiv> 0"
abbreviation (input) FrameData :: u8 where "FrameData \<equiv> 1"
abbreviation (input) FrameReset :: u8 where "FrameReset \<equiv> 2"
abbreviation (input) FrameWindow :: u8 where "FrameWindow \<equiv> 3"
abbreviation (input) FrameSettings :: u8 where "FrameSettings \<equiv> 4"

abbreviation (input) FlagPingAck :: u8 where "FlagPingAck \<equiv> 1"
abbreviation (input) FlagDataEOF :: u8 where "FlagDataEOF \<equiv> 1"
abbreviation (input) FlagDataOpen :: u8 where "FlagDataOpen \<equiv> 2"
abbreviation (input) FlagDataAck :: u8 where "FlagDataAck \<equiv> 4"
abbreviation (input) FlagResetRead :: u8 where "FlagResetRead \<equiv> 1"
abbreviation (input) FlagResetWrite :: u8 where "FlagResetWrite \<equiv> 2"
abbreviation (input) FlagSettingsAck :: u8 where "FlagSettingsAck \<equiv> 1"

abbreviation (input) FrameHeaderSize :: nat where "FrameHeaderSize \<equiv> 9"

section \<open>Flags and types as text\<close>

definition flags_Has :: "u8 \<Rightarrow> u8 \<Rightarrow> bool" where
  "flags_Has f v \<longleftrightarrow> f AND v = v"

definition frameType_String :: "u8 \<Rightarrow> go_string" where
  "frameType_String t =
     (if t = FramePing then str ''PING'' else if t = FrameData then str ''DATA''
      else if t = FrameReset then str ''RESET'' else if t = FrameWindow then str ''WINDOW''
      else if t = FrameSettings then str ''SETTINGS''
      else str ''UNKNOWN_FRAME_'' @ show_nat (unat t))"

definition flagNames :: "u8 \<Rightarrow> u8 \<Rightarrow> go_string" where
  "flagNames t flag = str
     (if t = FramePing then (if flag = FlagPingAck then ''ACK'' else [])
      else if t = FrameData then
        (if flag = FlagDataEOF then ''EOF'' else if flag = FlagDataOpen then ''OPEN''
         else if flag = FlagDataAck then ''ACK'' else [])
      else if t = FrameReset then
        (if flag = FlagResetRead then ''READ'' else if flag = FlagResetWrite then ''WRITE'' else [])
      else if t = FrameSettings then (if flag = FlagSettingsAck then ''ACK'' else [])
      else [])"

text \<open>
  The loop of \<^verbatim>\<open>FrameFlags.String\<close> visits the eight single-bit flags in order; its state is
  the text so far, the number of names written and the flags without a name.
\<close>

fun flags_String_loop :: "u8 \<Rightarrow> u8 \<Rightarrow> u8 list \<Rightarrow> go_string \<Rightarrow> nat \<Rightarrow> u8 \<Rightarrow> go_string \<times> nat \<times> u8" where
  "flags_String_loop f t [] buf count unknown = (buf, count, unknown)"
| "flags_String_loop f t (flag # rest) buf count unknown =
     (if f AND flag = 0 then flags_String_loop f t rest buf count unknown
      else let name = flagNames t flag
        in if length name \<noteq> 0
           then flags_String_loop f t rest (buf @ (if count \<noteq> 0 then str ''|'' else []) @ name) (count + 1) unknown
           else flags_String_loop f t rest buf count (unknown OR flag))"

definition flags_String :: "u8 \<Rightarrow> u8 \<Rightarrow> go_string" where
  "flags_String f t =
     (if f = 0 then str ''0''
      else let (buf, count, unknown) = flags_String_loop f t [1, 2, 4, 8, 16, 32, 64, 128] [] 0 0
        in if unknown \<noteq> 0
           then buf @ (if count \<noteq> 0 then str ''|'' else []) @ str ''0x'' @ show_hex2 unknown
           else buf)"

section \<open>Headers and frames\<close>

record FrameHeader =
  h_Type :: u8
  h_Flags :: u8
  h_Length :: u32
  h_StreamID :: u32

record Setting =
  set_ID :: u16
  set_Value :: u32

text \<open>The Go array type \<^verbatim>\<open>PingData\<close> has exactly eight bytes; \<open>frame_wf\<close> below says so.\<close>

type_synonym PingData = "u8 list"

datatype Frame =
    PingFrame u8 PingData
  | DataFrame u32 u8 "u8 list"
  | ResetFrame u32 u8 go_error
  | WindowFrame u32 u8 u32
  | SettingsFrame u8 "Setting list"
  | UnknownFrame u8 u8 u32 "u8 list"

definition PingDataInt64 :: "u64 \<Rightarrow> PingData" where
  "PingDataInt64 value = put_u64 value"

section \<open>Reading\<close>

text \<open>
  A reader is the bytes still to come, the error that follows them, and the scratch array of
  \<^verbatim>\<open>FrameReader\<close>. \<^verbatim>\<open>io.ReadFull\<close> fills a slice; it reports the reader's error if no
  byte came, and \<^verbatim>\<open>io.ErrUnexpectedEOF\<close> if the input ended inside the slice.
\<close>

record FrameReader =
  r_data :: "u8 list"
  r_end :: go_error
  r_scratch :: "u8 list"

definition io_ReadFull :: "FrameReader \<Rightarrow> u8 list \<Rightarrow> u8 list \<times> go_error option \<times> FrameReader" where
  "io_ReadFull r buf =
     (let d = take (length buf) (r_data r);
          r' = r\<lparr>r_data := drop (length buf) (r_data r)\<rparr>
      in (d @ drop (length d) buf,
          if length d = length buf then None
          else if d \<noteq> [] \<and> r_end r = IoEOF then Some IoUnexpectedEOF
          else Some (r_end r),
          r'))"

definition parseHeader :: "u8 list \<Rightarrow> FrameHeader option" where
  "parseHeader buf = do {
     b0 \<leftarrow> index buf 0; b1 \<leftarrow> index buf 1; b2 \<leftarrow> index buf 2; b3 \<leftarrow> index buf 3;
     b4 \<leftarrow> index buf 4; b5 \<leftarrow> index buf 5; b6 \<leftarrow> index buf 6;
     b7 \<leftarrow> index buf 7; b8 \<leftarrow> index buf 8;
     Some \<lparr>h_Type = b8, h_Flags = b7,
           h_Length = push_bit 16 (ucast b4) OR push_bit 8 (ucast b5) OR ucast b6,
           h_StreamID = push_bit 24 (ucast b0) OR push_bit 16 (ucast b1) OR push_bit 8 (ucast b2) OR ucast b3\<rparr>
   }"

definition ReadHeader :: "FrameReader \<Rightarrow> ((go_error + FrameHeader) \<times> FrameReader) option" where
  "ReadHeader r =
     (let (buf, err, r) = io_ReadFull r (replicate FrameHeaderSize 0)
      in case err of
           Some e \<Rightarrow> Some (Inl e, r)
         | None \<Rightarrow> do { h \<leftarrow> parseHeader buf; Some (Inr h, r) })"

text \<open>
  The parsers. \<^verbatim>\<open>parseResetFrame\<close> allocates an error value when the frame has a message; the
  reference of that allocation is the argument \<open>ref\<close>.
\<close>

definition parsePingFrame :: "FrameHeader \<Rightarrow> u8 list \<Rightarrow> (go_error + Frame) option" where
  "parsePingFrame h payload = Some
     (if h_StreamID h \<noteq> 0 \<or> length payload \<noteq> 8 then Inl (ErrCode EINVALIDFRAME)
      else Inr (PingFrame (h_Flags h) payload))"

definition parseDataFrame :: "FrameHeader \<Rightarrow> u8 list \<Rightarrow> (go_error + Frame) option" where
  "parseDataFrame h payload = Some
     (if h_StreamID h AND 0x80000000 \<noteq> 0 then Inl (ErrCode EINVALIDFRAME)
      else Inr (DataFrame (h_StreamID h) (h_Flags h) payload))"

definition parseResetFrame :: "eref \<Rightarrow> FrameHeader \<Rightarrow> u8 list \<Rightarrow> (go_error + Frame) option" where
  "parseResetFrame ref h payload =
     (if h_StreamID h AND 0x80000000 \<noteq> 0 \<or> length payload < 4 then Some (Inl (ErrCode EINVALIDFRAME))
      else do {
        part \<leftarrow> slice payload 0 4;
        v \<leftarrow> get_u32 part;
        let code = uint v;
        let err = (if length payload > 4 then CopperError ref (drop 4 payload) code else ErrCode code);
        Some (Inr (ResetFrame (h_StreamID h) (h_Flags h) err))
      })"

definition parseWindowFrame :: "FrameHeader \<Rightarrow> u8 list \<Rightarrow> (go_error + Frame) option" where
  "parseWindowFrame h payload =
     (if h_StreamID h AND 0x80000000 \<noteq> 0 \<or> length payload \<noteq> 4 then Some (Inl (ErrCode EINVALIDFRAME))
      else do {
        part \<leftarrow> slice payload 0 4;
        v \<leftarrow> get_u32 part;
        Some (Inr (WindowFrame (h_StreamID h) (h_Flags h) v))
      })"

text \<open>The loop of \<^verbatim>\<open>parseSettingsFrame\<close>: six bytes per setting while any payload is left.\<close>

function parseSettings_loop :: "u8 list \<Rightarrow> Setting list \<Rightarrow> Setting list option" where
  "parseSettings_loop payload data =
     (if payload = [] then Some data
      else do {
        part \<leftarrow> slice payload 0 2;
        sid \<leftarrow> get_u16 part;
        part \<leftarrow> slice payload 2 6;
        value \<leftarrow> get_u32 part;
        payload' \<leftarrow> slice payload 6 (zlen payload);
        parseSettings_loop payload' (data @ [\<lparr>set_ID = sid, set_Value = value\<rparr>])
      })"
  by pat_completeness auto
termination parseSettings_loop
  by (relation "measure (\<lambda>(payload, data). length payload)") (auto simp: slice_def split: if_splits)

declare parseSettings_loop.simps [simp del]

definition parseSettingsFrame :: "FrameHeader \<Rightarrow> u8 list \<Rightarrow> (go_error + Frame) option" where
  "parseSettingsFrame h payload =
     (if h_StreamID h \<noteq> 0 then Some (Inl (ErrCode EINVALIDFRAME))
      else if flags_Has (h_Flags h) FlagSettingsAck then
        Some (if length payload \<noteq> 0 then Inl (ErrCode EINVALIDFRAME) else Inr (SettingsFrame (h_Flags h) []))
      else if length payload > MaxSettingsFramePayloadSize \<or> length payload mod 6 \<noteq> 0 then
        Some (Inl (ErrCode EINVALIDFRAME))
      else do {
        data \<leftarrow> parseSettings_loop payload [];
        Some (Inr (SettingsFrame (h_Flags h) data))
      })"

definition parseUnknownFrame :: "FrameHeader \<Rightarrow> u8 list \<Rightarrow> (go_error + Frame) option" where
  "parseUnknownFrame h payload = Some (Inr (UnknownFrame (h_Type h) (h_Flags h) (h_StreamID h) payload))"

definition frameParsers :: "eref \<Rightarrow> u8 \<Rightarrow> (FrameHeader \<Rightarrow> u8 list \<Rightarrow> (go_error + Frame) option)" where
  "frameParsers ref t =
     (if t = FramePing then parsePingFrame
      else if t = FrameData then parseDataFrame
      else if t = FrameReset then parseResetFrame ref
      else if t = FrameWindow then parseWindowFrame
      else if t = FrameSettings then parseSettingsFrame
      else parseUnknownFrame)"

text \<open>
  \<^verbatim>\<open>ReadFrame\<close>. The payload of the frame is a slice of the scratch array, valid until the next
  call; the model returns its bytes at the time of the call.
\<close>

definition ReadFrame :: "eref \<Rightarrow> FrameReader \<Rightarrow> ((go_error + Frame) \<times> FrameReader) option" where
  "ReadFrame ref r = do {
     (hres, r) \<leftarrow> ReadHeader r;
     case hres of
       Inl e \<Rightarrow> Some (Inl e, r)
     | Inr h \<Rightarrow>
         if 0 < h_Length h then do {
           let len = uint (h_Length h);
           scratch \<leftarrow> (if zlen (r_scratch r) < len then go_make 0 (minpow2 len) else Some (r_scratch r));
           payload \<leftarrow> slice scratch 0 len;
           let (payload, err, r') = io_ReadFull (r\<lparr>r_scratch := scratch\<rparr>) payload;
           (_, scratch) \<leftarrow> copy scratch 0 len payload;
           let r'' = r'\<lparr>r_scratch := scratch\<rparr>;
           case err of
             Some e \<Rightarrow> Some (Inl (if e = IoEOF then IoUnexpectedEOF else e), r'')
           | None \<Rightarrow> do { f \<leftarrow> frameParsers ref (h_Type h) h payload; Some (f, r'') }
         } else do {
           f \<leftarrow> frameParsers ref (h_Type h) h [];
           Some (f, r)
         }
   }"

section \<open>Writing\<close>

text \<open>\<^verbatim>\<open>Write\<close> of the underlying writer: the error it returns, if any, and its new state.\<close>

type_synonym 'w io_write = "'w \<Rightarrow> u8 list \<Rightarrow> go_error option \<times> 'w"

definition then_write :: "(go_error option \<times> 'w) \<Rightarrow> ('w \<Rightarrow> go_error option \<times> 'w) \<Rightarrow> go_error option \<times> 'w" where
  "then_write r k = (case r of (Some e, w) \<Rightarrow> (Some e, w) | (None, w) \<Rightarrow> k w)"

definition headerBytes :: "u8 \<Rightarrow> u8 \<Rightarrow> u32 \<Rightarrow> u32 \<Rightarrow> u8 list" where
  "headerBytes t flags len streamID =
     [ucast (drop_bit 24 streamID), ucast (drop_bit 16 streamID), ucast (drop_bit 8 streamID), ucast streamID,
      ucast (drop_bit 16 len), ucast (drop_bit 8 len), ucast len, flags, t]"

definition WriteHeader :: "'w io_write \<Rightarrow> 'w \<Rightarrow> u8 \<Rightarrow> u8 \<Rightarrow> u32 \<Rightarrow> u32 \<Rightarrow> go_error option \<times> 'w" where
  "WriteHeader wr w t flags len streamID = wr w (headerBytes t flags len streamID)"

definition WritePing :: "'w io_write \<Rightarrow> 'w \<Rightarrow> u8 \<Rightarrow> PingData \<Rightarrow> go_error option \<times> 'w" where
  "WritePing wr w flags data = then_write (WriteHeader wr w FramePing flags 8 0) (\<lambda>w. wr w data)"

definition WriteData :: "'w io_write \<Rightarrow> 'w \<Rightarrow> u32 \<Rightarrow> u8 \<Rightarrow> u8 list \<Rightarrow> go_error option \<times> 'w" where
  "WriteData wr w streamID flags data =
     (if length data > MaxDataFramePayloadSize then (Some (ErrCode EINVALIDFRAME), w)
      else then_write (WriteHeader wr w FrameData flags (of_nat (length data)) streamID)
             (\<lambda>w. if length data > 0 then wr w data else (None, w)))"

text \<open>The code and the message under which an error goes on the wire.\<close>

definition resetCode :: "go_error \<Rightarrow> int \<times> go_string" where
  "resetCode err =
     (case err of
        ErrCode c \<Rightarrow> (c, [])
      | _ \<Rightarrow> (case as_Error err of
                Some c \<Rightarrow> (c, err_text err)
              | None \<Rightarrow> (EINTERNAL, err_text err)))"

definition WriteReset :: "'w io_write \<Rightarrow> 'w \<Rightarrow> u32 \<Rightarrow> u8 \<Rightarrow> go_error \<Rightarrow> go_error option \<times> 'w" where
  "WriteReset wr w streamID flags err =
     (let (code, message) = resetCode err
      in if length message > MaxResetFrameMessageSize then (Some (ErrCode EINVALIDFRAME), w)
         else then_write (WriteHeader wr w FrameReset flags (of_nat (4 + length message)) streamID)
           (\<lambda>w. then_write (wr w (put_u32 (word_of_int code)))
             (\<lambda>w. if length message > 0 then wr w message else (None, w))))"

definition WriteWindow :: "'w io_write \<Rightarrow> 'w \<Rightarrow> u32 \<Rightarrow> u32 \<Rightarrow> go_error option \<times> 'w" where
  "WriteWindow wr w streamID increment =
     then_write (WriteHeader wr w FrameWindow 0 4 streamID) (\<lambda>w. wr w (put_u32 increment))"

fun WriteSettings_loop :: "'w io_write \<Rightarrow> 'w \<Rightarrow> Setting list \<Rightarrow> go_error option \<times> 'w" where
  "WriteSettings_loop wr w [] = (None, w)"
| "WriteSettings_loop wr w (s # rest) =
     then_write (wr w (put_u16 (set_ID s) @ put_u32 (set_Value s))) (\<lambda>w. WriteSettings_loop wr w rest)"

definition WriteSettings :: "'w io_write \<Rightarrow> 'w \<Rightarrow> Setting list \<Rightarrow> go_error option \<times> 'w" where
  "WriteSettings wr w settings =
     (let size = length settings * 6
      in if size > MaxSettingsFramePayloadSize then (Some (ErrCode EINVALIDFRAME), w)
         else then_write (WriteHeader wr w FrameSettings 0 (of_nat size) 0)
                (\<lambda>w. WriteSettings_loop wr w settings))"

definition WriteSettingsAck :: "'w io_write \<Rightarrow> 'w \<Rightarrow> go_error option \<times> 'w" where
  "WriteSettingsAck wr w = WriteHeader wr w FrameSettings FlagSettingsAck 0 0"

text \<open>The method \<^verbatim>\<open>writeFrameTo\<close> of the six frame types.\<close>

fun writeFrameTo :: "'w io_write \<Rightarrow> 'w \<Rightarrow> Frame \<Rightarrow> go_error option \<times> 'w" where
  "writeFrameTo wr w (PingFrame flags data) = WritePing wr w flags data"
| "writeFrameTo wr w (DataFrame streamID flags data) = WriteData wr w streamID flags data"
| "writeFrameTo wr w (ResetFrame streamID flags err) = WriteReset wr w streamID flags err"
| "writeFrameTo wr w (WindowFrame streamID flags increment) =
     then_write (WriteHeader wr w FrameWindow flags 4 streamID) (\<lambda>w. wr w (put_u32 increment))"
| "writeFrameTo wr w (SettingsFrame flags data) =
     (if flags_Has flags FlagSettingsAck then WriteSettingsAck wr w else WriteSettings wr w data)"
| "writeFrameTo wr w (UnknownFrame t flags streamID payload) =
     (if length payload > MaxFramePayloadSize then (Some (ErrCode EINVALIDFRAME), w)
      else then_write (WriteHeader wr w t flags (of_nat (length payload)) streamID)
             (\<lambda>w. if length payload > 0 then wr w payload else (None, w)))"

text \<open>
  \<^verbatim>\<open>SettingsFrame.Value\<close>. The result \<^verbatim>\<open>ok\<close> is a named result that the function never
  assigns, so both returns deliver \<^term>\<open>False\<close>.
\<close>

fun settings_Value :: "Setting list \<Rightarrow> u16 \<Rightarrow> u32 \<times> bool" where
  "settings_Value [] sid = (0, False)"
| "settings_Value (s # rest) sid = (if set_ID s = sid then (set_Value s, False) else settings_Value rest sid)"

section \<open>The memory writer and the header\<close>

text \<open>The writer that keeps everything in memory: the instance of the writer parameter that tests use.\<close>

definition mem_write :: "u8 list io_write" where
  "mem_write w p = (None, w @ p)"

lemma length_headerBytes [simp]: "length (headerBytes t f len sid) = 9"
  by (simp add: headerBytes_def)

lemma parseHeader_headerBytes:
  assumes "unat len \<le> MaxFramePayloadSize"
  shows "parseHeader (headerBytes t f len sid) = Some \<lparr>h_Type = t, h_Flags = f, h_Length = len, h_StreamID = sid\<rparr>"
proof -
  have hi: "\<not> bit len n" if "24 \<le> n" for n
  proof -
    have "unat (take_bit 24 len) = unat len"
      using assms by (simp only: unsigned_take_bit_eq) (rule take_bit_nat_eq_self, simp)
    then have "take_bit 24 len = len" by (simp only: word_unat_eq_iff)
    then show ?thesis using that by (metis bit_take_bit_iff not_le)
  qed
  have "push_bit 16 (ucast (ucast (drop_bit 16 len) :: u8)) OR push_bit 8 (ucast (ucast (drop_bit 8 len) :: u8))
      OR ucast (ucast len :: u8) = len"
    by (rule bit_word_eqI) (simp only: bit_bytes, use hi in \<open>auto simp: not_le [symmetric]\<close>)
  moreover have "push_bit 24 (ucast (ucast (drop_bit 24 sid) :: u8)) OR push_bit 16 (ucast (ucast (drop_bit 16 sid) :: u8))
      OR push_bit 8 (ucast (ucast (drop_bit 8 sid) :: u8)) OR ucast (ucast sid :: u8) = sid"
    by (rule bit_word_eqI) (simp only: bit_bytes, auto)
  ultimately show ?thesis by (simp add: parseHeader_def headerBytes_def index_def)
qed

lemma headerBytes_parseHeader:
  assumes "length buf = 9" "parseHeader buf = Some h"
  shows "headerBytes (h_Type h) (h_Flags h) (h_Length h) (h_StreamID h) = buf \<and> unat (h_Length h) \<le> MaxFramePayloadSize"
proof -
  obtain b0 b1 b2 b3 b4 b5 b6 b7 b8 where buf: "buf = [b0, b1, b2, b3, b4, b5, b6, b7, b8]"
    using assms(1) by (auto simp: numeral_eq_Suc length_Suc_conv)
  let ?len = "push_bit 16 (ucast b4) OR push_bit 8 (ucast b5) OR ucast b6 :: u32"
  have h: "h = \<lparr>h_Type = b8, h_Flags = b7, h_Length = ?len,
      h_StreamID = push_bit 24 (ucast b0) OR push_bit 16 (ucast b1) OR push_bit 8 (ucast b2) OR ucast b3\<rparr>"
    using assms(2) by (simp add: buf parseHeader_def index_def)
  define len where "len = ?len"
  have tb: "take_bit 24 len = len" unfolding len_def
  proof (rule bit_word_eqI)
    fix n :: nat
    show "bit (take_bit 24 ?len) n = bit ?len n"
    proof (cases "n < 24")
      case True
      then show ?thesis by (simp only: bit_take_bit_iff simp_thms)
    next
      case False
      then have "8 \<le> n - 16" "8 \<le> n - 8" "8 \<le> n" by auto
      then have "\<not> bit ?len n"
        by (simp add: bit_or_iff bit_push_bit_iff bit_unsigned_iff not_bit_byte)
      with False show ?thesis by (simp only: bit_take_bit_iff simp_thms)
    qed
  qed
  have "unat (take_bit 24 len) < 2 ^ 24" by (simp only: unsigned_take_bit_eq take_bit_nat_less_exp)
  then have "unat len < 2 ^ 24" by (simp only: tb)
  have sid: "put_u32 (h_StreamID h) = [b0, b1, b2, b3]"
    using put_get_u32 [of "[b0, b1, b2, b3]" "h_StreamID h"] by (simp add: h ac_simps)
  have ln: "put_u32 (h_Length h) = [0, b4, b5, b6]"
    using put_get_u32 [of "[0, b4, b5, b6]" "h_Length h"] by (simp add: h ac_simps)
  have "h_Type h = b8" "h_Flags h = b7" "h_Length h = len" by (simp_all add: h len_def)
  with \<open>unat len < 2 ^ 24\<close> sid ln show ?thesis by (simp add: headerBytes_def put_u32_def buf)
qed

lemma parseHeader_Some: "length buf = 9 \<Longrightarrow> \<exists>h. parseHeader buf = Some h"
  by (simp add: parseHeader_def index_def)

lemma io_ReadFull_enough:
  "length buf \<le> length (r_data r) \<Longrightarrow>
   io_ReadFull r buf = (take (length buf) (r_data r), None, r\<lparr>r_data := drop (length buf) (r_data r)\<rparr>)"
  by (simp add: io_ReadFull_def Let_def)

lemma ReadHeader_bytes:
  assumes "r_data r = headerBytes t f len sid @ rest" "unat len \<le> MaxFramePayloadSize"
  shows "ReadHeader r = Some (Inr \<lparr>h_Type = t, h_Flags = f, h_Length = len, h_StreamID = sid\<rparr>, r\<lparr>r_data := rest\<rparr>)"
  using assms by (simp add: ReadHeader_def io_ReadFull_enough parseHeader_headerBytes)

text \<open>Reading a whole frame: the header, then the payload through the scratch array.\<close>

lemma scratch_ok:
  assumes "0 < len" "len \<le> int MaxFramePayloadSize"
  shows "\<exists>scr. (if zlen scratch < len then go_make 0 (minpow2 len) else Some scratch) = Some scr \<and> len \<le> zlen scr"
proof (cases "zlen scratch < len")
  case True
  have "len \<le> minpow2 len" using assms by (intro minpow2_ge) auto
  with True assms show ?thesis by (simp add: go_make_def)
qed simp

lemma ReadFrame_bytes:
  assumes data: "r_data r = headerBytes t f (of_nat (length payload)) sid @ payload @ rest"
    and len: "length payload \<le> MaxFramePayloadSize"
  shows "\<exists>scr. ReadFrame ref r = map_option (\<lambda>res. (res, r\<lparr>r_data := rest, r_scratch := scr\<rparr>))
     (frameParsers ref t \<lparr>h_Type = t, h_Flags = f, h_Length = of_nat (length payload), h_StreamID = sid\<rparr> payload)"
proof -
  let ?len = "of_nat (length payload) :: u32"
  have ul: "uint ?len = zlen payload" "unat ?len = length payload"
    using len by (simp_all add: unsigned_of_nat take_bit_nat_eq_self)
  have hd: "ReadHeader r = Some (Inr \<lparr>h_Type = t, h_Flags = f, h_Length = ?len, h_StreamID = sid\<rparr>,
      r\<lparr>r_data := payload @ rest\<rparr>)"
    using data len ul by (intro ReadHeader_bytes) auto
  show ?thesis
  proof (cases "payload = []")
    case True
    then show ?thesis using hd
      by (intro exI [of _ "r_scratch r"])
        (simp add: ReadFrame_def map_conv_bind_option comp_def)
  next
    case False
    then have pos: "0 < ?len" using ul by (simp add: word_less_nat_alt)
    obtain scr where scr: "(if zlen (r_scratch r) < zlen payload then go_make 0 (minpow2 (zlen payload)) else Some (r_scratch r)) = Some scr"
      and sl: "zlen payload \<le> zlen scr"
      using scratch_ok [of "zlen payload" "r_scratch r"] False len by auto
    then show ?thesis using hd pos ul
      by (auto simp: ReadFrame_def Let_def slice_def copy_def io_ReadFull_enough min_def
          bind_map_option comp_def map_conv_bind_option)
  qed
qed

section \<open>Encoding and decoding are inverse\<close>

text \<open>
  \<open>frame_wf\<close> are the frames that the writers accept and that keep to the rules of the protocol;
  \<open>wire_frame\<close> is how the other side sees such a frame: an error becomes its code and message,
  and the two writers of SETTINGS fix the flags.
\<close>

fun frame_wf :: "Frame \<Rightarrow> bool" where
  "frame_wf (PingFrame flags data) \<longleftrightarrow> length data = 8"
| "frame_wf (DataFrame sid flags data) \<longleftrightarrow> sid AND 0x80000000 = 0 \<and> length data \<le> MaxDataFramePayloadSize"
| "frame_wf (ResetFrame sid flags err) \<longleftrightarrow>
     sid AND 0x80000000 = 0 \<and> length (snd (resetCode err)) \<le> MaxResetFrameMessageSize"
| "frame_wf (WindowFrame sid flags increment) \<longleftrightarrow> sid AND 0x80000000 = 0"
| "frame_wf (SettingsFrame flags data) \<longleftrightarrow>
     flags_Has flags FlagSettingsAck \<or> length data * 6 \<le> MaxSettingsFramePayloadSize"
| "frame_wf (UnknownFrame t flags sid payload) \<longleftrightarrow> FrameSettings < t \<and> length payload \<le> MaxFramePayloadSize"

fun wire_frame :: "eref \<Rightarrow> Frame \<Rightarrow> Frame" where
  "wire_frame ref (ResetFrame sid flags err) = ResetFrame sid flags
     (let (code, message) = resetCode err; code = uint (word_of_int code :: u32)
      in if message = [] then ErrCode code else CopperError ref message code)"
| "wire_frame ref (SettingsFrame flags data) =
     (if flags_Has flags FlagSettingsAck then SettingsFrame FlagSettingsAck [] else SettingsFrame 0 data)"
| "wire_frame ref f = f"

fun frame_head :: "Frame \<Rightarrow> u8 \<times> u8 \<times> u32" where
  "frame_head (PingFrame flags data) = (FramePing, flags, 0)"
| "frame_head (DataFrame sid flags data) = (FrameData, flags, sid)"
| "frame_head (ResetFrame sid flags err) = (FrameReset, flags, sid)"
| "frame_head (WindowFrame sid flags increment) = (FrameWindow, flags, sid)"
| "frame_head (SettingsFrame flags data) =
     (FrameSettings, if flags_Has flags FlagSettingsAck then FlagSettingsAck else 0, 0)"
| "frame_head (UnknownFrame t flags sid payload) = (t, flags, sid)"

definition setting_bytes :: "Setting \<Rightarrow> u8 list" where
  "setting_bytes s = put_u16 (set_ID s) @ put_u32 (set_Value s)"

fun frame_payload :: "Frame \<Rightarrow> u8 list" where
  "frame_payload (PingFrame flags data) = data"
| "frame_payload (DataFrame sid flags data) = data"
| "frame_payload (ResetFrame sid flags err) =
     put_u32 (word_of_int (fst (resetCode err))) @ snd (resetCode err)"
| "frame_payload (WindowFrame sid flags increment) = put_u32 increment"
| "frame_payload (SettingsFrame flags data) =
     (if flags_Has flags FlagSettingsAck then [] else concat (map setting_bytes data))"
| "frame_payload (UnknownFrame t flags sid payload) = payload"

definition frame_bytes :: "Frame \<Rightarrow> u8 list" where
  "frame_bytes f = (let (t, flags, sid) = frame_head f
     in headerBytes t flags (of_nat (length (frame_payload f))) sid @ frame_payload f)"

lemma length_settings_bytes [simp]: "length (concat (map setting_bytes data)) = 6 * length data"
  by (induction data) (simp_all add: setting_bytes_def)

lemma frame_payload_bound: "frame_wf f \<Longrightarrow> length (frame_payload f) \<le> MaxFramePayloadSize"
  by (cases f) (auto split: if_splits)

lemma WriteSettings_loop_mem: "WriteSettings_loop mem_write w data = (None, w @ concat (map setting_bytes data))"
  by (induction data arbitrary: w) (simp_all add: mem_write_def then_write_def setting_bytes_def)

lemmas writer_defs = WriteHeader_def WritePing_def WriteData_def WriteReset_def WriteWindow_def
  WriteSettings_def WriteSettingsAck_def then_write_def mem_write_def Let_def

lemma writeFrameTo_mem:
  assumes "frame_wf f"
  shows "writeFrameTo mem_write w f = (None, w @ frame_bytes f)"
proof (cases f)
  case (SettingsFrame flags data)
  then show ?thesis using assms WriteSettings_loop_mem
    by (auto simp: frame_bytes_def writer_defs [abs_def] mult.commute)
qed (use assms in \<open>auto simp: frame_bytes_def writer_defs split: prod.splits\<close>)

lemma parseSettings_loop_bytes:
  "parseSettings_loop (concat (map setting_bytes data)) acc = Some (acc @ data)"
proof (induction data arbitrary: acc)
  case (Cons s data)
  let ?rest = "concat (map setting_bytes data)"
  have s2: "slice (concat (map setting_bytes (s # data))) 0 2 = Some (put_u16 (set_ID s))"
    by (rule slice_eq [of _ "[]" _ "put_u32 (set_Value s) @ ?rest"]) (simp_all add: setting_bytes_def)
  have s4: "slice (concat (map setting_bytes (s # data))) 2 6 = Some (put_u32 (set_Value s))"
    by (rule slice_eq [of _ "put_u16 (set_ID s)" _ ?rest]) (simp_all add: setting_bytes_def)
  have s6: "slice (concat (map setting_bytes (s # data))) 6 (zlen (concat (map setting_bytes (s # data)))) = Some ?rest"
    by (rule slice_eq [of _ "setting_bytes s" _ "[]"]) (simp_all add: setting_bytes_def)
  have "concat (map setting_bytes (s # data)) \<noteq> []" by (simp add: setting_bytes_def put_u16_def)
  then show ?case
    using Cons.IH get_put_u16 [of _ "[]"] get_put_u32 [of _ "[]"]
    by (subst parseSettings_loop.simps) (simp only: s2 s4 s6, simp)
qed (simp add: parseSettings_loop.simps)

lemma frameParsers_wire:
  assumes "frame_wf f" "frame_head f = (t, flags, sid)"
  shows "frameParsers ref t \<lparr>h_Type = t, h_Flags = flags, h_Length = len, h_StreamID = sid\<rparr> (frame_payload f)
    = Some (Inr (wire_frame ref f))"
proof (cases f)
  case (PingFrame flags data)
  then show ?thesis using assms by (auto simp: frameParsers_def parsePingFrame_def)
next
  case (DataFrame sid flags data)
  then show ?thesis using assms by (auto simp: frameParsers_def parseDataFrame_def)
next
  case (ResetFrame sid' flags' err)
  obtain code message where rc: "resetCode err = (code, message)" by fastforce
  have "slice (put_u32 (word_of_int code) @ message) 0 4 = Some (put_u32 (word_of_int code))"
    by (rule slice_eq [of _ "[]"]) simp_all
  then show ?thesis using assms ResetFrame rc get_put_u32 [of _ "[]"]
    by (auto simp: frameParsers_def parseResetFrame_def Let_def)
next
  case (WindowFrame sid' flags' increment)
  have "slice (put_u32 increment) 0 4 = Some (put_u32 increment)"
    by (rule slice_eq [of _ "[]" _ "[]"]) simp_all
  then show ?thesis using assms WindowFrame get_put_u32 [of _ "[]"]
    by (auto simp: frameParsers_def parseWindowFrame_def)
next
  case (SettingsFrame flags' data)
  have "flags_Has 1 1" "\<not> flags_Has 0 1" by (simp_all add: flags_Has_def)
  then show ?thesis using assms SettingsFrame parseSettings_loop_bytes [of data "[]"]
    by (auto simp: frameParsers_def parseSettingsFrame_def)
next
  case (UnknownFrame t' flags' sid' payload)
  then show ?thesis using assms
    by (auto simp: frameParsers_def parseUnknownFrame_def)
qed

lemma ReadFrame_frame_bytes:
  assumes "frame_wf f" "r_data r = frame_bytes f @ rest"
  shows "\<exists>scr. ReadFrame ref r = Some (Inr (wire_frame ref f), r\<lparr>r_data := rest, r_scratch := scr\<rparr>)"
proof -
  obtain t flags sid where h: "frame_head f = (t, flags, sid)" by (metis prod_cases3)
  have "r_data r = headerBytes t flags (of_nat (length (frame_payload f))) sid @ frame_payload f @ rest"
    using assms(2) h by (simp add: frame_bytes_def)
  from ReadFrame_bytes [OF this frame_payload_bound [OF assms(1)], of ref]
  show ?thesis by (simp add: frameParsers_wire [OF assms(1) h])
qed

subsection \<open>Sequences of frames\<close>

fun write_frames :: "'w io_write \<Rightarrow> 'w \<Rightarrow> Frame list \<Rightarrow> go_error option \<times> 'w" where
  "write_frames wr w [] = (None, w)"
| "write_frames wr w (f # fs) = then_write (writeFrameTo wr w f) (\<lambda>w. write_frames wr w fs)"

text \<open>Read until the first error, giving each frame a fresh reference for its error value.\<close>

fun read_frames :: "nat \<Rightarrow> eref \<Rightarrow> FrameReader \<Rightarrow> (Frame list \<times> go_error option) option" where
  "read_frames 0 ref r = Some ([], None)"
| "read_frames (Suc n) ref r = do {
     (res, r) \<leftarrow> ReadFrame ref r;
     case res of
       Inl e \<Rightarrow> Some ([], Some e)
     | Inr f \<Rightarrow> do { (fs, e) \<leftarrow> read_frames n (ref + 1) r; Some (f # fs, e) }
   }"

lemma write_frames_mem:
  "\<forall>f \<in> set fs. frame_wf f \<Longrightarrow> write_frames mem_write w fs = (None, w @ concat (map frame_bytes fs))"
  by (induction fs arbitrary: w) (simp_all add: writeFrameTo_mem then_write_def)

lemma ReadFrame_end: "r_data r = [] \<Longrightarrow> ReadFrame ref r = Some (Inl (r_end r), r)"
  by (cases r) (simp add: ReadFrame_def ReadHeader_def io_ReadFull_def)

lemma read_frames_bytes:
  "\<forall>f \<in> set fs. frame_wf f \<Longrightarrow> r_data r = concat (map frame_bytes fs) \<Longrightarrow> length fs < n \<Longrightarrow>
   read_frames n ref r = Some (map2 wire_frame [ref..<ref + length fs] fs, Some (r_end r))"
proof (induction fs arbitrary: r ref n)
  case Nil
  then show ?case by (cases n) (simp_all add: ReadFrame_end)
next
  case (Cons f fs)
  then obtain m where n: "n = Suc m" "length fs < m" by (cases n) auto
  have wf: "frame_wf f" and d: "r_data r = frame_bytes f @ concat (map frame_bytes fs)"
    using Cons.prems by auto
  obtain scr where rd: "ReadFrame ref r = Some (Inr (wire_frame ref f), r\<lparr>r_data := concat (map frame_bytes fs), r_scratch := scr\<rparr>)"
    using ReadFrame_frame_bytes [OF wf d] by blast
  have "read_frames m (ref + 1) (r\<lparr>r_data := concat (map frame_bytes fs), r_scratch := scr\<rparr>) =
      Some (map2 wire_frame [ref + 1..<ref + 1 + length fs] fs, Some (r_end r))"
    using Cons.prems n by (subst Cons.IH) auto
  then show ?case using rd by (simp add: n upt_conv_Cons del: upt_Suc)
qed

subsection \<open>What the parsers accept\<close>

lemma slice_0 [simp]: "length xs \<ge> n \<Longrightarrow> slice xs 0 (int n) = Some (take n xs)"
  by (simp add: slice_def)

lemma slice_to_end: "n \<le> length xs \<Longrightarrow> slice xs (int n) (zlen xs) = Some (drop n xs)"
  by (simp add: slice_def)

lemma parseSettings_loop_sound:
  "length payload mod 6 = 0 \<Longrightarrow>
   \<exists>data. parseSettings_loop payload acc = Some (acc @ data) \<and> concat (map setting_bytes data) = payload"
proof (induction "length payload" arbitrary: payload acc rule: less_induct)
  case less
  show ?case
  proof (cases payload rule: list.exhaust)
    case Nil
    then show ?thesis by (intro exI [of _ "[]"]) (simp add: parseSettings_loop.simps)
  next
    case Cons
    then have "6 \<le> length payload" using less.prems by (cases "length payload < 6") auto
    then obtain a b c d e f p where p: "payload = a # b # c # d # e # f # p"
      by (auto simp: numeral_eq_Suc Suc_le_length_iff)
    obtain sid where sid: "get_u16 [a, b] = Some sid" by simp
    obtain val where val: "get_u32 [c, d, e, f] = Some val" by simp
    have "length payload = 6 + length p" by (simp add: p)
    with less.prems have "length p mod 6 = 0" by (simp only: mod_add_self1)
    then obtain data where data: "parseSettings_loop p (acc @ [\<lparr>set_ID = sid, set_Value = val\<rparr>]) =
        Some ((acc @ [\<lparr>set_ID = sid, set_Value = val\<rparr>]) @ data)" "concat (map setting_bytes data) = p"
      using less.hyps [of p "acc @ [\<lparr>set_ID = sid, set_Value = val\<rparr>]"] p by auto
    have sl: "slice payload 0 2 = Some [a, b]" "slice payload 2 6 = Some [c, d, e, f]"
      "slice payload 6 (zlen payload) = Some p"
      by (simp_all add: slice_def p)
    have "parseSettings_loop payload acc = parseSettings_loop p (acc @ [\<lparr>set_ID = sid, set_Value = val\<rparr>])"
      using sid val by (subst parseSettings_loop.simps) (simp only: sl, simp add: p)
    moreover have "concat (map setting_bytes (\<lparr>set_ID = sid, set_Value = val\<rparr> # data)) = payload"
      using put_get_u16 [OF sid] put_get_u32 [OF val] data(2) by (simp add: setting_bytes_def p)
    ultimately show ?thesis using data(1) by (intro exI [of _ "\<lparr>set_ID = sid, set_Value = val\<rparr> # data"]) simp
  qed
qed

text \<open>A frame as a reader delivers it: re-encoding it reproduces the bytes it came from.\<close>

fun plain_settings :: "Frame \<Rightarrow> bool" where
  "plain_settings (SettingsFrame flags _) \<longleftrightarrow> flags = 0 \<or> flags = FlagSettingsAck"
| "plain_settings _ \<longleftrightarrow> True"

lemma frameParsers_sound:
  assumes "length payload \<le> MaxFramePayloadSize"
  shows "\<exists>res. frameParsers ref (h_Type h) h payload = Some res \<and>
    (\<forall>e. res = Inl e \<longrightarrow> e = ErrCode EINVALIDFRAME) \<and>
    (\<forall>f. res = Inr f \<longrightarrow> frame_wf f \<and>
      (plain_settings f \<longrightarrow> frame_head f = (h_Type h, h_Flags h, h_StreamID h) \<and> frame_payload f = payload))"
proof -
  have part4: "\<exists>v. slice payload 0 4 = Some (put_u32 v) \<and> get_u32 (put_u32 v) = Some v \<and> put_u32 v @ drop 4 payload = payload"
    if le: "4 \<le> length payload"
  proof -
    obtain v where "get_u32 payload = Some v" using get_u32_Some [OF le] by blast
    from put_get_u32 [OF this] le show ?thesis
      using get_put_u32 [of v "[]"] slice_0 [of 4 payload] by (intro exI [of _ v]) simp
  qed
  consider "h_Type h = 0" | "h_Type h = 1" | "h_Type h = 2" | "h_Type h = 3" | "h_Type h = 4"
    | "h_Type h \<notin> {0, 1, 2, 3, 4}" by auto
  then show ?thesis
  proof cases
    case 1
    then show ?thesis by (simp add: frameParsers_def parsePingFrame_def)
  next
    case 2
    then show ?thesis using assms by (simp add: frameParsers_def parseDataFrame_def)
  next
    case 3
    then show ?thesis
    proof (cases "h_StreamID h AND 0x80000000 \<noteq> 0 \<or> length payload < 4")
      case False
      then obtain v where v: "slice payload 0 4 = Some (put_u32 v)" "get_u32 (put_u32 v) = Some v"
        "put_u32 v @ drop 4 payload = payload" using part4 by auto
      have "length (drop 4 payload) \<le> MaxResetFrameMessageSize" using assms by simp
      with False v 3 assms show ?thesis
        by (cases "length payload > 4") (auto simp: frameParsers_def parseResetFrame_def Let_def resetCode_def)
    qed (simp add: frameParsers_def parseResetFrame_def)
  next
    case 4
    then show ?thesis
    proof (cases "h_StreamID h AND 0x80000000 \<noteq> 0 \<or> length payload \<noteq> 4")
      case False
      then obtain v where v: "slice payload 0 4 = Some (put_u32 v)" "get_u32 (put_u32 v) = Some v"
        "put_u32 v = payload" using part4 by auto
      with False 4 show ?thesis by (simp add: frameParsers_def parseWindowFrame_def)
    qed (simp add: frameParsers_def parseWindowFrame_def)
  next
    case 5
    have ack: "flags_Has 1 1" "\<not> flags_Has 0 1" by (simp_all add: flags_Has_def)
    show ?thesis
    proof (cases "h_StreamID h \<noteq> 0 \<or> flags_Has (h_Flags h) 1 \<or> length payload > MaxSettingsFramePayloadSize \<or> length payload mod 6 \<noteq> 0")
      case True
      with 5 ack show ?thesis by (auto simp: frameParsers_def parseSettingsFrame_def)
    next
      case False
      then obtain data where d: "parseSettings_loop payload [] = Some data" "concat (map setting_bytes data) = payload"
        using parseSettings_loop_sound [of payload "[]"] by auto
      have "length data * 6 = length payload" using d(2) by (metis length_settings_bytes mult.commute)
      with False 5 ack d show ?thesis
        by (auto simp: frameParsers_def parseSettingsFrame_def)
    qed
  next
    case 6
    then have "FrameSettings < h_Type h"
      by (simp add: word_less_nat_alt word_unat_eq_iff)
    with 6 show ?thesis using assms by (simp add: frameParsers_def parseUnknownFrame_def)
  qed
qed

text \<open>Any nine bytes are a header; whatever the payload, the outcome is that of the frame's parser.\<close>

lemma header_exists:
  assumes "length hb = 9"
  shows "\<exists>t flags len sid. hb = headerBytes t flags len sid \<and> unat len \<le> MaxFramePayloadSize"
  using parseHeader_Some [OF assms] headerBytes_parseHeader [OF assms] by metis

lemma ReadFrame_short_header:
  assumes "length (r_data r) < 9"
  shows "ReadFrame ref r = Some (Inl (if r_data r \<noteq> [] \<and> r_end r = IoEOF then IoUnexpectedEOF else r_end r), r\<lparr>r_data := []\<rparr>)"
  using assms by (simp add: ReadFrame_def ReadHeader_def io_ReadFull_def Let_def)

lemma ReadFrame_short_payload:
  assumes data: "r_data r = headerBytes t flags len sid @ part"
    and len: "unat len \<le> MaxFramePayloadSize" and short: "length part < unat len"
  shows "\<exists>scr. ReadFrame ref r =
    Some (Inl (if r_end r = IoEOF then IoUnexpectedEOF else r_end r), r\<lparr>r_data := [], r_scratch := scr\<rparr>)"
proof -
  have hd: "ReadHeader r = Some (Inr \<lparr>h_Type = t, h_Flags = flags, h_Length = len, h_StreamID = sid\<rparr>, r\<lparr>r_data := part\<rparr>)"
    using ReadHeader_bytes [OF data len] .
  have pos: "0 < len" using short by (simp add: word_less_nat_alt)
  have un: "uint len = int (unat len)" by simp
  then have ul: "0 < uint len" "uint len \<le> int MaxFramePayloadSize" "nat (uint len) = unat len"
    using len short by linarith+
  obtain scr where scr: "(if zlen (r_scratch r) < uint len then go_make 0 (minpow2 (uint len)) else Some (r_scratch r)) = Some scr"
    and sl: "uint len \<le> zlen scr"
    using scratch_ok [OF ul(1,2), of "r_scratch r"] by blast
  have sl': "unat len \<le> length scr" using sl ul(3) by linarith
  have slice: "slice scr 0 (uint len) = Some (take (unat len) scr)"
    using sl ul by (simp add: slice_def)
  obtain pl where rf: "io_ReadFull (r\<lparr>r_data := part, r_scratch := scr\<rparr>) (take (unat len) scr) =
      (pl, Some (if part \<noteq> [] \<and> r_end r = IoEOF then IoUnexpectedEOF else r_end r), r\<lparr>r_data := [], r_scratch := scr\<rparr>)"
    using short sl' by (simp add: io_ReadFull_def Let_def)
  obtain n scr' where "copy scr 0 (uint len) pl = Some (n, scr')"
    using sl by (simp add: copy_def Let_def)
  then show ?thesis using hd pos scr slice rf
    by (intro exI [of _ scr'], cases "zlen (r_scratch r) < uint len") (simp_all add: ReadFrame_def Let_def)
qed

text \<open>The three things that can happen on a call of \<^verbatim>\<open>ReadFrame\<close>.\<close>

lemma ReadFrame_cases:
  obtains (short) scr where "ReadFrame ref r =
      Some (Inl (if r_data r \<noteq> [] \<and> r_end r = IoEOF then IoUnexpectedEOF else r_end r), r\<lparr>r_data := [], r_scratch := scr\<rparr>)"
  | (bad) rest scr where "ReadFrame ref r = Some (Inl (ErrCode EINVALIDFRAME), r\<lparr>r_data := rest, r_scratch := scr\<rparr>)"
  | (good) f used rest scr where "ReadFrame ref r = Some (Inr f, r\<lparr>r_data := rest, r_scratch := scr\<rparr>)"
      "r_data r = used @ rest" "frame_wf f" "plain_settings f \<Longrightarrow> frame_bytes f = used"
proof (cases "length (r_data r) < 9")
  case True
  then show ?thesis using short [of "r_scratch r"] by (simp add: ReadFrame_short_header)
next
  case False
  then have "length (take 9 (r_data r)) = 9" by simp
  then obtain t flags len sid where hd: "take 9 (r_data r) = headerBytes t flags len sid" "unat len \<le> MaxFramePayloadSize"
    using header_exists by blast
  define tail where "tail = drop 9 (r_data r)"
  have d: "r_data r = headerBytes t flags len sid @ tail" using hd(1) tail_def by (metis append_take_drop_id)
  show ?thesis
  proof (cases "length tail < unat len")
    case True
    have "r_data r \<noteq> []" using False by auto
    with ReadFrame_short_payload [OF d hd(2) True, of ref] show ?thesis using short by auto
  next
    case False
    define payload where "payload = take (unat len) tail"
    define rest where "rest = drop (unat len) tail"
    have lp: "length payload = unat len" using False by (simp add: payload_def)
    have len: "len = of_nat (length payload)" "length payload \<le> MaxFramePayloadSize"
      unfolding lp using hd(2) by (simp_all only: of_nat_unat ucast_id)
    have "r_data r = headerBytes t flags (of_nat (length payload)) sid @ payload @ rest"
      unfolding len(1) [symmetric] d by (simp add: payload_def rest_def)
    note used = this and rd = ReadFrame_bytes [OF this len(2), of ref]
    let ?h = "\<lparr>h_Type = t, h_Flags = flags, h_Length = of_nat (length payload), h_StreamID = sid\<rparr>"
    obtain res where res: "frameParsers ref t ?h payload = Some res"
      "\<forall>e. res = Inl e \<longrightarrow> e = ErrCode EINVALIDFRAME"
      "\<forall>f. res = Inr f \<longrightarrow> frame_wf f \<and> (plain_settings f \<longrightarrow> frame_head f = (t, flags, sid) \<and> frame_payload f = payload)"
      using frameParsers_sound [OF len(2), of ref ?h, simplified FrameHeader.simps] by blast
    show ?thesis
    proof (cases res)
      case (Inl e)
      then show ?thesis using rd res bad by auto
    next
      case (Inr f)
      have "frame_bytes f = headerBytes t flags (of_nat (length payload)) sid @ payload" if "plain_settings f"
        using res(3) Inr that by (simp add: frame_bytes_def)
      then show ?thesis using rd res(1,3) Inr used good by auto
    qed
  qed
qed

lemma ReadFrame_total: "\<exists>res r'. ReadFrame ref r = Some (res, r')"
  by (cases rule: ReadFrame_cases [of ref r]) auto

subsection \<open>Writers that may fail\<close>

text \<open>Any writer, with a log of everything it was given.\<close>

definition logged :: "'w io_write \<Rightarrow> (u8 list \<times> 'w) io_write" where
  "logged wr = (\<lambda>(log, w) p. let (e, w') = wr w p in (e, log @ p, w'))"

text \<open>\<open>writes wr bytes\<close>: a write operation that hands over \<open>bytes\<close>, or stops at an error.\<close>

definition writes :: "u8 list \<Rightarrow> ((u8 list \<times> 'w) \<Rightarrow> go_error option \<times> u8 list \<times> 'w) \<Rightarrow> bool" where
  "writes bytes k \<longleftrightarrow> (\<forall>log w. \<exists>e log' w'. k (log, w) = (e, log @ log', w') \<and> prefix log' bytes \<and> (e = None \<longrightarrow> log' = bytes))"

lemma writes_wr: "writes p (\<lambda>w. logged wr w p)"
  by (auto simp: writes_def logged_def split: prod.splits)

lemma writes_done: "writes [] (\<lambda>w. (None, w))"
  by (simp add: writes_def)

lemma writes_then:
  assumes "writes p k" "writes q k'"
  shows "writes (p @ q) (\<lambda>w. then_write (k w) k')"
  unfolding writes_def
proof (intro allI)
  fix log w
  obtain e log' w' where k: "k (log, w) = (e, log @ log', w')" "prefix log' p" "e = None \<longrightarrow> log' = p"
    using assms(1) unfolding writes_def by metis
  obtain e2 log2 w2 where k2: "k' (log @ log', w') = (e2, (log @ log') @ log2, w2)" "prefix log2 q" "e2 = None \<longrightarrow> log2 = q"
    using assms(2) unfolding writes_def by metis
  show "\<exists>e log' w'. then_write (k (log, w)) k' = (e, log @ log', w') \<and> prefix log' (p @ q) \<and> (e = None \<longrightarrow> log' = p @ q)"
    using k k2 by (cases e) (auto simp: then_write_def)
qed

lemma writes_WriteSettings_loop: "writes (concat (map setting_bytes data)) (\<lambda>w. WriteSettings_loop (logged wr) w data)"
  by (induction data) (simp_all add: writes_done setting_bytes_def writes_then writes_wr flip: append_assoc)

lemmas writes_intros = writes_then writes_wr writes_done writes_WriteSettings_loop

lemma writes_optional: "writes p (\<lambda>w. if length p > 0 then logged wr w p else (None, w))"
  using writes_wr [of p wr] writes_done by (cases "p = []") auto

lemma writes_writeFrameTo:
  assumes "frame_wf f"
  shows "writes (frame_bytes f) (\<lambda>w. writeFrameTo (logged wr) w f)"
proof (cases f)
  case (ResetFrame sid flags err)
  obtain code message where rc: "resetCode err = (code, message)" by fastforce
  have "length message \<le> MaxResetFrameMessageSize" using assms ResetFrame rc by simp
  then show ?thesis using ResetFrame rc
    by (simp add: frame_bytes_def WriteReset_def WriteHeader_def writes_intros writes_optional [simplified])
next
  case (SettingsFrame flags data)
  then show ?thesis using assms
    by (auto simp: frame_bytes_def WriteSettings_def WriteSettingsAck_def WriteHeader_def Let_def mult.commute
        intro!: writes_intros)
qed (use assms in \<open>simp_all add: frame_bytes_def WritePing_def WriteData_def WriteHeader_def
    writes_intros writes_optional [simplified]\<close>)

section \<open>Properties of the wire format\<close>

text \<open>
  C24. Frames survive the wire: any sequence of well-formed frames, written one after the other and
  read back frame by frame, arrives complete, in order and unchanged (an error as its code and
  message), after which the reader reports the end of the input and nothing else.
\<close>

theorem frames_round_trip:
  assumes "\<forall>f \<in> set fs. frame_wf f" and "write_frames mem_write [] fs = (e, bytes)"
    and "r_data r = bytes" and "length fs < n"
  shows "e = None \<and> read_frames n ref r = Some (map2 wire_frame [ref..<ref + length fs] fs, Some (r_end r))"
  using assms write_frames_mem [of fs "[]"] read_frames_bytes [of fs r n ref] by simp

theorem frames_round_trip_witness:
  "\<exists>bytes. write_frames mem_write [] [PingFrame 1 [1, 2, 3, 4, 5, 6, 7, 8], ResetFrame 3 2 IoEOF] = (None, bytes) \<and>
     read_frames 3 0 \<lparr>r_data = bytes, r_end = IoEOF, r_scratch = []\<rparr>
       = Some ([PingFrame 1 [1, 2, 3, 4, 5, 6, 7, 8], ResetFrame 3 2 (CopperError 1 (str ''EOF'') EINTERNAL)], Some IoEOF)"
proof -
  let ?fs = "[PingFrame 1 [1, 2, 3, 4, 5, 6, 7, 8], ResetFrame 3 2 IoEOF]"
  obtain e bytes where w: "write_frames mem_write [] ?fs = (e, bytes)" by fastforce
  have wf: "\<forall>f \<in> set ?fs. frame_wf f" by (simp add: resetCode_def)
  show ?thesis
    using frames_round_trip [OF wf w, of "\<lparr>r_data = bytes, r_end = IoEOF, r_scratch = []\<rparr>" 3 0] w
    by (simp add: resetCode_def)
qed





text \<open>
  A writer that fails is not written to again: whatever the underlying writer does, the bytes
  it was given are a prefix of the frame's encoding, and all of it if no error is returned.
\<close>

theorem writeFrameTo_prefix:
  assumes "frame_wf f"
  shows "\<exists>e log w'. writeFrameTo (logged wr) ([], w) f = (e, log, w') \<and> prefix log (frame_bytes f) \<and>
    (e = None \<longrightarrow> log = frame_bytes f)"
  using writes_writeFrameTo [OF assms, of wr] unfolding writes_def by (metis append_Nil)

theorem writeFrameTo_prefix_witness:
  "\<exists>e log w'. writeFrameTo (logged (\<lambda>n p. if n = (0 :: nat) then (None, 1) else (Some TimeoutError, n))) ([], 0) (WindowFrame 9 0 5)
      = (e, log, w') \<and> prefix log (frame_bytes (WindowFrame 9 0 5)) \<and> (e = None \<longrightarrow> log = frame_bytes (WindowFrame 9 0 5))"
  by (rule writeFrameTo_prefix) simp

text \<open>\<^verbatim>\<open>SettingsFrame.Value\<close> leaves its result \<^verbatim>\<open>ok\<close> false even for a setting that is present.\<close>

lemma settings_Value_not_ok: "snd (settings_Value data sid) = False"
  by (induction data) auto

text \<open>
  An error built as a \<^verbatim>\<open>copperError\<close> value loses its code on the wire: to any writer
  \<^verbatim>\<open>WriteReset\<close> sends it exactly as an \<^verbatim>\<open>EINTERNAL\<close> error with the same message,
  whatever code it was built with.
\<close>

theorem copperError_value_loses_code:
  "WriteReset wr w sid flags (CopperErrorVal ref msg code) = WriteReset wr w sid flags (CopperError ref' msg EINTERNAL)"
  by (simp add: WriteReset_def resetCode_def)

end
