(* ===== verification/Stream_Queue.thy ===== *)
theory Stream_Queue
  imports Buffer
begin

text \<open>
  The ring-buffer queue of stream pointers of \<^verbatim>\<open>rawstream_queue.go\<close>, in which streams wait
  for the write loop. A stream pointer is a reference of type \<open>sref\<close>; \<^verbatim>\<open>nil\<close> slots of
  the array are \<^term>\<open>None\<close>.
\<close>

type_synonym sref = nat

record rawStreamQueue =
  q_buf :: "sref option list"
  q_off :: int
  q_size :: int

definition empty_queue :: rawStreamQueue where
  "empty_queue = \<lparr>q_buf = [], q_off = 0, q_size = 0\<rparr>"

definition queue_push :: "rawStreamQueue \<Rightarrow> sref \<Rightarrow> rawStreamQueue option" where
  "queue_push q s = do {
     let pos = q_off q + q_size q;
     (q, pos) \<leftarrow>
       (if q_size q = zlen (q_buf q) then do {
          dst \<leftarrow> go_make None (minpow2 (zlen (q_buf q) + 1));
          (dst, pos) \<leftarrow>
            (if pos = zlen (q_buf q) then do {
               (_, dst) \<leftarrow> copy dst 0 (zlen dst) (q_buf q);
               Some (dst, pos)
             } else do {
               part \<leftarrow> slice (q_buf q) (q_off q) (zlen (q_buf q));
               (z, dst) \<leftarrow> copy dst 0 (zlen dst) part;
               part \<leftarrow> slice (q_buf q) 0 (q_size q - z);
               (_, dst) \<leftarrow> copy dst z (zlen dst) part;
               Some (dst, q_size q)
             });
          Some (q\<lparr>q_buf := dst, q_off := 0\<rparr>, pos)
        } else if zlen (q_buf q) \<le> pos then Some (q, pos - zlen (q_buf q))
        else Some (q, pos));
     buf \<leftarrow> store (q_buf q) pos (Some s);
     Some (q\<lparr>q_buf := buf, q_size := q_size q + 1\<rparr>)
   }"

text \<open>\<^verbatim>\<open>take\<close> returns \<^verbatim>\<open>nil\<close> on an empty queue; a panic is the outer \<^term>\<open>None\<close>.\<close>

definition queue_take :: "rawStreamQueue \<Rightarrow> (sref option \<times> rawStreamQueue) option" where
  "queue_take q =
     (if q_size q = 0 then Some (None, q)
      else do {
        stream \<leftarrow> index (q_buf q) (q_off q);
        buf \<leftarrow> store (q_buf q) (q_off q) None;
        let off = q_off q + 1;
        let size = q_size q - 1;
        Some (stream, q\<lparr>q_buf := buf, q_off := (if off = zlen buf \<or> size = 0 then 0 else off),
                        q_size := size\<rparr>)
      })"

section \<open>Invariant and contents\<close>

text \<open>
  As for the byte buffer, and the queued slots hold real pointers. \<open>queue_elems\<close> lists the
  queued streams from the front.
\<close>

definition queue_slots :: "rawStreamQueue \<Rightarrow> sref option list" where
  "queue_slots q = take (nat (q_size q)) (drop (nat (q_off q)) (q_buf q) @ take (nat (q_off q)) (q_buf q))"

definition queue_elems :: "rawStreamQueue \<Rightarrow> sref list" where
  "queue_elems q = map the (queue_slots q)"

definition queue_inv :: "rawStreamQueue \<Rightarrow> bool" where
  "queue_inv q \<longleftrightarrow> 0 \<le> q_off q \<and> 0 \<le> q_size q \<and> q_size q \<le> zlen (q_buf q) \<and>
     (q_off q < zlen (q_buf q) \<or> q_off q = 0) \<and> None \<notin> set (queue_slots q)"

lemma queue_flatI:
  assumes "q_buf q = pre @ map Some xs @ post" "q_off q = zlen pre" "q_size q = zlen xs"
    and "pre = [] \<or> xs \<noteq> [] \<or> post \<noteq> []"
  shows "queue_inv q \<and> queue_elems q = xs"
  using assms
  by (auto simp: queue_inv_def queue_slots_def queue_elems_def comp_def simp flip: of_nat_add)

lemma queue_wrapI:
  assumes "q_buf q = map Some lo @ gap @ map Some hi" "q_off q = zlen lo + zlen gap" "q_size q = zlen hi + zlen lo"
    and "hi \<noteq> []"
  shows "queue_inv q \<and> queue_elems q = hi @ lo"
  using assms by (auto simp: queue_inv_def queue_slots_def queue_elems_def comp_def nat_add_distrib)

lemma map_Some_the: "None \<notin> set xs \<Longrightarrow> map Some (map the xs) = xs"
  by (induction xs) auto

lemma queue_shape:
  assumes inv: "queue_inv q"
  obtains (flat) pre xs post where
      "q_buf q = pre @ map Some xs @ post" "q_off q = zlen pre" "q_size q = zlen xs"
      "queue_elems q = xs" "pre = [] \<or> xs \<noteq> [] \<or> post \<noteq> []"
    | (wrap) lo gap hi where
      "q_buf q = map Some lo @ gap @ map Some hi" "q_off q = zlen lo + zlen gap" "q_size q = zlen hi + zlen lo"
      "queue_elems q = hi @ lo" "lo \<noteq> []" "hi \<noteq> []"
proof -
  let ?o = "nat (q_off q)" and ?s = "nat (q_size q)" and ?buf = "q_buf q"
  have nn: "0 \<le> q_off q" "0 \<le> q_size q" "q_size q \<le> zlen ?buf" "q_off q \<le> zlen ?buf"
    and some: "None \<notin> set (queue_slots q)"
    using inv by (auto simp: queue_inv_def)
  show thesis
  proof (cases "q_off q + q_size q \<le> zlen ?buf")
    case True
    have slots: "queue_slots q = take ?s (drop ?o ?buf)"
      using nn True by (simp add: queue_slots_def)
    have "?buf = take ?o ?buf @ queue_slots q @ drop ?s (drop ?o ?buf)"
      unfolding slots by (simp only: append_take_drop_id)
    then have split: "?buf = take ?o ?buf @ map Some (queue_elems q) @ drop ?s (drop ?o ?buf)"
      unfolding queue_elems_def map_Some_the [OF some] .
    have len: "length (queue_elems q) = ?s" using nn True by (simp add: queue_elems_def slots)
    show thesis
      by (rule flat [OF split]) (use nn True len inv in \<open>auto simp: queue_inv_def\<close>)
  next
    case False
    define k where "k = ?o + ?s - length ?buf"
    have k: "k \<le> ?o" "0 < k" "?o < length ?buf" "int k = q_off q + q_size q - zlen ?buf"
      "length ?buf - ?o \<le> ?s"
      using nn False inv unfolding k_def queue_inv_def by linarith+
    have slots: "queue_slots q = drop ?o ?buf @ take k ?buf"
      using k nn by (simp add: queue_slots_def k_def add.commute)
    have "?buf = take k ?buf @ drop k (take ?o ?buf) @ drop ?o ?buf"
      using k by (metis append_assoc append_take_drop_id take_take min.absorb1)
    then have split: "?buf = map Some (map the (take k ?buf)) @ drop k (take ?o ?buf) @ map Some (map the (drop ?o ?buf))"
      using some unfolding slots
      by (subst map_Some_the, simp) (subst map_Some_the, simp_all)
    have lens: "length (take k ?buf) = k" "length (drop k (take ?o ?buf)) = ?o - k"
      "length (drop ?o ?buf) = length ?buf - ?o"
      using k by simp_all
    show thesis
    proof (rule wrap [OF split])
      show "queue_elems q = map the (drop ?o ?buf) @ map the (take k ?buf)"
        by (simp add: queue_elems_def slots)
      show "map the (take k ?buf) \<noteq> []" "map the (drop ?o ?buf) \<noteq> []" using k by auto
    qed (use nn False k lens in \<open>simp_all add: of_nat_diff\<close>)
  qed
qed

lemma queue_size_elems: "queue_inv q \<Longrightarrow> q_size q = zlen (queue_elems q)"
  by (auto simp: queue_inv_def queue_elems_def queue_slots_def min_def)

lemma empty_queue_inv [simp]: "queue_inv empty_queue" "queue_elems empty_queue = []"
  by (simp_all add: empty_queue_def queue_inv_def queue_elems_def queue_slots_def)

section \<open>The operations are queue operations\<close>

lemma queue_push_spec:
  assumes inv: "queue_inv q" and room: "length (queue_elems q) < 2 ^ 62"
  shows "\<exists>q'. queue_push q s = Some q' \<and> queue_inv q' \<and> queue_elems q' = queue_elems q @ [s]"
proof (cases "q_size q = zlen (q_buf q)")
  case True
  let ?N = "minpow2 (zlen (q_buf q) + 1)" and ?xs = "queue_elems q"
  from room have "zlen (queue_elems q) < int (2 ^ 62)" by (simp only: of_nat_less_iff)
  then have N: "zlen (q_buf q) + 1 \<le> ?N"
    using queue_size_elems [OF inv] True by (intro minpow2_ge) simp_all
  have len: "length ?xs = length (q_buf q)" using queue_size_elems [OF inv] True by simp
  then have "length ?xs + 1 \<le> length (replicate (nat ?N) None :: sref option list)" using N by simp
  then obtain z1 z2 z3 where z: "replicate (nat ?N) (None :: sref option) = z1 @ z2 @ z3" "length z1 = length ?xs" "length z2 = 1"
    by (rule split_list3)
  then obtain z where z2: "z2 = [z]" by (cases z2) auto
  have mk: "go_make None ?N = Some (z1 @ z2 @ z3)"
    using N unfolding z(1) [symmetric] by (simp add: go_make_def)
  let ?q' = "q\<lparr>q_buf := map Some ?xs @ Some s # z3, q_off := 0, q_size := q_size q + 1\<rparr>"
  have "queue_push q s = Some ?q'"
    using inv
  proof (cases q rule: queue_shape)
    case (flat pre xs post)
    then have [simp]: "pre = []" "post = []" using True by (auto simp: add_nonneg_eq_0_iff)
    have "copy (z1 @ z2 @ z3) 0 (zlen (z1 @ z2 @ z3)) (q_buf q) = Some (zlen (q_buf q), [] @ q_buf q @ z2 @ z3)"
      using z len by (intro copy_eq [of _ "[]" z1]) auto
    then show ?thesis using flat mk z2
      by (simp add: queue_push_def Let_def store_def list_update_append)
  next
    case (wrap lo gap hi)
    then have [simp]: "gap = []" using True by auto
    define y1 y2 where "y1 = take (length hi) z1" and "y2 = drop (length hi) z1"
    have y: "z1 = y1 @ y2" "length y1 = length hi" "length y2 = length lo"
      using z wrap by (simp_all add: y1_def y2_def)
    have c1: "copy (z1 @ z2 @ z3) 0 (zlen (z1 @ z2 @ z3)) (map Some hi) =
        Some (zlen (map Some hi), [] @ map Some hi @ (y2 @ z2 @ z3))"
      using y by (intro copy_eq [of _ "[]" y1]) auto
    have c2: "copy (map Some hi @ y2 @ z2 @ z3) (zlen hi) (zlen (map Some hi @ y2 @ z2 @ z3)) (map Some lo) =
        Some (zlen (map Some lo), map Some hi @ map Some lo @ (z2 @ z3))"
      using y by (intro copy_eq [of _ "map Some hi" y2]) auto
    have s1: "slice (q_buf q) (q_off q) (zlen (q_buf q)) = Some (map Some hi)"
      using wrap by (intro slice_eq [of _ "map Some lo" _ "[]"]) auto
    have s2: "slice (q_buf q) 0 (zlen lo) = Some (map Some lo)"
      using wrap by (intro slice_eq [of _ "[]"]) auto
    have pos: "q_off q + q_size q \<noteq> zlen (q_buf q)" using wrap by simp
    have st: "store (map Some hi @ map Some lo @ z2 @ z3) (zlen hi + zlen lo) (Some s) =
        Some (map Some hi @ map Some lo @ Some s # z3)"
      using z2 by (simp add: store_def list_update_append nat_add_distrib)
    show ?thesis using wrap True pos mk c1 c2 s1 s2 st
      by (simp add: queue_push_def Let_def del: length_append)
  qed
  moreover have "queue_inv ?q' \<and> queue_elems ?q' = ?xs @ [s]"
    using queue_size_elems [OF inv] by (intro queue_flatI [of _ "[]" _ z3]) auto
  ultimately show ?thesis by blast
next
  case free: False
  from inv show ?thesis
  proof (cases q rule: queue_shape)
    case (flat pre xs post)
    show ?thesis
    proof (cases post)
      case Nil
      with flat free obtain p ps where p: "pre = p # ps" by (cases pre) auto
      let ?q' = "q\<lparr>q_buf := Some s # ps @ map Some xs, q_size := q_size q + 1\<rparr>"
      have "queue_push q s = Some ?q'"
        using flat free Nil p by (simp add: queue_push_def Let_def store_def)
      moreover have "queue_inv ?q' \<and> queue_elems ?q' = xs @ [s]"
        using flat Nil p queue_wrapI [of ?q' "[s]" ps xs] queue_flatI [of ?q' "[]" "[s]" ps]
        by (cases "xs = []") auto
      ultimately show ?thesis using flat by auto
    next
      case (Cons z zs)
      let ?q' = "q\<lparr>q_buf := pre @ map Some (xs @ [s]) @ zs, q_size := q_size q + 1\<rparr>"
      have "queue_push q s = Some ?q'"
        using flat free Cons by (simp add: queue_push_def Let_def store_def nat_add_distrib list_update_append)
      moreover have "queue_inv ?q' \<and> queue_elems ?q' = xs @ [s]"
        using flat by (intro queue_flatI [of _ pre _ zs]) auto
      ultimately show ?thesis using flat by auto
    qed
  next
    case (wrap lo gap hi)
    with free obtain z zs where g: "gap = z # zs" by (cases gap) auto
    let ?q' = "q\<lparr>q_buf := map Some (lo @ [s]) @ zs @ map Some hi, q_size := q_size q + 1\<rparr>"
    have "queue_push q s = Some ?q'"
      using wrap free g by (simp add: queue_push_def Let_def store_def list_update_append)
    moreover have "queue_inv ?q' \<and> queue_elems ?q' = hi @ lo @ [s]"
      using wrap g queue_wrapI [of ?q' "lo @ [s]" zs hi] by auto
    ultimately show ?thesis using wrap by auto
  qed
qed

lemma queue_take_spec:
  assumes inv: "queue_inv q" and ne: "queue_elems q \<noteq> []"
  shows "\<exists>q'. queue_take q = Some (Some (hd (queue_elems q)), q') \<and> queue_inv q' \<and>
    queue_elems q' = tl (queue_elems q)"
  using inv
proof (cases q rule: queue_shape)
  case (flat pre xs post)
  with ne obtain c cs where xs: "xs = c # cs" by (cases xs) auto
  let ?buf = "pre @ None # map Some cs @ post"
  let ?q' = "q\<lparr>q_buf := ?buf, q_off := (if cs = [] then 0 else zlen pre + 1), q_size := zlen cs\<rparr>"
  have "queue_take q = Some (Some c, ?q')"
    using flat xs by (auto simp: queue_take_def slice_simps list_update_append add_nonneg_eq_0_iff)
  moreover have "queue_inv ?q' \<and> queue_elems ?q' = cs"
    using queue_flatI [of ?q' "pre @ [None]" cs post] queue_flatI [of ?q' "[]" "[]" ?buf]
    by (cases "cs = []") auto
  ultimately show ?thesis using flat xs by auto
next
  case (wrap lo gap hi)
  then obtain c cs where hi: "hi = c # cs" by (cases hi) auto
  let ?buf = "map Some lo @ gap @ None # map Some cs"
  let ?q' = "q\<lparr>q_buf := ?buf, q_off := (if cs = [] then 0 else zlen lo + zlen gap + 1), q_size := zlen cs + zlen lo\<rparr>"
  have "queue_take q = Some (Some c, ?q')"
    using wrap hi by (auto simp: queue_take_def slice_simps nth_append list_update_append add_nonneg_eq_0_iff)
  moreover have "queue_inv ?q' \<and> queue_elems ?q' = cs @ lo"
    using queue_wrapI [of ?q' lo "gap @ [None]" cs] queue_flatI [of ?q' "[]" lo "gap @ [None]"]
    by (cases "cs = []") auto
  ultimately show ?thesis using wrap hi by auto
qed

lemma queue_take_empty: "queue_inv q \<Longrightarrow> queue_elems q = [] \<Longrightarrow> queue_take q = Some (None, q)"
  using queue_size_elems [of q] by (simp add: queue_take_def)

text \<open>The dequeue operation in the shape of the interface: a \<^verbatim>\<open>nil\<close> result is no element.\<close>

definition queue_get :: "rawStreamQueue \<Rightarrow> (sref \<times> rawStreamQueue) option" where
  "queue_get q = (case queue_take q of Some (Some s, q') \<Rightarrow> Some (s, q') | _ \<Rightarrow> None)"

interpretation squeue: fifo queue_inv queue_elems "2 ^ 62" queue_push queue_get
proof
  fix q :: rawStreamQueue and s :: sref
  assume inv: "queue_inv q"
  show "length (queue_elems q) < 2 ^ 62 \<Longrightarrow>
      \<exists>q'. queue_push q s = Some q' \<and> queue_inv q' \<and> queue_elems q' = queue_elems q @ [s]"
    by (rule queue_push_spec [OF inv])
  show "queue_elems q \<noteq> [] \<Longrightarrow>
      \<exists>q'. queue_get q = Some (hd (queue_elems q), q') \<and> queue_inv q' \<and> queue_elems q' = tl (queue_elems q)"
    using queue_take_spec [OF inv] by (auto simp: queue_get_def)
qed

end
