(* ===== verification/Conn_Streams.thy ===== *)
theory Conn_Streams
  imports Frames Stream_Queue
begin

text \<open>
  The stream table of \<^verbatim>\<open>rawconn_streams.go\<close>: which stream ids are live, and the allocation of
  new ids. The methods that call into streams (\<^verbatim>\<open>failLocked\<close>, \<^verbatim>\<open>changeWriteWindowLocked\<close>)
  are in the theory of the connection.
\<close>

unbundle bit_operations_syntax

record rawConnStreams =
  st_err :: "go_error option"
  st_flag :: u32
  st_next :: u32
  st_live :: "u32 \<rightharpoonup> sref"

definition streams_init :: "bool \<Rightarrow> rawConnStreams" where
  "streams_init server =
     (if server then \<lparr>st_err = None, st_flag = 0, st_next = 2, st_live = Map.empty\<rparr>
      else \<lparr>st_err = None, st_flag = 1, st_next = 1, st_live = Map.empty\<rparr>)"

definition isClient :: "rawConnStreams \<Rightarrow> bool" where
  "isClient st \<longleftrightarrow> st_flag st \<noteq> 0"

definition isOwnedID :: "rawConnStreams \<Rightarrow> u32 \<Rightarrow> bool" where
  "isOwnedID st sid \<longleftrightarrow> sid AND 1 = st_flag st"

text \<open>The loop of \<^verbatim>\<open>allocateLocked\<close>; it returns the id (or the error) and the new \<^verbatim>\<open>next\<close>.\<close>

function allocate_loop :: "(u32 \<rightharpoonup> sref) \<Rightarrow> bool \<Rightarrow> u32 \<Rightarrow> (go_error + u32) \<times> u32" where
  "allocate_loop live wrapped next =
     (let streamID = next; next = next + 2
      in if MaxStreamID < next then
           if wrapped then (Inl ErrNoFreeStreamID, next)
           else let next = next AND MaxStreamID; next = (if next = 0 then 2 else next)
             in if live streamID = None then (Inr streamID, next) else allocate_loop live True next
         else if live streamID = None then (Inr streamID, next)
         else allocate_loop live wrapped next)"
  by pat_completeness auto

definition allocate_measure :: "bool \<Rightarrow> u32 \<Rightarrow> nat" where
  "allocate_measure wrapped next =
     (if wrapped then 0 else 2 ^ 34) + (if 2 ^ 32 - 2 \<le> unat next then 2 ^ 33 else 2 ^ 32 - unat next)"

lemma unat_add_2: "unat ((x :: u32) + 2) = (if 2 ^ 32 - 2 \<le> unat x then unat x + 2 - 2 ^ 32 else unat x + 2)"
proof -
  have lt: "unat x < 2 ^ 32" using unsigned_less [of x] by simp
  have eq: "unat (x + 2) = (unat x + 2) mod 2 ^ 32" by (simp only: unat_word_ariths) simp
  show ?thesis
  proof (cases "2 ^ 32 - 2 \<le> unat x")
    case True
    then have "unat x + 2 - 2 ^ 32 < 2 ^ 32" "2 ^ 32 \<le> unat x + 2" using lt by simp_all
    with True show ?thesis unfolding eq by (simp only: le_mod_geq mod_less if_True)
  next
    case False
    then have "unat x + 2 < 2 ^ 32" by simp
    with False show ?thesis unfolding eq by (simp only: mod_less if_False)
  qed
qed

lemma unat_masked: "unat ((x :: u32) AND MaxStreamID) < 2 ^ 31"
proof -
  have "x AND MaxStreamID = take_bit 31 x" by (simp add: take_bit_eq_mask mask_eq_exp_minus_1)
  then show ?thesis by (simp only: unsigned_take_bit_eq take_bit_nat_less_exp)
qed

lemma allocate_measure_wrap:
  "allocate_measure True 2 < allocate_measure False y"
  "allocate_measure True (x AND MaxStreamID) < allocate_measure False y"
  using unat_masked [of x] by (simp_all add: allocate_measure_def)

lemma allocate_measure_step:
  assumes "\<not> MaxStreamID < x + 2"
  shows "allocate_measure w (x + 2) < allocate_measure w x"
proof -
  have "unat (x + 2) < 2 ^ 31" using assms by (simp add: word_less_nat_alt not_less)
  then show ?thesis by (auto simp: allocate_measure_def unat_add_2 split: if_splits)
qed

termination allocate_loop
  by (relation "measure (\<lambda>(live, wrapped, next). allocate_measure wrapped next)")
    (auto simp: allocate_measure_step allocate_measure_wrap)

declare allocate_loop.simps [simp del]

definition allocateLocked :: "rawConnStreams \<Rightarrow> (go_error + u32) \<times> rawConnStreams" where
  "allocateLocked st =
     (case st_err st of
        Some e \<Rightarrow> (Inl e, st)
      | None \<Rightarrow> let (res, next) = allocate_loop (st_live st) False (st_next st) in (res, st\<lparr>st_next := next\<rparr>))"

definition addLocked :: "rawConnStreams \<Rightarrow> u32 \<Rightarrow> sref \<Rightarrow> rawConnStreams" where
  "addLocked st sid s = st\<lparr>st_live := (st_live st)(sid \<mapsto> s)\<rparr>"

definition streams_find :: "rawConnStreams \<Rightarrow> u32 \<Rightarrow> sref option" where
  "streams_find st sid = st_live st sid"

definition streams_remove :: "rawConnStreams \<Rightarrow> u32 \<Rightarrow> sref \<Rightarrow> rawConnStreams" where
  "streams_remove st sid s =
     (if st_live st sid = Some s then st\<lparr>st_live := (st_live st)(sid := None)\<rparr> else st)"

section \<open>Allocation\<close>

text \<open>The ids of one side of a connection: positive, at most \<^verbatim>\<open>MaxStreamID\<close>, of one parity.\<close>

definition own_id :: "nat \<Rightarrow> u32 \<Rightarrow> bool" where
  "own_id p x \<longleftrightarrow> unat x mod 2 = p \<and> 0 < unat x \<and> unat x < 2 ^ 31"

lemma own_id_unique: "own_id p x \<Longrightarrow> unat x = unat y \<Longrightarrow> y = x"
  by (simp add: word_unat_eq_iff)

lemma unat_masked_wrap:
  assumes "2 ^ 31 \<le> unat (x :: u32)"
  shows "unat (x AND MaxStreamID) = unat x - 2 ^ 31"
proof -
  have lt: "unat x < 2 ^ 32" using unsigned_less [of x] by simp
  have "x AND MaxStreamID = take_bit 31 x" by (simp add: take_bit_eq_mask mask_eq_exp_minus_1)
  then have "unat (x AND MaxStreamID) = take_bit 31 (unat x)" by (simp only: unsigned_take_bit_eq)
  moreover have "unat x - 2 ^ 31 < 2 ^ 31" using lt by simp
  ultimately show ?thesis using assms by (simp only: take_bit_eq_mod le_mod_geq mod_less)
qed

lemma over_max: "MaxStreamID < (x :: u32) \<longleftrightarrow> 2 ^ 31 \<le> unat x"
  by (auto simp: word_less_nat_alt)

text \<open>The value of \<^verbatim>\<open>next\<close> after a wrap is the first id of the side.\<close>

lemma own_id_wrap:
  assumes "own_id p x" "2 ^ 31 \<le> unat (x + 2)"
  defines "y \<equiv> if x + 2 AND MaxStreamID = 0 then 2 else x + 2 AND MaxStreamID"
  shows "own_id p y" "unat y \<le> 2" "2 ^ 31 - 2 \<le> unat x"
proof -
  have x: "unat x < 2 ^ 31" "unat x mod 2 = p" using assms(1) by (auto simp: own_id_def)
  have x2: "unat (x + 2) = unat x + 2" using x by (simp add: unat_add_2)
  show ge: "2 ^ 31 - 2 \<le> unat x" using assms(2) x2 by simp
  have m: "unat (x + 2 AND MaxStreamID) = unat x + 2 - 2 ^ 31" using unat_masked_wrap [OF assms(2)] x2 by simp
  have "unat x = 2 ^ 31 - 2 \<or> unat x = 2 ^ 31 - 1" using ge x by auto
  then show "own_id p y" "unat y \<le> 2"
    using m x by (auto simp: own_id_def y_def word_unat_eq_iff)
qed

lemma own_id_next:
  assumes "own_id p x" "\<not> 2 ^ 31 \<le> unat (x + 2)"
  shows "own_id p (x + 2)" "unat (x + 2) = unat x + 2"
proof -
  have "unat x < 2 ^ 31" using assms(1) by (auto simp: own_id_def)
  then show x2: "unat (x + 2) = unat x + 2" by (simp add: unat_add_2)
  then show "own_id p (x + 2)" using assms by (auto simp: own_id_def)
qed

lemma parity_gap: "(a :: nat) mod 2 = b mod 2 \<Longrightarrow> a < b \<Longrightarrow> a + 2 \<le> b"
  by presburger

lemma own_id_between:
  assumes "own_id p x" "own_id p i" "unat x \<le> unat i" "i \<noteq> x"
  shows "unat x + 2 \<le> unat i"
proof -
  have "unat x \<noteq> unat i" using assms(4) by (auto simp only: word_unat_eq_iff)
  with assms show ?thesis by (intro parity_gap) (simp_all add: own_id_def)
qed

lemma own_id_first: "own_id p y \<Longrightarrow> unat y \<le> 2 \<Longrightarrow> own_id p i \<Longrightarrow> unat y \<le> unat i"
  using parity_gap [of "unat i" "unat y"] by (cases "unat i < unat y") (simp_all add: own_id_def)

lemma allocate_loop_spec:
  assumes "own_id p next"
  shows "case allocate_loop live wrapped next of
      (Inr sid, next') \<Rightarrow> own_id p sid \<and> live sid = None \<and> own_id p next'
    | (Inl e, next') \<Rightarrow> e = ErrNoFreeStreamID \<and> 2 ^ 31 \<le> unat next' \<and> unat next' < 2 ^ 31 + 2 \<and> unat next' mod 2 = p \<and>
        (\<forall>i. own_id p i \<and> unat next \<le> unat i \<and> (unat i < 2 ^ 31 - 2 \<or> \<not> wrapped) \<longrightarrow> live i \<noteq> None) \<and>
        (\<not> wrapped \<longrightarrow> (\<forall>i. own_id p i \<longrightarrow> live i \<noteq> None))"
  using assms
proof (induction live wrapped "next" rule: allocate_loop.induct)
  case (1 live wrapped x)
  note x = \<open>own_id p x\<close>
  let ?y = "if x + 2 AND MaxStreamID = 0 then 2 else x + 2 AND MaxStreamID"
  show ?case
  proof (cases "2 ^ 31 \<le> unat (x + 2)")
    case over: True
    note w = own_id_wrap [OF x over]
    show ?thesis
    proof (cases wrapped)
      case True
      have "unat x < 2 ^ 31" "unat x mod 2 = p" using x by (auto simp: own_id_def)
      moreover have "unat (x + 2) = unat x + 2" using calculation by (simp add: unat_add_2)
      ultimately show ?thesis using True over w(3)
        by (subst allocate_loop.simps) (auto simp: over_max)
    next
      case False
      show ?thesis
      proof (cases "live x = None")
        case True
        then show ?thesis using False over x w
          by (subst allocate_loop.simps) (simp add: over_max Let_def)
      next
        case taken: False
        have step: "allocate_loop live wrapped x = allocate_loop live True ?y"
          using False over taken by (subst allocate_loop.simps) (auto simp: over_max Let_def)
        have IH: "case allocate_loop live True ?y of
            (Inr sid, next') \<Rightarrow> own_id p sid \<and> live sid = None \<and> own_id p next'
          | (Inl e, next') \<Rightarrow> e = ErrNoFreeStreamID \<and> 2 ^ 31 \<le> unat next' \<and> unat next' < 2 ^ 31 + 2 \<and> unat next' mod 2 = p \<and>
              (\<forall>i. own_id p i \<and> unat ?y \<le> unat i \<and> unat i < 2 ^ 31 - 2 \<longrightarrow> live i \<noteq> None)"
          using "1.IH"(1) [OF refl refl over [folded over_max] False refl refl taken w(1)] by (simp only: simp_thms)
        have all: "live i \<noteq> None" if "own_id p i" "\<forall>i. own_id p i \<and> unat ?y \<le> unat i \<and> unat i < 2 ^ 31 - 2 \<longrightarrow> live i \<noteq> None" for i
        proof (cases "i = x")
          case False
          have "unat i < 2 ^ 31 - 2"
            using own_id_between [OF x that(1)] own_id_between [OF that(1) x] False w(3) x that(1)
            by (cases "unat x \<le> unat i") (simp_all add: own_id_def)
          moreover have "unat ?y \<le> unat i"
            by (rule own_id_first [OF w(1,2) that(1)])
          ultimately show ?thesis using that by blast
        qed (simp add: taken)
        obtain res nxt where r: "allocate_loop live True ?y = (res, nxt)" by fastforce
        show ?thesis unfolding step r using IH [unfolded r] False all
          by (cases res) (simp_all only: prod.case sum.case simp_thms, blast)
      qed
    qed
  next
    case False
    note n = own_id_next [OF x False]
    show ?thesis
    proof (cases "live x = None")
      case True
      then show ?thesis using False x n by (subst allocate_loop.simps) (simp add: over_max Let_def)
    next
      case taken: False
      have step: "allocate_loop live wrapped x = allocate_loop live wrapped (x + 2)"
        using False taken by (subst allocate_loop.simps) (auto simp: over_max Let_def)
      note IH = "1.IH"(2) [OF refl refl _ taken n(1)]
      have le: "unat (x + 2) \<le> unat i" if "own_id p i" "unat x \<le> unat i" "i \<noteq> x" for i
        using own_id_between [OF x that] n(2) by simp
      obtain res nxt where r: "allocate_loop live wrapped (x + 2) = (res, nxt)" by fastforce
      show ?thesis unfolding step r using IH [unfolded over_max r, OF False] taken le
        by (cases res) (simp_all only: prod.case sum.case simp_thms, blast)
    qed
  qed
qed

definition streams_inv :: "rawConnStreams \<Rightarrow> bool" where
  "streams_inv st \<longleftrightarrow> (st_flag st = 0 \<or> st_flag st = 1) \<and> own_id (unat (st_flag st)) (st_next st)"

lemma streams_init_inv: "streams_inv (streams_init server)"
  by (simp add: streams_init_def streams_inv_def own_id_def)

lemma unat_and_1: "unat ((x :: u32) AND 1) = unat x mod 2"
  by (simp add: and_one_eq unat_mod_distrib)

lemma own_id_isOwnedID:
  assumes "streams_inv st"
  shows "own_id (unat (st_flag st)) x \<longleftrightarrow> isOwnedID st x \<and> 0 < x \<and> x \<le> MaxStreamID"
proof -
  have "isOwnedID st x \<longleftrightarrow> unat x mod 2 = unat (st_flag st)"
    by (simp only: isOwnedID_def word_unat_eq_iff unat_and_1)
  then show ?thesis by (auto simp: own_id_def word_less_nat_alt word_le_nat_alt)
qed

text \<open>
  Stream ids are allocated correctly: on a healthy connection \<^verbatim>\<open>allocateLocked\<close> returns
  within finitely many steps, with an id that belongs to this side, is in range and is not live,
  keeping the table ready for the next call; it reports \<^verbatim>\<open>ErrNoFreeStreamID\<close> only when every
  single id of this side is live.
\<close>

theorem allocateLocked_spec:
  assumes "streams_inv st" and "st_err st = None" and "allocateLocked st = (res, st')"
  shows "case res of
      Inr sid \<Rightarrow> isOwnedID st sid \<and> 0 < sid \<and> sid \<le> MaxStreamID \<and> st_live st sid = None \<and> streams_inv st' \<and> st_live st' = st_live st
    | Inl e \<Rightarrow> e = ErrNoFreeStreamID \<and>
        (\<forall>sid. isOwnedID st sid \<and> 0 < sid \<and> sid \<le> MaxStreamID \<longrightarrow> st_live st sid \<noteq> None)"
proof -
  have own: "own_id (unat (st_flag st)) (st_next st)" using assms(1) by (simp add: streams_inv_def)
  obtain nxt where r: "allocate_loop (st_live st) False (st_next st) = (res, nxt)" "st' = st\<lparr>st_next := nxt\<rparr>"
    using assms(2,3) by (auto simp: allocateLocked_def split: prod.splits)
  note sp = allocate_loop_spec [OF own, where live = "st_live st" and wrapped = False, unfolded r(1)]
  show ?thesis
  proof (cases res)
    case (Inl e)
    with sp own_id_isOwnedID [OF assms(1)] show ?thesis by auto
  next
    case (Inr sid)
    with sp own_id_isOwnedID [OF assms(1)] assms(1) r(2) show ?thesis by (auto simp: streams_inv_def)
  qed
qed

theorem allocateLocked_spec_witness:
  "allocateLocked ((streams_init False)\<lparr>st_live := [1 \<mapsto> 5, 3 \<mapsto> 6]\<rparr>)
     = (Inr 5, (streams_init False)\<lparr>st_live := [1 \<mapsto> 5, 3 \<mapsto> 6], st_next := 7\<rparr>) \<and>
   isOwnedID (streams_init False) 5 \<and> [1 \<mapsto> 5, 3 \<mapsto> 6 :: sref] (5 :: u32) = None"
proof -
  let ?st = "(streams_init False)\<lparr>st_live := [1 \<mapsto> 5, 3 \<mapsto> 6]\<rparr>"
  have inv: "streams_inv ?st" "st_err ?st = None" using streams_init_inv [of False]
    by (simp_all add: streams_inv_def streams_init_def)
  have "allocateLocked ?st = (Inr 5, ?st\<lparr>st_next := 7\<rparr>)"
    by (simp add: allocateLocked_def streams_init_def allocate_loop.simps)
  with allocateLocked_spec [OF inv this] show ?thesis by (simp add: isOwnedID_def streams_init_def)
qed

lemma allocate_loop_all_live:
  assumes "own_id p next" "\<forall>i. live i \<noteq> None"
  shows "\<exists>next'. allocate_loop live wrapped next = (Inl ErrNoFreeStreamID, next') \<and>
    2 ^ 31 \<le> unat next' \<and> unat next' < 2 ^ 31 + 2"
proof -
  obtain res nxt where "allocate_loop live wrapped next = (res, nxt)" by fastforce
  with allocate_loop_spec [OF assms(1), where live = live and wrapped = wrapped] assms(2) show ?thesis by (cases res) auto
qed

text \<open>
  After a failed allocation the table is damaged: the error path leaves \<^verbatim>\<open>next\<close> above
  \<^verbatim>\<open>MaxStreamID\<close>, and as soon as streams are closed the following call hands out an id with the
  top bit set, in a stream whose first DATA frame every peer rejects as \<^verbatim>\<open>EINVALIDFRAME\<close>.
\<close>

theorem allocation_after_failure:
  assumes "streams_inv st" and "st_err st = None" and "allocateLocked st = (Inl ErrNoFreeStreamID, st')"
    and "live (st_next st') = None"
  shows "\<exists>sid st''. allocateLocked (st'\<lparr>st_live := live\<rparr>) = (Inr sid, st'') \<and> MaxStreamID < sid \<and>
    parseDataFrame \<lparr>h_Type = FrameData, h_Flags = FlagDataOpen, h_Length = 0, h_StreamID = sid\<rparr> []
      = Some (Inl (ErrCode EINVALIDFRAME))"
proof -
  have own: "own_id (unat (st_flag st)) (st_next st)" using assms(1) by (simp add: streams_inv_def)
  obtain x where r: "allocate_loop (st_live st) False (st_next st) = (Inl ErrNoFreeStreamID, x)" "st' = st\<lparr>st_next := x\<rparr>"
    using assms(2,3) by (auto simp: allocateLocked_def split: prod.splits)
  have x: "2 ^ 31 \<le> unat x" "unat x < 2 ^ 31 + 2"
    using allocate_loop_spec [OF own, where live = "st_live st" and wrapped = False, unfolded r(1)] by auto
  have "unat (x + 2) = unat x + 2" using x by (simp add: unat_add_2)
  then have "MaxStreamID < x + 2" using x by (simp add: over_max)
  then have "\<exists>st''. allocateLocked (st'\<lparr>st_live := live\<rparr>) = (Inr x, st'')"
    using assms(2,4) r(2) by (simp add: allocateLocked_def allocate_loop.simps [of live False x] Let_def)
  moreover have "x AND 0x80000000 \<noteq> 0"
  proof -
    have "unat x = 2147483648 \<or> unat x = 2147483649" using x by auto
    then have "x = 0x80000000 \<or> x = 0x80000001" by (auto simp: word_unat_eq_iff)
    then show ?thesis by auto
  qed
  ultimately show ?thesis using x by (auto simp: over_max parseDataFrame_def)
qed

theorem allocation_after_failure_witness:
  "\<exists>st'. allocateLocked ((streams_init True)\<lparr>st_live := (\<lambda>_. Some 0)\<rparr>) = (Inl ErrNoFreeStreamID, st') \<and>
     (\<exists>sid st''. allocateLocked (st'\<lparr>st_live := Map.empty\<rparr>) = (Inr sid, st'') \<and> MaxStreamID < sid)"
proof -
  let ?st = "(streams_init True)\<lparr>st_live := (\<lambda>_. Some 0)\<rparr>"
  have inv: "streams_inv ?st" "st_err ?st = None" using streams_init_inv [of True]
    by (simp_all add: streams_inv_def streams_init_def)
  then have "own_id (unat (st_flag ?st)) (st_next ?st)" by (simp add: streams_inv_def)
  then obtain st' where st': "allocateLocked ?st = (Inl ErrNoFreeStreamID, st')"
    using allocate_loop_all_live [of _ "st_next ?st" "\<lambda>_. Some 0" False] inv(2)
    by (force simp: allocateLocked_def)
  from allocation_after_failure [OF inv this, of Map.empty] show ?thesis using st' by auto
qed

end
