(* ===== verification/Cond.thy ===== *)
theory Cond
  imports Copper_Errors
begin

text \<open>
  The condition variable with a deadline of \<^verbatim>\<open>cond.go\<close>. A blocking \<^verbatim>\<open>Wait\<close> is split at the
  point where the lock is released: \<open>Wait_enter\<close> is what happens before the goroutine blocks and
  \<open>Wait_return\<close> what happens after it has been woken. Times are nanoseconds; the zero
  \<^verbatim>\<open>time.Time\<close> is \<^term>\<open>None\<close>. A \<^verbatim>\<open>Broadcast\<close> has no lasting effect in Go; the model
  counts them, so that a lemma can say that the waiters were woken.
\<close>

type_synonym time = int

text \<open>
  \<open>c_exp\<close> is the current expiration (\<^verbatim>\<open>nil\<close> is \<^term>\<open>None\<close>), represented by its field
  \<^verbatim>\<open>expired\<close>.
\<close>

record condWithDeadline =
  c_deadline :: "time option"
  c_exp :: "bool option"
  c_broadcasts :: nat

definition cond_init :: condWithDeadline where
  "cond_init = \<lparr>c_deadline = None, c_exp = None, c_broadcasts = 0\<rparr>"

definition Broadcast :: "condWithDeadline \<Rightarrow> condWithDeadline" where
  "Broadcast c = c\<lparr>c_broadcasts := c_broadcasts c + 1\<rparr>"

text \<open>The timer of the current expiration fires.\<close>

definition expiration_callback :: "condWithDeadline \<Rightarrow> condWithDeadline" where
  "expiration_callback c = (if c_exp c = Some False then Broadcast (c\<lparr>c_exp := Some True\<rparr>) else c)"

definition setDeadline :: "condWithDeadline \<Rightarrow> time option \<Rightarrow> condWithDeadline" where
  "setDeadline c t =
     (if c_deadline c \<noteq> t then
        let c = c\<lparr>c_exp := None, c_deadline := t\<rparr>
        in if t \<noteq> None then Broadcast c else c
      else c)"

text \<open>Either an immediate error or the condition on which the goroutine now blocks.\<close>

definition Wait_enter :: "time \<Rightarrow> condWithDeadline \<Rightarrow> go_error + condWithDeadline" where
  "Wait_enter now c =
     (case (c_exp c, c_deadline c) of
        (None, Some t) \<Rightarrow> if t - now \<le> 0 then Inl TimeoutError else Inr (c\<lparr>c_exp := Some False\<rparr>)
      | _ \<Rightarrow> Inr c)"

definition Wait_return :: "condWithDeadline \<Rightarrow> go_error option" where
  "Wait_return c = (if c_exp c = Some True then Some TimeoutError else None)"

section \<open>Properties\<close>

lemma Broadcast_simps [simp]:
  "c_deadline (Broadcast c) = c_deadline c" "c_exp (Broadcast c) = c_exp c"
  "c_broadcasts (Broadcast c) = Suc (c_broadcasts c)"
  by (simp_all add: Broadcast_def)

lemma Wait_enter_broadcasts: "Wait_enter now c = Inr c' \<Longrightarrow> c_broadcasts c' = c_broadcasts c"
  by (auto simp: Wait_enter_def split: option.splits if_splits)

text \<open>
  The first wait after a deadline is set honours it: it fails at once if the deadline has
  passed, and otherwise blocks with a running timer whose firing wakes the waiter with a timeout.
\<close>

theorem deadline_honoured:
  assumes "c_deadline c \<noteq> Some t"
  shows "if t \<le> now then Wait_enter now (setDeadline c (Some t)) = Inl TimeoutError
    else \<exists>c'. Wait_enter now (setDeadline c (Some t)) = Inr c' \<and>
       Wait_return (expiration_callback c') = Some TimeoutError \<and>
       c_broadcasts (expiration_callback c') > c_broadcasts c'"
  using assms by (simp add: Wait_enter_def setDeadline_def Let_def expiration_callback_def Wait_return_def)

theorem deadline_honoured_witness:
  "Wait_enter 10 (setDeadline cond_init (Some 10)) = Inl TimeoutError \<and>
   (\<exists>c'. Wait_enter 9 (setDeadline cond_init (Some 10)) = Inr c' \<and>
      Wait_return (expiration_callback c') = Some TimeoutError \<and>
      c_broadcasts (expiration_callback c') > c_broadcasts c')"
  using deadline_honoured [of cond_init 10 10] deadline_honoured [of cond_init 10 9]
  by (simp add: cond_init_def)

text \<open>
  An expired deadline is reported only once: after the timer has fired, the next wait does not
  fail but blocks on the condition, at any later time, although the deadline is still in the past.
\<close>

theorem expired_deadline_blocks:
  assumes "Wait_enter now c = Inr c'" and "c_exp c' = Some False" and "c'' = expiration_callback c'"
  shows "Wait_return c'' = Some TimeoutError \<and> Wait_enter later c'' = Inr c''"
  using assms by (simp add: expiration_callback_def Wait_return_def Wait_enter_def)

theorem expired_deadline_blocks_witness:
  "Wait_enter 5 (setDeadline cond_init (Some 10)) = Inr \<lparr>c_deadline = Some 10, c_exp = Some False, c_broadcasts = 1\<rparr> \<and>
   Wait_enter 1000 (expiration_callback \<lparr>c_deadline = Some 10, c_exp = Some False, c_broadcasts = 1\<rparr>)
     = Inr (expiration_callback \<lparr>c_deadline = Some 10, c_exp = Some False, c_broadcasts = 1\<rparr>)"
proof -
  have e: "Wait_enter 5 (setDeadline cond_init (Some 10)) = Inr \<lparr>c_deadline = Some 10, c_exp = Some False, c_broadcasts = 1\<rparr>"
    by (simp add: Wait_enter_def setDeadline_def cond_init_def Broadcast_def)
  with expired_deadline_blocks [OF e _ refl, of 1000] show ?thesis by simp
qed

end
