(* ===== verification/Outgoing.thy ===== *)
theory Outgoing
  imports Conn_Streams Cond
begin

text \<open>
  The outgoing side of a connection, \<^verbatim>\<open>rawconn_outgoing.go\<close>: what waits to be written. The
  write loop itself (\<^verbatim>\<open>writeFrames\<close>) is in the theory of the connection.
\<close>

record rawConnOutgoing =
  o_err :: "go_error option"
  o_writeready :: bool
  o_blocked :: int
  o_pingAcks :: "PingData list"
  o_pingQueue :: "PingData list"
  o_settingsAcks :: int
  o_ctrl :: rawStreamQueue
  o_data :: rawStreamQueue

definition outgoing_init :: rawConnOutgoing where
  "outgoing_init = \<lparr>o_err = None, o_writeready = False, o_blocked = 0, o_pingAcks = [], o_pingQueue = [],
     o_settingsAcks = 0, o_ctrl = empty_queue, o_data = empty_queue\<rparr>"

definition wakeupLocked :: "rawConnOutgoing \<Rightarrow> rawConnOutgoing" where
  "wakeupLocked out = out\<lparr>o_writeready := True\<rparr>"

definition outgoing_wakeup :: "rawConnOutgoing \<Rightarrow> rawConnOutgoing" where
  "outgoing_wakeup out = wakeupLocked out"

definition outgoing_fail :: "rawConnOutgoing \<Rightarrow> go_error \<Rightarrow> rawConnOutgoing" where
  "outgoing_fail out err =
     (if o_err out = None
      then wakeupLocked (out\<lparr>o_err := Some (if err = ErrCode ECONNCLOSED then ErrCode ECONNSHUTDOWN else err)\<rparr>)
      else out)"

definition addPingAck :: "rawConnOutgoing \<Rightarrow> PingData \<Rightarrow> rawConnOutgoing" where
  "addPingAck out value = wakeupLocked (out\<lparr>o_pingAcks := o_pingAcks out @ [value]\<rparr>)"

definition addPingQueue :: "rawConnOutgoing \<Rightarrow> PingData \<Rightarrow> rawConnOutgoing" where
  "addPingQueue out value =
     (if o_err out = None then wakeupLocked (out\<lparr>o_pingQueue := o_pingQueue out @ [value]\<rparr>) else out)"

definition clearPingQueue :: "rawConnOutgoing \<Rightarrow> rawConnOutgoing" where
  "clearPingQueue out = out\<lparr>o_pingQueue := []\<rparr>"

definition addSettingsAck :: "rawConnOutgoing \<Rightarrow> rawConnOutgoing" where
  "addSettingsAck out = wakeupLocked (out\<lparr>o_settingsAcks := o_settingsAcks out + 1\<rparr>)"

definition blockWrite :: "rawConnOutgoing \<Rightarrow> rawConnOutgoing" where
  "blockWrite out = out\<lparr>o_blocked := o_blocked out + 1\<rparr>"

definition unblockWrite :: "rawConnOutgoing \<Rightarrow> rawConnOutgoing" where
  "unblockWrite out = out\<lparr>o_blocked := o_blocked out - 1\<rparr>"

lemmas outgoing_defs = outgoing_wakeup_def outgoing_fail_def addPingAck_def addPingQueue_def
  clearPingQueue_def addSettingsAck_def wakeupLocked_def

text \<open>What is still to be written, and the flag that tells the write loop so.\<close>

definition outgoing_busy :: "rawConnOutgoing \<Rightarrow> bool" where
  "outgoing_busy out \<longleftrightarrow> o_err out \<noteq> None \<or> o_pingAcks out \<noteq> [] \<or> o_pingQueue out \<noteq> [] \<or>
     0 < o_settingsAcks out \<or> queue_elems (o_ctrl out) \<noteq> [] \<or> queue_elems (o_data out) \<noteq> []"

definition outgoing_inv :: "rawConnOutgoing \<Rightarrow> bool" where
  "outgoing_inv out \<longleftrightarrow> queue_inv (o_ctrl out) \<and> queue_inv (o_data out) \<and> 0 \<le> o_settingsAcks out \<and>
     (outgoing_busy out \<longrightarrow> o_writeready out)"

lemma outgoing_init_inv: "outgoing_inv outgoing_init"
  by (simp add: outgoing_inv_def outgoing_busy_def outgoing_init_def)

lemma outgoing_ops_inv:
  assumes "outgoing_inv out"
  shows "outgoing_inv (outgoing_wakeup out)" "outgoing_inv (outgoing_fail out err)" "outgoing_inv (addPingAck out value)"
    "outgoing_inv (addPingQueue out value)" "outgoing_inv (clearPingQueue out)" "outgoing_inv (addSettingsAck out)"
  using assms by (auto simp: outgoing_inv_def outgoing_busy_def outgoing_defs)

end
