(* ===== verification/Raw_Stream.thy ===== *)
theory Raw_Stream
  imports Outgoing
begin

text \<open>
  One stream of a connection: \<^verbatim>\<open>rawstream.go\<close>, with the two methods of
  \<^verbatim>\<open>rawConnOutgoing\<close> that touch a stream (\<^verbatim>\<open>addCtrl\<close>, \<^verbatim>\<open>addData\<close>).

  The record \<open>rawStream\<close> has the fields of the Go struct, those of its parts \<^verbatim>\<open>read\<close> and
  \<^verbatim>\<open>write\<close> under the prefixes \<open>rd_\<close> and \<open>wr_\<close>. A stream method also changes the outgoing queues
  and the stream table of its connection; the record \<open>sworld\<close> adds these two. Every definition is
  a section of the method that runs without releasing the stream's lock: a method that blocks or
  that writes to the network is the sequence of its sections. Channels that are only ever closed
  are the boolean ``is closed''; closing one twice is a panic.
\<close>

unbundle bit_operations_syntax

section \<open>State\<close>

abbreviation (input) streamWriteBufferSize :: int where "streamWriteBufferSize \<equiv> 65536"

text \<open>The constant \<^verbatim>\<open>MaxDataFramePayloadSize\<close> as the \<^verbatim>\<open>int\<close> argument of \<^verbatim>\<open>prepareDataLocked\<close>.\<close>

abbreviation (input) dataFramePayloadSize :: int where "dataFramePayloadSize \<equiv> 0xffffff"

abbreviation (input) flagStreamSeenEOF :: u64 where "flagStreamSeenEOF \<equiv> 0x01"
abbreviation (input) flagStreamSentEOF :: u64 where "flagStreamSentEOF \<equiv> 0x02"
abbreviation (input) flagStreamBothEOF :: u64 where "flagStreamBothEOF \<equiv> 0x03"
abbreviation (input) flagStreamSeenAck :: u64 where "flagStreamSeenAck \<equiv> 0x04"
abbreviation (input) flagStreamSeenReset :: u64 where "flagStreamSeenReset \<equiv> 0x08"
abbreviation (input) flagStreamNeedOpen :: u64 where "flagStreamNeedOpen \<equiv> 0x10"
abbreviation (input) flagStreamNeedAck :: u64 where "flagStreamNeedAck \<equiv> 0x20"
abbreviation (input) flagStreamNeedReset :: u64 where "flagStreamNeedReset \<equiv> 0x40"
abbreviation (input) flagStreamNeedEOF :: u64 where "flagStreamNeedEOF \<equiv> 0x80"
abbreviation (input) flagStreamDiscard :: u64 where "flagStreamDiscard \<equiv> 0xd0"
abbreviation (input) flagStreamDataCtrl :: u64 where "flagStreamDataCtrl \<equiv> 0x30"

record rawStream =
  s_ref :: sref
  s_streamID :: u32
  s_flags :: u64
  rd_err :: "go_error option"
  rd_buf :: buffer
  rd_left :: int
  rd_acked :: bool
  rd_closed :: bool
  rd_increment :: int
  rd_ready :: condWithDeadline
  wr_err :: "go_error option"
  wr_buf :: buffer
  wr_left :: int
  wr_wired :: int
  wr_acked :: bool
  wr_closed :: bool
  wr_ready :: condWithDeadline
  wr_flushed :: condWithDeadline
  s_err :: "go_error option"
  s_closed :: bool
  s_inctrl :: bool
  s_indata :: bool

record sworld = rawStream +
  w_out :: rawConnOutgoing
  w_streams :: rawConnStreams

section \<open>Scheduling\<close>

definition addCtrl :: "sworld \<Rightarrow> sworld option" where
  "addCtrl w =
     (if \<not> s_inctrl w then do {
        q \<leftarrow> queue_push (o_ctrl (w_out w)) (s_ref w);
        Some (w\<lparr>w_out := wakeupLocked ((w_out w)\<lparr>o_ctrl := q\<rparr>), s_inctrl := True\<rparr>)
      } else Some w)"

definition addData :: "sworld \<Rightarrow> sworld option" where
  "addData w =
     (if \<not> s_indata w then do {
        q \<leftarrow> queue_push (o_data (w_out w)) (s_ref w);
        Some (w\<lparr>w_out := wakeupLocked ((w_out w)\<lparr>o_data := q\<rparr>), s_indata := True\<rparr>)
      } else Some w)"

definition scheduleCtrl :: "sworld \<Rightarrow> sworld option" where
  "scheduleCtrl w = addCtrl w"

definition scheduleData :: "sworld \<Rightarrow> sworld option" where
  "scheduleData w = addData w"

section \<open>Creation\<close>

definition read_init :: "int \<Rightarrow> rawStream \<Rightarrow> rawStream" where
  "read_init window s = s\<lparr>rd_left := window, rd_acked := False, rd_closed := False, rd_ready := cond_init\<rparr>"

definition write_init :: "int \<Rightarrow> rawStream \<Rightarrow> rawStream" where
  "write_init window s = s\<lparr>wr_left := window, wr_ready := cond_init, wr_flushed := cond_init, wr_closed := False\<rparr>"

text \<open>The zero value of the struct with its address and stream id filled in.\<close>

definition zero_stream :: "sref \<Rightarrow> u32 \<Rightarrow> rawStream" where
  "zero_stream ref sid = \<lparr>s_ref = ref, s_streamID = sid, s_flags = 0,
     rd_err = None, rd_buf = empty_buffer, rd_left = 0, rd_acked = False, rd_closed = False, rd_increment = 0,
     rd_ready = cond_init,
     wr_err = None, wr_buf = empty_buffer, wr_left = 0, wr_wired = 0, wr_acked = False, wr_closed = False,
     wr_ready = cond_init, wr_flushed = cond_init,
     s_err = None, s_closed = False, s_inctrl = False, s_indata = False\<rparr>"

definition in_world :: "rawStream \<Rightarrow> rawConnOutgoing \<Rightarrow> rawConnStreams \<Rightarrow> sworld" where
  "in_world s out st = rawStream.extend s (sworld.fields out st)"

text \<open>
  The two windows are \<^verbatim>\<open>conn.settings.localStreamWindowSize\<close> and
  \<^verbatim>\<open>remoteStreamWindowSize\<close>.
\<close>

definition newStream :: "rawConnOutgoing \<Rightarrow> rawConnStreams \<Rightarrow> int \<Rightarrow> int \<Rightarrow> sref \<Rightarrow> u32 \<Rightarrow> sworld" where
  "newStream out st localWindow remoteWindow ref sid =
     (let s = zero_stream ref sid;
          s = read_init localWindow s;
          s = write_init remoteWindow s
      in in_world s out (addLocked st sid ref))"

definition newIncomingStream :: "rawConnOutgoing \<Rightarrow> rawConnStreams \<Rightarrow> int \<Rightarrow> int \<Rightarrow> sref \<Rightarrow> u32 \<Rightarrow> sworld" where
  "newIncomingStream out st localWindow remoteWindow ref sid = newStream out st localWindow remoteWindow ref sid"

definition newOutgoingStream :: "rawConnOutgoing \<Rightarrow> rawConnStreams \<Rightarrow> int \<Rightarrow> int \<Rightarrow> sref \<Rightarrow> u32 \<Rightarrow> sworld option" where
  "newOutgoingStream out st localWindow remoteWindow ref sid =
     (let w = newStream out st localWindow remoteWindow ref sid
      in scheduleCtrl (w\<lparr>s_flags := s_flags w OR flagStreamNeedOpen\<rparr>))"

section \<open>Helpers\<close>

definition cleanupLocked :: "sworld \<Rightarrow> sworld" where
  "cleanupLocked w =
     (if s_flags w AND flagStreamBothEOF = flagStreamBothEOF
      then w\<lparr>w_streams := streams_remove (w_streams w) (s_streamID w) (s_ref w)\<rparr> else w)"

definition clearWriteBufferLocked :: "sworld \<Rightarrow> sworld option" where
  "clearWriteBufferLocked w =
     (let w = w\<lparr>wr_buf := buffer_clear (wr_buf w), wr_wired := 0, wr_flushed := Broadcast (wr_flushed w)\<rparr>
      in if s_flags w AND flagStreamNeedEOF \<noteq> 0 then scheduleCtrl w else Some w)"

definition setReadDeadlineLocked :: "sworld \<Rightarrow> time option \<Rightarrow> sworld" where
  "setReadDeadlineLocked w t = w\<lparr>rd_ready := setDeadline (rd_ready w) t\<rparr>"

definition setWriteDeadlineLocked :: "sworld \<Rightarrow> time option \<Rightarrow> sworld" where
  "setWriteDeadlineLocked w t =
     w\<lparr>wr_ready := setDeadline (wr_ready w) t, wr_flushed := setDeadline (wr_flushed w) t\<rparr>"

definition pendingBytes :: "sworld \<Rightarrow> int" where
  "pendingBytes w = b_size (wr_buf w) - wr_wired w"

definition activeData :: "sworld \<Rightarrow> bool" where
  "activeData w \<longleftrightarrow> 0 < wr_left w \<and> 0 < pendingBytes w"

definition activeEOF :: "sworld \<Rightarrow> bool" where
  "activeEOF w \<longleftrightarrow>
     (if b_size (wr_buf w) = wr_wired w \<and> s_flags w AND flagStreamNeedEOF \<noteq> 0
      then s_flags w AND flagStreamNeedReset = 0 \<and> wr_err w = Some (ErrCode ECLOSED)
      else False)"

definition outgoingFlags :: "sworld \<Rightarrow> u8 \<times> sworld" where
  "outgoingFlags w0 =
     (let (flags, w) = (if s_flags w0 AND flagStreamNeedOpen \<noteq> 0
            then (FlagDataOpen, w0\<lparr>s_flags := s_flags w0 AND NOT flagStreamNeedOpen\<rparr>) else (0, w0));
          (flags, w) = (if s_flags w AND flagStreamNeedAck \<noteq> 0
            then (flags OR FlagDataAck, w\<lparr>s_flags := s_flags w AND NOT flagStreamNeedAck\<rparr>) else (flags, w))
      in if activeEOF w
         then (flags OR FlagDataEOF,
               cleanupLocked (w\<lparr>s_flags := (s_flags w AND NOT flagStreamNeedEOF) OR flagStreamSentEOF\<rparr>))
         else (flags, w))"

text \<open>The two setters return the previous error.\<close>

definition setReadErrorLocked :: "sworld \<Rightarrow> go_error \<Rightarrow> (go_error option \<times> sworld) option" where
  "setReadErrorLocked w err =
     (let preverror = rd_err w
      in if preverror = None then do {
           let w = w\<lparr>rd_err := Some err\<rparr>;
           ch \<leftarrow> close_chan (rd_closed w);
           let w = w\<lparr>rd_closed := ch\<rparr>;
           w \<leftarrow> (if wr_err w \<noteq> None then do { ch \<leftarrow> close_chan (s_closed w); Some (w\<lparr>s_closed := ch\<rparr>) } else Some w);
           w \<leftarrow> (if s_flags w AND flagStreamSeenAck = 0
                 then do { ch \<leftarrow> close_chan (rd_acked w); Some (w\<lparr>rd_acked := ch\<rparr>) } else Some w);
           w \<leftarrow> (if s_flags w AND flagStreamSeenEOF = 0
                 then scheduleCtrl (w\<lparr>s_flags := s_flags w OR flagStreamNeedReset\<rparr>) else Some w);
           Some (preverror, w\<lparr>rd_increment := 0, rd_ready := Broadcast (rd_ready w)\<rparr>)
         } else Some (preverror, w))"

definition setWriteErrorLocked :: "sworld \<Rightarrow> go_error \<Rightarrow> (go_error option \<times> sworld) option" where
  "setWriteErrorLocked w err =
     (let preverror = wr_err w
      in if preverror = None then do {
           let w = w\<lparr>wr_err := Some err\<rparr>;
           ch \<leftarrow> close_chan (wr_closed w);
           let w = w\<lparr>wr_closed := ch\<rparr>;
           w \<leftarrow> (if rd_err w \<noteq> None then do { ch \<leftarrow> close_chan (s_closed w); Some (w\<lparr>s_closed := ch\<rparr>) } else Some w);
           let w = w\<lparr>s_flags := s_flags w OR flagStreamNeedEOF\<rparr>;
           w \<leftarrow> (if b_size (wr_buf w) = wr_wired w then scheduleCtrl w else Some w);
           Some (preverror, w\<lparr>wr_ready := Broadcast (wr_ready w), wr_flushed := Broadcast (wr_flushed w)\<rparr>)
         } else Some (preverror, w))"

text \<open>A nil error is \<^term>\<open>None\<close>.\<close>

definition closingError :: "go_error option \<Rightarrow> go_error" where
  "closingError err = (case err of None \<Rightarrow> ErrCode ECLOSED | Some e \<Rightarrow> if e = IoEOF then ErrCode ECLOSED else e)"

definition closeWithErrorLocked :: "sworld \<Rightarrow> go_error option \<Rightarrow> (go_error option \<times> sworld) option" where
  "closeWithErrorLocked w err0 =
     (let err = closingError err0; preverror = s_err w
      in if preverror = None then do {
           let w = w\<lparr>s_err := Some err\<rparr>;
           (_, w) \<leftarrow> setReadErrorLocked w err;
           (_, w) \<leftarrow> setWriteErrorLocked w err;
           Some (preverror, w)
         } else Some (preverror, w))"

section \<open>Waiting\<close>

text \<open>
  A section that reaches \<^verbatim>\<open>Wait\<close> and has to block gives up the lock with the outcome
  \<open>Blocked\<close>; once woken the method runs again with \<open>resumed\<close> set, which is the return from
  \<^verbatim>\<open>Wait\<close> followed by the next round of the loop. \<open>now\<close> is \<^verbatim>\<open>time.Now()\<close>.
\<close>

datatype 'a outcome = Blocked | Return 'a

definition waitReadReadyLocked :: "time \<Rightarrow> bool \<Rightarrow> sworld \<Rightarrow> go_error option outcome \<times> sworld" where
  "waitReadReadyLocked now resumed w =
     (if resumed \<and> Wait_return (rd_ready w) \<noteq> None then (Return (Wait_return (rd_ready w)), w)
      else if b_size (rd_buf w) \<noteq> 0 then (Return None, w)
      else if rd_err w \<noteq> None then (Return (rd_err w), w)
      else case Wait_enter now (rd_ready w) of
             Inl e \<Rightarrow> (Return (Some e), w)
           | Inr c \<Rightarrow> (Blocked, w\<lparr>rd_ready := c\<rparr>))"

definition waitWriteReadyLocked :: "time \<Rightarrow> bool \<Rightarrow> sworld \<Rightarrow> go_error option outcome \<times> sworld" where
  "waitWriteReadyLocked now resumed w =
     (if resumed \<and> Wait_return (wr_ready w) \<noteq> None then (Return (Wait_return (wr_ready w)), w)
      else if wr_err w = None \<and> streamWriteBufferSize \<le> b_size (wr_buf w) then
        (case Wait_enter now (wr_ready w) of
           Inl e \<Rightarrow> (Return (Some e), w)
         | Inr c \<Rightarrow> (Blocked, w\<lparr>wr_ready := c\<rparr>))
      else (Return (wr_err w), w))"

definition waitFlushedLocked :: "time \<Rightarrow> bool \<Rightarrow> sworld \<Rightarrow> go_error option outcome \<times> sworld" where
  "waitFlushedLocked now resumed w =
     (if resumed \<and> Wait_return (wr_flushed w) \<noteq> None then (Return (Wait_return (wr_flushed w)), w)
      else if wr_err w = None \<and> 0 < b_size (wr_buf w) then
        (case Wait_enter now (wr_flushed w) of
           Inl e \<Rightarrow> (Return (Some e), w)
         | Inr c \<Rightarrow> (Blocked, w\<lparr>wr_flushed := c\<rparr>))
      else (Return (wr_err w), w))"

section \<open>Incoming frames\<close>

definition show_hex8 :: "u32 \<Rightarrow> go_string" where
  "show_hex8 v = concat (map show_hex2 (put_u32 v))"

text \<open>
  The result is the connection-level error, if any; \<open>ref\<close> is the address of the error value that
  \<^verbatim>\<open>fmt.Errorf\<close> allocates.
\<close>

definition processDataLocked :: "eref \<Rightarrow> sworld \<Rightarrow> u8 list \<Rightarrow> u8 \<Rightarrow> (go_error option \<times> sworld) option" where
  "processDataLocked ref w data flags =
     (if s_flags w AND flagStreamSeenEOF \<noteq> 0 then
        Some (Some (CopperErrorVal ref (str ''stream 0x'' @ show_hex8 (s_streamID w) @ str '' cannot have DATA after EOF'')
                      EINVALIDSTREAM), w)
      else do {
        w \<leftarrow> (if flags_Has flags FlagDataAck then
                 if rd_err w = None \<and> s_flags w AND flagStreamSeenAck = 0 then do {
                   ch \<leftarrow> close_chan (rd_acked w);
                   Some (w\<lparr>s_flags := s_flags w OR flagStreamSeenAck, rd_acked := ch\<rparr>)
                 } else Some (w\<lparr>s_flags := s_flags w OR flagStreamSeenAck\<rparr>)
               else Some w);
        if data \<noteq> [] \<and> rd_left w < zlen data then
          Some (Some (CopperErrorVal ref (str ''stream 0x'' @ show_hex8 (s_streamID w) @ str '' received '' @
                   show_int (zlen data) @ str '' bytes, which is more than '' @ show_int (rd_left w) @ str '' bytes window'')
                   EWINDOWOVERFLOW), w)
        else do {
          w \<leftarrow> (if data \<noteq> [] then do {
                  w \<leftarrow> (if rd_err w = None then do {
                           b \<leftarrow> buffer_write (rd_buf w) data;
                           Some (w\<lparr>rd_buf := b, rd_ready := Broadcast (rd_ready w)\<rparr>)
                         } else Some w);
                  Some (w\<lparr>rd_left := rd_left w - zlen data\<rparr>)
                } else Some w);
          if flags_Has flags FlagDataEOF then do {
            let w = w\<lparr>s_flags := (s_flags w OR flagStreamSeenEOF) AND NOT flagStreamNeedReset\<rparr>;
            (_, w) \<leftarrow> setReadErrorLocked w IoEOF;
            Some (None, cleanupLocked w)
          } else Some (None, w)
        }
      })"

definition stream_processDataFrame :: "eref \<Rightarrow> sworld \<Rightarrow> u8 list \<Rightarrow> u8 \<Rightarrow> (go_error option \<times> sworld) option" where
  "stream_processDataFrame ref w data flags = processDataLocked ref w data flags"

definition stream_processResetFrame :: "sworld \<Rightarrow> u8 \<Rightarrow> go_error \<Rightarrow> (go_error option \<times> sworld) option" where
  "stream_processResetFrame w flags error = do {
     w \<leftarrow> (if flags_Has flags FlagResetRead then do {
              let w = w\<lparr>s_flags := s_flags w OR flagStreamSeenReset\<rparr>;
              w \<leftarrow> clearWriteBufferLocked w;
              (_, w) \<leftarrow> setWriteErrorLocked w error;
              Some w
            } else Some w);
     w \<leftarrow> (if flags_Has flags FlagResetWrite then do {
              let err = (if error = ErrCode ECLOSED then IoEOF else error);
              let w = w\<lparr>s_flags := (s_flags w OR flagStreamSeenEOF) AND NOT flagStreamNeedReset\<rparr>;
              (_, w) \<leftarrow> setReadErrorLocked w err;
              Some (cleanupLocked w)
            } else Some w);
     Some (None, w)
   }"

definition changeWriteWindow :: "sworld \<Rightarrow> int \<Rightarrow> sworld option" where
  "changeWriteWindow w diff =
     (if wr_left w \<le> 0 \<and> 0 < pendingBytes w then
        let w = w\<lparr>wr_left := wr_left w + diff\<rparr>
        in if 0 < wr_left w then scheduleData w else Some w
      else Some (w\<lparr>wr_left := wr_left w + diff\<rparr>))"

definition stream_processWindowFrame :: "eref \<Rightarrow> sworld \<Rightarrow> u32 \<Rightarrow> (go_error option \<times> sworld) option" where
  "stream_processWindowFrame ref w increment =
     (if increment \<le> 0 then
        Some (Some (CopperErrorVal ref (str ''stream 0x'' @ show_hex8 (s_streamID w) @ str '' received invalid increment '' @
                      show_nat (unat increment)) EINVALIDFRAME), w)
      else do { w \<leftarrow> changeWriteWindow w (uint increment); Some (None, w) })"

section \<open>Outgoing frames\<close>

text \<open>
  The bytes of the chunk stay in the write buffer, marked as wired, until the write has finished.
\<close>

definition prepareDataLocked :: "sworld \<Rightarrow> int \<Rightarrow> (u8 list \<times> sworld) option" where
  "prepareDataLocked w maxpayload =
     (let n = b_size (wr_buf w);
          n = (if wr_left w < n then wr_left w else n);
          n = (if maxpayload < n then maxpayload else n)
      in if 0 < n then do {
           (p, b) \<leftarrow> buffer_peek (wr_buf w);
           data \<leftarrow> slice p 0 n;
           Some (data, w\<lparr>wr_buf := b, wr_wired := n, wr_left := wr_left w - n\<rparr>)
         } else Some ([], w))"

text \<open>The end of a write of data, with the lock held again.\<close>

definition finishData :: "sworld \<Rightarrow> sworld" where
  "finishData w =
     (let (_, b) = buffer_discard (wr_buf w) (wr_wired w);
          w = w\<lparr>wr_buf := b, wr_wired := 0\<rparr>;
          w = (if b_size (wr_buf w) < streamWriteBufferSize then w\<lparr>wr_ready := Broadcast (wr_ready w)\<rparr> else w)
      in if b_size (wr_buf w) = 0 then w\<lparr>wr_flushed := Broadcast (wr_flushed w)\<rparr> else w)"

text \<open>
  Where \<^verbatim>\<open>writeCtrl\<close> gives up the lock: it is finished, or it writes a frame and continues,
  after a data frame with \<open>finishData\<close> and then, as after every frame, with the next round of its
  loop.
\<close>

datatype resume = AfterData | AfterFrame
datatype ctrl_point = CtrlDone | CtrlWrite Frame resume

text \<open>Instead of \<^verbatim>\<open>ECONNCLOSED\<close> the remote receives \<^verbatim>\<open>ECONNSHUTDOWN\<close>.\<close>

definition wireReset :: "go_error \<Rightarrow> go_error" where
  "wireReset reset = (if reset = ErrCode ECONNCLOSED then ErrCode ECONNSHUTDOWN else reset)"

text \<open>One round of the loop. Writing a nil error would be a nil dereference in \<^verbatim>\<open>WriteReset\<close>.\<close>

definition writeCtrl_round :: "sworld \<Rightarrow> (ctrl_point \<times> sworld) option" where
  "writeCtrl_round w =
     (if s_flags w AND flagStreamDataCtrl \<noteq> 0 \<and> s_flags w AND flagStreamSentEOF = 0 then do {
        (data, w) \<leftarrow> prepareDataLocked w dataFramePayloadSize;
        let (flags, w) = outgoingFlags w;
        Some (CtrlWrite (DataFrame (s_streamID w) flags data) AfterData, w)
      }
      else if 0 < rd_increment w then
        let increment = word_of_int (rd_increment w);
            w = w\<lparr>rd_left := rd_left w + rd_increment w, rd_increment := 0\<rparr>
        in Some (CtrlWrite (WindowFrame (s_streamID w) 0 increment) AfterFrame, w)
      else if s_flags w AND flagStreamNeedReset \<noteq> 0 then do {
        let w = w\<lparr>s_flags := s_flags w AND NOT flagStreamNeedReset\<rparr>;
        let flags = FlagResetRead;
        reset \<leftarrow> rd_err w;
        let reset = (if reset = IoEOF then ErrCode ECLOSED else reset);
        let (flags, w) =
          (if b_size (wr_buf w) = 0 \<and> s_flags w AND flagStreamNeedEOF \<noteq> 0 \<and> wr_err w = Some reset
           then (flags OR FlagResetWrite,
                 cleanupLocked (w\<lparr>s_flags := (s_flags w AND NOT flagStreamNeedEOF) OR flagStreamSentEOF\<rparr>))
           else (flags, w));
        Some (CtrlWrite (ResetFrame (s_streamID w) flags (wireReset reset)) AfterFrame, w)
      }
      else if b_size (wr_buf w) = 0 \<and> s_flags w AND flagStreamNeedEOF \<noteq> 0 then
        let w = cleanupLocked (w\<lparr>s_flags := (s_flags w AND NOT flagStreamNeedEOF) OR flagStreamSentEOF\<rparr>)
        in if wr_err w \<noteq> Some (ErrCode ECLOSED) then do {
             reset \<leftarrow> wr_err w;
             Some (CtrlWrite (ResetFrame (s_streamID w) FlagResetWrite (wireReset reset)) AfterFrame, w)
           } else Some (CtrlWrite (DataFrame (s_streamID w) FlagDataEOF []) AfterFrame, w)
      else Some (CtrlDone, w))"

definition writeCtrl_start :: "sworld \<Rightarrow> (ctrl_point \<times> sworld) option" where
  "writeCtrl_start w =
     (if s_flags w AND flagStreamDiscard = flagStreamDiscard \<and> b_size (wr_buf w) = 0
      then Some (CtrlDone, cleanupLocked (w\<lparr>s_flags := flagStreamSeenEOF OR flagStreamSentEOF\<rparr>))
      else writeCtrl_round w)"

definition writeCtrl_resume :: "resume \<Rightarrow> sworld \<Rightarrow> (ctrl_point \<times> sworld) option" where
  "writeCtrl_resume r w = writeCtrl_round (case r of AfterData \<Rightarrow> finishData w | AfterFrame \<Rightarrow> w)"

text \<open>
  The first section of \<^verbatim>\<open>writeData\<close>: the frame to write, if there is one. After the write the
  method ends with \<open>finishData\<close>.
\<close>

definition writeData_start :: "sworld \<Rightarrow> (Frame option \<times> sworld) option" where
  "writeData_start w = do {
     (data, w) \<leftarrow> prepareDataLocked w dataFramePayloadSize;
     if 0 < length data then do {
       let (flags, w) = outgoingFlags w;
       w \<leftarrow> (if activeData w then scheduleData w
             else if b_size (wr_buf w) = wr_wired w \<and> s_flags w AND flagStreamNeedEOF \<noteq> 0 then scheduleCtrl w
             else Some w);
       Some (Some (DataFrame (s_streamID w) flags data), w)
     } else Some (None, w)
   }"

section \<open>The methods of the Stream interface\<close>

definition stream_Peek :: "time \<Rightarrow> bool \<Rightarrow> sworld \<Rightarrow> ((u8 list \<times> go_error option) outcome \<times> sworld) option" where
  "stream_Peek now resumed w =
     (case waitReadReadyLocked now resumed w of
        (Blocked, w) \<Rightarrow> Some (Blocked, w)
      | (Return (Some err), w) \<Rightarrow> Some (Return ([], Some err), w)
      | (Return None, w) \<Rightarrow> do {
          (p, b) \<leftarrow> buffer_peek (rd_buf w);
          Some (Return (p, rd_err w), w\<lparr>rd_buf := b\<rparr>)
        })"

definition stream_Discard :: "int \<Rightarrow> sworld \<Rightarrow> (int \<times> sworld) option" where
  "stream_Discard n w =
     (let (n, b) = buffer_discard (rd_buf w) n;
          w = w\<lparr>rd_buf := b\<rparr>
      in do {
        w \<leftarrow> (if 0 < n \<and> rd_err w = None then scheduleCtrl (w\<lparr>rd_increment := rd_increment w + n\<rparr>) else Some w);
        Some (n, w)
      })"

text \<open>\<^verbatim>\<open>Read\<close>: the count, the destination slice afterwards and the error.\<close>

definition stream_Read :: "time \<Rightarrow> bool \<Rightarrow> u8 list \<Rightarrow> sworld \<Rightarrow> ((int \<times> u8 list \<times> go_error option) outcome \<times> sworld) option" where
  "stream_Read now resumed dst w =
     (if dst \<noteq> [] then
        (case waitReadReadyLocked now resumed w of
           (Blocked, w) \<Rightarrow> Some (Blocked, w)
         | (Return (Some err), w) \<Rightarrow> Some (Return (0, dst, Some err), w)
         | (Return None, w) \<Rightarrow> do {
             (n, dst, b) \<leftarrow> buffer_read (rd_buf w) dst;
             let w = w\<lparr>rd_buf := b\<rparr>;
             w \<leftarrow> (if rd_err w = None then scheduleCtrl (w\<lparr>rd_increment := rd_increment w + n\<rparr>) else Some w);
             Some (Return (n, dst, if rd_err w \<noteq> None \<and> b_size (rd_buf w) = 0 then rd_err w else None), w)
           })
      else Some (Return (0, dst, if rd_err w \<noteq> None \<and> b_size (rd_buf w) = 0 then rd_err w else None), w))"

definition stream_ReadByte :: "time \<Rightarrow> bool \<Rightarrow> sworld \<Rightarrow> ((go_error + u8) outcome \<times> sworld) option" where
  "stream_ReadByte now resumed w =
     (case waitReadReadyLocked now resumed w of
        (Blocked, w) \<Rightarrow> Some (Blocked, w)
      | (Return (Some err), w) \<Rightarrow> Some (Return (Inl err), w)
      | (Return None, w) \<Rightarrow> do {
          (c, b) \<leftarrow> buffer_readbyte (rd_buf w);
          let w = w\<lparr>rd_buf := b\<rparr>;
          w \<leftarrow> (if rd_err w = None then scheduleCtrl (w\<lparr>rd_increment := rd_increment w + 1\<rparr>) else Some w);
          Some (Return (Inr c), w)
        })"

text \<open>
  The loop of \<^verbatim>\<open>Write\<close> from position \<open>n\<close>: how far it got, and whether it blocks there or returns.
\<close>

function Write_loop :: "time \<Rightarrow> bool \<Rightarrow> u8 list \<Rightarrow> int \<Rightarrow> sworld \<Rightarrow> (int \<times> go_error option outcome \<times> sworld) option" where
  "Write_loop now resumed b n w =
     (if n < zlen b then
        (case waitWriteReadyLocked now resumed w of
           (Blocked, w) \<Rightarrow> Some (n, Blocked, w)
         | (Return (Some err), w) \<Rightarrow> Some (n, Return (Some err), w)
         | (Return None, w) \<Rightarrow> do {
             let taken = zlen b - n;
             let taken = (if streamWriteBufferSize - b_size (wr_buf w) < taken
                          then streamWriteBufferSize - b_size (wr_buf w) else taken);
             part \<leftarrow> slice b n (n + taken);
             buf \<leftarrow> buffer_write (wr_buf w) part;
             let w = w\<lparr>wr_buf := buf\<rparr>;
             w \<leftarrow> (if 0 < wr_left w then scheduleData w else Some w);
             Write_loop now False b (n + taken) w
           })
      else Some (n, Return None, w))"
  by pat_completeness auto

lemma waitWriteReady_room:
  "waitWriteReadyLocked now resumed w = (Return None, w') \<Longrightarrow>
   w' = w \<and> wr_err w = None \<and> b_size (wr_buf w) < streamWriteBufferSize"
  by (auto simp: waitWriteReadyLocked_def split: if_splits sum.splits)

termination Write_loop
  by (relation "measure (\<lambda>(now, resumed, b, n, w). nat (zlen b - n))")
    (auto dest!: waitWriteReady_room [OF sym])

declare Write_loop.simps [simp del]

definition stream_Write :: "time \<Rightarrow> bool \<Rightarrow> u8 list \<Rightarrow> int \<Rightarrow> sworld \<Rightarrow> (int \<times> go_error option outcome \<times> sworld) option" where
  "stream_Write now resumed b n w =
     (if length b = 0 then Some (0, Return (wr_err w), w) else Write_loop now resumed b n w)"

definition stream_WriteByte :: "time \<Rightarrow> bool \<Rightarrow> u8 \<Rightarrow> sworld \<Rightarrow> (go_error option outcome \<times> sworld) option" where
  "stream_WriteByte now resumed c w =
     (case waitWriteReadyLocked now resumed w of
        (Blocked, w) \<Rightarrow> Some (Blocked, w)
      | (Return (Some err), w) \<Rightarrow> Some (Return (Some err), w)
      | (Return None, w) \<Rightarrow> do {
          buf \<leftarrow> buffer_writebyte (wr_buf w) c;
          let w = w\<lparr>wr_buf := buf\<rparr>;
          w \<leftarrow> (if 0 < wr_left w then scheduleData w else Some w);
          Some (Return None, w)
        })"

definition stream_Flush :: "time \<Rightarrow> bool \<Rightarrow> sworld \<Rightarrow> go_error option outcome \<times> sworld" where
  "stream_Flush now resumed w = waitFlushedLocked now resumed w"

definition stream_Acknowledge :: "sworld \<Rightarrow> (go_error option \<times> sworld) option" where
  "stream_Acknowledge w =
     (let err = wr_err w
      in do {
        w \<leftarrow> (if err = None \<and> \<not> wr_acked w
              then scheduleCtrl (w\<lparr>s_flags := s_flags w OR flagStreamNeedAck, wr_acked := True\<rparr>) else Some w);
        Some (err, w)
      })"

definition stream_IsAcknowledged :: "sworld \<Rightarrow> bool" where
  "stream_IsAcknowledged w \<longleftrightarrow> s_flags w AND flagStreamSeenAck \<noteq> 0"

definition stream_Close :: "sworld \<Rightarrow> (go_error option \<times> sworld) option" where
  "stream_Close w = closeWithErrorLocked w None"

definition stream_CloseWithError :: "go_error option \<Rightarrow> sworld \<Rightarrow> (go_error option \<times> sworld) option" where
  "stream_CloseWithError err w = closeWithErrorLocked w err"

definition stream_CloseRead :: "sworld \<Rightarrow> (go_error option \<times> sworld) option" where
  "stream_CloseRead w = setReadErrorLocked w (ErrCode ECLOSED)"

definition stream_CloseReadWithError :: "go_error option \<Rightarrow> sworld \<Rightarrow> (go_error option \<times> sworld) option" where
  "stream_CloseReadWithError err w = setReadErrorLocked w (closingError err)"

definition stream_CloseWrite :: "sworld \<Rightarrow> (go_error option \<times> sworld) option" where
  "stream_CloseWrite w = setWriteErrorLocked w (ErrCode ECLOSED)"

definition stream_CloseWriteWithError :: "go_error option \<Rightarrow> sworld \<Rightarrow> (go_error option \<times> sworld) option" where
  "stream_CloseWriteWithError err w = setWriteErrorLocked w (closingError err)"

definition stream_SetDeadline :: "time option \<Rightarrow> sworld \<Rightarrow> sworld" where
  "stream_SetDeadline t w = setWriteDeadlineLocked (setReadDeadlineLocked w t) t"

definition stream_SetReadDeadline :: "time option \<Rightarrow> sworld \<Rightarrow> sworld" where
  "stream_SetReadDeadline t w = setReadDeadlineLocked w t"

definition stream_SetWriteDeadline :: "time option \<Rightarrow> sworld \<Rightarrow> sworld" where
  "stream_SetWriteDeadline t w = setWriteDeadlineLocked w t"

end
