(* ===== verification/Stream_Inv.thy ===== *)
theory Stream_Inv
  imports Raw_Stream
begin

text \<open>
  The invariant of a stream and its preservation by every section of \<^verbatim>\<open>rawstream.go\<close>: no
  section panics, the two sides and their channels agree, the flags are consistent, and the
  receive window is conserved.
\<close>

unbundle bit_operations_syntax

section \<open>Flags\<close>

lemma and_exp_iff: "(f AND 2 ^ k = 0) \<longleftrightarrow> \<not> bit (f :: u64) k" if "k < 64"
  using that by (simp add: and_exp_eq_0_iff_not_bit)

lemma flag_test [flag_simps]:
  "(f AND 1 = 0) \<longleftrightarrow> \<not> bit (f :: u64) 0" "(f AND 2 = 0) \<longleftrightarrow> \<not> bit f 1" "(f AND 4 = 0) \<longleftrightarrow> \<not> bit f 2"
  "(f AND 8 = 0) \<longleftrightarrow> \<not> bit f 3" "(f AND 16 = 0) \<longleftrightarrow> \<not> bit f 4" "(f AND 32 = 0) \<longleftrightarrow> \<not> bit f 5"
  "(f AND 64 = 0) \<longleftrightarrow> \<not> bit f 6" "(f AND 128 = 0) \<longleftrightarrow> \<not> bit f 7"
  using and_exp_iff [of 0 f] and_exp_iff [of 1 f] and_exp_iff [of 2 f] and_exp_iff [of 3 f]
    and_exp_iff [of 4 f] and_exp_iff [of 5 f] and_exp_iff [of 6 f] and_exp_iff [of 7 f] by simp_all

lemma and_or_mask: "(f AND (a OR b) = a OR b) \<longleftrightarrow> f AND a = a \<and> f AND b = b" for f a b :: u64
  by (auto simp: bit_eq_iff bit_and_iff bit_or_iff)

lemma and_or_0: "(f AND (a OR b) = 0) \<longleftrightarrow> f AND a = 0 \<and> f AND b = 0" for f a b :: u64
  by (auto simp: bit_eq_iff bit_and_iff bit_or_iff)

lemma and_exp_eq: "(f AND 2 ^ k = 2 ^ k) \<longleftrightarrow> bit (f :: u64) k" if "k < 64"
proof
  assume "f AND 2 ^ k = 2 ^ k"
  then have "bit (f AND 2 ^ k) k = bit (2 ^ k :: u64) k" by (rule arg_cong)
  then show "bit f k" using that by (simp add: bit_and_iff bit_exp_iff)
next
  assume "bit f k"
  then show "f AND 2 ^ k = 2 ^ k" by (intro bit_word_eqI) (auto simp: bit_and_iff bit_exp_iff)
qed

lemma flag_masks: "3 = (2 ^ 0 OR 2 ^ 1 :: u64)" "208 = (2 ^ 4 OR 2 ^ 6 OR 2 ^ 7 :: u64)" "48 = (2 ^ 4 OR 2 ^ 5 :: u64)"
  by simp_all

lemma flag_mask [flag_simps]:
  "(f AND 3 = 3) \<longleftrightarrow> bit (f :: u64) 0 \<and> bit f 1"
  "(f AND 208 = 208) \<longleftrightarrow> bit f 4 \<and> bit f 6 \<and> bit f 7"
  "(f AND 48 = 0) \<longleftrightarrow> \<not> bit f 4 \<and> \<not> bit f 5"
proof -
  have b: "(0 :: nat) < 64" "(1 :: nat) < 64" "(4 :: nat) < 64" "(5 :: nat) < 64" "(6 :: nat) < 64" "(7 :: nat) < 64" by simp_all
  show "(f AND 3 = 3) \<longleftrightarrow> bit f 0 \<and> bit f 1" by (simp only: flag_masks and_or_mask and_exp_eq b)
  show "(f AND 208 = 208) \<longleftrightarrow> bit f 4 \<and> bit f 6 \<and> bit f 7" by (simp only: flag_masks and_or_mask and_exp_eq b)
  show "(f AND 48 = 0) \<longleftrightarrow> \<not> bit f 4 \<and> \<not> bit f 5" by (simp only: flag_masks and_or_0 and_exp_iff b)
qed


abbreviation seenEOF :: "'a rawStream_scheme \<Rightarrow> bool" where "seenEOF w \<equiv> bit (s_flags w) 0"
abbreviation sentEOF :: "'a rawStream_scheme \<Rightarrow> bool" where "sentEOF w \<equiv> bit (s_flags w) 1"
abbreviation seenAck :: "'a rawStream_scheme \<Rightarrow> bool" where "seenAck w \<equiv> bit (s_flags w) 2"
abbreviation needOpen :: "'a rawStream_scheme \<Rightarrow> bool" where "needOpen w \<equiv> bit (s_flags w) 4"
abbreviation needAck :: "'a rawStream_scheme \<Rightarrow> bool" where "needAck w \<equiv> bit (s_flags w) 5"
abbreviation needReset :: "'a rawStream_scheme \<Rightarrow> bool" where "needReset w \<equiv> bit (s_flags w) 6"
abbreviation needEOF :: "'a rawStream_scheme \<Rightarrow> bool" where "needEOF w \<equiv> bit (s_flags w) 7"

section \<open>The invariant\<close>

text \<open>The two sides and the channels that announce their end.\<close>

definition sides_inv :: "'a rawStream_scheme \<Rightarrow> bool" where
  "sides_inv w \<longleftrightarrow> rd_closed w = (rd_err w \<noteq> None) \<and> wr_closed w = (wr_err w \<noteq> None) \<and>
     s_closed w = (rd_err w \<noteq> None \<and> wr_err w \<noteq> None) \<and> rd_acked w = (rd_err w \<noteq> None \<or> seenAck w) \<and>
     (s_err w \<noteq> None \<longrightarrow> rd_err w \<noteq> None \<and> wr_err w \<noteq> None)"

text \<open>The flags: what has been seen, sent and is still needed.\<close>

definition flags_inv :: "'a rawStream_scheme \<Rightarrow> bool" where
  "flags_inv w \<longleftrightarrow> (seenEOF w \<longrightarrow> rd_err w \<noteq> None \<and> \<not> needReset w) \<and> (needReset w \<longrightarrow> rd_err w \<noteq> None) \<and>
     (needEOF w \<longrightarrow> wr_err w \<noteq> None \<and> \<not> sentEOF w) \<and> (wr_err w \<noteq> None \<longrightarrow> needEOF w \<or> sentEOF w) \<and>
     (sentEOF w \<longrightarrow> wr_err w \<noteq> None \<and> b_size (wr_buf w) = wr_wired w \<and> \<not> needOpen w \<and> \<not> needAck w)"

text \<open>
  The receive window \<open>W\<close>: while the read side is open, what the remote may still send, what is
  buffered and what will be granted next always add up to it.
\<close>

definition window_inv :: "int \<Rightarrow> 'a rawStream_scheme \<Rightarrow> bool" where
  "window_inv W w \<longleftrightarrow> W < 2 ^ 31 \<and> buffer_inv (rd_buf w) \<and> 0 \<le> rd_left w \<and> 0 \<le> rd_increment w \<and>
     (if rd_err w = None then rd_left w + rd_increment w + b_size (rd_buf w) = W
      else rd_increment w = 0 \<and> rd_left w + b_size (rd_buf w) \<le> W)"

text \<open>The write buffer: bounded, and what is wired is part of it.\<close>

definition wbuf_inv :: "'a rawStream_scheme \<Rightarrow> bool" where
  "wbuf_inv w \<longleftrightarrow> buffer_inv (wr_buf w) \<and> b_size (wr_buf w) \<le> streamWriteBufferSize \<and>
     0 \<le> wr_wired w \<and> wr_wired w \<le> b_size (wr_buf w)"

definition stream_inv :: "int \<Rightarrow> 'a rawStream_scheme \<Rightarrow> bool" where
  "stream_inv W w \<longleftrightarrow> sides_inv w \<and> flags_inv w \<and> window_inv W w \<and> wbuf_inv w"

lemmas stream_inv_defs = stream_inv_def sides_inv_def flags_inv_def window_inv_def wbuf_inv_def

text \<open>
  The outgoing queues as this stream sees them: it is in a queue exactly when its flag says so,
  and there is room if it has to be added. (The bound is that of the arrays that back a queue.)
\<close>

definition queue_cap :: nat where "queue_cap = 2 ^ 62"

definition queues_inv :: "sworld \<Rightarrow> bool" where
  "queues_inv w \<longleftrightarrow> outgoing_inv (w_out w) \<and>
     (s_inctrl w \<longleftrightarrow> s_ref w \<in> set (queue_elems (o_ctrl (w_out w)))) \<and>
     (s_indata w \<longleftrightarrow> s_ref w \<in> set (queue_elems (o_data (w_out w)))) \<and>
     distinct (queue_elems (o_ctrl (w_out w))) \<and> distinct (queue_elems (o_data (w_out w))) \<and>
     length (queue_elems (o_ctrl (w_out w))) < queue_cap + (if s_inctrl w then 1 else 0) \<and>
     length (queue_elems (o_data (w_out w))) < queue_cap + (if s_indata w then 1 else 0)"

section \<open>Scheduling\<close>

text \<open>
  How a section may change the outgoing state: it adds this stream to queues it was not in, and
  nothing else but the flag that wakes the write loop.
\<close>

definition added :: "bool \<Rightarrow> bool \<Rightarrow> sref \<Rightarrow> rawStreamQueue \<Rightarrow> rawStreamQueue \<Rightarrow> bool" where
  "added before after r q q' \<longleftrightarrow> queue_inv q' \<and>
     queue_elems q' = queue_elems q @ (if after \<and> \<not> before then [r] else []) \<and> (before \<longrightarrow> after)"

definition sched :: "sworld \<Rightarrow> rawConnOutgoing \<Rightarrow> bool \<Rightarrow> bool \<Rightarrow> bool" where
  "sched w out ic idt \<longleftrightarrow> outgoing_inv out \<and>
     added (s_inctrl w) ic (s_ref w) (o_ctrl (w_out w)) (o_ctrl out) \<and>
     added (s_indata w) idt (s_ref w) (o_data (w_out w)) (o_data out) \<and>
     o_err out = o_err (w_out w) \<and> o_blocked out = o_blocked (w_out w) \<and> o_pingAcks out = o_pingAcks (w_out w) \<and>
     o_pingQueue out = o_pingQueue (w_out w) \<and> o_settingsAcks out = o_settingsAcks (w_out w)"

lemma sched_refl: "queues_inv w \<Longrightarrow> sched w (w_out w) (s_inctrl w) (s_indata w)"
  by (simp add: sched_def added_def queues_inv_def outgoing_inv_def)

lemma sched_trans:
  "sched w out ic idt \<Longrightarrow> sched (w\<lparr>w_out := out, s_inctrl := ic, s_indata := idt\<rparr>) out' ic' idt' \<Longrightarrow> sched w out' ic' idt'"
  by (auto simp: sched_def added_def)

lemma sched_queues_inv:
  "queues_inv w \<Longrightarrow> sched w out ic idt \<Longrightarrow> queues_inv (w\<lparr>w_out := out, s_inctrl := ic, s_indata := idt\<rparr>)"
  by (auto simp: sched_def added_def queues_inv_def)

lemma queues_inv_cong:
  "w_out v = w_out w \<Longrightarrow> s_ref v = s_ref w \<Longrightarrow> s_inctrl v = s_inctrl w \<Longrightarrow> s_indata v = s_indata w \<Longrightarrow>
   queues_inv v = queues_inv w"
  by (simp add: queues_inv_def)

lemma scheduleCtrl_sched:
  assumes "queues_inv w"
  shows "\<exists>out. scheduleCtrl w = Some (w\<lparr>w_out := out, s_inctrl := True\<rparr>) \<and> sched w out True (s_indata w)"
proof (cases "s_inctrl w")
  case True
  then have "w\<lparr>w_out := w_out w, s_inctrl := True\<rparr> = w" by simp
  with True show ?thesis using sched_refl [OF assms]
    by (intro exI [of _ "w_out w"]) (simp add: scheduleCtrl_def addCtrl_def)
next
  case False
  with assms have "queue_inv (o_ctrl (w_out w))" "length (queue_elems (o_ctrl (w_out w))) < queue_cap"
    by (simp_all add: queues_inv_def outgoing_inv_def)
  from queue_push_spec [OF this [unfolded queue_cap_def], of "s_ref w"] obtain q where
    "queue_push (o_ctrl (w_out w)) (s_ref w) = Some q" "queue_inv q" "queue_elems q = queue_elems (o_ctrl (w_out w)) @ [s_ref w]"
    by blast
  with False assms show ?thesis
    by (auto simp: scheduleCtrl_def addCtrl_def sched_def added_def queues_inv_def outgoing_inv_def
        outgoing_busy_def wakeupLocked_def intro!: exI)
qed

lemma scheduleData_sched:
  assumes "queues_inv w"
  shows "\<exists>out. scheduleData w = Some (w\<lparr>w_out := out, s_indata := True\<rparr>) \<and> sched w out (s_inctrl w) True"
proof (cases "s_indata w")
  case True
  then have "w\<lparr>w_out := w_out w, s_indata := True\<rparr> = w" by simp
  with True show ?thesis using sched_refl [OF assms]
    by (intro exI [of _ "w_out w"]) (simp add: scheduleData_def addData_def)
next
  case False
  with assms have "queue_inv (o_data (w_out w))" "length (queue_elems (o_data (w_out w))) < queue_cap"
    by (simp_all add: queues_inv_def outgoing_inv_def)
  from queue_push_spec [OF this [unfolded queue_cap_def], of "s_ref w"] obtain q where
    "queue_push (o_data (w_out w)) (s_ref w) = Some q" "queue_inv q" "queue_elems q = queue_elems (o_data (w_out w)) @ [s_ref w]"
    by blast
  with False assms show ?thesis
    by (auto simp: scheduleData_def addData_def sched_def added_def queues_inv_def outgoing_inv_def
        outgoing_busy_def wakeupLocked_def intro!: exI)
qed

lemma queues_inv_updates [simp]:
  "queues_inv (w\<lparr>s_flags := x0\<rparr>) = queues_inv w"
  "queues_inv (w\<lparr>rd_err := x1\<rparr>) = queues_inv w"
  "queues_inv (w\<lparr>rd_buf := x2\<rparr>) = queues_inv w"
  "queues_inv (w\<lparr>rd_left := x3\<rparr>) = queues_inv w"
  "queues_inv (w\<lparr>rd_acked := x4\<rparr>) = queues_inv w"
  "queues_inv (w\<lparr>rd_closed := x5\<rparr>) = queues_inv w"
  "queues_inv (w\<lparr>rd_increment := x6\<rparr>) = queues_inv w"
  "queues_inv (w\<lparr>rd_ready := x7\<rparr>) = queues_inv w"
  "queues_inv (w\<lparr>wr_err := x8\<rparr>) = queues_inv w"
  "queues_inv (w\<lparr>wr_buf := x9\<rparr>) = queues_inv w"
  "queues_inv (w\<lparr>wr_left := x10\<rparr>) = queues_inv w"
  "queues_inv (w\<lparr>wr_wired := x11\<rparr>) = queues_inv w"
  "queues_inv (w\<lparr>wr_acked := x12\<rparr>) = queues_inv w"
  "queues_inv (w\<lparr>wr_closed := x13\<rparr>) = queues_inv w"
  "queues_inv (w\<lparr>wr_ready := x14\<rparr>) = queues_inv w"
  "queues_inv (w\<lparr>wr_flushed := x15\<rparr>) = queues_inv w"
  "queues_inv (w\<lparr>s_err := x16\<rparr>) = queues_inv w"
  "queues_inv (w\<lparr>s_closed := x17\<rparr>) = queues_inv w"
  "queues_inv (w\<lparr>w_streams := x18\<rparr>) = queues_inv w"
  by (simp_all add: queues_inv_def)

lemma sched_updates [simp]:
  "sched (w\<lparr>s_flags := x0\<rparr>) out ic idt = sched w out ic idt"
  "sched (w\<lparr>rd_err := x1\<rparr>) out ic idt = sched w out ic idt"
  "sched (w\<lparr>rd_buf := x2\<rparr>) out ic idt = sched w out ic idt"
  "sched (w\<lparr>rd_left := x3\<rparr>) out ic idt = sched w out ic idt"
  "sched (w\<lparr>rd_acked := x4\<rparr>) out ic idt = sched w out ic idt"
  "sched (w\<lparr>rd_closed := x5\<rparr>) out ic idt = sched w out ic idt"
  "sched (w\<lparr>rd_increment := x6\<rparr>) out ic idt = sched w out ic idt"
  "sched (w\<lparr>rd_ready := x7\<rparr>) out ic idt = sched w out ic idt"
  "sched (w\<lparr>wr_err := x8\<rparr>) out ic idt = sched w out ic idt"
  "sched (w\<lparr>wr_buf := x9\<rparr>) out ic idt = sched w out ic idt"
  "sched (w\<lparr>wr_left := x10\<rparr>) out ic idt = sched w out ic idt"
  "sched (w\<lparr>wr_wired := x11\<rparr>) out ic idt = sched w out ic idt"
  "sched (w\<lparr>wr_acked := x12\<rparr>) out ic idt = sched w out ic idt"
  "sched (w\<lparr>wr_closed := x13\<rparr>) out ic idt = sched w out ic idt"
  "sched (w\<lparr>wr_ready := x14\<rparr>) out ic idt = sched w out ic idt"
  "sched (w\<lparr>wr_flushed := x15\<rparr>) out ic idt = sched w out ic idt"
  "sched (w\<lparr>s_err := x16\<rparr>) out ic idt = sched w out ic idt"
  "sched (w\<lparr>s_closed := x17\<rparr>) out ic idt = sched w out ic idt"
  "sched (w\<lparr>w_streams := x18\<rparr>) out ic idt = sched w out ic idt"
  by (simp_all add: sched_def)

section \<open>The effect of the helpers\<close>

lemma setReadErrorLocked_spec:
  assumes "queues_inv w" "rd_err w = None" "\<not> rd_closed w" "\<not> s_closed w" "rd_acked w = seenAck w"
  shows "\<exists>out ic. setReadErrorLocked w err = Some (None, w\<lparr>rd_err := Some err, rd_closed := True,
      s_closed := wr_err w \<noteq> None, rd_acked := True,
      s_flags := (if seenEOF w then s_flags w else s_flags w OR flagStreamNeedReset), rd_increment := 0,
      rd_ready := Broadcast (rd_ready w), w_out := out, s_inctrl := ic\<rparr>) \<and>
    sched w out ic (s_indata w) \<and> (\<not> seenEOF w \<longrightarrow> ic)"
proof (cases "seenEOF w")
  case True
  with assms show ?thesis using sched_refl [of w]
    by (intro exI [of _ "w_out w"] exI [of _ "s_inctrl w"], cases "wr_err w"; cases "seenAck w"; cases w)
      (simp_all add: setReadErrorLocked_def flag_simps Let_def)
next
  case False
  define v where "v = w\<lparr>rd_err := Some err, rd_closed := True, s_closed := wr_err w \<noteq> None, rd_acked := True,
    s_flags := s_flags w OR flagStreamNeedReset\<rparr>"
  have "queues_inv v" using assms by (simp add: v_def)
  from scheduleCtrl_sched [OF this] obtain out where
    out: "scheduleCtrl v = Some (v\<lparr>w_out := out, s_inctrl := True\<rparr>)" "sched v out True (s_indata v)" by blast
  have "setReadErrorLocked w err = do { w \<leftarrow> scheduleCtrl v; Some (None, w\<lparr>rd_increment := 0, rd_ready := Broadcast (rd_ready w)\<rparr>) }"
    using assms False by (cases "wr_err w"; cases "seenAck w"; cases w) (simp_all add: setReadErrorLocked_def flag_simps v_def Let_def)
  with out False show ?thesis by (intro exI [of _ out] exI [of _ True]) (simp add: v_def)
qed

lemma setWriteErrorLocked_spec:
  assumes "queues_inv w" "wr_err w = None" "\<not> wr_closed w" "\<not> s_closed w"
  shows "\<exists>out ic. setWriteErrorLocked w err = Some (None, w\<lparr>wr_err := Some err, wr_closed := True,
      s_closed := rd_err w \<noteq> None, s_flags := s_flags w OR flagStreamNeedEOF,
      wr_ready := Broadcast (wr_ready w), wr_flushed := Broadcast (wr_flushed w), w_out := out, s_inctrl := ic\<rparr>) \<and>
    sched w out ic (s_indata w) \<and> (b_size (wr_buf w) = wr_wired w \<longrightarrow> ic)"
proof -
  define v where "v = w\<lparr>wr_err := Some err, wr_closed := True, s_closed := rd_err w \<noteq> None,
    s_flags := s_flags w OR flagStreamNeedEOF\<rparr>"
  have eq: "setWriteErrorLocked w err = do {
      w \<leftarrow> (if b_size (wr_buf v) = wr_wired v then scheduleCtrl v else Some v);
      Some (None, w\<lparr>wr_ready := Broadcast (wr_ready w), wr_flushed := Broadcast (wr_flushed w)\<rparr>) }"
    using assms by (cases "rd_err w"; cases w) (simp_all add: setWriteErrorLocked_def v_def Let_def)
  have qv: "queues_inv v" using assms by (simp add: v_def)
  show ?thesis
  proof (cases "b_size (wr_buf w) = wr_wired w")
    case True
    from scheduleCtrl_sched [OF qv] obtain out where
      out: "scheduleCtrl v = Some (v\<lparr>w_out := out, s_inctrl := True\<rparr>)" "sched v out True (s_indata v)" by blast
    with True show ?thesis unfolding eq by (intro exI [of _ out] exI [of _ True]) (simp add: v_def)
  next
    case False
    then show ?thesis unfolding eq using sched_refl [OF assms(1)]
      by (intro exI [of _ "w_out w"] exI [of _ "s_inctrl w"]) (simp add: v_def)
  qed
qed

section \<open>What every section guarantees\<close>

text \<open>
  \<open>needs_ctrl\<close>: the stream has frames to write that only \<^verbatim>\<open>writeCtrl\<close> writes. A section that
  creates such a need puts the stream into the control queue, and likewise for data: nothing that
  has to be sent is forgotten.
\<close>

definition needs_ctrl :: "sworld \<Rightarrow> bool" where
  "needs_ctrl w \<longleftrightarrow> (needOpen w \<or> needAck w) \<and> \<not> sentEOF w \<or> 0 < rd_increment w \<or> needReset w \<or>
     needEOF w \<and> b_size (wr_buf w) = wr_wired w"

definition schedules :: "sworld \<Rightarrow> sworld \<Rightarrow> bool" where
  "schedules w w' \<longleftrightarrow> (needs_ctrl w' \<longrightarrow> s_inctrl w' \<or> needs_ctrl w) \<and> (activeData w' \<longrightarrow> s_indata w' \<or> activeData w)"

text \<open>A section that ends the reason to wait of a reader, writer or flusher wakes it.\<close>

definition read_ready :: "sworld \<Rightarrow> bool" where
  "read_ready w \<longleftrightarrow> b_size (rd_buf w) \<noteq> 0 \<or> rd_err w \<noteq> None"

definition write_ready :: "sworld \<Rightarrow> bool" where
  "write_ready w \<longleftrightarrow> wr_err w \<noteq> None \<or> b_size (wr_buf w) < streamWriteBufferSize"

definition flush_ready :: "sworld \<Rightarrow> bool" where
  "flush_ready w \<longleftrightarrow> wr_err w \<noteq> None \<or> b_size (wr_buf w) = 0"

definition notified :: "condWithDeadline \<Rightarrow> condWithDeadline \<Rightarrow> bool \<Rightarrow> bool \<Rightarrow> bool" where
  "notified c c' before after \<longleftrightarrow> c_broadcasts c \<le> c_broadcasts c' \<and> (after \<and> \<not> before \<longrightarrow> c_broadcasts c < c_broadcasts c')"

definition notifies :: "sworld \<Rightarrow> sworld \<Rightarrow> bool" where
  "notifies w w' \<longleftrightarrow> notified (rd_ready w) (rd_ready w') (read_ready w) (read_ready w') \<and>
     notified (wr_ready w) (wr_ready w') (write_ready w) (write_ready w') \<and>
     notified (wr_flushed w) (wr_flushed w') (flush_ready w) (flush_ready w')"

text \<open>The stream table changes only when the stream is fully closed, by removing the stream.\<close>

definition fully_closed :: "'a rawStream_scheme \<Rightarrow> bool" where
  "fully_closed w \<longleftrightarrow> seenEOF w \<and> sentEOF w"

definition table_step :: "sworld \<Rightarrow> sworld \<Rightarrow> bool" where
  "table_step w w' \<longleftrightarrow> w_streams w' =
     (if fully_closed w' \<and> \<not> fully_closed w
      then streams_remove (w_streams w) (s_streamID w) (s_ref w) else w_streams w)"

text \<open>What is closed, seen or sent stays so, and the first error of a side is kept.\<close>

definition sticky :: "sworld \<Rightarrow> sworld \<Rightarrow> bool" where
  "sticky w w' \<longleftrightarrow> s_ref w' = s_ref w \<and> s_streamID w' = s_streamID w \<and>
     (seenEOF w \<longrightarrow> seenEOF w') \<and> (sentEOF w \<longrightarrow> sentEOF w') \<and>
     (rd_err w \<noteq> None \<longrightarrow> rd_err w' = rd_err w) \<and> (wr_err w \<noteq> None \<longrightarrow> wr_err w' = wr_err w) \<and>
     (s_err w \<noteq> None \<longrightarrow> s_err w' = s_err w)"

definition section_ok :: "int \<Rightarrow> sworld \<Rightarrow> sworld \<Rightarrow> bool" where
  "section_ok W w w' \<longleftrightarrow> stream_inv W w' \<and> sched w (w_out w') (s_inctrl w') (s_indata w') \<and>
     sticky w w' \<and> table_step w w' \<and> schedules w w' \<and> notifies w w'"

text \<open>A fully closed stream is no longer in the stream table.\<close>

definition gone_inv :: "sworld \<Rightarrow> bool" where
  "gone_inv w \<longleftrightarrow> (fully_closed w \<longrightarrow> st_live (w_streams w) (s_streamID w) \<noteq> Some (s_ref w))"

definition world_inv :: "int \<Rightarrow> sworld \<Rightarrow> bool" where
  "world_inv W w \<longleftrightarrow> stream_inv W w \<and> queues_inv w \<and> gone_inv w"

lemmas section_defs = section_ok_def table_step_def schedules_def notifies_def notified_def fully_closed_def needs_ctrl_def sticky_def
  read_ready_def write_ready_def flush_ready_def activeData_def pendingBytes_def

lemma remove_absent: "st_live st sid \<noteq> Some r \<Longrightarrow> streams_remove st sid r = st"
  by (simp add: streams_remove_def)

lemma remove_live [simp]: "st_live (streams_remove st sid r) sid \<noteq> Some r"
  by (simp add: streams_remove_def)

lemma section_world_inv:
  assumes "world_inv W w" "section_ok W w w'"
  shows "world_inv W w'"
proof -
  have "stream_inv W w'" using assms by (simp add: section_ok_def)
  moreover have "queues_inv w'"
  proof -
    let ?v = "w\<lparr>w_out := w_out w', s_inctrl := s_inctrl w', s_indata := s_indata w'\<rparr>"
    have "queues_inv ?v"
      using assms by (intro sched_queues_inv) (simp_all add: world_inv_def section_ok_def)
    moreover have "s_ref w' = s_ref ?v" using assms(2) by (simp add: section_ok_def sticky_def)
    ultimately show ?thesis using queues_inv_cong [of w' ?v] by simp
  qed
  moreover have "gone_inv w'"
    using assms unfolding world_inv_def gone_inv_def section_ok_def sticky_def table_step_def fully_closed_def
    by (metis remove_live)
  ultimately show ?thesis by (simp add: world_inv_def)
qed

lemma section_refl: "world_inv W w \<Longrightarrow> section_ok W w w"
  by (auto simp: section_defs world_inv_def sched_refl)

lemma notified_trans: "notified a b p q \<Longrightarrow> notified b c q r \<Longrightarrow> notified a c p r"
  by (cases q) (auto simp: notified_def)

lemma section_trans:
  assumes "section_ok W w w'" "section_ok W w' w''"
  shows "section_ok W w w''"
proof -
  have st: "sticky w w'" "sticky w' w''" using assms by (auto simp: section_ok_def)
  have sc: "sched w (w_out w') (s_inctrl w') (s_indata w')" "sched w' (w_out w'') (s_inctrl w'') (s_indata w'')"
    using assms by (auto simp: section_ok_def)
  have "sched w (w_out w'') (s_inctrl w'') (s_indata w'')"
    using sc st(1) by (auto simp: sched_def added_def sticky_def)
  moreover have "schedules w w''"
    using assms sc by (auto simp: section_ok_def schedules_def sched_def added_def)
  moreover have "notifies w w''"
  proof -
    have "notifies w w'" "notifies w' w''" using assms by (auto simp: section_ok_def)
    then show ?thesis unfolding notifies_def by (blast intro: notified_trans)
  qed
  moreover have "table_step w w''"
  proof -
    have "table_step w w'" "table_step w' w''" using assms by (auto simp: section_ok_def)
    moreover have "s_ref w' = s_ref w" "s_streamID w' = s_streamID w" "fully_closed w' \<longrightarrow> fully_closed w''"
      "fully_closed w \<longrightarrow> fully_closed w'"
      using st by (auto simp: sticky_def fully_closed_def)
    ultimately show ?thesis unfolding table_step_def
      by (cases "fully_closed w"; cases "fully_closed w'") simp_all
  qed
  moreover have "sticky w w''" using st by (auto simp: sticky_def)
  ultimately show ?thesis using assms(2) by (simp add: section_ok_def)
qed

subsection \<open>Closing\<close>

lemma setReadErrorLocked_ok:
  assumes "world_inv W w"
  shows "\<exists>w'. setReadErrorLocked w err = Some (rd_err w, w') \<and> section_ok W w w' \<and> rd_err w' \<noteq> None"
proof (cases "rd_err w")
  case None
  from assms None have "queues_inv w" "rd_err w = None" "\<not> rd_closed w" "\<not> s_closed w" "rd_acked w = seenAck w"
    by (auto simp: world_inv_def stream_inv_def sides_inv_def)
  from setReadErrorLocked_spec [OF this, of err] obtain out ic where
    r: "setReadErrorLocked w err = Some (None, w\<lparr>rd_err := Some err, rd_closed := True,
      s_closed := wr_err w \<noteq> None, rd_acked := True,
      s_flags := (if seenEOF w then s_flags w else s_flags w OR flagStreamNeedReset), rd_increment := 0,
      rd_ready := Broadcast (rd_ready w), w_out := out, s_inctrl := ic\<rparr>)"
    and s: "sched w out ic (s_indata w)" "\<not> seenEOF w \<longrightarrow> ic"
    by blast
  have nse: "\<not> seenEOF w" using assms None by (auto simp: world_inv_def stream_inv_def flags_inv_def)
  from assms None s nse show ?thesis unfolding r
    by (auto simp: world_inv_def stream_inv_defs section_defs bit_simps)
next
  case (Some e)
  then show ?thesis using section_refl [OF assms] by (simp add: setReadErrorLocked_def)
qed

lemma setWriteErrorLocked_ok:
  assumes "world_inv W w"
  shows "\<exists>w'. setWriteErrorLocked w err = Some (wr_err w, w') \<and> section_ok W w w' \<and> wr_err w' \<noteq> None"
proof (cases "wr_err w")
  case None
  from assms None have "queues_inv w" "wr_err w = None" "\<not> wr_closed w" "\<not> s_closed w"
    by (auto simp: world_inv_def stream_inv_def sides_inv_def)
  from setWriteErrorLocked_spec [OF this, of err] obtain out ic where
    r: "setWriteErrorLocked w err = Some (None, w\<lparr>wr_err := Some err, wr_closed := True,
      s_closed := rd_err w \<noteq> None, s_flags := s_flags w OR flagStreamNeedEOF,
      wr_ready := Broadcast (wr_ready w), wr_flushed := Broadcast (wr_flushed w), w_out := out, s_inctrl := ic\<rparr>)"
    and s: "sched w out ic (s_indata w)" "b_size (wr_buf w) = wr_wired w \<longrightarrow> ic"
    by blast
  have "\<not> sentEOF w" "\<not> needEOF w" using assms None by (auto simp: world_inv_def stream_inv_def flags_inv_def)
  with assms None s show ?thesis unfolding r
    by (auto simp: world_inv_def stream_inv_defs section_defs bit_simps)
next
  case (Some e)
  then show ?thesis using section_refl [OF assms] by (simp add: setWriteErrorLocked_def)
qed

text \<open>Both setters ignore the error of the stream as a whole.\<close>

lemma scheduleCtrl_s_err: "scheduleCtrl (w\<lparr>s_err := e\<rparr>) = map_option (\<lambda>w. w\<lparr>s_err := e\<rparr>) (scheduleCtrl w)"
  by (cases w) (simp add: scheduleCtrl_def addCtrl_def map_conv_bind_option comp_def)

lemma setReadErrorLocked_s_err:
  "setReadErrorLocked (w\<lparr>s_err := e\<rparr>) err = map_option (map_prod id (\<lambda>w. w\<lparr>s_err := e\<rparr>)) (setReadErrorLocked w err)"
  by (cases w) (auto simp: setReadErrorLocked_def scheduleCtrl_def addCtrl_def map_conv_bind_option comp_def close_chan_def Let_def)

lemma setWriteErrorLocked_s_err:
  "setWriteErrorLocked (w\<lparr>s_err := e\<rparr>) err = map_option (map_prod id (\<lambda>w. w\<lparr>s_err := e\<rparr>)) (setWriteErrorLocked w err)"
  by (cases w) (auto simp: setWriteErrorLocked_def scheduleCtrl_def addCtrl_def map_conv_bind_option comp_def close_chan_def Let_def)

lemma section_s_err:
  assumes "section_ok W w w'" "s_err w = None" "rd_err w' \<noteq> None" "wr_err w' \<noteq> None"
  shows "section_ok W w (w'\<lparr>s_err := e\<rparr>)"
proof -
  have "stream_inv W (w'\<lparr>s_err := e\<rparr>)"
    using assms by (auto simp: section_ok_def stream_inv_defs)
  moreover have "table_step w (w'\<lparr>s_err := e\<rparr>) = table_step w w'" "schedules w (w'\<lparr>s_err := e\<rparr>) = schedules w w'"
    "notifies w (w'\<lparr>s_err := e\<rparr>) = notifies w w'" by (simp_all add: section_defs)
  moreover have "sticky w (w'\<lparr>s_err := e\<rparr>)" using assms by (simp add: section_ok_def sticky_def)
  ultimately show ?thesis using assms(1) by (simp add: section_ok_def)
qed

lemma closeWithErrorLocked_ok:
  assumes "world_inv W w"
  shows "\<exists>w'. closeWithErrorLocked w err = Some (s_err w, w') \<and> section_ok W w w' \<and>
    s_err w' \<noteq> None \<and> rd_err w' \<noteq> None \<and> wr_err w' \<noteq> None"
proof (cases "s_err w")
  case None
  let ?e = "closingError err"
  obtain w1 where w1: "setReadErrorLocked w ?e = Some (rd_err w, w1)" "section_ok W w w1" "rd_err w1 \<noteq> None"
    using setReadErrorLocked_ok [OF assms] by blast
  have "world_inv W w1" using section_world_inv [OF assms w1(2)] .
  then obtain w2 where w2: "setWriteErrorLocked w1 ?e = Some (wr_err w1, w2)" "section_ok W w1 w2" "wr_err w2 \<noteq> None"
    using setWriteErrorLocked_ok by blast
  have "rd_err w2 \<noteq> None" using w1(3) w2(2) by (auto simp: section_ok_def sticky_def)
  moreover have "section_ok W w (w2\<lparr>s_err := Some ?e\<rparr>)"
    using section_trans [OF w1(2) w2(2)] None w2(3) calculation by (intro section_s_err)
  moreover have "closeWithErrorLocked w err = Some (None, w2\<lparr>s_err := Some ?e\<rparr>)"
    using w1(1) w2(1) None
    by (simp add: closeWithErrorLocked_def setReadErrorLocked_s_err setWriteErrorLocked_s_err)
  ultimately show ?thesis using w2(3) None by auto
next
  case (Some e)
  then show ?thesis using section_refl [OF assms] assms
    by (simp add: closeWithErrorLocked_def world_inv_def stream_inv_def sides_inv_def)
qed

subsection \<open>Waiting and deadlines\<close>

lemma section_same:
  assumes "s_flags w' = s_flags w" "w_streams w' = w_streams w" "s_ref w' = s_ref w" "s_streamID w' = s_streamID w"
    "rd_err w' = rd_err w" "wr_err w' = wr_err w" "s_err w' = s_err w"
    and "sched w (w_out w') (s_inctrl w') (s_indata w')" "stream_inv W w'" "schedules w w'" "notifies w w'"
  shows "section_ok W w w'"
proof -
  have "fully_closed w' = fully_closed w" using assms(1) by (simp add: fully_closed_def)
  then have "table_step w w'" using assms(2) by (simp add: table_step_def)
  then show ?thesis using assms by (simp add: section_ok_def sticky_def)
qed

lemmas schedules_defs = schedules_def needs_ctrl_def activeData_def pendingBytes_def
lemmas notifies_defs = notifies_def notified_def read_ready_def write_ready_def flush_ready_def

lemma section_conds:
  assumes "world_inv W w" "c_broadcasts (rd_ready w) \<le> c_broadcasts c1" "c_broadcasts (wr_ready w) \<le> c_broadcasts c2"
    "c_broadcasts (wr_flushed w) \<le> c_broadcasts c3"
  shows "section_ok W w (w\<lparr>rd_ready := c1, wr_ready := c2, wr_flushed := c3\<rparr>)"
proof (rule section_same)
  show "stream_inv W (w\<lparr>rd_ready := c1, wr_ready := c2, wr_flushed := c3\<rparr>)" using assms(1) by (simp add: world_inv_def stream_inv_defs)
  show "schedules w (w\<lparr>rd_ready := c1, wr_ready := c2, wr_flushed := c3\<rparr>)" by (simp add: schedules_defs)
  show "notifies w (w\<lparr>rd_ready := c1, wr_ready := c2, wr_flushed := c3\<rparr>)" using assms(2-4) by (auto simp: notifies_defs)
  show "sched w (w_out (w\<lparr>rd_ready := c1, wr_ready := c2, wr_flushed := c3\<rparr>)) (s_inctrl (w\<lparr>rd_ready := c1, wr_ready := c2, wr_flushed := c3\<rparr>)) (s_indata (w\<lparr>rd_ready := c1, wr_ready := c2, wr_flushed := c3\<rparr>))"
    using assms(1) by (simp add: world_inv_def sched_refl)
qed simp_all

lemma section_rd_ready:
  "world_inv W w \<Longrightarrow> c_broadcasts (rd_ready w) \<le> c_broadcasts c \<Longrightarrow> section_ok W w (w\<lparr>rd_ready := c\<rparr>)"
  using section_conds [of W w c "wr_ready w" "wr_flushed w"] by (cases w) simp

lemma section_wr_ready:
  "world_inv W w \<Longrightarrow> c_broadcasts (wr_ready w) \<le> c_broadcasts c \<Longrightarrow> section_ok W w (w\<lparr>wr_ready := c\<rparr>)"
  using section_conds [of W w "rd_ready w" c "wr_flushed w"] by (cases w) simp

lemma section_wr_flushed:
  "world_inv W w \<Longrightarrow> c_broadcasts (wr_flushed w) \<le> c_broadcasts c \<Longrightarrow> section_ok W w (w\<lparr>wr_flushed := c\<rparr>)"
  using section_conds [of W w "rd_ready w" "wr_ready w" c] by (cases w) simp

lemma setDeadline_broadcasts: "c_broadcasts c \<le> c_broadcasts (setDeadline c t)"
  by (simp add: setDeadline_def Let_def)

lemma stream_SetDeadline_ok:
  assumes "world_inv W w"
  shows "section_ok W w (stream_SetDeadline t w)" "section_ok W w (stream_SetReadDeadline t w)"
    "section_ok W w (stream_SetWriteDeadline t w)"
proof -
  show r: "section_ok W w (stream_SetReadDeadline t w)"
    using assms by (simp add: stream_SetReadDeadline_def setReadDeadlineLocked_def section_rd_ready setDeadline_broadcasts)
  show "section_ok W w (stream_SetWriteDeadline t w)" "section_ok W w (stream_SetDeadline t w)"
    using section_conds [OF assms, of "rd_ready w" "setDeadline (wr_ready w) t" "setDeadline (wr_flushed w) t"]
      section_conds [OF assms, of "setDeadline (rd_ready w) t" "setDeadline (wr_ready w) t" "setDeadline (wr_flushed w) t"]
    by (cases w, simp add: stream_SetWriteDeadline_def stream_SetDeadline_def setWriteDeadlineLocked_def
        setReadDeadlineLocked_def setDeadline_broadcasts)+
qed

text \<open>The only change a wait can make is to its condition; it lets through only when there is data.\<close>

lemma waitReadReadyLocked_or:
  "(\<exists>err. waitReadReadyLocked now resumed w = (Return err, w) \<and> (err = None \<longrightarrow> b_size (rd_buf w) \<noteq> 0)) \<or>
   (\<exists>c. waitReadReadyLocked now resumed w = (Blocked, w\<lparr>rd_ready := c\<rparr>) \<and> c_broadcasts c = c_broadcasts (rd_ready w) \<and> \<not> read_ready w)"
proof (cases "Wait_enter now (rd_ready w)")
  case (Inl e)
  then show ?thesis by (auto simp: waitReadReadyLocked_def)
next
  case (Inr c)
  then show ?thesis using Wait_enter_broadcasts [OF Inr] by (auto simp: waitReadReadyLocked_def read_ready_def)
qed

lemma waitReadReadyLocked_cases:
  obtains (ret) err where "waitReadReadyLocked now resumed w = (Return err, w)" "err = None \<longrightarrow> b_size (rd_buf w) \<noteq> 0"
  | (blocked) c where "waitReadReadyLocked now resumed w = (Blocked, w\<lparr>rd_ready := c\<rparr>)"
      "c_broadcasts c = c_broadcasts (rd_ready w)" "\<not> read_ready w"
  using waitReadReadyLocked_or [of now resumed w] by blast

lemma waitWriteReadyLocked_or:
  "(\<exists>err. waitWriteReadyLocked now resumed w = (Return err, w) \<and> (err = None \<longrightarrow> wr_err w = None \<and> b_size (wr_buf w) < streamWriteBufferSize)) \<or>
   (\<exists>c. waitWriteReadyLocked now resumed w = (Blocked, w\<lparr>wr_ready := c\<rparr>) \<and> c_broadcasts c = c_broadcasts (wr_ready w) \<and> \<not> write_ready w)"
proof (cases "Wait_enter now (wr_ready w)")
  case (Inl e)
  then show ?thesis by (auto simp: waitWriteReadyLocked_def)
next
  case (Inr c)
  then show ?thesis using Wait_enter_broadcasts [OF Inr] by (auto simp: waitWriteReadyLocked_def write_ready_def)
qed

lemma waitWriteReadyLocked_cases:
  obtains (ret) err where "waitWriteReadyLocked now resumed w = (Return err, w)" "err = None \<longrightarrow> wr_err w = None \<and> b_size (wr_buf w) < streamWriteBufferSize"
  | (blocked) c where "waitWriteReadyLocked now resumed w = (Blocked, w\<lparr>wr_ready := c\<rparr>)"
      "c_broadcasts c = c_broadcasts (wr_ready w)" "\<not> write_ready w"
  using waitWriteReadyLocked_or [of now resumed w] by blast

lemma waitFlushedLocked_or:
  "(\<exists>err. waitFlushedLocked now resumed w = (Return err, w) \<and> (err = None \<longrightarrow> wr_err w = None \<and> b_size (wr_buf w) \<le> 0)) \<or>
   (\<exists>c. waitFlushedLocked now resumed w = (Blocked, w\<lparr>wr_flushed := c\<rparr>) \<and> c_broadcasts c = c_broadcasts (wr_flushed w) \<and> 0 < b_size (wr_buf w) \<and> wr_err w = None)"
proof (cases "Wait_enter now (wr_flushed w)")
  case (Inl e)
  then show ?thesis by (auto simp: waitFlushedLocked_def)
next
  case (Inr c)
  then show ?thesis using Wait_enter_broadcasts [OF Inr] by (auto simp: waitFlushedLocked_def)
qed

lemma waitFlushedLocked_cases:
  obtains (ret) err where "waitFlushedLocked now resumed w = (Return err, w)" "err = None \<longrightarrow> wr_err w = None \<and> b_size (wr_buf w) \<le> 0"
  | (blocked) c where "waitFlushedLocked now resumed w = (Blocked, w\<lparr>wr_flushed := c\<rparr>)"
      "c_broadcasts c = c_broadcasts (wr_flushed w)" "0 < b_size (wr_buf w) \<and> wr_err w = None"
  using waitFlushedLocked_or [of now resumed w] by blast

lemma stream_Flush_ok:
  assumes "world_inv W w"
  shows "\<exists>r w'. stream_Flush now resumed w = (r, w') \<and> section_ok W w w' \<and>
    buffer_contents (rd_buf w') = buffer_contents (rd_buf w) \<and> buffer_contents (wr_buf w') = buffer_contents (wr_buf w)"
  by (cases rule: waitFlushedLocked_cases [of now resumed w])
    (simp_all add: stream_Flush_def section_refl [OF assms] section_wr_flushed [OF assms])

subsection \<open>Reading\<close>

text \<open>After \<open>n\<close> bytes have left the read buffer: the window grows by as much, if anyone still wants it.\<close>

lemma consume_ok:
  assumes inv: "world_inv W w"
    and b: "buffer_inv b" "buffer_contents b = drop k (buffer_contents (rd_buf w))" and n: "n = min (int k) (b_size (rd_buf w))"
  shows "\<exists>w'. (if rd_err w = None then scheduleCtrl (w\<lparr>rd_buf := b, rd_increment := rd_increment w + n\<rparr>)
      else Some (w\<lparr>rd_buf := b\<rparr>)) = Some w' \<and> section_ok W w w' \<and> rd_buf w' = b \<and> rd_err w' = rd_err w \<and> wr_buf w' = wr_buf w"
proof -
  have rb: "buffer_inv (rd_buf w)" using inv by (simp add: world_inv_def stream_inv_def window_inv_def)
  have sz: "b_size b = b_size (rd_buf w) - n" "0 \<le> n" "n \<le> b_size (rd_buf w)"
    using buffer_size_contents [OF rb] buffer_size_contents [OF b(1)] b(2) n by (auto simp: min_def)
  show ?thesis
  proof (cases "rd_err w")
    case None
    let ?v = "w\<lparr>rd_buf := b, rd_increment := rd_increment w + n\<rparr>"
    have "queues_inv ?v" using inv by (simp add: world_inv_def)
    from scheduleCtrl_sched [OF this] obtain out where
      out: "scheduleCtrl ?v = Some (?v\<lparr>w_out := out, s_inctrl := True\<rparr>)" "sched w out True (s_indata w)" by auto
    have "section_ok W w (?v\<lparr>w_out := out, s_inctrl := True\<rparr>)"
    proof (rule section_same)
      show "stream_inv W (?v\<lparr>w_out := out, s_inctrl := True\<rparr>)"
        using None inv sz b(1) by (auto simp: world_inv_def stream_inv_defs)
      show "notifies w (?v\<lparr>w_out := out, s_inctrl := True\<rparr>)"
        using sz by (auto simp: notifies_defs)
    qed (use out(2) in \<open>simp_all add: schedules_defs\<close>)
    then show ?thesis using None out(1) by auto
  next
    case (Some e)
    have "section_ok W w (w\<lparr>rd_buf := b\<rparr>)"
    proof (rule section_same)
      show "stream_inv W (w\<lparr>rd_buf := b\<rparr>)" using Some inv sz b(1) by (simp add: world_inv_def stream_inv_defs)
      show "schedules w (w\<lparr>rd_buf := b\<rparr>)" by (simp add: schedules_defs)
      show "notifies w (w\<lparr>rd_buf := b\<rparr>)" using Some by (auto simp: notifies_defs)
      show "sched w (w_out (w\<lparr>rd_buf := b\<rparr>)) (s_inctrl (w\<lparr>rd_buf := b\<rparr>)) (s_indata (w\<lparr>rd_buf := b\<rparr>))"
        using Some inv sz b(1) by (simp add: world_inv_def sched_refl)
    qed simp_all
    then show ?thesis using Some by auto
  qed
qed

lemma stream_Discard_ok:
  assumes inv: "world_inv W w" and "0 \<le> n"
  shows "\<exists>w'. stream_Discard n w = Some (min n (b_size (rd_buf w)), w') \<and> section_ok W w w' \<and>
    buffer_contents (rd_buf w') = drop (nat n) (buffer_contents (rd_buf w)) \<and> wr_buf w' = wr_buf w"
proof -
  have rb: "buffer_inv (rd_buf w)" using inv by (simp add: world_inv_def stream_inv_def window_inv_def)
  define m where "m = min n (b_size (rd_buf w))"
  obtain b where b: "buffer_discard (rd_buf w) n = (m, b)" "buffer_inv b"
    "buffer_contents b = drop (nat n) (buffer_contents (rd_buf w))"
    using buffer_discard_spec [OF rb assms(2)] buffer_size_contents [OF rb] by (auto simp: m_def)
  have m: "m = min (int (nat n)) (b_size (rd_buf w))" using assms(2) by (simp add: m_def)
  show ?thesis
  proof (cases "0 < m")
    case True
    obtain w' where "(if rd_err w = None then scheduleCtrl (w\<lparr>rd_buf := b, rd_increment := rd_increment w + m\<rparr>)
      else Some (w\<lparr>rd_buf := b\<rparr>)) = Some w'" "section_ok W w w'" "rd_buf w' = b" "wr_buf w' = wr_buf w"
      using consume_ok [OF inv b(2,3) m] by blast
    then show ?thesis using True b
      by (intro exI [of _ w'], cases "rd_err w") (simp_all add: stream_Discard_def Let_def flip: m_def)
  next
    case False
    have "b_size b = b_size (rd_buf w)"
      using False buffer_size_contents [OF rb] buffer_size_contents [OF b(2)] b(3) m by (auto simp: min_def split: if_splits)
    note sz = this
    have "section_ok W w (w\<lparr>rd_buf := b\<rparr>)"
    proof (rule section_same)
      show "stream_inv W (w\<lparr>rd_buf := b\<rparr>)" using inv b(2) sz by (simp add: world_inv_def stream_inv_defs)
      show "schedules w (w\<lparr>rd_buf := b\<rparr>)" by (simp add: schedules_defs)
      show "notifies w (w\<lparr>rd_buf := b\<rparr>)" using sz by (auto simp: notifies_defs)
      show "sched w (w_out (w\<lparr>rd_buf := b\<rparr>)) (s_inctrl (w\<lparr>rd_buf := b\<rparr>)) (s_indata (w\<lparr>rd_buf := b\<rparr>))"
        using inv b(2) sz by (simp add: world_inv_def sched_refl)
    qed simp_all
    then show ?thesis using False b by (simp add: stream_Discard_def Let_def flip: m_def)
  qed
qed

lemma stream_Peek_ok:
  assumes inv: "world_inv W w"
  shows "\<exists>r w'. stream_Peek now resumed w = Some (r, w') \<and> section_ok W w w' \<and>
    buffer_contents (rd_buf w') = buffer_contents (rd_buf w) \<and> wr_buf w' = wr_buf w \<and>
    (\<forall>p e. r = Return (p, e) \<longrightarrow> p = buffer_contents (rd_buf w) \<and> e = rd_err w \<or> p = [] \<and> e \<noteq> None)"
proof (cases rule: waitReadReadyLocked_cases [of now resumed w])
  case (ret err)
  show ?thesis
  proof (cases err)
    case None
    have rb: "buffer_inv (rd_buf w)" using inv by (simp add: world_inv_def stream_inv_def window_inv_def)
    obtain b where b: "buffer_peek (rd_buf w) = Some (buffer_contents (rd_buf w), b)" "buffer_inv b"
      "buffer_contents b = buffer_contents (rd_buf w)" "b_size b = b_size (rd_buf w)"
      using buffer_peek_spec [OF rb] by blast
    have "section_ok W w (w\<lparr>rd_buf := b\<rparr>)"
    proof (rule section_same)
      show "stream_inv W (w\<lparr>rd_buf := b\<rparr>)" using inv b(2,4) by (simp add: world_inv_def stream_inv_defs)
      show "schedules w (w\<lparr>rd_buf := b\<rparr>)" by (simp add: schedules_defs)
      show "notifies w (w\<lparr>rd_buf := b\<rparr>)" using b(4) by (auto simp: notifies_defs)
      show "sched w (w_out (w\<lparr>rd_buf := b\<rparr>)) (s_inctrl (w\<lparr>rd_buf := b\<rparr>)) (s_indata (w\<lparr>rd_buf := b\<rparr>))"
        using inv b(2,4) by (simp add: world_inv_def sched_refl)
    qed simp_all
    then show ?thesis using ret None b by (simp add: stream_Peek_def Let_def)
  qed (use ret section_refl [OF inv] in \<open>auto simp: stream_Peek_def\<close>)
next
  case (blocked c)
  then show ?thesis using section_rd_ready [OF inv, of c] by (simp add: stream_Peek_def Let_def)
qed

lemma stream_Read_ok:
  assumes inv: "world_inv W w"
  shows "\<exists>r w'. stream_Read now resumed dst w = Some (r, w') \<and> section_ok W w w' \<and> wr_buf w' = wr_buf w \<and>
    (r = Blocked \<longrightarrow> buffer_contents (rd_buf w') = buffer_contents (rd_buf w)) \<and>
    (\<forall>n dst' e. r = Return (n, dst', e) \<longrightarrow> 0 \<le> n \<and> length dst' = length dst \<and>
       take (nat n) dst' @ buffer_contents (rd_buf w') = buffer_contents (rd_buf w))"
proof (cases "dst = []")
  case True
  then show ?thesis using section_refl [OF inv] by (auto simp: stream_Read_def)
next
  case False
  show ?thesis
  proof (cases rule: waitReadReadyLocked_cases [of now resumed w])
    case (ret err)
    show ?thesis
    proof (cases err)
      case None
      have rb: "buffer_inv (rd_buf w)" using inv by (simp add: world_inv_def stream_inv_def window_inv_def)
      let ?c = "buffer_contents (rd_buf w)"
      define n where "n = int (min (length dst) (length ?c))"
      obtain b where b: "buffer_read (rd_buf w) dst = Some (n, take (length dst) ?c @ drop (length ?c) dst, b)" "buffer_inv b"
        "buffer_contents b = drop (length dst) ?c"
        using buffer_read_spec [OF rb, of dst] by (auto simp: n_def)
      have "n = min (int (length dst)) (b_size (rd_buf w))" by (simp add: n_def buffer_size_contents [OF rb])
      from consume_ok [OF inv b(2,3) this] obtain w' where
        w': "(if rd_err w = None then scheduleCtrl (w\<lparr>rd_buf := b, rd_increment := rd_increment w + n\<rparr>)
          else Some (w\<lparr>rd_buf := b\<rparr>)) = Some w'" "section_ok W w w'" "rd_buf w' = b" "wr_buf w' = wr_buf w" by blast
      have "take (nat n) (take (length dst) ?c @ drop (length ?c) dst) @ buffer_contents b = ?c"
        by (simp add: n_def b(3) min_def)
      moreover have "0 \<le> n" "length (take (length dst) ?c @ drop (length ?c) dst) = length dst" by (simp_all add: n_def)
      ultimately show ?thesis using ret None False b(1) w'
        by (cases "rd_err w") (simp_all add: stream_Read_def Let_def)
    qed (use ret False section_refl [OF inv] in \<open>auto simp: stream_Read_def\<close>)
  next
    case (blocked c)
    then show ?thesis using False section_rd_ready [OF inv, of c] by (simp add: stream_Read_def)
  qed
qed

lemma stream_ReadByte_ok:
  assumes inv: "world_inv W w"
  shows "\<exists>r w'. stream_ReadByte now resumed w = Some (r, w') \<and> section_ok W w w' \<and> wr_buf w' = wr_buf w \<and>
    buffer_contents (rd_buf w) = (case r of Return (Inr c) \<Rightarrow> [c] | _ \<Rightarrow> []) @ buffer_contents (rd_buf w')"
proof (cases rule: waitReadReadyLocked_cases [of now resumed w])
  case (ret err)
  show ?thesis
  proof (cases err)
    case None
    have rb: "buffer_inv (rd_buf w)" using inv by (simp add: world_inv_def stream_inv_def window_inv_def)
    let ?c = "buffer_contents (rd_buf w)"
    have ne: "?c \<noteq> []" using ret None buffer_size_contents [OF rb] by auto
    obtain b where b: "buffer_readbyte (rd_buf w) = Some (hd ?c, b)" "buffer_inv b" "buffer_contents b = drop 1 ?c"
      using buffer_readbyte_spec [OF rb ne] by (auto simp: drop_Suc)
    have "(1 :: int) = min (int 1) (b_size (rd_buf w))" using ne by (cases ?c) (simp_all add: buffer_size_contents [OF rb])
    from consume_ok [OF inv b(2,3) this] obtain w' where
      w': "(if rd_err w = None then scheduleCtrl (w\<lparr>rd_buf := b, rd_increment := rd_increment w + 1\<rparr>)
        else Some (w\<lparr>rd_buf := b\<rparr>)) = Some w'" "section_ok W w w'" "rd_buf w' = b" "wr_buf w' = wr_buf w" by blast
    have "?c = [hd ?c] @ buffer_contents b" using ne b(3) by (cases ?c) auto
    then show ?thesis using ret None b(1) w'
      by (intro exI [of _ "Return (Inr (hd ?c))"] exI [of _ w'], cases "rd_err w") (simp_all add: stream_ReadByte_def Let_def)
  qed (use ret section_refl [OF inv] in \<open>auto simp: stream_ReadByte_def\<close>)
next
  case (blocked c)
  then show ?thesis using section_rd_ready [OF inv, of c] by (simp add: stream_ReadByte_def Let_def)
qed

subsection \<open>What sections leave alone\<close>

text \<open>What a section leaves alone unless it says otherwise: the windows, the wired bytes and the pending OPEN.\<close>

definition keeps :: "sworld \<Rightarrow> sworld \<Rightarrow> bool" where
  "keeps w w' \<longleftrightarrow> wr_left w' = wr_left w \<and> rd_left w' = rd_left w \<and> wr_wired w' = wr_wired w \<and> (needOpen w' \<longleftrightarrow> needOpen w)"

lemma keeps_refl: "keeps w w" by (simp add: keeps_def)

lemma keeps_trans: "keeps w w' \<Longrightarrow> keeps w' w'' \<Longrightarrow> keeps w w''" by (simp add: keeps_def)

lemma schedule_keeps:
  "scheduleCtrl w = Some w' \<Longrightarrow> keeps w w' \<and> rd_buf w' = rd_buf w \<and> wr_buf w' = wr_buf w"
  "scheduleData w = Some w' \<Longrightarrow> keeps w w' \<and> rd_buf w' = rd_buf w \<and> wr_buf w' = wr_buf w"
  by (auto simp: scheduleCtrl_def addCtrl_def scheduleData_def addData_def keeps_def split: if_splits bind_splits)

subsection \<open>Writing\<close>

lemma append_ok:
  assumes inv: "world_inv W w" and wr: "wr_err w = None" and room: "b_size (wr_buf w) + zlen part \<le> streamWriteBufferSize"
  shows "\<exists>buf w'. buffer_write (wr_buf w) part = Some buf \<and>
    (if 0 < wr_left w then scheduleData (w\<lparr>wr_buf := buf\<rparr>) else Some (w\<lparr>wr_buf := buf\<rparr>)) = Some w' \<and>
    section_ok W w w' \<and> buffer_contents (wr_buf w') = buffer_contents (wr_buf w) @ part \<and> rd_buf w' = rd_buf w \<and> wr_err w' = None \<and>
    keeps w w'"
proof -
  have wb: "buffer_inv (wr_buf w)" "wr_wired w \<le> b_size (wr_buf w)" using inv by (simp_all add: world_inv_def stream_inv_def wbuf_inv_def)
  have "buffer_room (wr_buf w) (length part)" using room by (simp add: buffer_room_def)
  then obtain buf where buf: "buffer_write (wr_buf w) part = Some buf" "buffer_inv buf"
    "buffer_contents buf = buffer_contents (wr_buf w) @ part"
    using buffer_write_spec [OF wb(1)] by blast
  have sz: "b_size buf = b_size (wr_buf w) + zlen part"
    using buffer_size_contents [OF wb(1)] buffer_size_contents [OF buf(2)] buf(3) by simp
  have fl: "\<not> needEOF w" "\<not> sentEOF w" using inv wr by (auto simp: world_inv_def stream_inv_def flags_inv_def)
  let ?v = "w\<lparr>wr_buf := buf\<rparr>"
  have q: "queues_inv ?v" using inv by (simp add: world_inv_def)
  obtain out idt where o: "(if 0 < wr_left w then scheduleData ?v else Some ?v) = Some (?v\<lparr>w_out := out, s_indata := idt\<rparr>)"
    "sched w out (s_inctrl w) idt" "0 < wr_left w \<longrightarrow> idt"
  proof (cases "0 < wr_left w")
    case True
    from scheduleData_sched [OF q] obtain out where "scheduleData ?v = Some (?v\<lparr>w_out := out, s_indata := True\<rparr>)"
      "sched w out (s_inctrl w) True" by auto
    with True show ?thesis using that [where out = out and idt = True] by simp
  next
    case False
    with sched_refl [of w] inv show ?thesis using that [where out = "w_out w" and idt = "s_indata w"] by (simp add: world_inv_def)
  qed
  have "section_ok W w (?v\<lparr>w_out := out, s_indata := idt\<rparr>)"
  proof (rule section_same)
    show "stream_inv W (?v\<lparr>w_out := out, s_indata := idt\<rparr>)"
      using inv wr buf(2) sz room wb(2) fl by (auto simp: world_inv_def stream_inv_defs)
    show "schedules w (?v\<lparr>w_out := out, s_indata := idt\<rparr>)" using o(3) fl by (auto simp: schedules_defs)
    have "0 \<le> b_size (wr_buf w)" using wb(1) by (simp add: buffer_inv_def)
    then show "notifies w (?v\<lparr>w_out := out, s_indata := idt\<rparr>)" using sz by (auto simp: notifies_defs)
  qed (use o(2) in simp_all)
  then show ?thesis using buf(1,3) o(1) wr by (auto simp: keeps_def)
qed

lemma Write_loop_ok:
  assumes "world_inv W w" "0 \<le> n" "n \<le> zlen b"
  shows "\<exists>n' r w'. Write_loop now resumed b n w = Some (n', r, w') \<and> section_ok W w w' \<and> n \<le> n' \<and> n' \<le> zlen b \<and>
    buffer_contents (wr_buf w') = buffer_contents (wr_buf w) @ take (nat (n' - n)) (drop (nat n) b) \<and> rd_buf w' = rd_buf w \<and>
    (r = Return None \<longrightarrow> n' = zlen b) \<and> (r = Blocked \<longrightarrow> n' < zlen b \<and> \<not> write_ready w') \<and> keeps w w'"
  using assms
proof (induction now resumed b n w rule: Write_loop.induct)
  case (1 now resumed b n w)
  note inv = \<open>world_inv W w\<close>
  show ?case
  proof (cases "n < zlen b")
    case False
    then show ?thesis using section_refl [OF inv] "1.prems"
      by (subst Write_loop.simps) (simp add: keeps_refl)
  next
    case True
    show ?thesis
    proof (cases rule: waitWriteReadyLocked_cases [of now resumed w])
      case (blocked c)
      have "\<not> write_ready (w\<lparr>wr_ready := c\<rparr>)" using blocked(3) by (simp add: write_ready_def)
      then show ?thesis using True blocked section_wr_ready [OF inv, of c]
        by (subst Write_loop.simps) (simp add: keeps_def)
    next
      case (ret err)
      show ?thesis
      proof (cases err)
        case (Some e)
        then show ?thesis using True ret section_refl [OF inv] by (subst Write_loop.simps) (simp add: keeps_refl)
      next
        case None
        define taken where "taken = (if streamWriteBufferSize - b_size (wr_buf w) < zlen b - n
          then streamWriteBufferSize - b_size (wr_buf w) else zlen b - n)"
        have wr: "wr_err w = None" "b_size (wr_buf w) < streamWriteBufferSize" using ret None by auto
        have tk: "0 < taken" "n + taken \<le> zlen b" "b_size (wr_buf w) + taken \<le> streamWriteBufferSize"
          using wr True by (auto simp: taken_def)
        define part where "part = take (nat taken) (drop (nat n) b)"
        have sl: "slice b n (n + taken) = Some part" using tk \<open>0 \<le> n\<close> by (simp add: slice_def part_def)
        have lp: "zlen part = taken" using tk \<open>0 \<le> n\<close> by (simp add: part_def)
        obtain buf w1 where w1: "buffer_write (wr_buf w) part = Some buf"
          "(if 0 < wr_left w then scheduleData (w\<lparr>wr_buf := buf\<rparr>) else Some (w\<lparr>wr_buf := buf\<rparr>)) = Some w1"
          "section_ok W w w1" "buffer_contents (wr_buf w1) = buffer_contents (wr_buf w) @ part" "rd_buf w1 = rd_buf w" "keeps w w1"
          using append_ok [OF inv wr(1), of part] tk(3) lp by auto
        have step: "Write_loop now resumed b n w = Write_loop now False b (n + taken) w1"
          using True ret None sl w1(1,2)
          by (subst Write_loop.simps) (simp add: Let_def flip: taken_def)
        have "\<exists>n' r w'. Write_loop now False b (n + taken) w1 = Some (n', r, w') \<and> section_ok W w1 w' \<and> n + taken \<le> n' \<and>
            n' \<le> zlen b \<and> buffer_contents (wr_buf w') = buffer_contents (wr_buf w1) @ take (nat (n' - (n + taken))) (drop (nat (n + taken)) b) \<and>
            rd_buf w' = rd_buf w1 \<and> (r = Return None \<longrightarrow> n' = zlen b) \<and> (r = Blocked \<longrightarrow> n' < zlen b \<and> \<not> write_ready w') \<and> keeps w1 w'"
          using "1.IH" [OF True _ _ _ refl taken_def sl w1(1) refl _ section_world_inv [OF inv w1(3)]]
            ret None w1(2) tk \<open>0 \<le> n\<close> by simp
        then obtain n' r w' where w': "Write_loop now False b (n + taken) w1 = Some (n', r, w')" "section_ok W w1 w'"
          "n + taken \<le> n'" "n' \<le> zlen b"
          "buffer_contents (wr_buf w') = buffer_contents (wr_buf w1) @ take (nat (n' - (n + taken))) (drop (nat (n + taken)) b)"
          "rd_buf w' = rd_buf w1" "r = Return None \<longrightarrow> n' = zlen b" "r = Blocked \<longrightarrow> n' < zlen b \<and> \<not> write_ready w'" "keeps w1 w'"
          by blast
        have "part @ take (nat (n' - (n + taken))) (drop (nat (n + taken)) b) = take (nat (n' - n)) (drop (nat n) b)"
        proof -
          have "nat (n' - n) = nat taken + nat (n' - (n + taken))" "nat (n + taken) = nat taken + nat n"
            using w'(3) tk \<open>0 \<le> n\<close> by auto
          then show ?thesis by (simp add: part_def take_add)
        qed
        then show ?thesis unfolding step using w' w1(4,5) section_trans [OF w1(3) w'(2)] keeps_trans [OF w1(6) w'(9)] tk(1) by auto
      qed
    qed
  qed
qed

lemma stream_Write_ok:
  assumes inv: "world_inv W w" and n: "0 \<le> n" "n \<le> zlen b"
  shows "\<exists>n' r w'. stream_Write now resumed b n w = Some (n', r, w') \<and> section_ok W w w' \<and> n \<le> n' \<and> n' \<le> zlen b \<and>
    buffer_contents (wr_buf w') = buffer_contents (wr_buf w) @ take (nat (n' - n)) (drop (nat n) b) \<and> rd_buf w' = rd_buf w \<and>
    (r = Return None \<longrightarrow> n' = zlen b) \<and> (r = Blocked \<longrightarrow> n' < zlen b \<and> \<not> write_ready w') \<and> keeps w w'"
proof (cases "b = []")
  case True
  then show ?thesis using n section_refl [OF inv] by (simp add: stream_Write_def keeps_refl)
next
  case False
  then show ?thesis using Write_loop_ok [OF assms] by (simp add: stream_Write_def)
qed

lemma stream_WriteByte_ok:
  assumes inv: "world_inv W w"
  shows "\<exists>r w'. stream_WriteByte now resumed c w = Some (r, w') \<and> section_ok W w w' \<and> rd_buf w' = rd_buf w \<and>
    buffer_contents (wr_buf w') = buffer_contents (wr_buf w) @ (if r = Return None then [c] else [])"
proof (cases rule: waitWriteReadyLocked_cases [of now resumed w])
  case (blocked cc)
  then show ?thesis using section_wr_ready [OF inv, of cc] by (simp add: stream_WriteByte_def)
next
  case (ret err)
  show ?thesis
  proof (cases err)
    case (Some e)
    then show ?thesis using ret section_refl [OF inv] by (simp add: stream_WriteByte_def)
  next
    case None
    then have wr: "wr_err w = None" "b_size (wr_buf w) + zlen [c] \<le> streamWriteBufferSize" using ret by auto
    have "buffer_inv (wr_buf w)" using inv by (simp add: world_inv_def stream_inv_def wbuf_inv_def)
    then have "buffer_writebyte (wr_buf w) c = buffer_write (wr_buf w) [c]"
      using wr(2) by (intro buffer_writebyte_write) (simp_all add: buffer_room_def)
    moreover obtain buf w1 where "buffer_write (wr_buf w) [c] = Some buf"
      "(if 0 < wr_left w then scheduleData (w\<lparr>wr_buf := buf\<rparr>) else Some (w\<lparr>wr_buf := buf\<rparr>)) = Some w1"
      "section_ok W w w1" "buffer_contents (wr_buf w1) = buffer_contents (wr_buf w) @ [c]" "rd_buf w1 = rd_buf w"
      using append_ok [OF inv wr] by blast
    ultimately show ?thesis using ret None
      by (intro exI [of _ "Return None"] exI [of _ w1], cases "0 < wr_left w") (simp_all add: stream_WriteByte_def Let_def)
  qed
qed

lemma stream_Acknowledge_ok:
  assumes inv: "world_inv W w"
  shows "\<exists>w'. stream_Acknowledge w = Some (wr_err w, w') \<and> section_ok W w w' \<and> rd_buf w' = rd_buf w \<and> wr_buf w' = wr_buf w"
proof (cases "wr_err w = None \<and> \<not> wr_acked w")
  case True
  let ?v = "w\<lparr>s_flags := s_flags w OR flagStreamNeedAck, wr_acked := True\<rparr>"
  have "queues_inv ?v" using inv by (simp add: world_inv_def)
  from scheduleCtrl_sched [OF this] obtain out where
    out: "scheduleCtrl ?v = Some (?v\<lparr>w_out := out, s_inctrl := True\<rparr>)" "sched w out True (s_indata w)" by auto
  have "section_ok W w (?v\<lparr>w_out := out, s_inctrl := True\<rparr>)"
    using True inv out(2) by (auto simp: section_defs world_inv_def stream_inv_defs bit_simps)
  with True out(1) show ?thesis by (simp add: stream_Acknowledge_def)
next
  case False
  then show ?thesis using section_refl [OF inv] by (auto simp: stream_Acknowledge_def)
qed

subsection \<open>Incoming frames\<close>

lemma cleanupLocked_eq:
  "cleanupLocked w = w\<lparr>w_streams := (if fully_closed w then streams_remove (w_streams w) (s_streamID w) (s_ref w) else w_streams w)\<rparr>"
  by (simp add: cleanupLocked_def flag_simps fully_closed_def)

lemma section_cleanup:
  assumes inv: "world_inv W w" and "w_streams w' = w_streams w"
    and "stream_inv W w'" "sched w (w_out w') (s_inctrl w') (s_indata w')" "sticky w w'" "schedules w w'" "notifies w w'"
  shows "section_ok W w (cleanupLocked w')"
proof -
  have g: "fully_closed w \<Longrightarrow> streams_remove (w_streams w) (s_streamID w) (s_ref w) = w_streams w"
    using inv by (simp add: world_inv_def gone_inv_def remove_absent)
  have "table_step w (cleanupLocked w')"
    using assms(2,5) g by (cases "fully_closed w") (auto simp: table_step_def cleanupLocked_eq sticky_def fully_closed_def)
  moreover have "stream_inv W (cleanupLocked w')" using assms(3) by (simp add: cleanupLocked_eq stream_inv_defs)
  moreover have "schedules w (cleanupLocked w') = schedules w w'" "notifies w (cleanupLocked w') = notifies w w'"
    by (simp_all add: schedules_defs notifies_defs cleanupLocked_eq)
  ultimately show ?thesis using assms(4-7) by (simp add: section_ok_def cleanupLocked_eq sticky_def)
qed

text \<open>The end of the incoming data, by EOF or by RESET of the remote's write side.\<close>

lemma seen_eof_ok:
  assumes inv: "world_inv W w"
  shows "\<exists>p w1. setReadErrorLocked (w\<lparr>s_flags := (s_flags w OR flagStreamSeenEOF) AND NOT flagStreamNeedReset\<rparr>) err = Some (p, w1) \<and>
    section_ok W w (cleanupLocked w1) \<and> seenEOF w1 \<and> rd_err w1 = (if rd_err w = None then Some err else rd_err w) \<and>
    rd_buf w1 = rd_buf w \<and> wr_buf w1 = wr_buf w \<and> rd_left w1 = rd_left w"
proof -
  let ?v = "w\<lparr>s_flags := (s_flags w OR flagStreamSeenEOF) AND NOT flagStreamNeedReset\<rparr>"
  show ?thesis
  proof (cases "rd_err w")
    case None
    have "queues_inv ?v" "rd_err ?v = None" "\<not> rd_closed ?v" "\<not> s_closed ?v" "rd_acked ?v = seenAck ?v"
      using inv None by (auto simp: world_inv_def stream_inv_def sides_inv_def bit_simps)
    from setReadErrorLocked_spec [OF this, of err] obtain out ic where
      r: "setReadErrorLocked ?v err = Some (None, ?v\<lparr>rd_err := Some err, rd_closed := True,
        s_closed := wr_err ?v \<noteq> None, rd_acked := True,
        s_flags := (if seenEOF ?v then s_flags ?v else s_flags ?v OR flagStreamNeedReset), rd_increment := 0,
        rd_ready := Broadcast (rd_ready ?v), w_out := out, s_inctrl := ic\<rparr>)"
      and s: "sched ?v out ic (s_indata ?v)"
      by blast
    let ?w = "?v\<lparr>rd_err := Some err, rd_closed := True, s_closed := wr_err w \<noteq> None, rd_acked := True,
      rd_increment := 0, rd_ready := Broadcast (rd_ready w), w_out := out, s_inctrl := ic\<rparr>"
    have eq: "setReadErrorLocked ?v err = Some (None, ?w)" unfolding r by (simp add: bit_simps)
    have "section_ok W w (cleanupLocked ?w)"
    proof (rule section_cleanup [OF inv])
      show "stream_inv W ?w" using inv None by (auto simp: world_inv_def stream_inv_defs bit_simps)
      have "added (s_inctrl w) ic (s_ref w) (o_ctrl (w_out w)) (o_ctrl out)" using s by (simp add: sched_def)
      then show "schedules w ?w" by (auto simp: schedules_defs bit_simps added_def)
      show "notifies w ?w" by (auto simp: notifies_defs)
      show "sticky w ?w" using None by (auto simp: sticky_def bit_simps)
    qed (use s in simp_all)
    then show ?thesis using None eq by (intro exI [of _ None] exI [of _ ?w]) (simp add: bit_simps)
  next
    case (Some e)
    have "section_ok W w (cleanupLocked ?v)"
    proof (rule section_cleanup [OF inv])
      show "stream_inv W ?v" using inv Some by (auto simp: world_inv_def stream_inv_defs bit_simps)
      show "schedules w ?v" by (auto simp: schedules_defs bit_simps)
      show "notifies w ?v" by (auto simp: notifies_defs)
      show "sticky w ?v" by (auto simp: sticky_def bit_simps)
    qed (use inv in \<open>simp_all add: world_inv_def sched_refl\<close>)
    then show ?thesis using Some
      by (intro exI [of _ "Some e"] exI [of _ ?v]) (simp add: setReadErrorLocked_def bit_simps)
  qed
qed

lemma see_ack_ok:
  assumes inv: "world_inv W w"
  shows "\<exists>w1. (if rd_err w = None \<and> s_flags w AND flagStreamSeenAck = 0 then do {
        ch \<leftarrow> close_chan (rd_acked w);
        Some (w\<lparr>s_flags := s_flags w OR flagStreamSeenAck, rd_acked := ch\<rparr>)
      } else Some (w\<lparr>s_flags := s_flags w OR flagStreamSeenAck\<rparr>)) = Some w1 \<and>
    section_ok W w w1 \<and> seenAck w1 \<and> s_flags w1 = s_flags w OR flagStreamSeenAck \<and>
    rd_buf w1 = rd_buf w \<and> wr_buf w1 = wr_buf w \<and> rd_left w1 = rd_left w \<and> rd_err w1 = rd_err w \<and> s_streamID w1 = s_streamID w"
proof -
  let ?v = "w\<lparr>s_flags := s_flags w OR flagStreamSeenAck, rd_acked := True\<rparr>"
  have tb: "table_step w ?v" by (auto simp: table_step_def fully_closed_def bit_simps)
  have "section_ok W w ?v"
    unfolding section_ok_def
  proof (intro conjI)
    show "stream_inv W ?v" using inv by (auto simp: world_inv_def stream_inv_defs bit_simps)
    show "sched w (w_out ?v) (s_inctrl ?v) (s_indata ?v)" using inv by (simp add: world_inv_def sched_refl)
    show "sticky w ?v" by (simp add: sticky_def bit_simps)
    show "schedules w ?v" by (simp add: schedules_defs bit_simps)
    show "notifies w ?v" by (auto simp: notifies_defs)
  qed (rule tb)
  moreover have "rd_acked w = (rd_err w \<noteq> None \<or> seenAck w)" using inv by (simp add: world_inv_def stream_inv_def sides_inv_def)
  then have "(if rd_err w = None \<and> s_flags w AND flagStreamSeenAck = 0 then do {
        ch \<leftarrow> close_chan (rd_acked w);
        Some (w\<lparr>s_flags := s_flags w OR flagStreamSeenAck, rd_acked := ch\<rparr>)
      } else Some (w\<lparr>s_flags := s_flags w OR flagStreamSeenAck\<rparr>)) = Some ?v"
    by (cases w) (auto simp: flag_simps)
  ultimately show ?thesis by (auto simp: bit_simps)
qed

lemma receive_ok:
  assumes inv: "world_inv W w" and len: "zlen data \<le> rd_left w"
  shows "\<exists>w1. (if rd_err w = None then do {
        b \<leftarrow> buffer_write (rd_buf w) data;
        Some (w\<lparr>rd_buf := b, rd_ready := Broadcast (rd_ready w)\<rparr>)
      } else Some w) = Some w1 \<and> section_ok W w (w1\<lparr>rd_left := rd_left w1 - zlen data\<rparr>) \<and>
    buffer_contents (rd_buf w1) = buffer_contents (rd_buf w) @ (if rd_err w = None then data else []) \<and>
    wr_buf w1 = wr_buf w \<and> rd_err w1 = rd_err w \<and> rd_left w1 = rd_left w"
proof (cases "rd_err w")
  case None
  have rb: "buffer_inv (rd_buf w)" using inv by (simp add: world_inv_def stream_inv_def window_inv_def)
  have "b_size (rd_buf w) + zlen data < 2 ^ 31"
    using inv None len by (simp add: world_inv_def stream_inv_def window_inv_def)
  then have "buffer_room (rd_buf w) (length data)" by (simp add: buffer_room_def)
  then obtain b where b: "buffer_write (rd_buf w) data = Some b" "buffer_inv b"
    "buffer_contents b = buffer_contents (rd_buf w) @ data" using buffer_write_spec [OF rb] by blast
  have sz: "b_size b = b_size (rd_buf w) + zlen data"
    using buffer_size_contents [OF rb] buffer_size_contents [OF b(2)] b(3) by simp
  let ?v = "w\<lparr>rd_buf := b, rd_ready := Broadcast (rd_ready w), rd_left := rd_left w - zlen data\<rparr>"
  have "section_ok W w ?v"
  proof (rule section_same)
    show "stream_inv W ?v" using inv None b(2) sz len by (auto simp: world_inv_def stream_inv_defs)
    show "schedules w ?v" by (simp add: schedules_defs)
    show "notifies w ?v" by (auto simp: notifies_defs)
  qed (use inv in \<open>simp_all add: world_inv_def sched_refl\<close>)
  then show ?thesis using None b by simp
next
  case (Some e)
  let ?v = "w\<lparr>rd_left := rd_left w - zlen data\<rparr>"
  have "section_ok W w ?v"
  proof (rule section_same)
    show "stream_inv W ?v" using inv Some len by (auto simp: world_inv_def stream_inv_defs)
    show "schedules w ?v" by (simp add: schedules_defs)
    show "notifies w ?v" by (auto simp: notifies_defs)
  qed (use inv in \<open>simp_all add: world_inv_def sched_refl\<close>)
  then show ?thesis using Some by simp
qed


text \<open>
  \<^verbatim>\<open>processDataLocked\<close>: it rejects data after EOF and data beyond the window, and otherwise
  appends the data to the read buffer if that side is still open.
\<close>

lemma processDataLocked_ok:
  assumes inv: "world_inv W w"
  shows "\<exists>r w'. processDataLocked ref w data flags = Some (r, w') \<and> section_ok W w w' \<and> wr_buf w' = wr_buf w \<and>
    (r = None \<longleftrightarrow> \<not> seenEOF w \<and> zlen data \<le> rd_left w) \<and>
    buffer_contents (rd_buf w') = buffer_contents (rd_buf w) @ (if r = None \<and> rd_err w = None then data else []) \<and>
    (r = None \<longrightarrow> (flags_Has flags FlagDataEOF \<longrightarrow> seenEOF w' \<and> rd_err w' \<noteq> None) \<and> rd_left w' = rd_left w - zlen data)"
proof (cases "seenEOF w")
  case True
  then show ?thesis using section_refl [OF inv] by (simp add: processDataLocked_def flag_simps)
next
  case False
  obtain w1 where w1: "(if flags_Has flags FlagDataAck then
       if rd_err w = None \<and> s_flags w AND flagStreamSeenAck = 0 then do {
         ch \<leftarrow> close_chan (rd_acked w);
         Some (w\<lparr>s_flags := s_flags w OR flagStreamSeenAck, rd_acked := ch\<rparr>)
       } else Some (w\<lparr>s_flags := s_flags w OR flagStreamSeenAck\<rparr>)
     else Some w) = Some w1"
    and s1: "section_ok W w w1" "rd_buf w1 = rd_buf w" "wr_buf w1 = wr_buf w" "rd_left w1 = rd_left w" "rd_err w1 = rd_err w"
    using see_ack_ok [OF inv] section_refl [OF inv] by (cases "flags_Has flags FlagDataAck") auto
  note inv1 = section_world_inv [OF inv s1(1)]
  show ?thesis
  proof (cases "zlen data \<le> rd_left w")
    case over: False
    then have "data \<noteq> []" using inv by (auto simp: world_inv_def stream_inv_def window_inv_def)
    with over False s1 show ?thesis
      unfolding processDataLocked_def w1 by (simp add: flag_simps)
  next
    case fits: True
    obtain w2 where w2: "(if data \<noteq> [] then do {
            w \<leftarrow> (if rd_err w1 = None then do {
                     b \<leftarrow> buffer_write (rd_buf w1) data;
                     Some (w1\<lparr>rd_buf := b, rd_ready := Broadcast (rd_ready w1)\<rparr>)
                   } else Some w1);
            Some (w\<lparr>rd_left := rd_left w - zlen data\<rparr>)
          } else Some w1) = Some w2"
      and s2: "section_ok W w1 w2" "buffer_contents (rd_buf w2) = buffer_contents (rd_buf w) @ (if rd_err w = None then data else [])"
        "wr_buf w2 = wr_buf w" "rd_left w2 = rd_left w - zlen data"
    proof (cases "data = []")
      case True
      then show ?thesis using that [of w1] section_refl [OF inv1] s1 by simp
    next
      case False
      obtain v where v: "(if rd_err w1 = None then do {
            b \<leftarrow> buffer_write (rd_buf w1) data;
            Some (w1\<lparr>rd_buf := b, rd_ready := Broadcast (rd_ready w1)\<rparr>)
          } else Some w1) = Some v" "section_ok W w1 (v\<lparr>rd_left := rd_left v - zlen data\<rparr>)"
          "buffer_contents (rd_buf v) = buffer_contents (rd_buf w1) @ (if rd_err w1 = None then data else [])"
          "wr_buf v = wr_buf w1" "rd_left v = rd_left w1"
        using receive_ok [OF inv1, of data] fits s1(4) by auto
      show ?thesis using that [of "v\<lparr>rd_left := rd_left v - zlen data\<rparr>"] False v s1 by simp
    qed
    have s12: "section_ok W w w2" by (rule section_trans [OF s1(1) s2(1)])
    note inv2 = section_world_inv [OF inv s12]
    have eq: "processDataLocked ref w data flags =
      (if flags_Has flags FlagDataEOF then do {
         (_, w) \<leftarrow> setReadErrorLocked (w2\<lparr>s_flags := (s_flags w2 OR flagStreamSeenEOF) AND NOT flagStreamNeedReset\<rparr>) IoEOF;
         Some (None, cleanupLocked w)
       } else Some (None, w2))"
      unfolding processDataLocked_def w1 using False fits s1(4) w2 by (simp add: flag_simps)
    show ?thesis
    proof (cases "flags_Has flags FlagDataEOF")
      case True
      obtain p w3 where w3: "setReadErrorLocked (w2\<lparr>s_flags := (s_flags w2 OR flagStreamSeenEOF) AND NOT flagStreamNeedReset\<rparr>) IoEOF = Some (p, w3)"
        "section_ok W w2 (cleanupLocked w3)" "seenEOF w3" "rd_err w3 = (if rd_err w2 = None then Some IoEOF else rd_err w2)"
        "rd_buf w3 = rd_buf w2" "wr_buf w3 = wr_buf w2" "rd_left w3 = rd_left w2"
        using seen_eof_ok [OF inv2, of IoEOF] by blast
      have c: "rd_buf (cleanupLocked w3) = rd_buf w3" "wr_buf (cleanupLocked w3) = wr_buf w3" "rd_left (cleanupLocked w3) = rd_left w3"
        "s_flags (cleanupLocked w3) = s_flags w3" "rd_err (cleanupLocked w3) = rd_err w3"
        by (simp_all add: cleanupLocked_eq)
      have "rd_err w3 \<noteq> None" using w3(4) by auto
      with True w3 s2 False fits section_trans [OF s12 w3(2)] c show ?thesis
        unfolding eq by (intro exI [of _ None] exI [of _ "cleanupLocked w3"]) simp
    next
      case noeof: False
      then show ?thesis unfolding eq using s2 s12 False fits by (intro exI [of _ None] exI [of _ w2]) simp
    qed
  qed
qed

lemma clearWriteBufferLocked_spec:
  assumes "queues_inv w"
  shows "\<exists>out ic. clearWriteBufferLocked w = Some (w\<lparr>wr_buf := buffer_clear (wr_buf w), wr_wired := 0,
      wr_flushed := Broadcast (wr_flushed w), w_out := out, s_inctrl := ic\<rparr>) \<and>
    sched w out ic (s_indata w) \<and> (needEOF w \<longrightarrow> ic)"
proof -
  let ?v = "w\<lparr>wr_buf := buffer_clear (wr_buf w), wr_wired := 0, wr_flushed := Broadcast (wr_flushed w)\<rparr>"
  have q: "queues_inv ?v" using assms by simp
  show ?thesis
  proof (cases "needEOF w")
    case True
    from scheduleCtrl_sched [OF q] obtain out where
      "scheduleCtrl ?v = Some (?v\<lparr>w_out := out, s_inctrl := True\<rparr>)" "sched w out True (s_indata w)" by auto
    with True show ?thesis by (auto simp: clearWriteBufferLocked_def flag_simps)
  next
    case False
    with sched_refl [OF assms] show ?thesis
      by (intro exI [of _ "w_out w"] exI [of _ "s_inctrl w"]) (simp add: clearWriteBufferLocked_def flag_simps)
  qed
qed

lemma buffer_clear_empty [simp]:
  "buffer_inv (buffer_clear b)" "b_size (buffer_clear b) = 0" "buffer_contents (buffer_clear b) = []"
  by (simp_all add: buffer_clear_def buffer_inv_def buffer_contents_def)

lemma remote_reset_ok:
  assumes inv: "world_inv W w"
  shows "\<exists>p w1 w2. clearWriteBufferLocked (w\<lparr>s_flags := s_flags w OR flagStreamSeenReset\<rparr>) = Some w1 \<and>
    setWriteErrorLocked w1 err = Some (p, w2) \<and> section_ok W w w2 \<and> rd_buf w2 = rd_buf w \<and>
    buffer_contents (wr_buf w2) = [] \<and> wr_err w2 \<noteq> None"
proof -
  let ?f = "s_flags w OR flagStreamSeenReset"
  have q: "queues_inv (w\<lparr>s_flags := ?f\<rparr>)" using inv by (simp add: world_inv_def)
  have "\<exists>out ic. clearWriteBufferLocked (w\<lparr>s_flags := ?f\<rparr>) = Some (w\<lparr>s_flags := ?f, wr_buf := buffer_clear (wr_buf w), wr_wired := 0,
      wr_flushed := Broadcast (wr_flushed w), w_out := out, s_inctrl := ic\<rparr>) \<and>
    sched w out ic (s_indata w) \<and> (needEOF w \<longrightarrow> ic)"
    using clearWriteBufferLocked_spec [OF q] by (simp add: bit_simps)
  then obtain out ic where c: "clearWriteBufferLocked (w\<lparr>s_flags := ?f\<rparr>) = Some (w\<lparr>s_flags := ?f, wr_buf := buffer_clear (wr_buf w), wr_wired := 0,
      wr_flushed := Broadcast (wr_flushed w), w_out := out, s_inctrl := ic\<rparr>)"
    "sched w out ic (s_indata w)" "needEOF w \<longrightarrow> ic" by blast
  let ?v = "w\<lparr>s_flags := ?f, wr_buf := buffer_clear (wr_buf w), wr_wired := 0,
      wr_flushed := Broadcast (wr_flushed w), w_out := out, s_inctrl := ic\<rparr>"
  have tb: "fully_closed (w'\<lparr>w_out := out, s_inctrl := ic\<rparr>) = fully_closed w \<Longrightarrow> w_streams w' = w_streams w \<Longrightarrow>
    table_step w (w'\<lparr>w_out := out, s_inctrl := ic\<rparr>)" for w' out ic by (simp add: table_step_def)
  show ?thesis
  proof (cases "wr_err w")
    case (Some e)
    have "section_ok W w ?v"
      unfolding section_ok_def
    proof (intro conjI)
      show "stream_inv W ?v" using inv by (auto simp: world_inv_def stream_inv_defs bit_simps)
      show "sched w (w_out ?v) (s_inctrl ?v) (s_indata ?v)" using c(2) by simp
      show "sticky w ?v" by (simp add: sticky_def bit_simps)
      show "table_step w ?v" by (rule tb) (simp_all add: fully_closed_def bit_simps)
      show "schedules w ?v" using c(3) by (auto simp: schedules_defs bit_simps)
      show "notifies w ?v" using Some by (auto simp: notifies_defs)
    qed
    then show ?thesis using Some c(1) by (simp add: setWriteErrorLocked_def)
  next
    case None
    have "queues_inv (w\<lparr>w_out := out, s_inctrl := ic, s_indata := s_indata w\<rparr>)"
      using inv c(2) by (intro sched_queues_inv) (simp_all add: world_inv_def)
    then have "queues_inv ?v" by (auto simp: queues_inv_def)
    moreover have "wr_err ?v = None" "\<not> wr_closed ?v" "\<not> s_closed ?v"
      using None inv by (auto simp: world_inv_def stream_inv_def sides_inv_def)
    ultimately obtain out' ic' where r: "setWriteErrorLocked ?v err = Some (None, ?v\<lparr>wr_err := Some err, wr_closed := True,
        s_closed := rd_err w \<noteq> None, s_flags := ?f OR flagStreamNeedEOF,
        wr_ready := Broadcast (wr_ready w), wr_flushed := Broadcast (Broadcast (wr_flushed w)), w_out := out', s_inctrl := ic'\<rparr>)"
      "sched ?v out' ic' (s_indata w)" "ic'"
      using setWriteErrorLocked_spec [of ?v err] by auto
    let ?u = "?v\<lparr>wr_err := Some err, wr_closed := True, s_closed := rd_err w \<noteq> None, s_flags := ?f OR flagStreamNeedEOF,
        wr_ready := Broadcast (wr_ready w), wr_flushed := Broadcast (Broadcast (wr_flushed w)), w_out := out', s_inctrl := ic'\<rparr>"
    have fl: "\<not> sentEOF w" using None inv by (auto simp: world_inv_def stream_inv_def flags_inv_def)
    have "section_ok W w ?u"
      unfolding section_ok_def
    proof (intro conjI)
      show "stream_inv W ?u" using inv None fl by (auto simp: world_inv_def stream_inv_defs bit_simps)
      show "sched w (w_out ?u) (s_inctrl ?u) (s_indata ?u)"
        using c(2) r(2) by (auto simp: sched_def added_def)
      show "sticky w ?u" using None by (simp add: sticky_def bit_simps)
      show "table_step w ?u" by (rule tb) (simp_all add: fully_closed_def bit_simps)
      show "schedules w ?u" using r(3) by (auto simp: schedules_defs bit_simps)
      show "notifies w ?u" by (auto simp: notifies_defs)
    qed
    then show ?thesis using c(1) r(1) by simp
  qed
qed

lemma stream_processResetFrame_ok:
  assumes inv: "world_inv W w"
  shows "\<exists>w'. stream_processResetFrame w flags error = Some (None, w') \<and> section_ok W w w' \<and> rd_buf w' = rd_buf w \<and>
    (flags_Has flags FlagResetRead \<longrightarrow> buffer_contents (wr_buf w') = [] \<and> wr_err w' \<noteq> None) \<and>
    (\<not> flags_Has flags FlagResetRead \<longrightarrow> wr_buf w' = wr_buf w) \<and>
    (flags_Has flags FlagResetWrite \<longrightarrow> seenEOF w' \<and> rd_err w' \<noteq> None)"
proof -
  obtain w1 where w1: "(if flags_Has flags FlagResetRead then do {
        let w = w\<lparr>s_flags := s_flags w OR flagStreamSeenReset\<rparr>;
        w \<leftarrow> clearWriteBufferLocked w;
        (_, w) \<leftarrow> setWriteErrorLocked w error;
        Some w
      } else Some w) = Some w1" "section_ok W w w1" "rd_buf w1 = rd_buf w"
    "flags_Has flags FlagResetRead \<longrightarrow> buffer_contents (wr_buf w1) = [] \<and> wr_err w1 \<noteq> None"
    "\<not> flags_Has flags FlagResetRead \<longrightarrow> wr_buf w1 = wr_buf w"
  proof (cases "flags_Has flags FlagResetRead")
    case True
    obtain p v u where "clearWriteBufferLocked (w\<lparr>s_flags := s_flags w OR flagStreamSeenReset\<rparr>) = Some v"
      "setWriteErrorLocked v error = Some (p, u)" "section_ok W w u" "rd_buf u = rd_buf w" "buffer_contents (wr_buf u) = []" "wr_err u \<noteq> None"
      using remote_reset_ok [OF inv] by blast
    then show ?thesis using that [of u] True by simp
  next
    case False
    then show ?thesis using that [of w] section_refl [OF inv] by simp
  qed
  note inv1 = section_world_inv [OF inv w1(2)]
  show ?thesis
  proof (cases "flags_Has flags FlagResetWrite")
    case True
    define err where "err = (if error = ErrCode ECLOSED then IoEOF else error)"
    obtain p w2 where w2: "setReadErrorLocked (w1\<lparr>s_flags := (s_flags w1 OR flagStreamSeenEOF) AND NOT flagStreamNeedReset\<rparr>) err = Some (p, w2)"
      "section_ok W w1 (cleanupLocked w2)" "seenEOF w2" "rd_err w2 = (if rd_err w1 = None then Some err else rd_err w1)"
      "rd_buf w2 = rd_buf w1" "wr_buf w2 = wr_buf w1"
      using seen_eof_ok [OF inv1, of err] by blast
    have "wr_err w1 \<noteq> None \<longrightarrow> wr_err (cleanupLocked w2) \<noteq> None" using w2(2) by (auto simp: section_ok_def sticky_def)
    moreover have "rd_err w2 \<noteq> None" using w2(4) by auto
    moreover have "stream_processResetFrame w flags error = Some (None, cleanupLocked w2)"
      unfolding stream_processResetFrame_def w1(1) using True w2(1) by (simp add: Let_def flip: err_def)
    ultimately show ?thesis using w1 w2 section_trans [OF w1(2) w2(2)]
      by (intro exI [of _ "cleanupLocked w2"]) (simp add: cleanupLocked_eq)
  next
    case False
    have "stream_processResetFrame w flags error = Some (None, w1)"
      unfolding stream_processResetFrame_def w1(1) using False by simp
    then show ?thesis using w1 False by simp
  qed
qed

lemma changeWriteWindow_ok:
  assumes inv: "world_inv W w"
  shows "\<exists>w'. changeWriteWindow w diff = Some w' \<and> section_ok W w w' \<and> rd_buf w' = rd_buf w \<and> wr_buf w' = wr_buf w \<and>
    wr_left w' = wr_left w + diff \<and> wr_wired w' = wr_wired w"
proof -
  let ?v = "w\<lparr>wr_left := wr_left w + diff\<rparr>"
  have q: "queues_inv ?v" using inv by (simp add: world_inv_def)
  have si: "stream_inv W (?v\<lparr>w_out := out, s_indata := idt\<rparr>)" for out idt
    using inv by (simp add: world_inv_def stream_inv_defs)
  have nt: "notifies w (?v\<lparr>w_out := out, s_indata := idt\<rparr>)" for out idt by (auto simp: notifies_defs)
  obtain out idt where o: "changeWriteWindow w diff = Some (?v\<lparr>w_out := out, s_indata := idt\<rparr>)"
    "sched w out (s_inctrl w) idt" "0 < wr_left w + diff \<and> wr_left w \<le> 0 \<and> 0 < pendingBytes w \<longrightarrow> idt"
  proof (cases "wr_left w \<le> 0 \<and> 0 < pendingBytes w \<and> 0 < wr_left w + diff")
    case True
    from scheduleData_sched [OF q] obtain out where "scheduleData ?v = Some (?v\<lparr>w_out := out, s_indata := True\<rparr>)"
      "sched w out (s_inctrl w) True" by auto
    with True show ?thesis using that [where out = out and idt = True] by (simp add: changeWriteWindow_def)
  next
    case False
    then have "changeWriteWindow w diff = Some ?v" by (auto simp: changeWriteWindow_def)
    with False sched_refl [of w] inv show ?thesis using that [where out = "w_out w" and idt = "s_indata w"] by (auto simp: world_inv_def)
  qed
  have "section_ok W w (?v\<lparr>w_out := out, s_indata := idt\<rparr>)"
  proof (rule section_same)
    show "schedules w (?v\<lparr>w_out := out, s_indata := idt\<rparr>)" using o(3) by (auto simp: schedules_defs)
  qed (use si nt o(2) in simp_all)
  with o(1) show ?thesis by simp
qed

lemma stream_processWindowFrame_ok:
  assumes inv: "world_inv W w"
  shows "\<exists>r w'. stream_processWindowFrame ref w increment = Some (r, w') \<and> section_ok W w w' \<and> rd_buf w' = rd_buf w \<and> wr_buf w' = wr_buf w \<and>
    (r = None \<longleftrightarrow> increment \<noteq> 0) \<and> wr_left w' = wr_left w + uint increment"
proof (cases "increment = 0")
  case True
  then show ?thesis using section_refl [OF inv] by (simp add: stream_processWindowFrame_def)
next
  case False
  then have "\<not> increment \<le> 0" by (simp add: word_le_nat_alt word_unat_eq_iff)
  then show ?thesis using changeWriteWindow_ok [OF inv, of "uint increment"] False
    by (auto simp: stream_processWindowFrame_def)
qed

subsection \<open>Outgoing frames\<close>

lemma prepareDataLocked_spec:
  assumes inv: "wbuf_inv w" and wired: "wr_wired w = 0"
  shows "\<exists>b n. prepareDataLocked w dataFramePayloadSize =
      Some (take (nat n) (buffer_contents (wr_buf w)), w\<lparr>wr_buf := b, wr_wired := n, wr_left := wr_left w - n\<rparr>) \<and>
    0 \<le> n \<and> n \<le> b_size (wr_buf w) \<and> n \<le> max 0 (wr_left w) \<and> (n = b_size (wr_buf w) \<or> n = max 0 (wr_left w)) \<and>
    buffer_inv b \<and> buffer_contents b = buffer_contents (wr_buf w) \<and> b_size b = b_size (wr_buf w)"
proof -
  have wb: "buffer_inv (wr_buf w)" "b_size (wr_buf w) \<le> streamWriteBufferSize" "0 \<le> b_size (wr_buf w)"
    using inv by (auto simp: wbuf_inv_def)
  let ?n = "if wr_left w < b_size (wr_buf w) then wr_left w else b_size (wr_buf w)"
  have mx: "\<not> int MaxDataFramePayloadSize < ?n" using wb(2) by auto
  show ?thesis
  proof (cases "0 < ?n")
    case True
    obtain b where b: "buffer_peek (wr_buf w) = Some (buffer_contents (wr_buf w), b)" "buffer_inv b"
      "buffer_contents b = buffer_contents (wr_buf w)" "b_size b = b_size (wr_buf w)"
      using buffer_peek_spec [OF wb(1)] by blast
    have "slice (buffer_contents (wr_buf w)) 0 ?n = Some (take (nat ?n) (buffer_contents (wr_buf w)))"
      using True buffer_size_contents [OF wb(1)] by (auto simp: slice_def)
    then show ?thesis using True mx b
      by (intro exI [of _ b] exI [of _ ?n]) (auto simp: prepareDataLocked_def Let_def)
  next
    case False
    then have eq: "prepareDataLocked w dataFramePayloadSize = Some ([], w)"
      using mx by (auto simp: prepareDataLocked_def Let_def)
    have same: "w\<lparr>wr_buf := wr_buf w, wr_wired := 0, wr_left := wr_left w - 0\<rparr> = w" using wired by (cases w) simp
    have "b_size (wr_buf w) = 0 \<or> wr_left w \<le> 0" using False wb(3) by (auto split: if_splits)
    then show ?thesis using eq wb
      by (intro exI [of _ "wr_buf w"] exI [of _ 0]) (simp only: same, auto)
  qed
qed

definition flag_if :: "bool \<Rightarrow> u8 \<Rightarrow> u8" where
  "flag_if b f = (if b then f else 0)"

lemma outgoingFlags_spec:
  defines "eof w \<equiv> activeEOF w"
  shows "\<exists>f. outgoingFlags w = (flag_if (needOpen w) FlagDataOpen OR flag_if (needAck w) FlagDataAck OR flag_if (eof w) FlagDataEOF,
      (if eof w then cleanupLocked (w\<lparr>s_flags := f\<rparr>) else w\<lparr>s_flags := f\<rparr>)) \<and>
    \<not> bit f 4 \<and> \<not> bit f 5 \<and> (bit f 7 \<longleftrightarrow> needEOF w \<and> \<not> eof w) \<and> (bit f 1 \<longleftrightarrow> sentEOF w \<or> eof w) \<and>
    (bit f 0 \<longleftrightarrow> seenEOF w) \<and> (bit f 2 \<longleftrightarrow> seenAck w) \<and> (bit f 3 \<longleftrightarrow> bit (s_flags w) 3) \<and> (bit f 6 \<longleftrightarrow> needReset w)"
proof -
  define f1 where "f1 = (if needOpen w then s_flags w AND NOT flagStreamNeedOpen else s_flags w)"
  define f2 where "f2 = (if bit f1 5 then f1 AND NOT flagStreamNeedAck else f1)"
  define f3 where "f3 = (if eof w then (f2 AND NOT flagStreamNeedEOF) OR flagStreamSentEOF else f2)"
  have b1: "\<not> bit f1 4" "bit f1 0 = seenEOF w" "bit f1 1 = sentEOF w" "bit f1 2 = seenAck w" "bit f1 3 = bit (s_flags w) 3"
    "bit f1 5 = needAck w" "bit f1 6 = needReset w" "bit f1 7 = needEOF w"
    by (simp_all add: f1_def bit_simps)
  have b2: "\<not> bit f2 4" "bit f2 0 = seenEOF w" "bit f2 1 = sentEOF w" "bit f2 2 = seenAck w" "bit f2 3 = bit (s_flags w) 3"
    "\<not> bit f2 5" "bit f2 6 = needReset w" "bit f2 7 = needEOF w"
    using b1 by (simp_all add: f2_def bit_simps)
  have b3: "\<not> bit f3 4" "bit f3 0 = seenEOF w" "bit f3 1 = (sentEOF w \<or> eof w)" "bit f3 2 = seenAck w" "bit f3 3 = bit (s_flags w) 3"
    "\<not> bit f3 5" "bit f3 6 = needReset w" "bit f3 7 = (needEOF w \<and> \<not> eof w)"
    using b2 by (simp_all add: f3_def bit_simps)
  have ae: "activeEOF (w\<lparr>s_flags := f2\<rparr>) = eof w"
    using b2 by (simp add: activeEOF_def eof_def flag_simps)
  have "outgoingFlags w = (flag_if (needOpen w) FlagDataOpen OR flag_if (needAck w) FlagDataAck OR flag_if (eof w) FlagDataEOF,
      (if eof w then cleanupLocked (w\<lparr>s_flags := f3\<rparr>) else w\<lparr>s_flags := f3\<rparr>))"
  proof -
    have e1: "(if s_flags w AND flagStreamNeedOpen \<noteq> 0
        then (FlagDataOpen, w\<lparr>s_flags := s_flags w AND NOT flagStreamNeedOpen\<rparr>) else (0, w))
      = (flag_if (needOpen w) FlagDataOpen, w\<lparr>s_flags := f1\<rparr>)"
      by (simp add: flag_if_def f1_def flag_simps)
    have e2: "(if s_flags (w\<lparr>s_flags := f1\<rparr>) AND flagStreamNeedAck \<noteq> 0
        then (flag_if (needOpen w) FlagDataOpen OR FlagDataAck, w\<lparr>s_flags := f1, s_flags := s_flags (w\<lparr>s_flags := f1\<rparr>) AND NOT flagStreamNeedAck\<rparr>)
        else (flag_if (needOpen w) FlagDataOpen, w\<lparr>s_flags := f1\<rparr>))
      = (flag_if (needOpen w) FlagDataOpen OR flag_if (needAck w) FlagDataAck, w\<lparr>s_flags := f2\<rparr>)"
      using b1(6) by (simp add: flag_if_def f2_def flag_simps)
    show ?thesis unfolding outgoingFlags_def e1 Let_def prod.case e2 ae
      by (simp add: flag_if_def f3_def or.assoc)
  qed
  with b3 show ?thesis by (intro exI [of _ f3]) simp
qed

text \<open>What a frame of a stream means for the two sides.\<close>

fun frame_data :: "Frame \<Rightarrow> u8 list" where
  "frame_data (DataFrame _ _ data) = data"
| "frame_data _ = []"

fun frame_grant :: "Frame \<Rightarrow> int" where
  "frame_grant (WindowFrame _ _ increment) = uint increment"
| "frame_grant _ = 0"

fun frame_closes :: "Frame \<Rightarrow> bool" where
  "frame_closes (DataFrame _ flags _) = flags_Has flags FlagDataEOF"
| "frame_closes (ResetFrame _ flags _) = flags_Has flags FlagResetWrite"
| "frame_closes _ = False"

fun frame_opens :: "Frame \<Rightarrow> bool" where
  "frame_opens (DataFrame _ flags _) = flags_Has flags FlagDataOpen"
| "frame_opens _ = False"

fun is_data :: "Frame \<Rightarrow> bool" where
  "is_data (DataFrame _ _ _) = True"
| "is_data _ = False"

fun frame_stream :: "Frame \<Rightarrow> u32" where
  "frame_stream (DataFrame sid _ _) = sid"
| "frame_stream (ResetFrame sid _ _) = sid"
| "frame_stream (WindowFrame sid _ _) = sid"
| "frame_stream (UnknownFrame _ _ sid _) = sid"
| "frame_stream _ = 0"

text \<open>
  \<open>emits w f w'\<close>: the section from \<open>w\<close> to \<open>w'\<close> hands the frame \<open>f\<close> to the writer. Its data is a
  prefix of the write buffer within the remote's window, and is marked as wired; a window increment
  is credited to the receive window; the write side is closed only once, with an empty buffer
  behind it, and no data follows; OPEN is the first thing sent.
\<close>

definition emits :: "sworld \<Rightarrow> Frame \<Rightarrow> sworld \<Rightarrow> bool" where
  "emits w f w' \<longleftrightarrow> frame_stream f = s_streamID w \<and>
     frame_data f = take (length (frame_data f)) (buffer_contents (wr_buf w)) \<and> wr_wired w' = zlen (frame_data f) \<and>
     buffer_contents (wr_buf w') = buffer_contents (wr_buf w) \<and> wr_left w' = wr_left w - zlen (frame_data f) \<and>
     zlen (frame_data f) \<le> max 0 (wr_left w) \<and>
     rd_buf w' = rd_buf w \<and> rd_left w' = rd_left w + frame_grant f \<and> 0 \<le> frame_grant f \<and>
     (frame_closes f \<longleftrightarrow> sentEOF w' \<and> \<not> sentEOF w) \<and> (sentEOF w \<longrightarrow> \<not> is_data f) \<and>
     (frame_closes f \<longrightarrow> b_size (wr_buf w) = zlen (frame_data f)) \<and>
     (frame_opens f \<longleftrightarrow> needOpen w) \<and> \<not> needOpen w' \<and> wr_err w' = wr_err w \<and> rd_err w' = rd_err w"

lemma flags_Has_or [simp]:
  "flags_Has (flag_if a 2 OR flag_if b 4 OR flag_if c 1) 1 = c" "flags_Has (flag_if a 2 OR flag_if b 4 OR flag_if c 1) 2 = a"
  "flags_Has (flag_if a 2 OR flag_if b 4 OR flag_if c 1) 4 = b"
  by (simp_all add: flags_Has_def flag_if_def)

lemma send_data_ok:
  assumes inv: "world_inv W w" and wired: "wr_wired w = 0"
  shows "\<exists>data fl w1 w2. prepareDataLocked w dataFramePayloadSize = Some (data, w1) \<and> outgoingFlags w1 = (fl, w2) \<and>
    stream_inv W w2 \<and> sticky w w2 \<and> table_step w w2 \<and> notifies w w2 \<and>
    w_out w2 = w_out w \<and> s_inctrl w2 = s_inctrl w \<and> s_indata w2 = s_indata w \<and> \<not> activeData w2 \<and>
    (\<not> sentEOF w \<longrightarrow> emits w (DataFrame (s_streamID w2) fl data) w2) \<and>
    \<not> needAck w2 \<and> (needEOF w2 \<longrightarrow> needEOF w) \<and> (sentEOF w \<longrightarrow> data = []) \<and>
    rd_increment w2 = rd_increment w \<and> (needReset w2 \<longleftrightarrow> needReset w)"
proof -
  have wb: "wbuf_inv w" using inv by (simp add: world_inv_def stream_inv_def)
  from prepareDataLocked_spec [OF wb wired] obtain b n where
    p: "prepareDataLocked w dataFramePayloadSize =
      Some (take (nat n) (buffer_contents (wr_buf w)), w\<lparr>wr_buf := b, wr_wired := n, wr_left := wr_left w - n\<rparr>)"
    and n: "0 \<le> n" "n \<le> b_size (wr_buf w)" "n \<le> max 0 (wr_left w)" "n = b_size (wr_buf w) \<or> n = max 0 (wr_left w)"
    and b: "buffer_inv b" "buffer_contents b = buffer_contents (wr_buf w)" "b_size b = b_size (wr_buf w)" by blast
  define data where "data = take (nat n) (buffer_contents (wr_buf w))"
  have bi: "buffer_inv (wr_buf w)" using wb by (simp add: wbuf_inv_def)
  have ld: "zlen data = n" using n(1,2) buffer_size_contents [OF bi] by (simp add: data_def)
  then have td: "take (length data) (buffer_contents (wr_buf w)) = data"
    using n(1) by (metis data_def nat_int)
  let ?v = "w\<lparr>wr_buf := b, wr_wired := n, wr_left := wr_left w - n\<rparr>"
  define eof where "eof \<longleftrightarrow> activeEOF ?v"
  have sv: "s_flags ?v = s_flags w" by simp
  obtain f where F: "outgoingFlags ?v = (flag_if (needOpen w) FlagDataOpen OR flag_if (needAck w) FlagDataAck OR flag_if eof FlagDataEOF,
      (if eof then cleanupLocked (?v\<lparr>s_flags := f\<rparr>) else ?v\<lparr>s_flags := f\<rparr>)) \<and>
    \<not> bit f 4 \<and> \<not> bit f 5 \<and> (bit f 7 \<longleftrightarrow> needEOF w \<and> \<not> eof) \<and> (bit f 1 \<longleftrightarrow> sentEOF w \<or> eof) \<and>
    (bit f 0 \<longleftrightarrow> seenEOF w) \<and> (bit f 2 \<longleftrightarrow> seenAck w) \<and> (bit f 3 \<longleftrightarrow> bit (s_flags w) 3) \<and> (bit f 6 \<longleftrightarrow> needReset w)"
    using outgoingFlags_spec [of ?v, unfolded sv, folded eof_def] by (rule exE)
  have f: "outgoingFlags ?v = (flag_if (needOpen w) FlagDataOpen OR flag_if (needAck w) FlagDataAck OR flag_if eof FlagDataEOF,
      (if eof then cleanupLocked (?v\<lparr>s_flags := f\<rparr>) else ?v\<lparr>s_flags := f\<rparr>))"
    "\<not> bit f 4" "\<not> bit f 5" "bit f 7 \<longleftrightarrow> needEOF w \<and> \<not> eof" "bit f 1 \<longleftrightarrow> sentEOF w \<or> eof"
    "bit f 0 \<longleftrightarrow> seenEOF w" "bit f 2 \<longleftrightarrow> seenAck w" "bit f 6 \<longleftrightarrow> needReset w"
    by (simp_all only: F simp_thms)
  have eofD: "n = b_size (wr_buf w)" "needEOF w" "\<not> needReset w" if eof
    using that b(3) by (auto simp: eof_def activeEOF_def flag_simps split: if_splits)
  define w2 where "w2 = (if eof then cleanupLocked (?v\<lparr>s_flags := f\<rparr>) else ?v\<lparr>s_flags := f\<rparr>)"
  have w2: "w2 = ?v\<lparr>s_flags := f, w_streams := w_streams w2\<rparr>" by (simp add: w2_def cleanupLocked_eq)
  have ne: "sentEOF w \<Longrightarrow> \<not> needEOF w" "sentEOF w \<Longrightarrow> b_size (wr_buf w) = 0" "sentEOF w \<Longrightarrow> \<not> needOpen w"
    using inv wired by (auto simp: world_inv_def stream_inv_def flags_inv_def)
  have si: "stream_inv W (?v\<lparr>s_flags := f, w_streams := st\<rparr>)" for st
    unfolding stream_inv_def
  proof (intro conjI)
    let ?u = "?v\<lparr>s_flags := f, w_streams := st\<rparr>"
    have i: "sides_inv w" "flags_inv w" "window_inv W w" "wbuf_inv w" using inv by (simp_all add: world_inv_def stream_inv_def)
    show "sides_inv ?u" using i(1) f(7) by (simp add: sides_inv_def)
    show "window_inv W ?u" using i(3) by (simp add: window_inv_def)
    show "wbuf_inv ?u" using i(4) b n(1,2) by (simp add: wbuf_inv_def)
    show "flags_inv ?u" using i(2) f(2-6,8) b(3) eofD ne n(1,2)
      by (cases eof; cases "sentEOF w") (simp_all add: flags_inv_def)
  qed
  have tb: "table_step w w2"
  proof (cases eof)
    case True
    then have "\<not> fully_closed w" using eofD ne by (auto simp: fully_closed_def)
    then show ?thesis using True f(5) by (simp add: table_step_def w2_def cleanupLocked_eq fully_closed_def)
  next
    case False
    then have "fully_closed w2 = fully_closed w" using f(5,6) by (simp add: fully_closed_def w2_def)
    then show ?thesis using False by (simp add: table_step_def w2_def)
  qed
  have sel: "s_streamID w2 = s_streamID w" "wr_buf w2 = b" "wr_wired w2 = n" "wr_left w2 = wr_left w - n" "s_flags w2 = f"
    "rd_buf w2 = rd_buf w" "rd_left w2 = rd_left w" "rd_increment w2 = rd_increment w" "wr_err w2 = wr_err w" "rd_err w2 = rd_err w"
    "w_out w2 = w_out w" "s_inctrl w2 = s_inctrl w" "s_indata w2 = s_indata w"
    by (subst w2, simp)+
  have em: "emits w (DataFrame (s_streamID w2) (flag_if (needOpen w) FlagDataOpen OR flag_if (needAck w) FlagDataAck OR flag_if eof FlagDataEOF) data) w2"
    if "\<not> sentEOF w"
    unfolding emits_def sel frame_data.simps frame_stream.simps frame_grant.simps frame_closes.simps frame_opens.simps td ld flags_Has_or
    using f(2,5) b(2) n(3) eofD that by auto
  have "sticky w w2" using sel f(5,6) by (subst w2) (simp add: sticky_def)
  moreover have "notifies w w2" using b(3) by (subst w2) (auto simp: notifies_defs)
  moreover have "\<not> activeData w2" using n(4) b(3) sel by (auto simp: activeData_def pendingBytes_def)
  moreover have "sentEOF w \<longrightarrow> data = []" using ne(2) n(1,2) by (auto simp: data_def)
  ultimately show ?thesis using p f(1,3,4,8) si [of "w_streams w2", folded w2] tb em sel
    unfolding data_def [symmetric] w2_def [symmetric]
    by (intro exI conjI) (assumption | simp)+
qed

lemma finishData_ok:
  assumes inv: "world_inv W w"
  shows "section_ok W w (finishData w) \<and> wr_wired (finishData w) = 0 \<and> rd_buf (finishData w) = rd_buf w \<and>
    buffer_contents (wr_buf (finishData w)) = drop (nat (wr_wired w)) (buffer_contents (wr_buf w)) \<and>
    s_flags (finishData w) = s_flags w \<and> (needs_ctrl (finishData w) \<longleftrightarrow> needs_ctrl w) \<and> s_inctrl (finishData w) = s_inctrl w"
proof -
  have wb: "buffer_inv (wr_buf w)" "0 \<le> wr_wired w" "wr_wired w \<le> b_size (wr_buf w)" "b_size (wr_buf w) \<le> streamWriteBufferSize"
    using inv by (auto simp: world_inv_def stream_inv_def wbuf_inv_def)
  obtain b m where b: "buffer_discard (wr_buf w) (wr_wired w) = (m, b)" "buffer_inv b"
    "buffer_contents b = drop (nat (wr_wired w)) (buffer_contents (wr_buf w))"
    using buffer_discard_spec [OF wb(1,2)] by blast
  have sz: "b_size b = b_size (wr_buf w) - wr_wired w"
    using buffer_size_contents [OF wb(1)] buffer_size_contents [OF b(2)] b(3) wb(2,3) by simp
  define c1 where "c1 = (if b_size b < streamWriteBufferSize then Broadcast (wr_ready w) else wr_ready w)"
  define c2 where "c2 = (if b_size b = 0 then Broadcast (wr_flushed w) else wr_flushed w)"
  let ?u = "w\<lparr>wr_buf := b, wr_wired := 0, wr_ready := c1, wr_flushed := c2\<rparr>"
  have eq: "finishData w = ?u"
    unfolding finishData_def b(1) Let_def prod.case c1_def c2_def by (cases w) simp
  have "section_ok W w ?u"
  proof (rule section_same)
    show "stream_inv W ?u" using inv b(2) sz wb by (auto simp: world_inv_def stream_inv_defs)
    show "schedules w ?u" using sz by (auto simp: schedules_defs)
    show "notifies w ?u" by (auto simp: notifies_defs c1_def c2_def)
  qed (use inv in \<open>simp_all add: world_inv_def sched_refl\<close>)
  then show ?thesis unfolding eq using b(3) sz by (auto simp: needs_ctrl_def)
qed

text \<open>Closing the write side without data: by RESET, or by an empty DATA frame with EOF.\<close>

lemma close_write_ok:
  assumes inv: "world_inv W w" and wired: "wr_wired w = 0" and e: "b_size (wr_buf w) = 0" "needEOF w" "\<not> needOpen w" "\<not> needAck w"
    and f: "\<not> bit f 4" "\<not> bit f 5" "\<not> bit f 7" "bit f 1" "bit f 0 = seenEOF w" "bit f 2 = seenAck w" "bit f 6 \<longrightarrow> needReset w"
  defines "w' \<equiv> cleanupLocked (w\<lparr>s_flags := f\<rparr>)"
  shows "section_ok W w w' \<and> (frame_data fr = [] \<longrightarrow> frame_stream fr = s_streamID w \<longrightarrow> frame_closes fr \<longrightarrow> frame_grant fr = 0 \<longrightarrow>
    \<not> frame_opens fr \<longrightarrow> emits w fr w') \<and> wr_wired w' = 0 \<and> s_streamID w' = s_streamID w \<and> wr_err w' = wr_err w \<and> rd_err w' = rd_err w"
proof -
  have i: "sides_inv w" "flags_inv w" "window_inv W w" "wbuf_inv w" using inv by (simp_all add: world_inv_def stream_inv_def)
  have ns: "\<not> sentEOF w" "wr_err w \<noteq> None" using i(2) e(2) by (auto simp: flags_inv_def)
  have "section_ok W w w'" unfolding w'_def
  proof (rule section_cleanup [OF inv])
    let ?u = "w\<lparr>s_flags := f\<rparr>"
    show "stream_inv W ?u" unfolding stream_inv_def
    proof (intro conjI)
      show "sides_inv ?u" using i(1) f by (simp add: sides_inv_def)
      show "flags_inv ?u" using i(2) f e wired ns by (auto simp: flags_inv_def)
      show "window_inv W ?u" using i(3) by (simp add: window_inv_def)
      show "wbuf_inv ?u" using i(4) by (simp add: wbuf_inv_def)
    qed
    show "sticky w ?u" using f by (simp add: sticky_def)
    show "schedules w ?u" using f e wired by (auto simp: schedules_defs)
    show "notifies w ?u" by (auto simp: notifies_defs)
  qed (use inv in \<open>simp_all add: world_inv_def sched_refl\<close>)
  moreover have "emits w fr w'" if "frame_data fr = []" "frame_stream fr = s_streamID w" "frame_closes fr" "frame_grant fr = 0" "\<not> frame_opens fr"
    using that e f ns wired by (simp add: emits_def w'_def cleanupLocked_eq)
  ultimately show ?thesis using wired by (simp add: w'_def cleanupLocked_eq)
qed

text \<open>
  One round of \<^verbatim>\<open>writeCtrl\<close>: it emits a frame, or it has nothing left to send in a control phase.
\<close>

definition ctrl_ok :: "int \<Rightarrow> sworld \<Rightarrow> ctrl_point \<Rightarrow> sworld \<Rightarrow> bool" where
  "ctrl_ok W w pt w' \<longleftrightarrow> section_ok W w w' \<and>
     (case pt of CtrlDone \<Rightarrow> \<not> needs_ctrl w' \<and> wr_wired w' = 0 \<and> rd_buf w' = rd_buf w \<and> wr_buf w' = wr_buf w
      | CtrlWrite f r \<Rightarrow> emits w f w' \<and> (r = AfterFrame \<longrightarrow> wr_wired w' = 0))"

lemma round_data:
  assumes inv: "world_inv W w" and wired: "wr_wired w = 0" and g: "needOpen w \<or> needAck w" "\<not> sentEOF w"
  shows "\<exists>pt w'. writeCtrl_round w = Some (pt, w') \<and> ctrl_ok W w pt w'"
proof -
  from send_data_ok [OF inv wired] obtain data fl w1 w2 where
    r: "prepareDataLocked w dataFramePayloadSize = Some (data, w1)" "outgoingFlags w1 = (fl, w2)"
      "stream_inv W w2" "sticky w w2" "table_step w w2" "notifies w w2"
      "w_out w2 = w_out w" "s_inctrl w2 = s_inctrl w" "s_indata w2 = s_indata w" "\<not> activeData w2"
      "\<not> sentEOF w \<longrightarrow> emits w (DataFrame (s_streamID w2) fl data) w2" by blast
  have "schedules w w2" using r(10) g by (auto simp: schedules_def needs_ctrl_def)
  then have "section_ok W w w2" using r inv by (simp add: section_ok_def sched_refl world_inv_def)
  moreover have "writeCtrl_round w = Some (CtrlWrite (DataFrame (s_streamID w2) fl data) AfterData, w2)"
    unfolding writeCtrl_round_def using g r(1,2) by (simp add: flag_simps)
  ultimately show ?thesis using r(11) g(2) by (simp add: ctrl_ok_def)
qed

lemma round_window:
  assumes inv: "world_inv W w" and wired: "wr_wired w = 0" and g: "\<not> ((needOpen w \<or> needAck w) \<and> \<not> sentEOF w)" "0 < rd_increment w"
  shows "\<exists>pt w'. writeCtrl_round w = Some (pt, w') \<and> ctrl_ok W w pt w'"
proof -
  let ?u = "w\<lparr>rd_left := rd_left w + rd_increment w, rd_increment := 0\<rparr>"
  have i: "window_inv W w" "flags_inv w" using inv by (simp_all add: world_inv_def stream_inv_def)
  have rn: "rd_err w = None" using i(1) g(2) by (auto simp: window_inv_def split: if_splits)
  have "rd_increment w < 2 ^ 31" using i(1) rn by (auto simp: window_inv_def buffer_inv_def)
  then have gr: "uint (word_of_int (rd_increment w) :: u32) = rd_increment w" using g(2) by (simp add: uint_word_of_int)
  have no: "\<not> needOpen w" using g(1) i(2) by (auto simp: flags_inv_def)
  have "section_ok W w ?u"
  proof (rule section_same)
    show "stream_inv W ?u" using inv rn by (auto simp: world_inv_def stream_inv_defs)
    show "schedules w ?u" using g(2) by (auto simp: schedules_defs)
    show "notifies w ?u" by (auto simp: notifies_defs)
  qed (use inv in \<open>simp_all add: world_inv_def sched_refl\<close>)
  moreover have "emits w (WindowFrame (s_streamID w) 0 (word_of_int (rd_increment w))) ?u"
    unfolding emits_def frame_grant.simps gr using g(2) no wired by simp
  moreover have "writeCtrl_round w = Some (CtrlWrite (WindowFrame (s_streamID w) 0 (word_of_int (rd_increment w))) AfterFrame, ?u)"
    unfolding writeCtrl_round_def using g by (auto simp: flag_simps Let_def)
  ultimately show ?thesis using wired by (simp add: ctrl_ok_def)
qed


lemma round_reset:
  assumes inv: "world_inv W w" and wired: "wr_wired w = 0" and g: "\<not> ((needOpen w \<or> needAck w) \<and> \<not> sentEOF w)" "\<not> 0 < rd_increment w" "needReset w"
  shows "\<exists>pt w'. writeCtrl_round w = Some (pt, w') \<and> ctrl_ok W w pt w'"
proof -
  let ?f = "s_flags w AND NOT flagStreamNeedReset"
  have i: "flags_inv w" "sides_inv w" "window_inv W w" "wbuf_inv w" using inv by (simp_all add: world_inv_def stream_inv_def)
  obtain e where e: "rd_err w = Some e" using i(1) g(3) by (auto simp: flags_inv_def)
  define reset where "reset = (if e = IoEOF then ErrCode ECLOSED else e)"
  have no: "\<not> needOpen w" using g(1) i(1) by (auto simp: flags_inv_def)
  define both where "both \<longleftrightarrow> b_size (wr_buf w) = 0 \<and> needEOF w \<and> wr_err w = Some reset"
  let ?f2 = "(?f AND NOT flagStreamNeedEOF) OR flagStreamSentEOF"
  let ?w1 = "w\<lparr>s_flags := ?f\<rparr>" and ?w2 = "cleanupLocked (w\<lparr>s_flags := ?f2\<rparr>)"
  define w' where "w' = (if both then ?w2 else ?w1)"
  define fl where "fl = (if both then FlagResetRead OR FlagResetWrite else FlagResetRead)"
  have eq: "writeCtrl_round w = Some (CtrlWrite (ResetFrame (s_streamID w') fl (wireReset reset)) AfterFrame, w')"
    unfolding writeCtrl_round_def using g e
    by (cases both) (auto simp: flag_simps Let_def bit_simps reset_def both_def w'_def fl_def cleanupLocked_eq)
  show ?thesis
  proof (cases both)
    case True
    then have b: "b_size (wr_buf w) = 0" "needEOF w" by (auto simp: both_def)
    have na: "\<not> needAck w" using g(1) b(2) i(1) by (auto simp: flags_inv_def)
    have "flags_Has fl FlagResetWrite" using True by (simp add: fl_def flags_Has_def)
    with close_write_ok [OF inv wired b no na, of ?f2 "ResetFrame (s_streamID w') fl (wireReset reset)"] no na
    show ?thesis unfolding eq using True by (simp add: ctrl_ok_def w'_def bit_simps)
  next
    case False
    have "section_ok W w ?w1" unfolding section_ok_def
    proof (intro conjI)
      show "stream_inv W ?w1" unfolding stream_inv_def
      proof (intro conjI)
        show "sides_inv ?w1" using i(2) by (simp add: sides_inv_def bit_simps)
        show "flags_inv ?w1" using i(1) by (auto simp: flags_inv_def bit_simps)
        show "window_inv W ?w1" using i(3) by (simp add: window_inv_def)
        show "wbuf_inv ?w1" using i(4) by (simp add: wbuf_inv_def)
      qed
      have "fully_closed ?w1 = fully_closed w" by (simp add: fully_closed_def bit_simps)
      then show "table_step w ?w1" by (simp add: table_step_def)
      show "schedules w ?w1" using g(3) by (auto simp: schedules_defs)
      show "notifies w ?w1" by (auto simp: notifies_defs)
    qed (use inv in \<open>simp_all add: world_inv_def sched_refl sticky_def bit_simps\<close>)
    moreover have "emits w (ResetFrame (s_streamID w') fl (wireReset reset)) ?w1"
      using False no wired by (simp add: emits_def w'_def fl_def flags_Has_def bit_simps)
    ultimately show ?thesis unfolding eq using False wired by (simp add: ctrl_ok_def w'_def)
  qed
qed

lemma round_eof:
  assumes inv: "world_inv W w" and wired: "wr_wired w = 0" and g: "\<not> ((needOpen w \<or> needAck w) \<and> \<not> sentEOF w)"
    "\<not> 0 < rd_increment w" "\<not> needReset w" "b_size (wr_buf w) = 0" "needEOF w"
  shows "\<exists>pt w'. writeCtrl_round w = Some (pt, w') \<and> ctrl_ok W w pt w'"
proof -
  have i: "flags_inv w" using inv by (simp add: world_inv_def stream_inv_def)
  obtain e where e: "wr_err w = Some e" using i g(5) by (auto simp: flags_inv_def)
  have nn: "\<not> needOpen w" "\<not> needAck w" using g(1,5) i by (auto simp: flags_inv_def)
  let ?f = "(s_flags w AND NOT flagStreamNeedEOF) OR flagStreamSentEOF"
  let ?w = "cleanupLocked (w\<lparr>s_flags := ?f\<rparr>)"
  define fr where "fr = (if e \<noteq> ErrCode ECLOSED then ResetFrame (s_streamID w) FlagResetWrite (wireReset e)
    else DataFrame (s_streamID w) FlagDataEOF [])"
  have eq: "writeCtrl_round w = Some (CtrlWrite fr AfterFrame, ?w)"
    unfolding writeCtrl_round_def using g e by (auto simp: flag_simps Let_def cleanupLocked_eq fr_def)
  have fr: "frame_data fr = []" "frame_stream fr = s_streamID w" "frame_closes fr" "frame_grant fr = 0" "\<not> frame_opens fr"
    by (simp_all add: fr_def flags_Has_def)
  have "section_ok W w ?w \<and> (frame_data fr = [] \<longrightarrow> frame_stream fr = s_streamID w \<longrightarrow> frame_closes fr \<longrightarrow> frame_grant fr = 0 \<longrightarrow>
    \<not> frame_opens fr \<longrightarrow> emits w fr ?w) \<and> wr_wired ?w = 0 \<and> s_streamID ?w = s_streamID w \<and> wr_err ?w = wr_err w \<and> rd_err ?w = rd_err w"
    by (rule close_write_ok [OF inv wired g(4,5) nn]) (use nn in \<open>simp_all add: bit_simps\<close>)
  with fr show ?thesis unfolding eq by (simp add: ctrl_ok_def)
qed

lemma writeCtrl_round_ok:
  assumes inv: "world_inv W w" and wired: "wr_wired w = 0"
  shows "\<exists>pt w'. writeCtrl_round w = Some (pt, w') \<and> ctrl_ok W w pt w'"
proof -
  consider "needOpen w \<or> needAck w" "\<not> sentEOF w"
    | "\<not> ((needOpen w \<or> needAck w) \<and> \<not> sentEOF w)" "0 < rd_increment w"
    | "\<not> ((needOpen w \<or> needAck w) \<and> \<not> sentEOF w)" "\<not> 0 < rd_increment w" "needReset w"
    | "\<not> ((needOpen w \<or> needAck w) \<and> \<not> sentEOF w)" "\<not> 0 < rd_increment w" "\<not> needReset w" "b_size (wr_buf w) = 0" "needEOF w"
    | "\<not> ((needOpen w \<or> needAck w) \<and> \<not> sentEOF w)" "\<not> 0 < rd_increment w" "\<not> needReset w" "\<not> (b_size (wr_buf w) = 0 \<and> needEOF w)"
    by blast
  then show ?thesis
  proof cases
    case 5
    have "writeCtrl_round w = Some (CtrlDone, w)" unfolding writeCtrl_round_def using 5 by (auto simp: flag_simps)
    moreover have "\<not> needs_ctrl w" using 5 wired by (auto simp: needs_ctrl_def)
    ultimately show ?thesis using section_refl [OF inv] wired by (simp add: ctrl_ok_def)
  qed (use round_data [OF inv wired] round_window [OF inv wired] round_reset [OF inv wired] round_eof [OF inv wired] in blast)+
qed

lemma writeCtrl_start_ok:
  assumes inv: "world_inv W w" and wired: "wr_wired w = 0"
  shows "\<exists>pt w'. writeCtrl_start w = Some (pt, w') \<and> ctrl_ok W w pt w'"
proof (cases "needOpen w \<and> needReset w \<and> needEOF w \<and> b_size (wr_buf w) = 0")
  case True
  let ?u = "w\<lparr>s_flags := flagStreamSeenEOF OR flagStreamSentEOF\<rparr>"
  have i: "flags_inv w" "sides_inv w" "window_inv W w" "wbuf_inv w" using inv by (simp_all add: world_inv_def stream_inv_def)
  have er: "rd_err w \<noteq> None" "wr_err w \<noteq> None" using True i(1) by (auto simp: flags_inv_def)
  have "section_ok W w (cleanupLocked ?u)"
  proof (rule section_cleanup [OF inv])
    show "stream_inv W ?u" unfolding stream_inv_def
    proof (intro conjI)
      show "sides_inv ?u" using i(2) er by (simp add: sides_inv_def)
      show "flags_inv ?u" using er True wired by (simp add: flags_inv_def)
      show "window_inv W ?u" using i(3) by (simp add: window_inv_def)
      show "wbuf_inv ?u" using i(4) by (simp add: wbuf_inv_def)
    qed
    show "sticky w ?u" by (simp add: sticky_def)
    show "schedules w ?u" using True by (auto simp: schedules_defs)
    show "notifies w ?u" by (auto simp: notifies_defs)
  qed (use inv in \<open>simp_all add: world_inv_def sched_refl\<close>)
  moreover have "writeCtrl_start w = Some (CtrlDone, cleanupLocked ?u)"
    using True by (simp add: writeCtrl_start_def flag_simps)
  moreover have "\<not> needs_ctrl (cleanupLocked ?u)"
    using i(3) er by (auto simp: needs_ctrl_def cleanupLocked_eq window_inv_def)
  ultimately show ?thesis using wired by (simp add: ctrl_ok_def cleanupLocked_eq)
next
  case False
  then have "writeCtrl_start w = writeCtrl_round w" by (auto simp: writeCtrl_start_def flag_simps)
  then show ?thesis using writeCtrl_round_ok [OF assms] by simp
qed

lemma section_queue_updates [simp]:
  "stream_inv W (w\<lparr>w_out := out, s_inctrl := ic\<rparr>) = stream_inv W w"
  "table_step w0 (w\<lparr>w_out := out, s_inctrl := ic\<rparr>) = table_step w0 w"
  "notifies w0 (w\<lparr>w_out := out, s_inctrl := ic\<rparr>) = notifies w0 w"
  "sticky w0 (w\<lparr>w_out := out, s_inctrl := ic\<rparr>) = sticky w0 w"
  "emits w0 f (w\<lparr>w_out := out, s_inctrl := ic\<rparr>) = emits w0 f w"
  by (simp_all add: stream_inv_defs table_step_def fully_closed_def notifies_defs sticky_def emits_def)

lemma writeData_start_ok:
  assumes inv: "world_inv W w" and wired: "wr_wired w = 0"
  shows "\<exists>fo w'. writeData_start w = Some (fo, w') \<and> section_ok W w w' \<and> \<not> activeData w' \<and>
    (case fo of None \<Rightarrow> wr_wired w' = 0 \<and> rd_buf w' = rd_buf w \<and> buffer_contents (wr_buf w') = buffer_contents (wr_buf w)
     | Some f \<Rightarrow> emits w f w' \<and> frame_data f \<noteq> [])"
proof -
  from send_data_ok [OF inv wired] obtain data fl w1 w2 where
    r: "prepareDataLocked w dataFramePayloadSize = Some (data, w1)" "outgoingFlags w1 = (fl, w2)"
      "stream_inv W w2" "sticky w w2" "table_step w w2" "notifies w w2"
      "w_out w2 = w_out w" "s_inctrl w2 = s_inctrl w" "s_indata w2 = s_indata w" "\<not> activeData w2"
      "\<not> sentEOF w \<longrightarrow> emits w (DataFrame (s_streamID w2) fl data) w2" "\<not> needAck w2" "sentEOF w \<longrightarrow> data = []"
      "rd_increment w2 = rd_increment w" "needReset w2 \<longleftrightarrow> needReset w" by blast
  show ?thesis
  proof (cases "data = []")
    case True
    have wb: "wbuf_inv w" using inv by (simp add: world_inv_def stream_inv_def)
    obtain b n where p: "prepareDataLocked w dataFramePayloadSize =
        Some (take (nat n) (buffer_contents (wr_buf w)), w\<lparr>wr_buf := b, wr_wired := n, wr_left := wr_left w - n\<rparr>)"
      and n: "0 \<le> n" "n \<le> b_size (wr_buf w)" "n = b_size (wr_buf w) \<or> n = max 0 (wr_left w)"
      and b: "buffer_inv b" "buffer_contents b = buffer_contents (wr_buf w)" "b_size b = b_size (wr_buf w)"
      using prepareDataLocked_spec [OF wb wired] by blast
    have "take (nat n) (buffer_contents (wr_buf w)) = []" using p r(1) True by simp
    then have n0: "n = 0" using n(1,2) buffer_size_contents [of "wr_buf w"] wb by (auto simp: wbuf_inv_def)
    let ?u = "w\<lparr>wr_buf := b, wr_wired := 0, wr_left := wr_left w\<rparr>"
    have "section_ok W w ?u"
    proof (rule section_same)
      show "stream_inv W ?u" using inv b wired by (simp add: world_inv_def stream_inv_defs)
      show "schedules w ?u" using b(3) wired by (simp add: schedules_defs)
      show "notifies w ?u" using b(3) by (auto simp: notifies_defs)
    qed (use inv in \<open>simp_all add: world_inv_def sched_refl\<close>)
    moreover have "\<not> activeData ?u" using n(3) n0 b(3) by (auto simp: activeData_def pendingBytes_def)
    moreover have "writeData_start w = Some (None, ?u)" using p n0 by (simp add: writeData_start_def)
    ultimately show ?thesis using b(2) by simp
  next
    case False
    then have em: "emits w (DataFrame (s_streamID w2) fl data) w2" using r(11,13) by blast
    have q2: "queues_inv w2" using inv r(4,7-9) by (auto simp: world_inv_def queues_inv_def sticky_def)
    obtain out ic where o: "(if b_size (wr_buf w2) = wr_wired w2 \<and> s_flags w2 AND flagStreamNeedEOF \<noteq> 0 then scheduleCtrl w2 else Some w2)
        = Some (w2\<lparr>w_out := out, s_inctrl := ic\<rparr>)" "sched w2 out ic (s_indata w2)"
      "b_size (wr_buf w2) = wr_wired w2 \<and> needEOF w2 \<longrightarrow> ic" "s_inctrl w2 \<longrightarrow> ic"
    proof (cases "b_size (wr_buf w2) = wr_wired w2 \<and> needEOF w2")
      case True
      from scheduleCtrl_sched [OF q2] True show ?thesis
        using that [where ic = True] by (auto simp: flag_simps)
    next
      case False
      with sched_refl [OF q2] show ?thesis
        using that [where out = "w_out w2" and ic = "s_inctrl w2"] by (auto simp: flag_simps)
    qed
    let ?u = "w2\<lparr>w_out := out, s_inctrl := ic\<rparr>"
    have na: "\<not> activeData ?u" using r(10) by (simp add: activeData_def pendingBytes_def)
    have "schedules w ?u"
    proof -
      have "\<not> needOpen w2" using em by (simp add: emits_def)
      then show ?thesis using na o(3) r(12,14,15) by (auto simp: schedules_def needs_ctrl_def)
    qed
    moreover have "sched w out ic (s_indata w2)" using o(2) r(4,7-9) by (simp add: sched_def sticky_def)
    ultimately have "section_ok W w ?u" using r(3-6) by (simp add: section_ok_def)
    moreover have "writeData_start w = Some (Some (DataFrame (s_streamID w2) fl data), ?u)"
      unfolding writeData_start_def using r(1,2,10) False o(1) by simp
    ultimately show ?thesis using em na False by simp
  qed
qed

end
