(* ===== verification/Stream_Run.thy ===== *)
theory Stream_Run
  imports Stream_Inv
begin

text \<open>
  The life of a stream: any interleaving of the calls of its user, the frames that arrive for it,
  its timers, and the write loop of the connection, which takes the stream out of a queue, runs
  \<^verbatim>\<open>writeCtrl\<close> or \<^verbatim>\<open>writeData\<close> section by section, and may fail at any write. The steps
  record what the user wrote and read and what went over the wire; the invariants of all reachable
  states are the guarantees of the stream to its user and to the remote.
\<close>

unbundle bit_operations_syntax

section \<open>What the sections leave alone\<close>

lemma cleanup_keeps: "keeps w (cleanupLocked w)" "rd_buf (cleanupLocked w) = rd_buf w" "wr_buf (cleanupLocked w) = wr_buf w"
  by (simp_all add: cleanupLocked_def keeps_def)

lemma setReadErrorLocked_keeps:
  "setReadErrorLocked w err = Some (p, w') \<Longrightarrow> keeps w w' \<and> rd_buf w' = rd_buf w \<and> wr_buf w' = wr_buf w"
  by (auto simp: setReadErrorLocked_def Let_def keeps_def bit_simps split: if_splits bind_splits dest!: schedule_keeps)

lemma setWriteErrorLocked_keeps:
  "setWriteErrorLocked w err = Some (p, w') \<Longrightarrow> keeps w w' \<and> rd_buf w' = rd_buf w \<and> wr_buf w' = wr_buf w"
  by (cases "b_size (wr_buf w) = wr_wired w"; cases "rd_err w")
   (simp_all add: setWriteErrorLocked_def Let_def bind_eq_Some_conv split: if_splits,
    auto simp: keeps_def bit_simps dest!: schedule_keeps)

lemma closeWithErrorLocked_keeps:
  "closeWithErrorLocked w err = Some (p, w') \<Longrightarrow> keeps w w' \<and> rd_buf w' = rd_buf w \<and> wr_buf w' = wr_buf w"
  by (auto simp: closeWithErrorLocked_def Let_def keeps_def split: if_splits bind_splits
      dest!: setReadErrorLocked_keeps setWriteErrorLocked_keeps)

lemma waits_keep:
  "waitReadReadyLocked now resumed w = (r, w') \<Longrightarrow> keeps w w' \<and> rd_buf w' = rd_buf w \<and> wr_buf w' = wr_buf w"
  "waitWriteReadyLocked now resumed w = (r, w') \<Longrightarrow> keeps w w' \<and> rd_buf w' = rd_buf w \<and> wr_buf w' = wr_buf w"
  "waitFlushedLocked now resumed w = (r, w') \<Longrightarrow> keeps w w' \<and> rd_buf w' = rd_buf w \<and> wr_buf w' = wr_buf w"
  by (auto simp: waitReadReadyLocked_def waitWriteReadyLocked_def waitFlushedLocked_def keeps_def
      split: if_splits sum.splits)

lemma reads_keep:
  "stream_Read now resumed dst w = Some (r1, w') \<Longrightarrow> keeps w w'"
  "stream_ReadByte now resumed w = Some (r2, w') \<Longrightarrow> keeps w w'"
  "stream_Peek now resumed w = Some (r3, w') \<Longrightarrow> keeps w w'"
  "stream_Discard n w = Some (m, w') \<Longrightarrow> keeps w w'"
  by (auto simp: stream_Read_def stream_ReadByte_def stream_Peek_def stream_Discard_def Let_def keeps_def
      split: if_splits bind_splits prod.splits outcome.splits option.splits dest!: schedule_keeps waits_keep)

lemma stream_WriteByte_keeps: "stream_WriteByte now resumed c w = Some (r, w') \<Longrightarrow> keeps w w'"
  by (auto simp: stream_WriteByte_def Let_def keeps_def split: if_splits bind_splits prod.splits outcome.splits option.splits
      dest!: schedule_keeps waits_keep)

lemma stream_Acknowledge_keeps: "stream_Acknowledge w = Some (r, w') \<Longrightarrow> keeps w w'"
  by (auto simp: stream_Acknowledge_def Let_def keeps_def bit_simps split: if_splits bind_splits dest!: schedule_keeps)

lemma deadlines_keep:
  "keeps w (stream_SetDeadline t w) \<and> rd_buf (stream_SetDeadline t w) = rd_buf w \<and> wr_buf (stream_SetDeadline t w) = wr_buf w"
  "keeps w (stream_SetReadDeadline t w) \<and> rd_buf (stream_SetReadDeadline t w) = rd_buf w \<and> wr_buf (stream_SetReadDeadline t w) = wr_buf w"
  "keeps w (stream_SetWriteDeadline t w) \<and> rd_buf (stream_SetWriteDeadline t w) = rd_buf w \<and> wr_buf (stream_SetWriteDeadline t w) = wr_buf w"
  by (simp_all add: stream_SetDeadline_def stream_SetReadDeadline_def stream_SetWriteDeadline_def
      setReadDeadlineLocked_def setWriteDeadlineLocked_def keeps_def)

lemma processDataLocked_keeps:
  "processDataLocked ref w data flags = Some (r, w') \<Longrightarrow> wr_left w' = wr_left w \<and> wr_wired w' = wr_wired w \<and>
     (needOpen w' \<longleftrightarrow> needOpen w) \<and> rd_left w' = rd_left w - (if r = None then zlen data else 0)"
  by (auto simp: processDataLocked_def Let_def keeps_def bit_simps cleanupLocked_def split: if_splits bind_splits
      dest!: setReadErrorLocked_keeps)

lemma clearWriteBufferLocked_keeps:
  "clearWriteBufferLocked w = Some w' \<Longrightarrow> wr_left w' = wr_left w \<and> rd_left w' = rd_left w \<and> wr_wired w' = 0 \<and> (needOpen w' \<longleftrightarrow> needOpen w)"
  by (auto simp: clearWriteBufferLocked_def Let_def keeps_def split: if_splits dest!: schedule_keeps)

lemma stream_processResetFrame_keeps:
  "stream_processResetFrame w flags err = Some (r, w') \<Longrightarrow> wr_left w' = wr_left w \<and> rd_left w' = rd_left w \<and>
     (needOpen w' \<longleftrightarrow> needOpen w) \<and> wr_wired w' = (if flags_Has flags FlagResetRead then 0 else wr_wired w)"
  by (auto simp: stream_processResetFrame_def Let_def keeps_def bit_simps cleanupLocked_def split: if_splits bind_splits
      dest!: setReadErrorLocked_keeps setWriteErrorLocked_keeps clearWriteBufferLocked_keeps)

lemma changeWriteWindow_keeps:
  "changeWriteWindow w diff = Some w' \<Longrightarrow> rd_left w' = rd_left w \<and> (needOpen w' \<longleftrightarrow> needOpen w)"
  by (auto simp: changeWriteWindow_def Let_def keeps_def split: if_splits dest!: schedule_keeps)

lemma stream_processWindowFrame_keeps:
  "stream_processWindowFrame ref w increment = Some (r, w') \<Longrightarrow> rd_left w' = rd_left w \<and> wr_wired w' = wr_wired w \<and> (needOpen w' \<longleftrightarrow> needOpen w)"
  by (auto simp: stream_processWindowFrame_def changeWriteWindow_def Let_def keeps_def split: if_splits bind_splits dest!: schedule_keeps)

lemma stream_Write_closed:
  "stream_Write now resumed b n w = Some (n', r, w') \<Longrightarrow> wr_err w \<noteq> None \<Longrightarrow> n \<le> zlen b \<Longrightarrow> 0 \<le> n \<Longrightarrow> n' = n"
  by (auto simp: stream_Write_def Write_loop.simps [of now resumed b n w] waitWriteReadyLocked_def
      split: if_splits option.splits)

section \<open>Operations and what they move\<close>

text \<open>
  The sections of the user's methods (\<open>now\<close> and \<open>resumed\<close> as in the definitions; a blocked method
  is the same operation again), the timers of the three conditions, and the arrival of frames and
  of changes of the initial window.
\<close>

datatype sop =
    OpPeek time bool | OpDiscard int | OpRead time bool "u8 list" | OpReadByte time bool
  | OpWrite time bool "u8 list" int | OpWriteByte time bool u8 | OpFlush time bool | OpAcknowledge
  | OpClose | OpCloseWithError "go_error option" | OpCloseRead | OpCloseReadWithError "go_error option"
  | OpCloseWrite | OpCloseWriteWithError "go_error option"
  | OpSetDeadline "time option" | OpSetReadDeadline "time option" | OpSetWriteDeadline "time option"
  | ReadTimer | WriteTimer | FlushTimer
  | DataArrives eref "u8 list" u8 | ResetArrives u8 go_error | WindowArrives eref u32 | WindowChanges int

text \<open>
  The bytes an operation accepts from its user, hands to its user and accepts from the remote; how
  much of the receive window it uses and of the send window it grants; whether the remote gave up
  reading, which drops what was not sent.
\<close>

record effect =
  e_written :: "u8 list"
  e_read :: "u8 list"
  e_received :: "u8 list"
  e_arrived :: int
  e_granted :: int
  e_lost :: bool

definition quiet :: effect where
  "quiet = \<lparr>e_written = [], e_read = [], e_received = [], e_arrived = 0, e_granted = 0, e_lost = False\<rparr>"

fun sop_exec :: "sop \<Rightarrow> sworld \<Rightarrow> (effect \<times> sworld) option" where
  "sop_exec (OpPeek now resumed) w = do { (_, w) \<leftarrow> stream_Peek now resumed w; Some (quiet, w) }"
| "sop_exec (OpDiscard n) w = do {
     (m, w') \<leftarrow> stream_Discard n w;
     Some (quiet\<lparr>e_read := take (nat m) (buffer_contents (rd_buf w))\<rparr>, w') }"
| "sop_exec (OpRead now resumed dst) w = do {
     (r, w') \<leftarrow> stream_Read now resumed dst w;
     Some (quiet\<lparr>e_read := (case r of Blocked \<Rightarrow> [] | Return (n, dst, _) \<Rightarrow> take (nat n) dst)\<rparr>, w') }"
| "sop_exec (OpReadByte now resumed) w = do {
     (r, w') \<leftarrow> stream_ReadByte now resumed w;
     Some (quiet\<lparr>e_read := (case r of Return (Inr c) \<Rightarrow> [c] | _ \<Rightarrow> [])\<rparr>, w') }"
| "sop_exec (OpWrite now resumed b n) w = do {
     (n', _, w') \<leftarrow> stream_Write now resumed b n w;
     Some (quiet\<lparr>e_written := take (nat (n' - n)) (drop (nat n) b)\<rparr>, w') }"
| "sop_exec (OpWriteByte now resumed c) w = do {
     (r, w') \<leftarrow> stream_WriteByte now resumed c w;
     Some (quiet\<lparr>e_written := (if r = Return None then [c] else [])\<rparr>, w') }"
| "sop_exec (OpFlush now resumed) w = (let (_, w) = stream_Flush now resumed w in Some (quiet, w))"
| "sop_exec OpAcknowledge w = do { (_, w) \<leftarrow> stream_Acknowledge w; Some (quiet, w) }"
| "sop_exec OpClose w = do { (_, w) \<leftarrow> stream_Close w; Some (quiet, w) }"
| "sop_exec (OpCloseWithError err) w = do { (_, w) \<leftarrow> stream_CloseWithError err w; Some (quiet, w) }"
| "sop_exec OpCloseRead w = do { (_, w) \<leftarrow> stream_CloseRead w; Some (quiet, w) }"
| "sop_exec (OpCloseReadWithError err) w = do { (_, w) \<leftarrow> stream_CloseReadWithError err w; Some (quiet, w) }"
| "sop_exec OpCloseWrite w = do { (_, w) \<leftarrow> stream_CloseWrite w; Some (quiet, w) }"
| "sop_exec (OpCloseWriteWithError err) w = do { (_, w) \<leftarrow> stream_CloseWriteWithError err w; Some (quiet, w) }"
| "sop_exec (OpSetDeadline t) w = Some (quiet, stream_SetDeadline t w)"
| "sop_exec (OpSetReadDeadline t) w = Some (quiet, stream_SetReadDeadline t w)"
| "sop_exec (OpSetWriteDeadline t) w = Some (quiet, stream_SetWriteDeadline t w)"
| "sop_exec ReadTimer w = Some (quiet, w\<lparr>rd_ready := expiration_callback (rd_ready w)\<rparr>)"
| "sop_exec WriteTimer w = Some (quiet, w\<lparr>wr_ready := expiration_callback (wr_ready w)\<rparr>)"
| "sop_exec FlushTimer w = Some (quiet, w\<lparr>wr_flushed := expiration_callback (wr_flushed w)\<rparr>)"
| "sop_exec (DataArrives ref data flags) w = do {
     (err, w') \<leftarrow> stream_processDataFrame ref w data flags;
     Some (if err = None then quiet\<lparr>e_received := (if rd_err w = None then data else []), e_arrived := zlen data\<rparr>
           else quiet, w') }"
| "sop_exec (ResetArrives flags err) w = do {
     (_, w') \<leftarrow> stream_processResetFrame w flags err;
     Some (quiet\<lparr>e_lost := flags_Has flags FlagResetRead\<rparr>, w') }"
| "sop_exec (WindowArrives ref increment) w = do {
     (_, w') \<leftarrow> stream_processWindowFrame ref w increment;
     Some (quiet\<lparr>e_granted := uint increment\<rparr>, w') }"
| "sop_exec (WindowChanges diff) w = do { w' \<leftarrow> changeWriteWindow w diff; Some (quiet\<lparr>e_granted := diff\<rparr>, w') }"

text \<open>What the callers guarantee: counts are not negative, and a resumed write continues inside its slice.\<close>

fun sop_wf :: "sop \<Rightarrow> bool" where
  "sop_wf (OpDiscard n) \<longleftrightarrow> 0 \<le> n"
| "sop_wf (OpWrite _ _ b n) \<longleftrightarrow> 0 \<le> n \<and> n \<le> zlen b"
| "sop_wf _ \<longleftrightarrow> True"

definition moves :: "sworld \<Rightarrow> effect \<Rightarrow> sworld \<Rightarrow> bool" where
  "moves w e w' \<longleftrightarrow>
     e_read e @ buffer_contents (rd_buf w') = buffer_contents (rd_buf w) @ e_received e \<and>
     buffer_contents (wr_buf w') = (if e_lost e then [] else buffer_contents (wr_buf w) @ e_written e) \<and>
     wr_wired w' = (if e_lost e then 0 else wr_wired w) \<and> (e_lost e \<longrightarrow> wr_err w' \<noteq> None \<and> e_written e = []) \<and>
     (wr_err w \<noteq> None \<longrightarrow> e_written e = []) \<and>
     wr_left w' = wr_left w + e_granted e \<and> rd_left w' = rd_left w - e_arrived e \<and> 0 \<le> e_arrived e \<and>
     (needOpen w' \<longleftrightarrow> needOpen w)"

lemma moves_quiet: "keeps w w' \<Longrightarrow> buffer_contents (rd_buf w') = buffer_contents (rd_buf w) \<Longrightarrow>
    buffer_contents (wr_buf w') = buffer_contents (wr_buf w) \<Longrightarrow> moves w quiet w'"
  by (simp add: moves_def quiet_def keeps_def)

text \<open>No operation panics; each is a section that moves the bytes it says.\<close>

definition does :: "int \<Rightarrow> sop \<Rightarrow> sworld \<Rightarrow> bool" where
  "does W op w \<longleftrightarrow> (\<exists>e w'. sop_exec op w = Some (e, w') \<and> section_ok W w w' \<and> moves w e w')"

lemma does_quiet:
  assumes "sop_exec op w = Some (quiet, w')" "section_ok W w w'" "keeps w w' \<and> rd_buf w' = rd_buf w \<and> wr_buf w' = wr_buf w"
  shows "does W op w"
  unfolding does_def using assms moves_quiet [of w w'] by (intro exI [of _ quiet] exI [of _ w']) simp

lemma does_reads:
  assumes inv: "world_inv W w"
  shows "does W (OpPeek now resumed) w" "does W (OpRead now resumed dst) w" "does W (OpReadByte now resumed) w"
    "0 \<le> n \<Longrightarrow> does W (OpDiscard n) w"
proof -
  show "does W (OpPeek now resumed) w"
    using stream_Peek_ok [OF inv, of now resumed] unfolding does_def
    by (auto intro!: moves_quiet dest: reads_keep)
  show "does W (OpRead now resumed dst) w"
  proof -
    obtain r w' where r: "stream_Read now resumed dst w = Some (r, w')" "section_ok W w w'" "wr_buf w' = wr_buf w"
      "r = Blocked \<longrightarrow> buffer_contents (rd_buf w') = buffer_contents (rd_buf w)"
      "\<forall>n dst' e. r = Return (n, dst', e) \<longrightarrow> take (nat n) dst' @ buffer_contents (rd_buf w') = buffer_contents (rd_buf w)"
      using stream_Read_ok [OF inv, of now resumed dst] by auto
    then show ?thesis using reads_keep(1) [OF r(1)]
      by (cases r) (auto simp: does_def moves_def quiet_def keeps_def)
  qed
  show "does W (OpReadByte now resumed) w"
  proof -
    obtain r w' where r: "stream_ReadByte now resumed w = Some (r, w')" "section_ok W w w'" "wr_buf w' = wr_buf w"
      "buffer_contents (rd_buf w) = (case r of Return (Inr c) \<Rightarrow> [c] | _ \<Rightarrow> []) @ buffer_contents (rd_buf w')"
      using stream_ReadByte_ok [OF inv, of now resumed] by blast
    then show ?thesis using reads_keep(2) [OF r(1)] by (auto simp: does_def moves_def quiet_def keeps_def)
  qed
  show "does W (OpDiscard n) w" if n: "0 \<le> n"
  proof -
    have rb: "buffer_inv (rd_buf w)" using inv by (simp add: world_inv_def stream_inv_def window_inv_def)
    obtain w' where r: "stream_Discard n w = Some (min n (b_size (rd_buf w)), w')" "section_ok W w w'"
      "buffer_contents (rd_buf w') = drop (nat n) (buffer_contents (rd_buf w))" "wr_buf w' = wr_buf w"
      using stream_Discard_ok [OF inv n] by auto
    have "take (nat (min n (b_size (rd_buf w)))) (buffer_contents (rd_buf w)) = take (nat n) (buffer_contents (rd_buf w))"
      using n buffer_size_contents [OF rb] by (simp add: min_def)
    then show ?thesis using r reads_keep(4) [OF r(1)] by (auto simp: does_def moves_def quiet_def keeps_def)
  qed
qed

lemma does_writes:
  assumes inv: "world_inv W w"
  shows "0 \<le> n \<Longrightarrow> n \<le> zlen b \<Longrightarrow> does W (OpWrite now resumed b n) w" "does W (OpWriteByte now resumed c) w"
    "does W (OpFlush now resumed) w" "does W OpAcknowledge w"
proof -
  show "does W (OpWrite now resumed b n) w" if n: "0 \<le> n" "n \<le> zlen b"
  proof -
    obtain n' r w' where r: "stream_Write now resumed b n w = Some (n', r, w')" "section_ok W w w'" "rd_buf w' = rd_buf w"
      "buffer_contents (wr_buf w') = buffer_contents (wr_buf w) @ take (nat (n' - n)) (drop (nat n) b)" "keeps w w'"
      using stream_Write_ok [OF inv n, of now resumed] by blast
    then show ?thesis using stream_Write_closed [OF r(1)] n by (auto simp: does_def moves_def quiet_def keeps_def)
  qed
  show "does W (OpWriteByte now resumed c) w"
  proof -
    obtain r w' where r: "stream_WriteByte now resumed c w = Some (r, w')" "section_ok W w w'" "rd_buf w' = rd_buf w"
      "buffer_contents (wr_buf w') = buffer_contents (wr_buf w) @ (if r = Return None then [c] else [])"
      using stream_WriteByte_ok [OF inv, of now resumed c] by auto
    have "wr_err w \<noteq> None \<Longrightarrow> r \<noteq> Return None" using r(1)
      by (auto simp: stream_WriteByte_def waitWriteReadyLocked_def split: if_splits option.splits)
    then show ?thesis using r stream_WriteByte_keeps [OF r(1)] by (auto simp: does_def moves_def quiet_def keeps_def)
  qed
  show "does W (OpFlush now resumed) w"
  proof -
    obtain r w' where r: "stream_Flush now resumed w = (r, w')" "section_ok W w w'"
      using stream_Flush_ok [OF inv, of now resumed] by auto
    then show ?thesis using waits_keep(3) [OF r(1) [unfolded stream_Flush_def]] by (intro does_quiet) auto
  qed
  show "does W OpAcknowledge w"
    using stream_Acknowledge_ok [OF inv] by (auto intro!: does_quiet dest: stream_Acknowledge_keeps)
qed

lemma does_closes:
  assumes inv: "world_inv W w"
  shows "does W OpClose w" "does W (OpCloseWithError err) w" "does W OpCloseRead w" "does W (OpCloseReadWithError err) w"
    "does W OpCloseWrite w" "does W (OpCloseWriteWithError err) w"
proof -
  have c: "\<exists>w'. closeWithErrorLocked w e = Some (s_err w, w') \<and> section_ok W w w' \<and> keeps w w' \<and> rd_buf w' = rd_buf w \<and> wr_buf w' = wr_buf w" for e
    using closeWithErrorLocked_ok [OF inv, of e] closeWithErrorLocked_keeps [of w e] by blast
  have r: "\<exists>w'. setReadErrorLocked w e = Some (rd_err w, w') \<and> section_ok W w w' \<and> keeps w w' \<and> rd_buf w' = rd_buf w \<and> wr_buf w' = wr_buf w" for e
    using setReadErrorLocked_ok [OF inv, of e] setReadErrorLocked_keeps [of w e] by blast
  have wr: "\<exists>w'. setWriteErrorLocked w e = Some (wr_err w, w') \<and> section_ok W w w' \<and> keeps w w' \<and> rd_buf w' = rd_buf w \<and> wr_buf w' = wr_buf w" for e
    using setWriteErrorLocked_ok [OF inv, of e] setWriteErrorLocked_keeps [of w e] by blast
  show "does W OpClose w" "does W (OpCloseWithError err) w" using c [of None] c [of err]
    by (auto intro!: does_quiet simp: stream_Close_def stream_CloseWithError_def)
  show "does W OpCloseRead w" "does W (OpCloseReadWithError err) w"
    using r [of "ErrCode ECLOSED"] r [of "closingError err"]
    by (auto intro!: does_quiet simp: stream_CloseRead_def stream_CloseReadWithError_def)
  show "does W OpCloseWrite w" "does W (OpCloseWriteWithError err) w"
    using wr [of "ErrCode ECLOSED"] wr [of "closingError err"]
    by (auto intro!: does_quiet simp: stream_CloseWrite_def stream_CloseWriteWithError_def)
qed

lemma expiration_broadcasts: "c_broadcasts c \<le> c_broadcasts (expiration_callback c)"
  by (simp add: expiration_callback_def split: option.splits)

lemma does_timers:
  assumes inv: "world_inv W w"
  shows "does W (OpSetDeadline t) w" "does W (OpSetReadDeadline t) w" "does W (OpSetWriteDeadline t) w"
    "does W ReadTimer w" "does W WriteTimer w" "does W FlushTimer w"
proof -
  show "does W (OpSetDeadline t) w" "does W (OpSetReadDeadline t) w" "does W (OpSetWriteDeadline t) w"
    using stream_SetDeadline_ok [OF inv] deadlines_keep by (blast intro: does_quiet sop_exec.simps)+
  show "does W ReadTimer w"
    by (rule does_quiet [OF sop_exec.simps(18) section_rd_ready [OF inv expiration_broadcasts]]) (simp add: keeps_def)
  show "does W WriteTimer w"
    by (rule does_quiet [OF sop_exec.simps(19) section_wr_ready [OF inv expiration_broadcasts]]) (simp add: keeps_def)
  show "does W FlushTimer w"
    by (rule does_quiet [OF sop_exec.simps(20) section_wr_flushed [OF inv expiration_broadcasts]]) (simp add: keeps_def)
qed

lemma does_frames:
  assumes inv: "world_inv W w"
  shows "does W (DataArrives ref data flags) w" "does W (ResetArrives flags err) w" "does W (WindowArrives ref increment) w"
    "does W (WindowChanges diff) w"
proof -
  obtain r w' where r: "processDataLocked ref w data flags = Some (r, w')" "section_ok W w w'" "wr_buf w' = wr_buf w"
    "buffer_contents (rd_buf w') = buffer_contents (rd_buf w) @ (if r = None \<and> rd_err w = None then data else [])"
    using processDataLocked_ok [OF inv, of ref data flags] by blast
  then show "does W (DataArrives ref data flags) w" using processDataLocked_keeps [OF r(1)]
    by (cases r) (auto simp: does_def moves_def quiet_def stream_processDataFrame_def)
  obtain w' where r: "stream_processResetFrame w flags err = Some (None, w')" "section_ok W w w'" "rd_buf w' = rd_buf w"
    "flags_Has flags FlagResetRead \<longrightarrow> buffer_contents (wr_buf w') = [] \<and> wr_err w' \<noteq> None"
    "\<not> flags_Has flags FlagResetRead \<longrightarrow> wr_buf w' = wr_buf w"
    using stream_processResetFrame_ok [OF inv, of flags err] by blast
  then show "does W (ResetArrives flags err) w" using stream_processResetFrame_keeps [OF r(1)]
    by (auto simp: does_def moves_def quiet_def)
  obtain r w' where r: "stream_processWindowFrame ref w increment = Some (r, w')" "section_ok W w w'" "rd_buf w' = rd_buf w"
    "wr_buf w' = wr_buf w" "wr_left w' = wr_left w + uint increment"
    using stream_processWindowFrame_ok [OF inv, of ref increment] by blast
  then have "moves w (quiet\<lparr>e_granted := uint increment\<rparr>) w'" using stream_processWindowFrame_keeps [OF r(1)]
    by (simp add: moves_def quiet_def)
  then show "does W (WindowArrives ref increment) w" using r by (simp add: does_def)
  obtain w' where r: "changeWriteWindow w diff = Some w'" "section_ok W w w'" "rd_buf w' = rd_buf w" "wr_buf w' = wr_buf w"
    "wr_left w' = wr_left w + diff" "wr_wired w' = wr_wired w"
    using changeWriteWindow_ok [OF inv, of diff] by blast
  then have "moves w (quiet\<lparr>e_granted := diff\<rparr>) w'" using changeWriteWindow_keeps [OF r(1)]
    by (simp add: moves_def quiet_def)
  then show "does W (WindowChanges diff) w" using r by (simp add: does_def)
qed

lemma sop_ok:
  assumes "world_inv W w" "sop_wf op"
  shows "\<exists>e w'. sop_exec op w = Some (e, w') \<and> section_ok W w w' \<and> moves w e w'"
proof -
  have "does W op w" using assms
    by (cases op) (simp_all del: sop_exec.simps add: does_reads does_writes does_closes does_timers does_frames)
  then show ?thesis by (simp only: does_def)
qed

section \<open>The steps\<close>

text \<open>Where the write loop is with respect to this stream.\<close>

datatype wpoint = Idle | CtrlTaken | DataTaken | CtrlWriting resume | DataWriting | WriteFailed

text \<open>
  The state of a run: the stream, the write loop, and the history. \<open>u_window\<close> is the send window
  granted so far and \<open>u_limit\<close> the largest value it has had; \<open>u_sent\<close> are the frames handed to the
  writer.
\<close>

record run =
  u_world :: sworld
  u_point :: wpoint
  u_written :: "u8 list"
  u_read :: "u8 list"
  u_received :: "u8 list"
  u_arrived :: int
  u_window :: int
  u_limit :: int
  u_lost :: bool
  u_sent :: "Frame list"

definition run_start :: "sworld \<Rightarrow> run" where
  "run_start w = \<lparr>u_world = w, u_point = Idle, u_written = [], u_read = [], u_received = [], u_arrived = 0,
     u_window = wr_left w, u_limit = wr_left w, u_lost = False, u_sent = []\<rparr>"

definition record_effect :: "effect \<Rightarrow> sworld \<Rightarrow> run \<Rightarrow> run" where
  "record_effect e w u = u\<lparr>u_world := w, u_written := u_written u @ e_written e, u_read := u_read u @ e_read e,
     u_received := u_received u @ e_received e, u_arrived := u_arrived u + e_arrived e,
     u_window := u_window u + e_granted e, u_limit := max (u_limit u) (u_window u + e_granted e),
     u_lost := (u_lost u \<or> e_lost e)\<rparr>"

definition send_frame :: "Frame \<Rightarrow> wpoint \<Rightarrow> sworld \<Rightarrow> run \<Rightarrow> run" where
  "send_frame f p w u = u\<lparr>u_world := w, u_point := p, u_sent := u_sent u @ [f]\<rparr>"

definition ctrl_next :: "ctrl_point \<Rightarrow> sworld \<Rightarrow> run \<Rightarrow> run" where
  "ctrl_next pt w u =
     (case pt of CtrlDone \<Rightarrow> u\<lparr>u_world := w, u_point := Idle\<rparr> | CtrlWrite f r \<Rightarrow> send_frame f (CtrlWriting r) w u)"

definition data_next :: "Frame option \<Rightarrow> sworld \<Rightarrow> run \<Rightarrow> run" where
  "data_next fo w u =
     (case fo of None \<Rightarrow> u\<lparr>u_world := w, u_point := Idle\<rparr> | Some f \<Rightarrow> send_frame f DataWriting w u)"

text \<open>
  The steps. \<open>take_ctrl\<close> and \<open>take_data\<close> are the lines of \<^verbatim>\<open>writeFrames\<close> that take this stream
  out of a queue. The queues have a lock of their own, so the write loop may take the stream out in
  the middle of a section that schedules twice; \<open>again_ctrl\<close> and \<open>again_data\<close> add what such an
  interleaving leaves behind. \<open>others\<close> is the rest of the connection at work on the shared state.
\<close>

inductive stream_step :: "run \<Rightarrow> run \<Rightarrow> bool" where
  operation: "sop_wf op \<Longrightarrow> sop_exec op (u_world u) = Some (e, w') \<Longrightarrow> stream_step u (record_effect e w' u)"
| take_ctrl: "u_point u = Idle \<Longrightarrow> u_world u = w \<Longrightarrow> queue_take (o_ctrl (w_out w)) = Some (Some (s_ref w), q) \<Longrightarrow>
    stream_step u (u\<lparr>u_world := w\<lparr>w_out := (w_out w)\<lparr>o_ctrl := q\<rparr>, s_inctrl := False\<rparr>, u_point := CtrlTaken\<rparr>)"
| take_data: "u_point u = Idle \<Longrightarrow> u_world u = w \<Longrightarrow> queue_take (o_data (w_out w)) = Some (Some (s_ref w), q) \<Longrightarrow>
    stream_step u (u\<lparr>u_world := w\<lparr>w_out := (w_out w)\<lparr>o_data := q\<rparr>, s_indata := False\<rparr>, u_point := DataTaken\<rparr>)"
| ctrl_start: "u_point u = CtrlTaken \<Longrightarrow> writeCtrl_start (u_world u) = Some (pt, w') \<Longrightarrow> stream_step u (ctrl_next pt w' u)"
| ctrl_resume: "u_point u = CtrlWriting r \<Longrightarrow> writeCtrl_resume r (u_world u) = Some (pt, w') \<Longrightarrow> stream_step u (ctrl_next pt w' u)"
| data_start: "u_point u = DataTaken \<Longrightarrow> writeData_start (u_world u) = Some (fo, w') \<Longrightarrow> stream_step u (data_next fo w' u)"
| data_finish: "u_point u = DataWriting \<Longrightarrow> stream_step u (u\<lparr>u_world := finishData (u_world u), u_point := Idle\<rparr>)"
| write_error: "u_point u = DataWriting \<or> u_point u = CtrlWriting r \<Longrightarrow> stream_step u (u\<lparr>u_point := WriteFailed\<rparr>)"
| again_ctrl: "scheduleCtrl (u_world u) = Some w' \<Longrightarrow> stream_step u (u\<lparr>u_world := w'\<rparr>)"
| again_data: "scheduleData (u_world u) = Some w' \<Longrightarrow> stream_step u (u\<lparr>u_world := w'\<rparr>)"
| others: "queues_inv (u_world u\<lparr>w_out := out, w_streams := st\<rparr>) \<Longrightarrow> gone_inv (u_world u\<lparr>w_out := out, w_streams := st\<rparr>) \<Longrightarrow>
    stream_step u (u\<lparr>u_world := u_world u\<lparr>w_out := out, w_streams := st\<rparr>\<rparr>)"

inductive stream_reachable :: "sworld \<Rightarrow> run \<Rightarrow> bool" for w0 where
  start: "stream_reachable w0 (run_start w0)"
| step: "stream_reachable w0 u \<Longrightarrow> stream_step u u' \<Longrightarrow> stream_reachable w0 u'"

text \<open>The streams a connection creates, with the receive window \<open>W\<close> and the send window \<open>R\<close>.\<close>

definition conn_ready :: "rawConnOutgoing \<Rightarrow> sref \<Rightarrow> bool" where
  "conn_ready out ref \<longleftrightarrow> outgoing_inv out \<and>
     ref \<notin> set (queue_elems (o_ctrl out)) \<and> ref \<notin> set (queue_elems (o_data out)) \<and>
     distinct (queue_elems (o_ctrl out)) \<and> distinct (queue_elems (o_data out)) \<and>
     length (queue_elems (o_ctrl out)) < queue_cap \<and> length (queue_elems (o_data out)) < queue_cap"

definition created :: "bool \<Rightarrow> int \<Rightarrow> int \<Rightarrow> sworld \<Rightarrow> bool" where
  "created outgoing W R w \<longleftrightarrow> 0 \<le> W \<and> W < 2 ^ 31 \<and> 0 \<le> R \<and>
     (\<exists>out st ref sid. conn_ready out ref \<and>
        (if outgoing then newOutgoingStream out st W R ref sid = Some w else w = newIncomingStream out st W R ref sid))"

section \<open>The invariants of a run\<close>

definition data_sent :: "run \<Rightarrow> u8 list" where
  "data_sent u = concat (map frame_data (u_sent u))"

definition loop_inv :: "run \<Rightarrow> bool" where
  "loop_inv u \<longleftrightarrow> (u_point u \<in> {Idle, CtrlTaken, DataTaken, CtrlWriting AfterFrame} \<longrightarrow> wr_wired (u_world u) = 0) \<and>
     (u_point u \<noteq> WriteFailed \<longrightarrow>
        (needs_ctrl (u_world u) \<longrightarrow> s_inctrl (u_world u) \<or> u_point u = CtrlTaken \<or> (\<exists>r. u_point u = CtrlWriting r)) \<and>
        (activeData (u_world u) \<longrightarrow> s_indata (u_world u) \<or> u_point u = DataTaken))"

definition write_inv :: "run \<Rightarrow> bool" where
  "write_inv u \<longleftrightarrow>
     (if u_lost u then buffer_contents (wr_buf (u_world u)) = [] \<and> wr_err (u_world u) \<noteq> None \<and> prefix (data_sent u) (u_written u)
      else data_sent u @ drop (nat (wr_wired (u_world u))) (buffer_contents (wr_buf (u_world u))) = u_written u)"

definition read_inv :: "run \<Rightarrow> bool" where
  "read_inv u \<longleftrightarrow> u_received u = u_read u @ buffer_contents (rd_buf (u_world u))"

definition windows_inv :: "int \<Rightarrow> run \<Rightarrow> bool" where
  "windows_inv W u \<longleftrightarrow> rd_left (u_world u) = W + sum_list (map frame_grant (u_sent u)) - u_arrived u \<and>
     wr_left (u_world u) = u_window u - zlen (data_sent u) \<and> u_window u \<le> u_limit u \<and> zlen (data_sent u) \<le> u_limit u"

fun closed_once :: "Frame list \<Rightarrow> bool" where
  "closed_once [] \<longleftrightarrow> True"
| "closed_once (f # fs) \<longleftrightarrow> (frame_closes f \<longrightarrow> (\<forall>g \<in> set fs. \<not> is_data g \<and> \<not> frame_closes g)) \<and> closed_once fs"

definition close_inv :: "run \<Rightarrow> bool" where
  "close_inv u \<longleftrightarrow> closed_once (u_sent u) \<and> ((\<exists>f \<in> set (u_sent u). frame_closes f) \<longrightarrow> sentEOF (u_world u)) \<and>
     (\<forall>f \<in> set (u_sent u). frame_stream f = s_streamID (u_world u))"

definition open_inv :: "bool \<Rightarrow> run \<Rightarrow> bool" where
  "open_inv outgoing u \<longleftrightarrow>
     (case u_sent u of
        [] \<Rightarrow> if outgoing then needOpen (u_world u) \<or> fully_closed (u_world u) else \<not> needOpen (u_world u)
      | f # fs \<Rightarrow> frame_opens f = outgoing \<and> (\<forall>g \<in> set fs. \<not> frame_opens g) \<and> \<not> needOpen (u_world u))"

definition run_inv :: "bool \<Rightarrow> int \<Rightarrow> run \<Rightarrow> bool" where
  "run_inv outgoing W u \<longleftrightarrow> world_inv W (u_world u) \<and> loop_inv u \<and> write_inv u \<and> read_inv u \<and> windows_inv W u \<and>
     close_inv u \<and> open_inv outgoing u"

lemma closed_once_append:
  "closed_once (fs @ [g]) \<longleftrightarrow> closed_once fs \<and> ((\<exists>f \<in> set fs. frame_closes f) \<longrightarrow> \<not> is_data g \<and> \<not> frame_closes g)"
  by (induction fs) auto

subsection \<open>Creation\<close>

lemma newStream_world_inv:
  assumes "conn_ready out ref" "0 \<le> W" "W < 2 ^ 31"
  shows "world_inv W (newStream out st W R ref sid)"
  using assms
  by (auto simp: newStream_def zero_stream_def read_init_def write_init_def in_world_def world_inv_def stream_inv_defs
      queues_inv_def gone_inv_def fully_closed_def conn_ready_def rawStream.defs sworld.defs buffer_inv_def empty_buffer_def)

lemma created_inv:
  assumes "created outgoing W R w"
  shows "run_inv outgoing W (run_start w)"
proof -
  obtain out st ref sid where c: "conn_ready out ref" "0 \<le> W" "W < 2 ^ 31" "0 \<le> R"
    "if outgoing then newOutgoingStream out st W R ref sid = Some w else w = newIncomingStream out st W R ref sid"
    using assms by (auto simp: created_def)
  let ?v = "newStream out st W R ref sid"
  have inv: "world_inv W ?v" by (rule newStream_world_inv [OF c(1-3)])
  have v: "s_flags ?v = 0" "wr_wired ?v = 0" "buffer_contents (wr_buf ?v) = []" "buffer_contents (rd_buf ?v) = []" "rd_left ?v = W"
    "wr_left ?v = R" "rd_increment ?v = 0" "wr_err ?v = None" "rd_err ?v = None" "b_size (wr_buf ?v) = 0" "b_size (rd_buf ?v) = 0"
    by (simp_all add: newStream_def zero_stream_def read_init_def write_init_def in_world_def rawStream.defs sworld.defs
        empty_buffer_def buffer_contents_def)
  show ?thesis
  proof (cases outgoing)
    case False
    then have "w = ?v" using c(5) by (simp add: newIncomingStream_def)
    then show ?thesis using inv v False c(4)
      by (simp add: run_inv_def run_start_def loop_inv_def needs_ctrl_def activeData_def pendingBytes_def write_inv_def data_sent_def
          read_inv_def windows_inv_def close_inv_def open_inv_def)
  next
    case True
    let ?u = "?v\<lparr>s_flags := s_flags ?v OR flagStreamNeedOpen\<rparr>"
    have q: "queues_inv ?u" using inv by (simp add: world_inv_def)
    then obtain o1 where o1: "w = ?u\<lparr>w_out := o1, s_inctrl := True\<rparr>" "sched ?u o1 True (s_indata ?u)"
      using scheduleCtrl_sched [OF q] c(5) True by (auto simp: newOutgoingStream_def Let_def)
    have "world_inv W w" unfolding world_inv_def
    proof (intro conjI)
      show "stream_inv W w" using inv v o1(1) by (simp add: world_inv_def stream_inv_defs)
      show "queues_inv w" using sched_queues_inv [OF q o1(2)] o1(1) by simp
      show "gone_inv w" using o1(1) v by (simp add: gone_inv_def fully_closed_def)
    qed
    then show ?thesis using v True c(4) o1(1)
      by (simp add: run_inv_def run_start_def loop_inv_def needs_ctrl_def activeData_def pendingBytes_def write_inv_def data_sent_def
          read_inv_def windows_inv_def close_inv_def open_inv_def)
  qed
qed

subsection \<open>Operations\<close>

lemma section_flags:
  assumes "section_ok W w w'"
  shows "sentEOF w \<Longrightarrow> sentEOF w'" "fully_closed w \<Longrightarrow> fully_closed w'" "s_streamID w' = s_streamID w" "s_ref w' = s_ref w"
    "wr_err w \<noteq> None \<Longrightarrow> wr_err w' = wr_err w" "s_inctrl w \<Longrightarrow> s_inctrl w'" "s_indata w \<Longrightarrow> s_indata w'"
    "needs_ctrl w' \<Longrightarrow> s_inctrl w' \<or> needs_ctrl w" "activeData w' \<Longrightarrow> s_indata w' \<or> activeData w"
  using assms by (auto simp: section_ok_def sticky_def fully_closed_def sched_def added_def schedules_def)

lemma contents_wired:
  assumes "world_inv W w"
  shows "0 \<le> wr_wired w" "nat (wr_wired w) \<le> length (buffer_contents (wr_buf w))" "b_size (wr_buf w) = zlen (buffer_contents (wr_buf w))"
  using assms buffer_size_contents [of "wr_buf w"] by (auto simp: world_inv_def stream_inv_def wbuf_inv_def)

lemma data_sent_simps [simp]:
  "data_sent (u\<lparr>u_world := w\<rparr>) = data_sent u" "data_sent (u\<lparr>u_point := p\<rparr>) = data_sent u"
  "data_sent (record_effect e w u) = data_sent u" "data_sent (send_frame f p w u) = data_sent u @ frame_data f"
  by (simp_all add: data_sent_def record_effect_def send_frame_def)

lemma write_inv_prefix: "write_inv u \<Longrightarrow> prefix (data_sent u) (u_written u)"
  by (auto simp: write_inv_def split: if_splits intro: prefixI [OF sym])

lemma operation_inv:
  assumes inv: "run_inv outgoing W u" and s: "section_ok W (u_world u) w'" and m: "moves (u_world u) e w'"
  shows "run_inv outgoing W (record_effect e w' u)"
  unfolding run_inv_def
proof (intro conjI)
  let ?w = "u_world u" and ?u = "record_effect e w' u"
  have i: "world_inv W ?w" "loop_inv u" "write_inv u" "read_inv u" "windows_inv W u" "close_inv u" "open_inv outgoing u"
    using inv by (simp_all add: run_inv_def)
  note fl = section_flags [OF s]
  show "world_inv W (u_world ?u)" using section_world_inv [OF i(1) s] by (simp add: record_effect_def)
  have "wr_wired w' = 0 \<or> wr_wired w' = wr_wired ?w" using m by (auto simp: moves_def)
  then show "loop_inv ?u" using i(2) fl(6-9)
    by (cases "u_point u") (auto simp: loop_inv_def record_effect_def)
  show "write_inv ?u"
  proof (cases "u_lost ?u")
    case True
    have p: "prefix (data_sent u) (u_written u)" by (rule write_inv_prefix [OF i(3)])
    have "buffer_contents (wr_buf w') = [] \<and> wr_err w' \<noteq> None"
      using True i(3) m fl(5) by (auto simp: record_effect_def write_inv_def moves_def split: if_splits)
    with p True show ?thesis by (auto simp: write_inv_def, auto simp: record_effect_def intro: prefix_prefix)
  next
    case False
    then show ?thesis using i(3) m contents_wired [OF i(1)]
      by (simp add: write_inv_def) (auto simp: record_effect_def moves_def)
  qed
  show "read_inv ?u" using i(4) m by (auto simp: read_inv_def record_effect_def moves_def)
  show "windows_inv W ?u" using i(5) m by (simp add: windows_inv_def) (auto simp: record_effect_def moves_def)
  show "close_inv ?u" using i(6) fl(1,3) by (auto simp: close_inv_def record_effect_def)
  show "open_inv outgoing ?u" using i(7) fl(2) m by (auto simp: open_inv_def record_effect_def moves_def split: list.splits)
qed

lemma same_stream_inv:
  assumes "run_inv outgoing W u" "world_inv W w'" "loop_inv (u\<lparr>u_world := w', u_point := p\<rparr>)"
    and "buffer_contents (wr_buf w') = buffer_contents (wr_buf (u_world u))" "wr_wired w' = wr_wired (u_world u)"
    "rd_buf w' = rd_buf (u_world u)" "wr_err w' = wr_err (u_world u)" "rd_left w' = rd_left (u_world u)" "wr_left w' = wr_left (u_world u)"
    "s_streamID w' = s_streamID (u_world u)" "sentEOF (u_world u) \<longrightarrow> sentEOF w'" "needOpen w' \<longrightarrow> needOpen (u_world u)"
    "needOpen (u_world u) \<or> fully_closed (u_world u) \<longrightarrow> needOpen w' \<or> fully_closed w'"
  shows "run_inv outgoing W (u\<lparr>u_world := w', u_point := p\<rparr>)"
  unfolding run_inv_def
proof (intro conjI)
  have i: "write_inv u" "read_inv u" "windows_inv W u" "close_inv u" "open_inv outgoing u"
    using assms(1) by (simp_all add: run_inv_def)
  let ?u = "u\<lparr>u_world := w', u_point := p\<rparr>"
  show "world_inv W (u_world ?u)" "loop_inv ?u" using assms(2,3) by simp_all
  show "write_inv ?u" using i(1) assms by (simp add: write_inv_def)
  show "read_inv ?u" using i(2) assms by (simp add: read_inv_def)
  show "windows_inv W ?u" using i(3) assms by (simp add: windows_inv_def)
  show "close_inv ?u" using i(4) assms by (auto simp: close_inv_def)
  show "open_inv outgoing ?u" using i(5) assms by (auto simp: open_inv_def split: list.splits)
qed

subsection \<open>Taking the stream out of a queue\<close>

lemma take_hd:
  assumes "queue_inv q" "queue_take q = Some (Some r, q')"
  shows "queue_inv q' \<and> queue_elems q = r # queue_elems q'"
proof (cases "queue_elems q")
  case Nil
  with queue_take_empty [OF assms(1)] assms(2) show ?thesis by simp
next
  case (Cons x xs)
  with queue_take_spec [OF assms(1)] assms(2) show ?thesis by auto
qed

lemma take_queues_inv:
  assumes "queues_inv w"
  shows "queue_take (o_ctrl (w_out w)) = Some (Some (s_ref w), q) \<Longrightarrow>
      queues_inv (w\<lparr>w_out := (w_out w)\<lparr>o_ctrl := q\<rparr>, s_inctrl := False\<rparr>)"
    and "queue_take (o_data (w_out w)) = Some (Some (s_ref w), q) \<Longrightarrow>
      queues_inv (w\<lparr>w_out := (w_out w)\<lparr>o_data := q\<rparr>, s_indata := False\<rparr>)"
  using assms take_hd [of "o_ctrl (w_out w)" "s_ref w" q] take_hd [of "o_data (w_out w)" "s_ref w" q]
  by (auto simp: queues_inv_def outgoing_inv_def outgoing_busy_def split: if_splits)

lemma take_inv:
  assumes inv: "run_inv outgoing W u" and w: "u_world u = w" and p: "u_point u = Idle"
  shows "queue_take (o_ctrl (w_out w)) = Some (Some (s_ref w), q) \<Longrightarrow>
      run_inv outgoing W (u\<lparr>u_world := w\<lparr>w_out := (w_out w)\<lparr>o_ctrl := q\<rparr>, s_inctrl := False\<rparr>, u_point := CtrlTaken\<rparr>)"
    and "queue_take (o_data (w_out w)) = Some (Some (s_ref w), q) \<Longrightarrow>
      run_inv outgoing W (u\<lparr>u_world := w\<lparr>w_out := (w_out w)\<lparr>o_data := q\<rparr>, s_indata := False\<rparr>, u_point := DataTaken\<rparr>)"
proof -
  have i: "stream_inv W w" "queues_inv w" "gone_inv w" "loop_inv u" using inv w by (simp_all add: run_inv_def world_inv_def)
  let ?c = "w\<lparr>w_out := (w_out w)\<lparr>o_ctrl := q\<rparr>, s_inctrl := False\<rparr>"
  let ?d = "w\<lparr>w_out := (w_out w)\<lparr>o_data := q\<rparr>, s_indata := False\<rparr>"
  have s: "stream_inv W ?c" "stream_inv W ?d" "gone_inv ?c" "gone_inv ?d" "fully_closed ?c = fully_closed w" "fully_closed ?d = fully_closed w"
    using i by (simp_all add: stream_inv_defs gone_inv_def fully_closed_def)
  have l: "loop_inv (u\<lparr>u_world := ?c, u_point := CtrlTaken\<rparr>)" "loop_inv (u\<lparr>u_world := ?d, u_point := DataTaken\<rparr>)"
    using i(4) w p by (auto simp: loop_inv_def needs_ctrl_def activeData_def pendingBytes_def)
  show "run_inv outgoing W (u\<lparr>u_world := ?c, u_point := CtrlTaken\<rparr>)" if "queue_take (o_ctrl (w_out w)) = Some (Some (s_ref w), q)"
    using take_queues_inv(1) [OF i(2) that] s l w by (intro same_stream_inv [OF inv]) (auto simp: world_inv_def)
  show "run_inv outgoing W (u\<lparr>u_world := ?d, u_point := DataTaken\<rparr>)" if "queue_take (o_data (w_out w)) = Some (Some (s_ref w), q)"
    using take_queues_inv(2) [OF i(2) that] s l w by (intro same_stream_inv [OF inv]) (auto simp: world_inv_def)
qed

subsection \<open>Writing frames\<close>

lemma emit_inv:
  assumes inv: "run_inv outgoing W u" and s: "section_ok W (u_world u) w'" and e: "emits (u_world u) f w'"
    and wired: "wr_wired (u_world u) = 0" and nc: "\<not> fully_closed (u_world u)" and l: "loop_inv (send_frame f p w' u)"
  shows "run_inv outgoing W (send_frame f p w' u)"
  unfolding run_inv_def
proof (intro conjI)
  let ?w = "u_world u" and ?u = "send_frame f p w' u" and ?d = "frame_data f"
  have i: "world_inv W ?w" "write_inv u" "read_inv u" "windows_inv W u" "close_inv u" "open_inv outgoing u"
    using inv by (simp_all add: run_inv_def)
  have d: "?d = take (length ?d) (buffer_contents (wr_buf ?w))" "wr_wired w' = zlen ?d"
    "buffer_contents (wr_buf w') = buffer_contents (wr_buf ?w)" "wr_left w' = wr_left ?w - zlen ?d" "zlen ?d \<le> max 0 (wr_left ?w)"
    "rd_buf w' = rd_buf ?w" "rd_left w' = rd_left ?w + frame_grant f" "frame_closes f \<longleftrightarrow> sentEOF w' \<and> \<not> sentEOF ?w"
    "sentEOF ?w \<longrightarrow> \<not> is_data f" "frame_opens f \<longleftrightarrow> needOpen ?w" "\<not> needOpen w'" "wr_err w' = wr_err ?w" "frame_stream f = s_streamID ?w"
    using e by (auto simp: emits_def)
  show "world_inv W (u_world ?u)" using section_world_inv [OF i(1) s] by (simp add: send_frame_def)
  show "loop_inv ?u" by (rule l)
  show "write_inv ?u"
  proof (cases "u_lost u")
    case True
    then have "?d = []" using i(2) d(1) by (simp add: write_inv_def)
    with True i(2) d(3,12) show ?thesis by (simp add: write_inv_def) (simp add: send_frame_def)
  next
    case False
    have "data_sent u @ buffer_contents (wr_buf ?w) = u_written u" using i(2) False wired by (simp add: write_inv_def)
    moreover have "buffer_contents (wr_buf ?w) = ?d @ drop (length ?d) (buffer_contents (wr_buf ?w))"
      using d(1) by (metis append_take_drop_id)
    ultimately have "(data_sent u @ ?d) @ drop (length ?d) (buffer_contents (wr_buf ?w)) = u_written u" by simp
    with False d(2,3) show ?thesis by (simp add: write_inv_def) (simp add: send_frame_def)
  qed
  show "read_inv ?u" using i(3) d(6) by (simp add: read_inv_def send_frame_def)
  show "windows_inv W ?u" using i(4) d(4,5,7) by (simp add: windows_inv_def) (auto simp: send_frame_def)
  show "close_inv ?u" using i(5) d(8,9,13) section_flags(1,3) [OF s]
    by (auto simp: close_inv_def send_frame_def closed_once_append)
  show "open_inv outgoing ?u" using i(6) d(10,11) nc
    by (auto simp: open_inv_def send_frame_def split: list.splits if_splits)
qed

text \<open>A fully closed stream has nothing to send, and a finished control phase changes nothing unless it discards the stream.\<close>

lemma fully_closed_silent:
  assumes "world_inv W w" "fully_closed w"
  shows "\<not> needs_ctrl w \<or> b_size (wr_buf w) \<noteq> 0 \<and> wr_wired w \<noteq> 0" "\<not> needOpen w" "\<not> needAck w" "rd_increment w = 0"
    "\<not> needReset w" "\<not> needEOF w" "b_size (wr_buf w) = wr_wired w"
  using assms by (auto simp: world_inv_def stream_inv_def flags_inv_def window_inv_def fully_closed_def needs_ctrl_def split: if_splits)

lemma round_point:
  assumes "writeCtrl_round w = Some (pt, w')"
  shows "pt = CtrlDone \<Longrightarrow> w' = w"
    and "pt = CtrlWrite f r \<Longrightarrow> needOpen w \<or> needAck w \<or> 0 < rd_increment w \<or> needReset w \<or> needEOF w"
  using assms unfolding writeCtrl_round_def
  by (auto simp: Let_def flag_simps split: if_splits bind_splits prod.splits)

lemma start_point:
  assumes "writeCtrl_start w = Some (pt, w')"
  shows "writeCtrl_round w = Some (pt, w') \<or> pt = CtrlDone \<and> w' = cleanupLocked (w\<lparr>s_flags := flagStreamSeenEOF OR flagStreamSentEOF\<rparr>)"
  using assms unfolding writeCtrl_start_def by (auto split: if_splits)

lemma round_open: "world_inv W w \<Longrightarrow> writeCtrl_round w = Some (CtrlWrite f r, w') \<Longrightarrow> \<not> fully_closed w"
  using round_point(2) [of w "CtrlWrite f r" w' f r] fully_closed_silent [of W w] by auto

lemma ctrl_next_inv:
  assumes inv: "run_inv outgoing W u" and p: "u_point u = CtrlTaken \<or> u_point u = CtrlWriting AfterFrame"
    and c: "ctrl_ok W (u_world u) pt w'"
    and r: "writeCtrl_round (u_world u) = Some (pt, w') \<or>
      pt = CtrlDone \<and> w' = cleanupLocked (u_world u\<lparr>s_flags := flagStreamSeenEOF OR flagStreamSentEOF\<rparr>)"
  shows "run_inv outgoing W (ctrl_next pt w' u)"
proof -
  have i: "world_inv W (u_world u)" "loop_inv u" using inv by (simp_all add: run_inv_def)
  have s: "section_ok W (u_world u) w'" using c by (simp add: ctrl_ok_def)
  have wired: "wr_wired (u_world u) = 0" using i(2) p by (auto simp: loop_inv_def)
  have ad: "activeData w' \<longrightarrow> s_indata w'" using i(2) p section_flags(7,9) [OF s] by (auto simp: loop_inv_def)
  show ?thesis
  proof (cases pt)
    case (CtrlWrite f r')
    have "writeCtrl_round (u_world u) = Some (CtrlWrite f r', w')" using r CtrlWrite by simp
    from round_open [OF i(1) this] have "\<not> fully_closed (u_world u)" .
    moreover have "loop_inv (send_frame f (CtrlWriting r') w' u)"
      using ad c CtrlWrite by (auto simp: loop_inv_def send_frame_def ctrl_ok_def)
    ultimately show ?thesis using CtrlWrite c s wired emit_inv [OF inv s] by (simp add: ctrl_next_def ctrl_ok_def)
  next
    case CtrlDone
    have "\<not> needs_ctrl w'" "wr_wired w' = 0" using c CtrlDone by (simp_all add: ctrl_ok_def)
    then have l: "loop_inv (u\<lparr>u_world := w', u_point := Idle\<rparr>)" using ad by (simp add: loop_inv_def)
    have "w' = u_world u \<or> w' = cleanupLocked (u_world u\<lparr>s_flags := flagStreamSeenEOF OR flagStreamSentEOF\<rparr>)"
      using r CtrlDone round_point(1) by blast
    then have "run_inv outgoing W (u\<lparr>u_world := w', u_point := Idle\<rparr>)"
    proof
      assume "w' = u_world u"
      with l i(1) show ?thesis by (intro same_stream_inv [OF inv]) auto
    next
      assume w': "w' = cleanupLocked (u_world u\<lparr>s_flags := flagStreamSeenEOF OR flagStreamSentEOF\<rparr>)"
      have "fully_closed w'" "sentEOF w'" "\<not> needOpen w'" unfolding w' by (simp_all add: cleanupLocked_def fully_closed_def)
      with l section_world_inv [OF i(1) s] show ?thesis
        by (intro same_stream_inv [OF inv]) (simp_all add: w' cleanupLocked_def)
    qed
    then show ?thesis using CtrlDone by (simp add: ctrl_next_def)
  qed
qed

lemma finishData_keeps: "wr_left (finishData w) = wr_left w" "rd_left (finishData w) = rd_left w" "wr_err (finishData w) = wr_err w"
    "s_streamID (finishData w) = s_streamID w"
  by (simp_all add: finishData_def Let_def split: prod.splits)

lemma finish_inv:
  assumes inv: "run_inv outgoing W u"
    and p: "u_point u = CtrlWriting AfterData \<and> p = CtrlWriting AfterFrame \<or> u_point u = DataWriting \<and> p = Idle"
  shows "run_inv outgoing W (u\<lparr>u_world := finishData (u_world u), u_point := p\<rparr>)"
proof -
  let ?w = "u_world u" let ?v = "finishData ?w" let ?u = "u\<lparr>u_world := ?v, u_point := p\<rparr>"
  have i: "world_inv W ?w" "loop_inv u" "write_inv u" "read_inv u" "windows_inv W u" "close_inv u" "open_inv outgoing u"
    using inv by (simp_all add: run_inv_def)
  have f: "section_ok W ?w ?v" "wr_wired ?v = 0" "rd_buf ?v = rd_buf ?w"
    "buffer_contents (wr_buf ?v) = drop (nat (wr_wired ?w)) (buffer_contents (wr_buf ?w))" "s_flags ?v = s_flags ?w"
    "needs_ctrl ?v \<longleftrightarrow> needs_ctrl ?w" "s_inctrl ?v = s_inctrl ?w"
    using finishData_ok [OF i(1)] by blast+
  have "activeData ?w \<longrightarrow> s_indata ?w" "needs_ctrl ?w \<longrightarrow> s_inctrl ?w \<or> p = CtrlWriting AfterFrame"
    using i(2) p by (auto simp: loop_inv_def)
  then have "activeData ?v \<longrightarrow> s_indata ?v" "needs_ctrl ?v \<longrightarrow> s_inctrl ?v \<or> p = CtrlWriting AfterFrame"
    using f(6,7) section_flags(7,9) [OF f(1)] by blast+
  with f(2) have l: "loop_inv ?u" by (simp add: loop_inv_def) blast
  have fc: "fully_closed ?v = fully_closed ?w" using f(5) by (simp add: fully_closed_def)
  show ?thesis unfolding run_inv_def
  proof (intro conjI)
    show "world_inv W (u_world ?u)" using section_world_inv [OF i(1) f(1)] by simp
    show "loop_inv ?u" by (rule l)
    show "write_inv ?u" using i(3) f(2,4) by (auto simp: write_inv_def finishData_keeps)
    show "read_inv ?u" using i(4) f(3) by (simp add: read_inv_def)
    show "windows_inv W ?u" using i(5) by (simp add: windows_inv_def finishData_keeps)
    show "close_inv ?u" using i(6) f(5) by (simp add: close_inv_def finishData_keeps)
    show "open_inv outgoing ?u" using i(7) f(5) fc by (auto simp: open_inv_def split: list.splits)
  qed
qed

lemma resume_inv:
  assumes inv: "run_inv outgoing W u" and p: "u_point u = CtrlWriting r" and c: "writeCtrl_resume r (u_world u) = Some (pt, w')"
  shows "run_inv outgoing W (ctrl_next pt w' u)"
proof -
  let ?v = "case r of AfterData \<Rightarrow> finishData (u_world u) | AfterFrame \<Rightarrow> u_world u"
  let ?u = "u\<lparr>u_world := ?v, u_point := CtrlWriting AfterFrame\<rparr>"
  have i: "run_inv outgoing W ?u"
  proof (cases r)
    case AfterData
    with finish_inv [OF inv] p show ?thesis by simp
  next
    case AfterFrame
    then have "?u = u" using p by (cases u) simp
    with inv show ?thesis by simp
  qed
  then have wi: "world_inv W ?v" "wr_wired ?v = 0" by (auto simp: run_inv_def loop_inv_def)
  have rd: "writeCtrl_round ?v = Some (pt, w')" using c by (simp add: writeCtrl_resume_def)
  have ok: "ctrl_ok W (u_world ?u) pt w'" using writeCtrl_round_ok [OF wi] rd by auto
  have "run_inv outgoing W (ctrl_next pt w' ?u)"
    by (rule ctrl_next_inv [OF i _ ok]) (simp_all add: rd)
  moreover have "ctrl_next pt w' ?u = ctrl_next pt w' u" by (simp add: ctrl_next_def send_frame_def split: ctrl_point.splits)
  ultimately show ?thesis by simp
qed

lemma prepare_none:
  assumes "prepareDataLocked w m = Some ([], w')"
  shows "w' = w"
proof -
  define k where "k = (if wr_left w < b_size (wr_buf w) then wr_left w else b_size (wr_buf w))"
  define n where "n = (if m < k then m else k)"
  have e: "prepareDataLocked w m = (if 0 < n then do {
       (p, b) \<leftarrow> buffer_peek (wr_buf w);
       data \<leftarrow> slice p 0 n;
       Some (data, w\<lparr>wr_buf := b, wr_wired := n, wr_left := wr_left w - n\<rparr>)
     } else Some ([], w))"
    unfolding prepareDataLocked_def Let_def k_def n_def by (rule refl)
  have "slice q 0 n \<noteq> Some []" if "0 < n" for q :: "u8 list" using that by (auto simp: slice_def)
  with assms show ?thesis unfolding e by (cases "0 < n") (auto simp: bind_eq_Some_conv)
qed

lemma writeData_none:
  assumes "writeData_start w = Some (None, w')"
  shows "w' = w"
proof -
  obtain data w1 where p: "prepareDataLocked w dataFramePayloadSize = Some (data, w1)"
    using assms by (auto simp: writeData_start_def bind_eq_Some_conv)
  have "data = [] \<and> w' = w1" using assms p
    by (cases "data = []") (auto simp: writeData_start_def Let_def bind_eq_Some_conv split: prod.splits)
  with p show ?thesis using prepare_none by blast
qed

lemma data_start_inv:
  assumes inv: "run_inv outgoing W u" and p: "u_point u = DataTaken" and d: "writeData_start (u_world u) = Some (fo, w')"
  shows "run_inv outgoing W (data_next fo w' u)"
proof -
  let ?w = "u_world u"
  have i: "world_inv W ?w" "loop_inv u" using inv by (simp_all add: run_inv_def)
  have wired: "wr_wired ?w = 0" using i(2) p by (simp add: loop_inv_def)
  have ok: "section_ok W ?w w'" "\<not> activeData w'"
    "case fo of None \<Rightarrow> wr_wired w' = 0 | Some f \<Rightarrow> emits ?w f w' \<and> frame_data f \<noteq> []"
    using writeData_start_ok [OF i(1) wired] d by (auto split: option.splits)
  have "needs_ctrl ?w \<longrightarrow> s_inctrl ?w" using i(2) p by (simp add: loop_inv_def)
  then have nc: "needs_ctrl w' \<longrightarrow> s_inctrl w'" using section_flags(6,8) [OF ok(1)] by blast
  show ?thesis
  proof (cases fo)
    case None
    then have "w' = ?w" using writeData_none d by blast
    moreover have "loop_inv (u\<lparr>u_world := w', u_point := Idle\<rparr>)" using ok(2,3) nc None by (simp add: loop_inv_def)
    ultimately show ?thesis using i(1) None same_stream_inv [OF inv, of w' Idle] by (simp add: data_next_def)
  next
    case (Some f)
    then have e: "emits ?w f w'" "frame_data f \<noteq> []" using ok(3) by simp_all
    have "buffer_contents (wr_buf ?w) \<noteq> []" using e by (auto simp: emits_def)
    then have "\<not> fully_closed ?w" using fully_closed_silent(7) [OF i(1)] wired contents_wired(3) [OF i(1)] by auto
    moreover have "loop_inv (send_frame f DataWriting w' u)" using nc ok(2) by (simp add: loop_inv_def send_frame_def)
    ultimately show ?thesis using Some emit_inv [OF inv ok(1) e(1) wired] by (simp add: data_next_def)
  qed
qed

subsection \<open>All steps\<close>

lemma step_inv:
  assumes "stream_step u u'" "run_inv outgoing W u"
  shows "run_inv outgoing W u'"
  using assms
proof (induction rule: stream_step.induct)
  case (operation op u e w')
  then have "world_inv W (u_world u)" by (simp add: run_inv_def)
  from sop_ok [OF this operation(1)] operation(2,3) operation_inv show ?case by fastforce
next
  case (take_ctrl u w q)
  then show ?case by (intro take_inv(1))
next
  case (take_data u w q)
  then show ?case by (intro take_inv(2))
next
  case (ctrl_start u pt w')
  then have i: "world_inv W (u_world u)" "wr_wired (u_world u) = 0" by (auto simp: run_inv_def loop_inv_def)
  have "ctrl_ok W (u_world u) pt w'" using writeCtrl_start_ok [OF i] ctrl_start(2) by auto
  then show ?case using ctrl_next_inv [OF ctrl_start(3)] ctrl_start(1) start_point [OF ctrl_start(2)] by blast
next
  case (ctrl_resume u r pt w')
  then show ?case by (intro resume_inv)
next
  case (data_start u fo w')
  then show ?case by (intro data_start_inv)
next
  case (data_finish u)
  then show ?case by (intro finish_inv) simp_all
next
  case (write_error u r)
  have "u\<lparr>u_point := WriteFailed\<rparr> = u\<lparr>u_world := u_world u, u_point := WriteFailed\<rparr>" by simp
  moreover have "run_inv outgoing W (u\<lparr>u_world := u_world u, u_point := WriteFailed\<rparr>)"
    by (rule same_stream_inv [OF write_error(2)]) (use write_error(2) in \<open>auto simp: run_inv_def loop_inv_def\<close>)
  ultimately show ?case by simp
next
  case (again_ctrl u w')
  then have i: "world_inv W (u_world u)" "loop_inv u" by (simp_all add: run_inv_def)
  then have q: "queues_inv (u_world u)" by (simp add: world_inv_def)
  obtain out where o: "w' = u_world u\<lparr>w_out := out, s_inctrl := True\<rparr>" "sched (u_world u) out True (s_indata (u_world u))"
    using scheduleCtrl_sched [OF q] again_ctrl(1) by auto
  have wi: "world_inv W w'" using i(1) sched_queues_inv [OF q o(2)] o(1)
    by (auto simp: world_inv_def stream_inv_defs gone_inv_def fully_closed_def)
  have "loop_inv (u\<lparr>u_world := w', u_point := u_point u\<rparr>)" using i(2) o(1)
    by (cases "u_point u") (auto simp: loop_inv_def activeData_def pendingBytes_def)
  from same_stream_inv [OF again_ctrl(2) wi this] o(1) show ?case by (simp add: fully_closed_def)
next
  case (again_data u w')
  then have i: "world_inv W (u_world u)" "loop_inv u" by (simp_all add: run_inv_def)
  then have q: "queues_inv (u_world u)" by (simp add: world_inv_def)
  obtain out where o: "w' = u_world u\<lparr>w_out := out, s_indata := True\<rparr>" "sched (u_world u) out (s_inctrl (u_world u)) True"
    using scheduleData_sched [OF q] again_data(1) by auto
  have wi: "world_inv W w'" using i(1) sched_queues_inv [OF q o(2)] o(1)
    by (auto simp: world_inv_def stream_inv_defs gone_inv_def fully_closed_def)
  have "loop_inv (u\<lparr>u_world := w', u_point := u_point u\<rparr>)" using i(2) o(1)
    by (cases "u_point u") (auto simp: loop_inv_def needs_ctrl_def)
  from same_stream_inv [OF again_data(2) wi this] o(1) show ?case by (simp add: fully_closed_def)
next
  case (others st out u)
  let ?w = "u_world u\<lparr>w_out := out, w_streams := st\<rparr>"
  have i: "stream_inv W (u_world u)" "loop_inv u" using others(3) by (simp_all add: run_inv_def world_inv_def)
  have wi: "world_inv W ?w" using others(1,2) i(1) by (simp add: world_inv_def stream_inv_defs)
  have "loop_inv (u\<lparr>u_world := ?w, u_point := u_point u\<rparr>)" using i(2)
    by (simp add: loop_inv_def needs_ctrl_def activeData_def pendingBytes_def)
  from same_stream_inv [OF others(3) wi this] show ?case by (simp add: fully_closed_def)
qed

lemma reachable_inv:
  assumes "created outgoing W R w" "stream_reachable w u"
  shows "run_inv outgoing W u"
  using assms(2) by induction (auto intro: created_inv [OF assms(1)] step_inv)

section \<open>Executable runs\<close>

text \<open>The steps of one stream as a function, to evaluate concrete interleavings.\<close>

datatype action = Do sop | TakeCtrl | TakeData | StartCtrl | ResumeCtrl | StartData | FinishData | FailWrite

fun act :: "action \<Rightarrow> run \<Rightarrow> run option" where
  "act (Do op) u = (if sop_wf op then do { (e, w) \<leftarrow> sop_exec op (u_world u); Some (record_effect e w u) } else None)"
| "act TakeCtrl u = (if u_point u = Idle then do {
     let w = u_world u;
     (r, q) \<leftarrow> queue_take (o_ctrl (w_out w));
     if r = Some (s_ref w) then Some (u\<lparr>u_world := w\<lparr>w_out := (w_out w)\<lparr>o_ctrl := q\<rparr>, s_inctrl := False\<rparr>, u_point := CtrlTaken\<rparr>) else None
   } else None)"
| "act TakeData u = (if u_point u = Idle then do {
     let w = u_world u;
     (r, q) \<leftarrow> queue_take (o_data (w_out w));
     if r = Some (s_ref w) then Some (u\<lparr>u_world := w\<lparr>w_out := (w_out w)\<lparr>o_data := q\<rparr>, s_indata := False\<rparr>, u_point := DataTaken\<rparr>) else None
   } else None)"
| "act StartCtrl u = (if u_point u = CtrlTaken then do { (pt, w) \<leftarrow> writeCtrl_start (u_world u); Some (ctrl_next pt w u) } else None)"
| "act ResumeCtrl u =
     (case u_point u of CtrlWriting r \<Rightarrow> do { (pt, w) \<leftarrow> writeCtrl_resume r (u_world u); Some (ctrl_next pt w u) } | _ \<Rightarrow> None)"
| "act StartData u = (if u_point u = DataTaken then do { (fo, w) \<leftarrow> writeData_start (u_world u); Some (data_next fo w u) } else None)"
| "act FinishData u = (if u_point u = DataWriting then Some (u\<lparr>u_world := finishData (u_world u), u_point := Idle\<rparr>) else None)"
| "act FailWrite u = (case u_point u of DataWriting \<Rightarrow> Some (u\<lparr>u_point := WriteFailed\<rparr>) | CtrlWriting r \<Rightarrow> Some (u\<lparr>u_point := WriteFailed\<rparr>) | _ \<Rightarrow> None)"

fun acts :: "action list \<Rightarrow> run \<Rightarrow> run option" where
  "acts [] u = Some u"
| "acts (a # as) u = (case act a u of None \<Rightarrow> None | Some u \<Rightarrow> acts as u)"

lemma act_step: "act a u = Some u' \<Longrightarrow> stream_step u u'"
  by (cases a) (auto simp: Let_def bind_eq_Some_conv split: if_splits wpoint.splits intro: stream_step.intros)

lemma acts_reachable: "acts as u = Some u' \<Longrightarrow> stream_reachable w u \<Longrightarrow> stream_reachable w u'"
proof (induction as arbitrary: u)
  case (Cons a as)
  then obtain v where v: "act a u = Some v" "acts as v = Some u'" by (auto split: option.splits)
  with Cons.IH [OF v(2)] Cons.prems(2) show ?case using act_step stream_reachable.step by blast
qed simp

lemma created_outgoing:
  assumes "newOutgoingStream outgoing_init st 65536 65536 ref sid = Some w"
  shows "created True 65536 65536 w"
  unfolding created_def using assms
  by (intro conjI exI [of _ outgoing_init] exI [of _ st] exI [of _ ref] exI [of _ sid])
    (simp_all add: conn_ready_def outgoing_init_inv, simp_all add: outgoing_init_def queue_cap_def)

lemma new_outgoing: "newOutgoingStream outgoing_init st 65536 65536 ref sid \<noteq> None"
proof -
  have "conn_ready outgoing_init ref" by (simp add: conn_ready_def outgoing_init_inv, simp add: outgoing_init_def queue_cap_def)
  then have "world_inv 65536 (newStream outgoing_init st 65536 65536 ref sid)" by (rule newStream_world_inv) simp_all
  then have "queues_inv (newStream outgoing_init st 65536 65536 ref sid
      \<lparr>s_flags := s_flags (newStream outgoing_init st 65536 65536 ref sid) OR flagStreamNeedOpen\<rparr>)"
    by (simp add: world_inv_def)
  then show ?thesis using scheduleCtrl_sched by (fastforce simp: newOutgoingStream_def Let_def)
qed

text \<open>
  A client opens stream 2, writes two bytes and closes its write side; the write loop sends OPEN,
  data and EOF in one frame.
\<close>

definition demo_world :: sworld where
  "demo_world = the (newOutgoingStream outgoing_init (streams_init True) 65536 65536 7 2)"

definition demo_actions :: "action list" where
  "demo_actions = [Do (OpWriteByte 0 False 65), Do (OpWriteByte 0 False 66), Do OpCloseWrite, TakeCtrl, StartCtrl, Do (DataArrives 0 [67, 68] 0),
     Do (OpReadByte 0 False), ResumeCtrl]"

lemma demo_created: "created True 65536 65536 demo_world"
  using new_outgoing [of "streams_init True" 7 2] created_outgoing unfolding demo_world_def by (metis option.collapse)


lemma demo_result:
  "map_option (\<lambda>u. (u_sent u, u_written u, u_read u, u_received u, u_point u)) (acts demo_actions (run_start demo_world))
     = Some ([DataFrame 2 3 [65, 66], WindowFrame 2 0 1], [65, 66], [67], [67, 68], CtrlWriting AfterFrame)"
  by code_simp

section \<open>A control phase on its own\<close>

text \<open>
  \<^verbatim>\<open>writeCtrl\<close> from its start to its end, with the frames it writes, while nothing else happens
  to the stream and every write succeeds. The loop has no bound in the code; the fuel of five
  sections is enough for the four frames a stream can owe.
\<close>

fun writeCtrl_run :: "nat \<Rightarrow> ctrl_point \<times> sworld \<Rightarrow> (Frame list \<times> sworld) option" where
  "writeCtrl_run 0 _ = None"
| "writeCtrl_run (Suc n) (CtrlDone, w) = Some ([], w)"
| "writeCtrl_run (Suc n) (CtrlWrite f r, w) = do {
     res \<leftarrow> writeCtrl_resume r w;
     (fs, w) \<leftarrow> writeCtrl_run n res;
     Some (f # fs, w)
   }"

definition stream_writeCtrl :: "sworld \<Rightarrow> (Frame list \<times> sworld) option" where
  "stream_writeCtrl w = do { res \<leftarrow> writeCtrl_start w; writeCtrl_run 5 res }"

definition owed :: "sworld \<Rightarrow> nat" where
  "owed w = of_bool ((needOpen w \<or> needAck w) \<and> \<not> sentEOF w) + of_bool (0 < rd_increment w) + of_bool (needReset w) + of_bool (needEOF w)"

lemma owed_data:
  assumes inv: "world_inv W w" and wired: "wr_wired w = 0" and g: "needOpen w \<or> needAck w" "\<not> sentEOF w"
    and r: "writeCtrl_round w = Some (CtrlWrite f r, w')"
  shows "owed w' < owed w"
proof -
  obtain data fl w1 w2 where
    d: "prepareDataLocked w dataFramePayloadSize = Some (data, w1)" "outgoingFlags w1 = (fl, w2)"
      "\<not> sentEOF w \<longrightarrow> emits w (DataFrame (s_streamID w2) fl data) w2" "\<not> needAck w2" "needEOF w2 \<longrightarrow> needEOF w"
      "rd_increment w2 = rd_increment w" "needReset w2 \<longleftrightarrow> needReset w"
    using send_data_ok [OF inv wired] by blast
  have "w' = w2" using r g d(1,2) by (simp add: writeCtrl_round_def flag_simps)
  moreover have "\<not> needOpen w2" using d(3) g(2) by (simp add: emits_def)
  ultimately show ?thesis using g d(4-7) by (auto simp: owed_def)
qed

lemma owed_round:
  assumes inv: "world_inv W w" and wired: "wr_wired w = 0" and r: "writeCtrl_round w = Some (CtrlWrite f r, w')"
  shows "owed w' < owed w"
proof (cases "(needOpen w \<or> needAck w) \<and> \<not> sentEOF w")
  case True
  with owed_data [OF inv wired _ _ r] show ?thesis by blast
next
  case False
  with inv have n: "\<not> needOpen w" "\<not> needAck w" by (auto simp: world_inv_def stream_inv_def flags_inv_def)
  have c: "owed (cleanupLocked v) = owed v" for v by (simp add: owed_def cleanupLocked_eq)
  consider "0 < rd_increment w" | "\<not> 0 < rd_increment w" "needReset w" | "\<not> 0 < rd_increment w" "\<not> needReset w" by blast
  then show ?thesis
  proof cases
    case 1
    then have "w' = w\<lparr>rd_left := rd_left w + rd_increment w, rd_increment := 0\<rparr>"
      using r n by (simp add: writeCtrl_round_def flag_simps Let_def)
    then show ?thesis using 1 by (simp add: owed_def)
  next
    case 2
    let ?a = "w\<lparr>s_flags := s_flags w AND NOT flagStreamNeedReset\<rparr>"
    let ?b = "?a\<lparr>s_flags := (s_flags ?a AND NOT flagStreamNeedEOF) OR flagStreamSentEOF\<rparr>"
    have "w' = ?a \<or> w' = cleanupLocked ?b"
      using r n 2 unfolding writeCtrl_round_def by (simp add: flag_simps Let_def bind_eq_Some_conv split: if_splits) auto
    moreover have "owed ?a < owed w" using 2 n by (simp add: owed_def bit_simps)
    moreover have "owed ?b < owed w" using 2 n by (simp add: owed_def bit_simps)
    ultimately show ?thesis using c by metis
  next
    case 3
    let ?b = "w\<lparr>s_flags := (s_flags w AND NOT flagStreamNeedEOF) OR flagStreamSentEOF\<rparr>"
    have "needEOF w \<and> w' = cleanupLocked ?b"
      using r n 3 unfolding writeCtrl_round_def by (simp add: flag_simps Let_def bind_eq_Some_conv split: if_splits) auto
    moreover have "needEOF w \<Longrightarrow> owed ?b < owed w" using 3 n by (simp add: owed_def bit_simps)
    ultimately show ?thesis using c by metis
  qed
qed

lemma owed_finishData: "owed (finishData w) = owed w"
  by (simp add: owed_def finishData_def Let_def split: prod.splits)

lemma resume_ok:
  assumes "world_inv W w" "r = AfterFrame \<longrightarrow> wr_wired w = 0" "writeCtrl_resume r w = Some (pt, w')"
  shows "ctrl_ok W (case r of AfterData \<Rightarrow> finishData w | AfterFrame \<Rightarrow> w) pt w' \<and> world_inv W w' \<and>
    (\<forall>f r'. pt = CtrlWrite f r' \<longrightarrow> owed w' < owed w)"
proof -
  let ?v = "case r of AfterData \<Rightarrow> finishData w | AfterFrame \<Rightarrow> w"
  have v: "world_inv W ?v" "wr_wired ?v = 0" "owed ?v = owed w"
    using assms(1,2) finishData_ok [OF assms(1)] section_world_inv [OF assms(1)] by (auto simp: owed_finishData split: resume.splits)
  have r: "writeCtrl_round ?v = Some (pt, w')" using assms(3) by (simp add: writeCtrl_resume_def)
  have c: "ctrl_ok W ?v pt w'" using writeCtrl_round_ok [OF v(1,2)] r by auto
  then have "world_inv W w'" using section_world_inv [OF v(1)] by (simp add: ctrl_ok_def)
  then show ?thesis using c owed_round [OF v(1,2)] r v(3) by auto
qed

lemma resume_total: "world_inv W w \<Longrightarrow> r = AfterFrame \<longrightarrow> wr_wired w = 0 \<Longrightarrow> \<exists>pt w'. writeCtrl_resume r w = Some (pt, w')"
  using writeCtrl_round_ok [of W "case r of AfterData \<Rightarrow> finishData w | AfterFrame \<Rightarrow> w"] finishData_ok [of W w] section_world_inv [of W w]
  by (cases r) (auto simp: writeCtrl_resume_def)

lemma writeCtrl_run_ok:
  assumes "world_inv W w" "case pt of CtrlDone \<Rightarrow> \<not> needs_ctrl w | CtrlWrite f r \<Rightarrow> r = AfterFrame \<longrightarrow> wr_wired w = 0"
    and "case pt of CtrlDone \<Rightarrow> 0 < n | CtrlWrite f r \<Rightarrow> owed w + 1 < n"
  shows "\<exists>fs w'. writeCtrl_run n (pt, w) = Some (fs, w') \<and> world_inv W w' \<and> \<not> needs_ctrl w' \<and> length fs < n"
  using assms
proof (induction n arbitrary: pt w)
  case (Suc n)
  show ?case
  proof (cases pt)
    case CtrlDone
    with Suc.prems show ?thesis by simp
  next
    case (CtrlWrite f r)
    have wired: "r = AfterFrame \<longrightarrow> wr_wired w = 0" using Suc.prems(2) CtrlWrite by simp
    obtain pt' w1 where r: "writeCtrl_resume r w = Some (pt', w1)" using resume_total [OF Suc.prems(1) wired] by blast
    note ok = resume_ok [OF Suc.prems(1) wired r]
    have "\<exists>fs w'. writeCtrl_run n (pt', w1) = Some (fs, w') \<and> world_inv W w' \<and> \<not> needs_ctrl w' \<and> length fs < n"
      using ok Suc.prems(3) CtrlWrite
      by (intro Suc.IH) (auto simp: ctrl_ok_def split: ctrl_point.splits)
    with r CtrlWrite show ?thesis by auto
  qed
qed (simp split: ctrl_point.splits)

lemma owed_bound: "owed w \<le> 4"
  by (simp add: owed_def)

end
