(* ===== verification/Stream_Props.thy ===== *)
theory Stream_Props
  imports Stream_Run
begin

text \<open>
  The guarantees of a stream: what holds in every state that any interleaving of its user, its
  timers, the frames that arrive and the write loop can reach from its creation.
\<close>

unbundle bit_operations_syntax

lemma demo_reachable:
  "\<exists>u. stream_reachable demo_world u \<and> u_sent u = [DataFrame 2 3 [65, 66], WindowFrame 2 0 1] \<and> u_written u = [65, 66] \<and>
     u_read u = [67] \<and> u_received u = [67, 68] \<and> u_point u = CtrlWriting AfterFrame"
proof -
  obtain u where u: "acts demo_actions (run_start demo_world) = Some u"
    using demo_result by (cases "acts demo_actions (run_start demo_world)") auto
  have "stream_reachable demo_world u" using acts_reachable [OF u stream_reachable.start] .
  with demo_result u show ?thesis by auto
qed

lemma demo_0: "stream_reachable demo_world (run_start demo_world)"
  by (rule stream_reachable.start)

section \<open>Safety\<close>

text \<open>
  A stream never panics: in every reachable state each operation of the user and each incoming
  frame returns or blocks (no index out of range, no channel closed twice, no nil error written),
  and so does every section of the write loop that can come next.
\<close>

theorem stream_never_panics:
  assumes "created outgoing W R w" and "stream_reachable w u"
  shows "(sop_wf op \<longrightarrow> sop_exec op (u_world u) \<noteq> None) \<and>
    (u_point u = CtrlTaken \<longrightarrow> writeCtrl_start (u_world u) \<noteq> None) \<and>
    (u_point u = CtrlWriting r \<longrightarrow> writeCtrl_resume r (u_world u) \<noteq> None) \<and>
    (u_point u = DataTaken \<longrightarrow> writeData_start (u_world u) \<noteq> None)"
proof -
  have i: "world_inv W (u_world u)" "loop_inv u" using reachable_inv [OF assms] by (simp_all add: run_inv_def)
  have wired: "u_point u \<in> {CtrlTaken, DataTaken, CtrlWriting AfterFrame} \<Longrightarrow> wr_wired (u_world u) = 0"
    using i(2) by (auto simp: loop_inv_def)
  show ?thesis using sop_ok [OF i(1), of op] writeCtrl_start_ok [OF i(1)] writeData_start_ok [OF i(1)] resume_total [OF i(1), of r] wired
    by fastforce
qed

theorem stream_never_panics_witness:
  "sop_exec (DataArrives 0 [1, 2, 3] FlagDataEOF) (u_world (run_start demo_world)) \<noteq> None"
  using stream_never_panics [OF demo_created demo_0, of "DataArrives 0 [1, 2, 3] FlagDataEOF" AfterData] by simp

text \<open>
  C7. What is sent is what was written: the data of the frames handed to the writer is a prefix of
  the bytes the user wrote, in order and without gaps; everything else is in the write buffer as
  long as the remote keeps reading; and a frame that closes the write side is only sent once all of
  it has been sent.
\<close>

theorem sent_is_written:
  assumes "created outgoing W R w" and "stream_reachable w u"
  shows "prefix (data_sent u) (u_written u) \<and>
    (\<not> u_lost u \<longrightarrow> u_written u = data_sent u @ drop (nat (wr_wired (u_world u))) (buffer_contents (wr_buf (u_world u)))) \<and>
    (\<not> u_lost u \<and> (\<exists>f \<in> set (u_sent u). frame_closes f) \<longrightarrow> data_sent u = u_written u)"
proof -
  have i: "world_inv W (u_world u)" "write_inv u" "close_inv u" using reachable_inv [OF assms] by (simp_all add: run_inv_def)
  have "sentEOF (u_world u) \<Longrightarrow> b_size (wr_buf (u_world u)) = wr_wired (u_world u)"
    using i(1) by (auto simp: world_inv_def stream_inv_def flags_inv_def)
  then show ?thesis using i(2,3) write_inv_prefix [OF i(2)] contents_wired(3) [OF i(1)]
    by (auto simp: write_inv_def close_inv_def)
qed

theorem sent_is_written_witness:
  "\<exists>u. stream_reachable demo_world u \<and> data_sent u = [65, 66] \<and> prefix (data_sent u) (u_written u)"
proof -
  obtain u where u: "stream_reachable demo_world u" "u_sent u = [DataFrame 2 3 [65, 66], WindowFrame 2 0 1]" using demo_reachable by blast
  with sent_is_written [OF demo_created u(1)] show ?thesis by (auto simp: data_sent_def)
qed

text \<open>
  C8. What is read is what was received: the bytes accepted from the remote are exactly the bytes
  the user has read or discarded followed by the contents of the read buffer.
\<close>

theorem read_is_received:
  assumes "created outgoing W R w" and "stream_reachable w u"
  shows "u_received u = u_read u @ buffer_contents (rd_buf (u_world u))"
  using reachable_inv [OF assms] by (simp add: run_inv_def read_inv_def)

theorem read_is_received_witness:
  "\<exists>u. stream_reachable demo_world u \<and> u_received u = [67, 68] \<and> u_read u = [67] \<and> buffer_contents (rd_buf (u_world u)) = [68]"
proof -
  obtain u where u: "stream_reachable demo_world u" "u_received u = [67, 68]" "u_read u = [67]" using demo_reachable by blast
  with read_is_received [OF demo_created u(1)] show ?thesis by (intro exI [of _ u]) simp
qed

section \<open>Flow control\<close>

text \<open>
  C11. The receive window is conserved: what the remote may still send is the initial window plus all
  increments sent minus all bytes received, it never becomes negative, and together with what is
  buffered it never exceeds the initial window; while the read side is open the three parts (still
  allowed, waiting to be granted, buffered) add up to the window exactly.
\<close>

theorem receive_window_conserved:
  assumes "created outgoing W R w" and "stream_reachable w u"
  shows "rd_left (u_world u) = W + sum_list (map frame_grant (u_sent u)) - u_arrived u \<and> 0 \<le> rd_left (u_world u) \<and>
    rd_left (u_world u) + b_size (rd_buf (u_world u)) \<le> W \<and>
    (rd_err (u_world u) = None \<longrightarrow> rd_left (u_world u) + rd_increment (u_world u) + b_size (rd_buf (u_world u)) = W)"
proof -
  have i: "window_inv W (u_world u)" "windows_inv W u"
    using reachable_inv [OF assms] by (simp_all add: run_inv_def world_inv_def stream_inv_def)
  then show ?thesis by (auto simp: window_inv_def windows_inv_def split: if_splits)
qed

theorem receive_window_conserved_witness:
  "\<exists>u. stream_reachable demo_world u \<and> rd_left (u_world u) = 65536 + 1 - u_arrived u \<and> 0 \<le> rd_left (u_world u)"
proof -
  obtain u where u: "stream_reachable demo_world u" "u_sent u = [DataFrame 2 3 [65, 66], WindowFrame 2 0 1]" using demo_reachable by blast
  with receive_window_conserved [OF demo_created u(1)] show ?thesis by (intro exI [of _ u]) simp
qed



section \<open>The order of frames\<close>



text \<open>
  OPEN comes first and only once: the first frame of a stream this side opened carries OPEN, no
  later frame does, and the frames of a stream the remote opened never do.
\<close>

theorem open_comes_first:
  assumes "created outgoing W R w" and "stream_reachable w u" and "u_sent u = f # fs"
  shows "frame_opens f = outgoing \<and> (\<forall>g \<in> set fs. \<not> frame_opens g)"
  using reachable_inv [OF assms(1,2)] assms(3) by (simp add: run_inv_def open_inv_def)

theorem open_comes_first_witness:
  "frame_opens (DataFrame 2 3 [65, 66]) \<and> \<not> frame_opens (WindowFrame 2 0 1) \<and>
   (\<exists>u. stream_reachable demo_world u \<and> u_sent u = [DataFrame 2 3 [65, 66], WindowFrame 2 0 1])"
proof -
  obtain u where u: "stream_reachable demo_world u" "u_sent u = [DataFrame 2 3 [65, 66], WindowFrame 2 0 1]" using demo_reachable by blast
  with open_comes_first [OF demo_created u] show ?thesis by auto
qed

section \<open>Progress\<close>

text \<open>
  Nothing to send is forgotten: whenever the write loop is not at work on the stream and has not
  failed, a stream that owes control frames is in the control queue, a stream with data and window is
  in the data queue, and the write loop has been told to wake up.
\<close>

theorem nothing_forgotten:
  assumes "created outgoing W R w" and "stream_reachable w u" and "u_point u = Idle"
  shows "(needs_ctrl (u_world u) \<longrightarrow> s_ref (u_world u) \<in> set (queue_elems (o_ctrl (w_out (u_world u)))) \<and> o_writeready (w_out (u_world u))) \<and>
    (activeData (u_world u) \<longrightarrow> s_ref (u_world u) \<in> set (queue_elems (o_data (w_out (u_world u)))) \<and> o_writeready (w_out (u_world u)))"
proof -
  have i: "queues_inv (u_world u)" "loop_inv u" using reachable_inv [OF assms(1,2)] by (simp_all add: run_inv_def world_inv_def)
  then show ?thesis using assms(3)
    by (force simp: loop_inv_def queues_inv_def outgoing_inv_def outgoing_busy_def)
qed

theorem nothing_forgotten_witness:
  "s_ref (u_world (run_start demo_world)) \<in> set (queue_elems (o_ctrl (w_out (u_world (run_start demo_world)))))"
proof -
  have "u_sent (run_start demo_world) = []" "u_point (run_start demo_world) = Idle" by (simp_all add: run_start_def)
  moreover have "needs_ctrl (u_world (run_start demo_world))" by code_simp
  ultimately show ?thesis using nothing_forgotten [OF demo_created demo_0] by blast
qed



text \<open>
  A control phase ends: left alone, \<^verbatim>\<open>writeCtrl\<close> writes at most four frames and returns with
  nothing left that it would have to send.
\<close>

theorem writeCtrl_ends:
  assumes "created outgoing W R w" and "stream_reachable w u" and "u_point u = CtrlTaken"
  shows "\<exists>fs w'. stream_writeCtrl (u_world u) = Some (fs, w') \<and> length fs \<le> 4 \<and> \<not> needs_ctrl w' \<and> stream_inv W w'"
proof -
  let ?w = "u_world u"
  have i: "world_inv W ?w" "wr_wired ?w = 0" using reachable_inv [OF assms(1,2)] assms(3) by (auto simp: run_inv_def loop_inv_def)
  obtain pt w1 where s: "writeCtrl_start ?w = Some (pt, w1)" "ctrl_ok W ?w pt w1" using writeCtrl_start_ok [OF i] by blast
  have w1: "world_inv W w1" using s(2) section_world_inv [OF i(1)] by (simp add: ctrl_ok_def)
  have "owed w1 < owed ?w" if "pt = CtrlWrite f r" for f r
    using that start_point [OF s(1)] owed_round [OF i] by auto
  then have "\<exists>fs w'. writeCtrl_run 5 (pt, w1) = Some (fs, w') \<and> world_inv W w' \<and> \<not> needs_ctrl w' \<and> length fs < 5"
    using s(2) w1 owed_bound [of ?w] by (intro writeCtrl_run_ok) (auto simp: ctrl_ok_def split: ctrl_point.splits)
  then show ?thesis using s(1) by (auto simp: stream_writeCtrl_def world_inv_def)
qed

theorem writeCtrl_ends_witness:
  "\<exists>u fs w'. acts [Do OpCloseRead, TakeCtrl] (run_start demo_world) = Some u \<and> stream_writeCtrl (u_world u) = Some (fs, w') \<and> length fs \<le> 4"
proof -
  have "map_option u_point (acts [Do OpCloseRead, TakeCtrl] (run_start demo_world)) = Some CtrlTaken" by code_simp
  then obtain u where u: "acts [Do OpCloseRead, TakeCtrl] (run_start demo_world) = Some u" "u_point u = CtrlTaken" by auto
  from writeCtrl_ends [OF demo_created acts_reachable [OF u(1) demo_0] u(2)] u(1) show ?thesis by blast
qed

end
