(* ===== verification/Container_Props.thy ===== *)
theory Container_Props
  imports Stream_Queue Buffer
begin

text \<open>
  The two circular containers refine their abstract counterparts over any sequence of operations:
  the byte buffer a list of bytes, the stream queue a list of streams.
\<close>

section \<open>The byte buffer\<close>

datatype bop = BWrite "u8 list" | BWriteByte u8 | BRead "u8 list" | BReadByte | BPeek | BDiscard int | BClear
datatype bres = BUnit | BBytes "u8 list" | BCount int "u8 list" | BByte u8 | BInt int

fun buffer_op :: "bop \<Rightarrow> buffer \<Rightarrow> (bres \<times> buffer) option" where
  "buffer_op (BWrite src) b = do { b \<leftarrow> buffer_write b src; Some (BUnit, b) }"
| "buffer_op (BWriteByte c) b = do { b \<leftarrow> buffer_writebyte b c; Some (BUnit, b) }"
| "buffer_op (BRead dst) b = do { (n, dst, b) \<leftarrow> buffer_read b dst; Some (BCount n dst, b) }"
| "buffer_op BReadByte b = do { (c, b) \<leftarrow> buffer_readbyte b; Some (BByte c, b) }"
| "buffer_op BPeek b = do { (p, b) \<leftarrow> buffer_peek b; Some (BBytes p, b) }"
| "buffer_op (BDiscard n) b = (let (m, b) = buffer_discard b n in Some (BInt m, b))"
| "buffer_op BClear b = Some (BUnit, buffer_clear b)"

fun bytes_op :: "bop \<Rightarrow> u8 list \<Rightarrow> (bres \<times> u8 list) option" where
  "bytes_op (BWrite src) xs = Some (BUnit, xs @ src)"
| "bytes_op (BWriteByte c) xs = Some (BUnit, xs @ [c])"
| "bytes_op (BRead dst) xs = Some (BCount (int (min (length dst) (length xs))) (take (length dst) xs @ drop (length xs) dst), drop (length dst) xs)"
| "bytes_op BReadByte xs = (case xs of [] \<Rightarrow> None | x # xs \<Rightarrow> Some (BByte x, xs))"
| "bytes_op BPeek xs = Some (BBytes xs, xs)"
| "bytes_op (BDiscard n) xs = Some (BInt (min n (zlen xs)), drop (nat n) xs)"
| "bytes_op BClear xs = Some (BUnit, [])"

fun buffer_ops :: "bop list \<Rightarrow> buffer \<Rightarrow> (bres list \<times> buffer) option" where
  "buffer_ops [] b = Some ([], b)"
| "buffer_ops (op # ops) b = (case buffer_op op b of None \<Rightarrow> None
     | Some (r, b) \<Rightarrow> (case buffer_ops ops b of None \<Rightarrow> None | Some (rs, b) \<Rightarrow> Some (r # rs, b)))"

fun bytes_ops :: "bop list \<Rightarrow> u8 list \<Rightarrow> (bres list \<times> u8 list) option" where
  "bytes_ops [] xs = Some ([], xs)"
| "bytes_ops (op # ops) xs = (case bytes_op op xs of None \<Rightarrow> None
     | Some (r, xs) \<Rightarrow> (case bytes_ops ops xs of None \<Rightarrow> None | Some (rs, xs) \<Rightarrow> Some (r # rs, xs)))"

fun bop_size :: "bop \<Rightarrow> nat" where
  "bop_size (BWrite src) = length src"
| "bop_size (BWriteByte c) = 1"
| "bop_size _ = 0"

fun bop_wf :: "bop \<Rightarrow> bool" where
  "bop_wf (BDiscard n) \<longleftrightarrow> 0 \<le> n"
| "bop_wf _ \<longleftrightarrow> True"

lemma bytes_size:
  assumes "bytes_op op xs = Some (r, ys)"
  shows "length ys \<le> length xs + bop_size op"
  using assms by (cases op) (auto split: list.splits)

lemma buffer_op_refines:
  assumes inv: "buffer_inv b" and wf: "bop_wf op" and room: "length (buffer_contents b) + bop_size op \<le> 2 ^ 62"
    and abs: "bytes_op op (buffer_contents b) = Some (r, ys)"
  shows "\<exists>b'. buffer_op op b = Some (r, b') \<and> buffer_inv b' \<and> buffer_contents b' = ys"
proof (cases op)
  case (BWrite src)
  have "int (length (buffer_contents b) + length src) \<le> int (2 ^ 62)" using room BWrite by (simp only: of_nat_le_iff bop_size.simps)
  then have "buffer_room b (length src)" using buffer_size_contents [OF inv] by (simp add: buffer_room_def)
  from bytes.write_ok [OF inv this] abs BWrite show ?thesis by auto
next
  case (BWriteByte c)
  have "length (buffer_contents b) < 2 ^ 62" using room unfolding BWriteByte bop_size.simps by linarith
  from bytewise.put_ok [OF inv this, of c] abs BWriteByte show ?thesis by auto
next
  case (BRead dst)
  with bytes.read_ok [OF inv, of dst] abs show ?thesis by auto
next
  case BReadByte
  then have "buffer_contents b \<noteq> []" using abs by (auto split: list.splits)
  from bytewise.get_ok [OF inv this] abs BReadByte show ?thesis by (auto split: list.splits)
next
  case BPeek
  with bytes.peek_ok [OF inv] abs show ?thesis by auto
next
  case (BDiscard n)
  with bytes.discard_ok [OF inv, of n] abs wf show ?thesis by auto
next
  case BClear
  then show ?thesis using inv abs by (simp add: buffer_clear_def buffer_inv_def buffer_contents_def)
qed

lemma buffer_ops_refines:
  assumes "buffer_inv b" "\<forall>op \<in> set ops. bop_wf op" "length (buffer_contents b) + sum_list (map bop_size ops) \<le> 2 ^ 62"
    and "bytes_ops ops (buffer_contents b) = Some (rs, ys)"
  shows "\<exists>b'. buffer_ops ops b = Some (rs, b') \<and> buffer_inv b' \<and> buffer_contents b' = ys"
  using assms
proof (induction ops arbitrary: b rs)
  case (Cons op ops)
  obtain r xs rs' where a: "bytes_op op (buffer_contents b) = Some (r, xs)" "bytes_ops ops xs = Some (rs', ys)" "rs = r # rs'"
    using Cons.prems(4) by (auto split: option.splits prod.splits)
  have "length (buffer_contents b) + bop_size op \<le> 2 ^ 62" using Cons.prems(3) by simp
  from buffer_op_refines [OF Cons.prems(1) _ this a(1)] Cons.prems(2) obtain b1 where
    b1: "buffer_op op b = Some (r, b1)" "buffer_inv b1" "buffer_contents b1 = xs" by auto
  have "length (buffer_contents b1) + sum_list (map bop_size ops) \<le> 2 ^ 62"
    using bytes_size [OF a(1)] Cons.prems(3) b1(3) by simp
  from Cons.IH [OF b1(2) _ this] Cons.prems(2) a(2,3) b1 show ?case by auto
qed simp


definition buffer_demo :: "bop list" where
  "buffer_demo = [BWrite [1, 2, 3], BRead [0, 0], BWrite [4, 5, 6, 7, 8], BPeek, BDiscard 2, BReadByte, BWriteByte 9]"


section \<open>The queue of streams\<close>

datatype qop = QPush sref | QTake

fun queue_ops :: "qop list \<Rightarrow> rawStreamQueue \<Rightarrow> (sref option list \<times> rawStreamQueue) option" where
  "queue_ops [] q = Some ([], q)"
| "queue_ops (QPush s # ops) q = (case queue_push q s of None \<Rightarrow> None | Some q \<Rightarrow> queue_ops ops q)"
| "queue_ops (QTake # ops) q = (case queue_take q of None \<Rightarrow> None
     | Some (r, q) \<Rightarrow> (case queue_ops ops q of None \<Rightarrow> None | Some (rs, q) \<Rightarrow> Some (r # rs, q)))"

fun fifo_ops :: "qop list \<Rightarrow> sref list \<Rightarrow> sref option list \<times> sref list" where
  "fifo_ops [] xs = ([], xs)"
| "fifo_ops (QPush s # ops) xs = fifo_ops ops (xs @ [s])"
| "fifo_ops (QTake # ops) [] = (let (rs, ys) = fifo_ops ops [] in (None # rs, ys))"
| "fifo_ops (QTake # ops) (x # xs) = (let (rs, ys) = fifo_ops ops xs in (Some x # rs, ys))"

lemma queue_ops_refines:
  assumes "queue_inv q" "length (queue_elems q) + length ops \<le> 2 ^ 62"
  shows "\<exists>q'. queue_ops ops q = Some (fst (fifo_ops ops (queue_elems q)), q') \<and> queue_inv q' \<and> queue_elems q' = snd (fifo_ops ops (queue_elems q))"
  using assms
proof (induction ops arbitrary: q)
  case (Cons op ops)
  show ?case
  proof (cases op)
    case (QPush s)
    have "length (queue_elems q) < 2 ^ 62" using Cons.prems(2) by simp
    from queue_push_spec [OF Cons.prems(1) this, of s] obtain q1 where
      q1: "queue_push q s = Some q1" "queue_inv q1" "queue_elems q1 = queue_elems q @ [s]" by blast
    with Cons.IH [of q1] Cons.prems(2) QPush show ?thesis by simp
  next
    case QTake
    show ?thesis
    proof (cases "queue_elems q")
      case Nil
      with Cons.IH [of q] Cons.prems QTake queue_take_empty [OF Cons.prems(1)] show ?thesis by (auto split: prod.splits)
    next
      case (Cons x xs)
      with queue_take_spec [OF \<open>queue_inv q\<close>] obtain q1 where
        q1: "queue_take q = Some (Some x, q1)" "queue_inv q1" "queue_elems q1 = xs" by auto
      with Cons.IH [of q1] Cons.prems(2) Cons QTake show ?thesis by (auto split: prod.splits)
    qed
  qed
qed simp

text \<open>
  The queue of streams is first in, first out: any sequence of pushes and takes on a new queue
  gives the streams in the order in which they were pushed, nil exactly when the queue is empty, and
  never panics (for at most 2^62 operations).
\<close>

theorem stream_queue_fifo:
  assumes "length ops \<le> 2 ^ 62"
  shows "\<exists>q. queue_ops ops empty_queue = Some (fst (fifo_ops ops []), q) \<and> queue_elems q = snd (fifo_ops ops [])"
proof -
  have "length (queue_elems empty_queue) + length ops \<le> 2 ^ 62" using assms by simp
  from queue_ops_refines [OF empty_queue_inv(1) this] show ?thesis by auto
qed

theorem stream_queue_fifo_witness:
  "\<exists>q. queue_ops [QPush 1, QPush 2, QTake, QPush 3, QTake, QTake, QTake, QPush 4] empty_queue =
     Some ([Some 1, Some 2, Some 3, None], q) \<and> queue_elems q = [4]"
proof -
  let ?ops = "[QPush 1, QPush 2, QTake, QPush 3, QTake, QTake, QTake, QPush 4]"
  have "length ?ops \<le> 2 ^ 3" by simp
  moreover have "(2 :: nat) ^ 3 \<le> 2 ^ 62" by (rule power_increasing) simp_all
  ultimately have "length ?ops \<le> 2 ^ 62" by linarith
  from stream_queue_fifo [OF this] show ?thesis by simp
qed

section \<open>Sizes\<close>

text \<open>
  The bit tricks of \<^verbatim>\<open>minpow2\<close>, on 64 bit machine words, compute the least power of two that
  is not less than the argument, for every size up to 2^62.
\<close>

theorem minpow2_least:
  assumes "1 \<le> n" and "n \<le> 2 ^ 62"
  shows "(\<exists>h. minpow2 n = 2 ^ h) \<and> n \<le> minpow2 n \<and> (\<forall>k. n \<le> 2 ^ k \<longrightarrow> minpow2 n \<le> 2 ^ k)"
proof -
  obtain h where h: "minpow2 n = 2 ^ h" "n \<le> 2 ^ h" "h = 0 \<or> 2 ^ (h - 1) < n" using minpow2_spec [OF assms] by blast
  have "h \<le> k" if "n \<le> 2 ^ k" for k
  proof (rule ccontr)
    assume "\<not> h \<le> k"
    then have "k \<le> h - 1" "h \<noteq> 0" by simp_all
    then have "(2 :: int) ^ k \<le> 2 ^ (h - 1)" by (intro power_increasing) simp_all
    with h(3) that \<open>h \<noteq> 0\<close> show False by linarith
  qed
  then have "minpow2 n \<le> 2 ^ k" if "n \<le> 2 ^ k" for k using that h(1) by (simp add: power_increasing)
  with h show ?thesis by auto
qed

theorem minpow2_least_witness: "1000 \<le> minpow2 1000 \<and> minpow2 1000 \<le> 2 ^ 10"
proof -
  have "1000 \<le> minpow2 1000 \<and> (\<forall>k. 1000 \<le> (2 :: int) ^ k \<longrightarrow> minpow2 1000 \<le> 2 ^ k)" using minpow2_least [of 1000] by simp
  then have "1000 \<le> minpow2 1000" "1000 \<le> (2 :: int) ^ 10 \<longrightarrow> minpow2 1000 \<le> 2 ^ 10" by blast+
  then show ?thesis by simp
qed

end
