(* ===== verification/Server_State.thy ===== *)
theory Server_State
  imports Copper_Errors "HOL-Library.Multiset"
begin

text \<open>
  The data of the server (\<^verbatim>\<open>server.go\<close>, \<^verbatim>\<open>server_pubs.go\<close>, \<^verbatim>\<open>server_subs.go\<close>,
  \<^verbatim>\<open>server_routes.go\<close>, \<^verbatim>\<open>server_peers.go\<close>, \<^verbatim>\<open>server_changes.go\<close>,
  \<^verbatim>\<open>server_client.go\<close>) and of the settings it is called with (\<^verbatim>\<open>interface.go\<close>).

  The objects of the server point at each other, so each kind of object lives in a heap of its
  own: a total function from addresses to records, because a Go pointer that is not nil can always
  be dereferenced. The addresses that are in use are those below \<open>sv_fresh\<close>, from which every
  allocation takes the next one. A pointer that may be nil is an option. The pointer
  \<^verbatim>\<open>owner\<close> is left out: there is one server.

  A Go map whose elements are visited or counted is an association list, any other map a HOL map,
  and a map to the empty struct a set. Go visits the elements of a map in an unspecified order, and
  \<^verbatim>\<open>sort.Sort\<close> leaves the order of equal elements open; both choices are fields of the record
  \<open>runtime\<close>, which every operation that depends on them takes as an argument.
\<close>

section \<open>Choices of the Go runtime\<close>

type_synonym i64 = "64 word"

type_synonym ('k, 'v) gomap = "('k \<times> 'v) list"

record runtime =
  rt_refs :: "nat set \<Rightarrow> nat list"
  rt_take :: "nat \<Rightarrow> nat set \<Rightarrow> nat list"
  rt_ids :: "i64 set \<Rightarrow> i64 list"
  rt_names :: "go_string set \<Rightarrow> go_string list"
  rt_sort :: "(nat \<Rightarrow> u32) \<Rightarrow> nat list \<Rightarrow> nat list"

definition enumerates :: "('a set \<Rightarrow> 'a list) \<Rightarrow> bool" where
  "enumerates f \<longleftrightarrow> (\<forall>A. finite A \<longrightarrow> distinct (f A) \<and> set (f A) = A)"

text \<open>The laws of the language: a map is visited once per element, and a sort sorts.\<close>

definition runtime_ok :: "runtime \<Rightarrow> bool" where
  "runtime_ok rt \<longleftrightarrow> enumerates (rt_refs rt) \<and> (\<forall>n. enumerates (rt_take rt n)) \<and> enumerates (rt_ids rt) \<and>
     enumerates (rt_names rt) \<and>
     (\<forall>key xs. mset (rt_sort rt key xs) = mset xs \<and> sorted (map key (rt_sort rt key xs)))"

lemma runtime_refs: "runtime_ok rt \<Longrightarrow> finite A \<Longrightarrow> set (rt_refs rt A) = A"
  and runtime_refs_distinct: "runtime_ok rt \<Longrightarrow> finite A \<Longrightarrow> distinct (rt_refs rt A)"
  and runtime_take: "runtime_ok rt \<Longrightarrow> finite A \<Longrightarrow> set (rt_take rt n A) = A"
  and runtime_ids: "runtime_ok rt \<Longrightarrow> finite B \<Longrightarrow> set (rt_ids rt B) = B"
  and runtime_names: "runtime_ok rt \<Longrightarrow> finite C \<Longrightarrow> set (rt_names rt C) = C"
  and runtime_sort: "runtime_ok rt \<Longrightarrow> mset (rt_sort rt key xs) = mset xs"
  and runtime_sorted: "runtime_ok rt \<Longrightarrow> sorted (map key (rt_sort rt key xs))"
  by (simp_all add: runtime_ok_def enumerates_def)

section \<open>Settings (interface.go)\<close>

record Endpoint =
  e_Network :: go_string
  e_Address :: go_string
  e_TargetID :: i64

record SubscribeOption =
  opt_Service :: go_string
  opt_MinDistance :: u32
  opt_MaxDistance :: u32

record Route =
  route_Options :: "SubscribeOption list"
  route_Weight :: u32

record SubscribeSettings =
  ss_Options :: "SubscribeOption list"
  ss_DisableRoutes :: bool

record PublishSettings =
  ps_Priority :: u32
  ps_MaxDistance :: u32
  ps_Concurrency :: u32
  ps_QueueSize :: u32

record ServiceChange =
  sc_TargetID :: i64
  sc_Name :: go_string
  sc_Settings :: PublishSettings

record ServiceChanges =
  scs_Removed :: "i64 list"
  scs_Changed :: "ServiceChange list"

section \<open>Addresses\<close>

type_synonym pubref = nat
type_synonym epref = nat
type_synonym subref = nat
type_synonym routeref = nat
type_synonym remoteref = nat
type_synonym peerref = nat
type_synonym csref = nat
type_synonym clientref = nat
type_synonym connref = nat
type_synonym waiter = nat

section \<open>Publications (server_pubs.go)\<close>

type_synonym localEndpointKey = "clientref \<times> i64"

record localEndpoint =
  ep_pub :: "pubref option"
  ep_key :: localEndpointKey
  ep_active :: u32
  ep_settings :: PublishSettings

text \<open>
  A channel of capacity one on which a request waits for an endpoint: the value in its buffer, and
  whether it has been closed. A send on a closed channel panics, and a send on a full channel blocks
  its goroutine, here with the locks of the server held; both are \<^term>\<open>None\<close>.
\<close>

record waiterChan =
  wc_value :: "epref option"
  wc_closed :: bool

definition chan_send :: "waiterChan \<Rightarrow> epref \<Rightarrow> waiterChan option" where
  "chan_send c e = (if wc_closed c \<or> wc_value c \<noteq> None then None else Some (c\<lparr>wc_value := Some e\<rparr>))"

definition chan_close :: "waiterChan \<Rightarrow> waiterChan option" where
  "chan_close c = (if wc_closed c then None else Some (c\<lparr>wc_closed := True\<rparr>))"

text \<open>A receive: \<^term>\<open>None\<close> if it blocks, otherwise the value (nil from a closed empty channel).\<close>

definition chan_recv :: "waiterChan \<Rightarrow> (epref option \<times> waiterChan) option" where
  "chan_recv c = (case wc_value c of
       Some e \<Rightarrow> Some (Some e, c\<lparr>wc_value := None\<rparr>)
     | None \<Rightarrow> if wc_closed c then Some (None, c) else None)"

record serverPublication =
  pub_name :: go_string
  pub_targetID :: i64
  pub_endpoints :: "(localEndpointKey, epref) gomap"
  pub_settings :: PublishSettings
  pub_maxDistanceCounts :: "(u32, int) gomap"
  pub_ready :: "epref set"
  pub_queue :: "waiter list"
  pub_subscriptions :: "subref set"

section \<open>Subscriptions and routes (server_subs.go, server_routes.go)\<close>

record serverSubscriptionOption =
  so_option :: SubscribeOption
  so_route :: "routeref option"
  so_local :: "pubref list"
  so_remote :: "remoteref list"
  so_localPriority :: u32
  so_remoteCount :: int
  so_remotePriority :: u32

record serverSubscription =
  sub_targetID :: i64
  sub_settings :: SubscribeSettings
  sub_options :: "serverSubscriptionOption list"
  sub_active :: int
  sub_indexByName :: "(go_string, int list) gomap"

record serverRouteCase =
  rc_sub :: subref
  rc_weight :: u32

record serverRoute =
  ro_name :: go_string
  ro_routes :: "Route list"
  ro_cases :: "serverRouteCase list"
  ro_subscriptions :: "subref set"

section \<open>Peers (server_peers.go)\<close>

type_synonym serverPeerKey = "go_string \<times> go_string"

record serverPeerRemote =
  rm_peer :: "peerref option"
  rm_client :: "connref option"
  rm_targetID :: i64
  rm_name :: go_string
  rm_distance :: u32
  rm_settings :: PublishSettings
  rm_subscriptions :: "subref set"

record serverPeer =
  pe_key :: serverPeerKey
  pe_distance :: u32
  pe_failure :: "go_error option"
  pe_failed :: bool
  pe_client :: "connref option"
  pe_remotesByTarget :: "(i64, remoteref) gomap"
  pe_remotesByName :: "go_string \<rightharpoonup> (i64, remoteref) gomap"

section \<open>Streams of changes and clients (server_changes.go, server_client.go)\<close>

text \<open>The condition variable \<^verbatim>\<open>wakeup\<close> is the number of broadcasts it has seen.\<close>

record serverServiceChangesStream =
  cs_client :: "clientref option"
  cs_closed :: bool
  cs_wakeup :: nat
  cs_sent :: "i64 set"
  cs_removed :: "i64 set"
  cs_changed :: "(i64, pubref) gomap"

text \<open>Of the connection of a client only whether the server has closed it is kept.\<close>

record serverClient =
  cl_failure :: "go_error option"
  cl_connClosed :: bool
  cl_allowChanges :: bool
  cl_subscriptions :: "(i64, subref) gomap"
  cl_published :: "(i64, epref) gomap"
  cl_pubWatchers :: "csref set"

section \<open>The server\<close>

record server =
  sv_fresh :: nat
  sv_pub :: "pubref \<Rightarrow> serverPublication"
  sv_ep :: "epref \<Rightarrow> localEndpoint"
  sv_chan :: "waiter \<Rightarrow> waiterChan"
  sv_sub :: "subref \<Rightarrow> serverSubscription"
  sv_route :: "routeref \<Rightarrow> serverRoute"
  sv_remote :: "remoteref \<Rightarrow> serverPeerRemote"
  sv_peer :: "peerref \<Rightarrow> serverPeer"
  sv_cs :: "csref \<Rightarrow> serverServiceChangesStream"
  sv_client :: "clientref \<Rightarrow> serverClient"
  sv_lastTargetID :: i64
  sv_peers :: "(serverPeerKey, peerref) gomap"
  sv_subsByName :: "go_string \<rightharpoonup> subref set"
  sv_pubByTarget :: "(i64, pubref) gomap"
  sv_pubsByName :: "go_string \<rightharpoonup> (u32, pubref) gomap"
  sv_pubWatchers :: "csref set"
  sv_routeByName :: "(go_string, routeref) gomap"
  sv_failure :: "go_error option"
  sv_closedchan :: bool
  sv_listeners :: "nat list"
  sv_listenersClosed :: "nat set"
  sv_clients :: "clientref set"

text \<open>What an unused address holds is never read; it is the zero value of the type.\<close>

definition ps_zero :: PublishSettings where
  "ps_zero = \<lparr>ps_Priority = 0, ps_MaxDistance = 0, ps_Concurrency = 0, ps_QueueSize = 0\<rparr>"

definition NewServer :: server where
  "NewServer = \<lparr>
     sv_fresh = 0,
     sv_pub = (\<lambda>_. \<lparr>pub_name = [], pub_targetID = 0, pub_endpoints = [], pub_settings = ps_zero,
       pub_maxDistanceCounts = [], pub_ready = {}, pub_queue = [], pub_subscriptions = {}\<rparr>),
     sv_ep = (\<lambda>_. \<lparr>ep_pub = None, ep_key = (0, 0), ep_active = 0, ep_settings = ps_zero\<rparr>),
     sv_chan = (\<lambda>_. \<lparr>wc_value = None, wc_closed = False\<rparr>),
     sv_sub = (\<lambda>_. \<lparr>sub_targetID = 0, sub_settings = \<lparr>ss_Options = [], ss_DisableRoutes = False\<rparr>,
       sub_options = [], sub_active = 0, sub_indexByName = []\<rparr>),
     sv_route = (\<lambda>_. \<lparr>ro_name = [], ro_routes = [], ro_cases = [], ro_subscriptions = {}\<rparr>),
     sv_remote = (\<lambda>_. \<lparr>rm_peer = None, rm_client = None, rm_targetID = 0, rm_name = [], rm_distance = 0,
       rm_settings = ps_zero, rm_subscriptions = {}\<rparr>),
     sv_peer = (\<lambda>_. \<lparr>pe_key = ([], []), pe_distance = 0, pe_failure = None, pe_failed = False, pe_client = None,
       pe_remotesByTarget = [], pe_remotesByName = Map.empty\<rparr>),
     sv_cs = (\<lambda>_. \<lparr>cs_client = None, cs_closed = False, cs_wakeup = 0, cs_sent = {}, cs_removed = {}, cs_changed = []\<rparr>),
     sv_client = (\<lambda>_. \<lparr>cl_failure = None, cl_connClosed = False, cl_allowChanges = False, cl_subscriptions = [],
       cl_published = [], cl_pubWatchers = {}\<rparr>),
     sv_lastTargetID = 0,
     sv_peers = [], sv_subsByName = Map.empty, sv_pubByTarget = [], sv_pubsByName = Map.empty,
     sv_pubWatchers = {}, sv_routeByName = [], sv_failure = None, sv_closedchan = False,
     sv_listeners = [], sv_listenersClosed = {}, sv_clients = {}\<rparr>"

definition allocateTargetID :: "server \<Rightarrow> i64 \<times> server" where
  "allocateTargetID s = (let n = sv_lastTargetID s + 1 in (n, s\<lparr>sv_lastTargetID := n\<rparr>))"

text \<open>The next free address.\<close>

definition fresh :: "server \<Rightarrow> nat \<times> server" where
  "fresh s = (sv_fresh s, s\<lparr>sv_fresh := Suc (sv_fresh s)\<rparr>)"

section \<open>Writing through a pointer\<close>

abbreviation upd_pub :: "pubref \<Rightarrow> (serverPublication \<Rightarrow> serverPublication) \<Rightarrow> server \<Rightarrow> server" where
  "upd_pub p f s \<equiv> s\<lparr>sv_pub := (sv_pub s)(p := f (sv_pub s p))\<rparr>"

abbreviation upd_ep :: "epref \<Rightarrow> (localEndpoint \<Rightarrow> localEndpoint) \<Rightarrow> server \<Rightarrow> server" where
  "upd_ep e f s \<equiv> s\<lparr>sv_ep := (sv_ep s)(e := f (sv_ep s e))\<rparr>"

abbreviation upd_sub :: "subref \<Rightarrow> (serverSubscription \<Rightarrow> serverSubscription) \<Rightarrow> server \<Rightarrow> server" where
  "upd_sub u f s \<equiv> s\<lparr>sv_sub := (sv_sub s)(u := f (sv_sub s u))\<rparr>"

abbreviation upd_route :: "routeref \<Rightarrow> (serverRoute \<Rightarrow> serverRoute) \<Rightarrow> server \<Rightarrow> server" where
  "upd_route r f s \<equiv> s\<lparr>sv_route := (sv_route s)(r := f (sv_route s r))\<rparr>"

abbreviation upd_remote :: "remoteref \<Rightarrow> (serverPeerRemote \<Rightarrow> serverPeerRemote) \<Rightarrow> server \<Rightarrow> server" where
  "upd_remote m f s \<equiv> s\<lparr>sv_remote := (sv_remote s)(m := f (sv_remote s m))\<rparr>"

abbreviation upd_peer :: "peerref \<Rightarrow> (serverPeer \<Rightarrow> serverPeer) \<Rightarrow> server \<Rightarrow> server" where
  "upd_peer p f s \<equiv> s\<lparr>sv_peer := (sv_peer s)(p := f (sv_peer s p))\<rparr>"

abbreviation upd_cs :: "csref \<Rightarrow> (serverServiceChangesStream \<Rightarrow> serverServiceChangesStream) \<Rightarrow> server \<Rightarrow> server" where
  "upd_cs c f s \<equiv> s\<lparr>sv_cs := (sv_cs s)(c := f (sv_cs s c))\<rparr>"

abbreviation upd_client :: "clientref \<Rightarrow> (serverClient \<Rightarrow> serverClient) \<Rightarrow> server \<Rightarrow> server" where
  "upd_client c f s \<equiv> s\<lparr>sv_client := (sv_client s)(c := f (sv_client s c))\<rparr>"

section \<open>Loops whose body may panic\<close>

text \<open>\<open>for _, x := range xs { s = f x s }\<close>.\<close>

fun range_loop :: "('a \<Rightarrow> 's \<Rightarrow> 's option) \<Rightarrow> 'a list \<Rightarrow> 's \<Rightarrow> 's option" where
  "range_loop f [] s = Some s"
| "range_loop f (x # xs) s = (case f x s of None \<Rightarrow> None | Some s' \<Rightarrow> range_loop f xs s')"

lemma range_loop_append:
  "range_loop f (xs @ ys) s = (case range_loop f xs s of None \<Rightarrow> None | Some s' \<Rightarrow> range_loop f ys s')"
  by (induction xs arbitrary: s) (auto split: option.splits)

text \<open>A loop keeps what every round of it keeps, and panics only if a round does.\<close>

lemma range_loop_inv:
  assumes "I s" and "\<And>x s. x \<in> set xs \<Longrightarrow> I s \<Longrightarrow> \<exists>s'. f x s = Some s' \<and> I s'"
  shows "\<exists>s'. range_loop f xs s = Some s' \<and> I s'"
  using assms
proof (induction xs arbitrary: s)
  case (Cons x xs)
  from Cons.prems(2) [of x s] Cons.prems(1) obtain s1 where "f x s = Some s1" "I s1" by auto
  with Cons.IH [of s1] Cons.prems(2) show ?case by auto
qed simp

lemma range_loop_rel:
  assumes "range_loop f xs s = Some s'" and "R s s" and "\<And>x t t'. R s t \<Longrightarrow> f x t = Some t' \<Longrightarrow> R s t'"
  shows "R s s'"
proof -
  have "range_loop f xs t = Some t' \<Longrightarrow> R s t \<Longrightarrow> R s t'" for t t'
    by (induction xs arbitrary: t) (auto split: option.splits dest: assms(3))
  with assms show ?thesis by blast
qed

section \<open>Association lists as Go maps\<close>

named_theorems gomap_simps "reading association lists after updates and deletions"

abbreviation gm_wf :: "('k, 'v) gomap \<Rightarrow> bool" where
  "gm_wf m \<equiv> distinct (map fst m)"

abbreviation gm_keys :: "('k, 'v) gomap \<Rightarrow> 'k set" where
  "gm_keys m \<equiv> fst ` set m"

abbreviation gm_values :: "('k, 'v) gomap \<Rightarrow> 'v set" where
  "gm_values m \<equiv> snd ` set m"

lemma set_delete [gomap_simps]: "set (AList.delete k m) = {p \<in> set m. fst p \<noteq> k}"
  by (auto simp: AList.delete_eq)

lemma set_update [gomap_simps]: "gm_wf m \<Longrightarrow> set (AList.update k v m) = insert (k, v) {p \<in> set m. fst p \<noteq> k}"
  by (induction m) (auto simp: image_iff)

lemma wf_update [simp]: "gm_wf m \<Longrightarrow> gm_wf (AList.update k v m)"
  by (rule AList.distinct_update)

lemma wf_delete [simp]: "gm_wf m \<Longrightarrow> gm_wf (AList.delete k m)"
  by (rule AList.distinct_delete)

lemmas map_of_gomap [gomap_simps] = AList.update_conv' AList.delete_conv'

lemma map_of_None_keys: "map_of m k = None \<longleftrightarrow> k \<notin> gm_keys m"
  by (rule map_of_eq_None_iff)

end
