(* ===== verification/Rpc_Wire.thy ===== *)
theory Rpc_Wire
  imports Frames Server_State
begin

text \<open>
  The messages of the RPC protocol (\<^verbatim>\<open>protocol/copper.pb.go\<close>), their conversion from and to the
  types of the server (\<^verbatim>\<open>rpc_conv.go\<close>), and how they are read and written (\<^verbatim>\<open>rpc_io.go\<close>).
  The encoding itself is that of the protobuf library: a pair of functions (\<open>codec\<close>), an argument of
  everything that reads or writes a message.
\<close>

section \<open>Messages (protocol/copper.pb.go)\<close>

record pb_Endpoint =
  pb_Network :: go_string
  pb_Address :: go_string
  pb_TargetId :: i64

record pb_SubscribeOption =
  pb_Service :: go_string
  pb_MinDistance :: u32
  pb_MaxDistance :: u32

record pb_PublishSettings =
  pbs_Priority :: u32
  pbs_MaxDistance :: u32
  pbs_Concurrency :: u32
  pbs_QueueSize :: u32

record pb_Route =
  pbr_Options :: "pb_SubscribeOption list"
  pbr_Weight :: u32

record pb_ServiceChange =
  pbc_TargetId :: i64
  pbc_Name :: go_string
  pbc_Settings :: "pb_PublishSettings option"

text \<open>
  A pointer to a message in a field may be nil, and then it is \<^term>\<open>None\<close>; the elements of a
  repeated field never are, neither when the code builds them nor when the library decodes them.
\<close>

datatype message =
    SubscribeRequest "pb_SubscribeOption list" bool
  | SubscribeResponse i64
  | GetEndpointsRequest i64
  | GetEndpointsResponse "pb_Endpoint list"
  | StreamEndpointsRequest i64
  | StreamEndpointsResponse "pb_Endpoint list" "pb_Endpoint list"
  | UnsubscribeRequest i64
  | UnsubscribeResponse
  | PublishRequest i64 go_string "pb_PublishSettings option"
  | PublishResponse
  | UnpublishRequest i64
  | UnpublishResponse
  | SetRouteRequest go_string "pb_Route list"
  | SetRouteResponse
  | ListRoutesRequest
  | ListRoutesResponse "go_string list"
  | LookupRouteRequest go_string
  | LookupRouteResponse "pb_Route list"
  | StreamServicesRequest
  | StreamServicesResponse "i64 list" "pb_ServiceChange list"

text \<open>The types of messages, by which the library knows what to decode.\<close>

datatype msgtype =
    T_SubscribeRequest | T_SubscribeResponse | T_GetEndpointsRequest | T_GetEndpointsResponse
  | T_StreamEndpointsRequest | T_StreamEndpointsResponse | T_UnsubscribeRequest | T_UnsubscribeResponse
  | T_PublishRequest | T_PublishResponse | T_UnpublishRequest | T_UnpublishResponse
  | T_SetRouteRequest | T_SetRouteResponse | T_ListRoutesRequest | T_ListRoutesResponse
  | T_LookupRouteRequest | T_LookupRouteResponse | T_StreamServicesRequest | T_StreamServicesResponse

fun msg_type :: "message \<Rightarrow> msgtype" where
  "msg_type (SubscribeRequest _ _) = T_SubscribeRequest"
| "msg_type (SubscribeResponse _) = T_SubscribeResponse"
| "msg_type (GetEndpointsRequest _) = T_GetEndpointsRequest"
| "msg_type (GetEndpointsResponse _) = T_GetEndpointsResponse"
| "msg_type (StreamEndpointsRequest _) = T_StreamEndpointsRequest"
| "msg_type (StreamEndpointsResponse _ _) = T_StreamEndpointsResponse"
| "msg_type (UnsubscribeRequest _) = T_UnsubscribeRequest"
| "msg_type UnsubscribeResponse = T_UnsubscribeResponse"
| "msg_type (PublishRequest _ _ _) = T_PublishRequest"
| "msg_type PublishResponse = T_PublishResponse"
| "msg_type (UnpublishRequest _) = T_UnpublishRequest"
| "msg_type UnpublishResponse = T_UnpublishResponse"
| "msg_type (SetRouteRequest _ _) = T_SetRouteRequest"
| "msg_type SetRouteResponse = T_SetRouteResponse"
| "msg_type ListRoutesRequest = T_ListRoutesRequest"
| "msg_type (ListRoutesResponse _) = T_ListRoutesResponse"
| "msg_type (LookupRouteRequest _) = T_LookupRouteRequest"
| "msg_type (LookupRouteResponse _) = T_LookupRouteResponse"
| "msg_type StreamServicesRequest = T_StreamServicesRequest"
| "msg_type (StreamServicesResponse _ _) = T_StreamServicesResponse"

text \<open>The generated getters; a message without the field has the zero value.\<close>

fun GetTargetId :: "message \<Rightarrow> i64" where
  "GetTargetId (SubscribeResponse t) = t"
| "GetTargetId (GetEndpointsRequest t) = t"
| "GetTargetId (StreamEndpointsRequest t) = t"
| "GetTargetId (UnsubscribeRequest t) = t"
| "GetTargetId (PublishRequest t _ _) = t"
| "GetTargetId (UnpublishRequest t) = t"
| "GetTargetId _ = 0"

fun GetOptions :: "message \<Rightarrow> pb_SubscribeOption list" where
  "GetOptions (SubscribeRequest options _) = options"
| "GetOptions _ = []"

fun GetDisableRoutes :: "message \<Rightarrow> bool" where
  "GetDisableRoutes (SubscribeRequest _ disable) = disable"
| "GetDisableRoutes _ = False"

fun GetEndpoints :: "message \<Rightarrow> pb_Endpoint list" where
  "GetEndpoints (GetEndpointsResponse endpoints) = endpoints"
| "GetEndpoints _ = []"

fun GetName :: "message \<Rightarrow> go_string" where
  "GetName (PublishRequest _ name _) = name"
| "GetName (SetRouteRequest name _) = name"
| "GetName (LookupRouteRequest name) = name"
| "GetName _ = []"

fun GetSettings :: "message \<Rightarrow> pb_PublishSettings option" where
  "GetSettings (PublishRequest _ _ settings) = settings"
| "GetSettings _ = None"

fun GetRoutes :: "message \<Rightarrow> pb_Route list" where
  "GetRoutes (SetRouteRequest _ routes) = routes"
| "GetRoutes (LookupRouteResponse routes) = routes"
| "GetRoutes _ = []"

fun GetNames :: "message \<Rightarrow> go_string list" where
  "GetNames (ListRoutesResponse names) = names"
| "GetNames _ = []"

fun GetAdded :: "message \<Rightarrow> pb_Endpoint list" where
  "GetAdded (StreamEndpointsResponse added _) = added"
| "GetAdded _ = []"

fun GetRemovedEndpoints :: "message \<Rightarrow> pb_Endpoint list" where
  "GetRemovedEndpoints (StreamEndpointsResponse _ removed) = removed"
| "GetRemovedEndpoints _ = []"

fun GetRemoved :: "message \<Rightarrow> i64 list" where
  "GetRemoved (StreamServicesResponse removed _) = removed"
| "GetRemoved _ = []"

fun GetChanged :: "message \<Rightarrow> pb_ServiceChange list" where
  "GetChanged (StreamServicesResponse _ changed) = changed"
| "GetChanged _ = []"

section \<open>Conversion (rpc_conv.go)\<close>

definition rpcProtoToSubscribeOptions :: "pb_SubscribeOption list \<Rightarrow> SubscribeOption list" where
  "rpcProtoToSubscribeOptions poptions =
     map (\<lambda>po. \<lparr>opt_Service = pb_Service po, opt_MinDistance = pb_MinDistance po, opt_MaxDistance = pb_MaxDistance po\<rparr>) poptions"

definition rpcSubscribeOptionsToProto :: "SubscribeOption list \<Rightarrow> pb_SubscribeOption list" where
  "rpcSubscribeOptionsToProto options =
     map (\<lambda>o'. \<lparr>pb_Service = opt_Service o', pb_MinDistance = opt_MinDistance o', pb_MaxDistance = opt_MaxDistance o'\<rparr>) options"

definition rpcProtoToEndpoints :: "pb_Endpoint list \<Rightarrow> Endpoint list" where
  "rpcProtoToEndpoints pendpoints =
     map (\<lambda>pe. \<lparr>e_Network = pb_Network pe, e_Address = pb_Address pe, e_TargetID = pb_TargetId pe\<rparr>) pendpoints"

definition rpcEndpointsToProto :: "Endpoint list \<Rightarrow> pb_Endpoint list" where
  "rpcEndpointsToProto endpoints =
     map (\<lambda>e. \<lparr>pb_Network = e_Network e, pb_Address = e_Address e, pb_TargetId = e_TargetID e\<rparr>) endpoints"

text \<open>The getters of a nil pointer return zero values.\<close>

definition rpcProtoToPublishSettings :: "pb_PublishSettings option \<Rightarrow> PublishSettings" where
  "rpcProtoToPublishSettings settings =
     (case settings of
        None \<Rightarrow> \<lparr>ps_Priority = 0, ps_MaxDistance = 0, ps_Concurrency = 0, ps_QueueSize = 0\<rparr>
      | Some p \<Rightarrow> \<lparr>ps_Priority = pbs_Priority p, ps_MaxDistance = pbs_MaxDistance p,
                   ps_Concurrency = pbs_Concurrency p, ps_QueueSize = pbs_QueueSize p\<rparr>)"

definition rpcPublishSettingsToProto :: "PublishSettings \<Rightarrow> pb_PublishSettings option" where
  "rpcPublishSettingsToProto settings =
     Some \<lparr>pbs_Priority = ps_Priority settings, pbs_MaxDistance = ps_MaxDistance settings,
           pbs_Concurrency = ps_Concurrency settings, pbs_QueueSize = ps_QueueSize settings\<rparr>"

definition rpcProtoToRoutes :: "pb_Route list \<Rightarrow> Route list" where
  "rpcProtoToRoutes proutes =
     map (\<lambda>r. \<lparr>route_Options = rpcProtoToSubscribeOptions (pbr_Options r), route_Weight = pbr_Weight r\<rparr>) proutes"

definition rpcRoutesToProto :: "Route list \<Rightarrow> pb_Route list" where
  "rpcRoutesToProto routes =
     map (\<lambda>r. \<lparr>pbr_Options = rpcSubscribeOptionsToProto (route_Options r), pbr_Weight = route_Weight r\<rparr>) routes"

definition rpcProtoToServiceChanges :: "pb_ServiceChange list \<Rightarrow> ServiceChange list" where
  "rpcProtoToServiceChanges pchanges =
     map (\<lambda>c. \<lparr>sc_TargetID = pbc_TargetId c, sc_Name = pbc_Name c, sc_Settings = rpcProtoToPublishSettings (pbc_Settings c)\<rparr>) pchanges"

definition rpcServiceChangesToProto :: "ServiceChange list \<Rightarrow> pb_ServiceChange list" where
  "rpcServiceChangesToProto changes =
     map (\<lambda>c. \<lparr>pbc_TargetId = sc_TargetID c, pbc_Name = sc_Name c, pbc_Settings = rpcPublishSettingsToProto (sc_Settings c)\<rparr>) changes"

named_theorems rpc_conv "converting to protocol types and back"

lemma conv_options [rpc_conv]: "rpcProtoToSubscribeOptions (rpcSubscribeOptionsToProto options) = options"
  by (simp add: rpcProtoToSubscribeOptions_def rpcSubscribeOptionsToProto_def map_idI)

lemma conv_endpoints [rpc_conv]: "rpcProtoToEndpoints (rpcEndpointsToProto endpoints) = endpoints"
  by (simp add: rpcProtoToEndpoints_def rpcEndpointsToProto_def map_idI)

lemma conv_settings [rpc_conv]: "rpcProtoToPublishSettings (rpcPublishSettingsToProto settings) = settings"
  by (simp add: rpcProtoToPublishSettings_def rpcPublishSettingsToProto_def)

lemma conv_routes [rpc_conv]: "rpcProtoToRoutes (rpcRoutesToProto routes) = routes"
  by (simp add: rpcProtoToRoutes_def rpcRoutesToProto_def map_idI rpc_conv)

lemma conv_changes [rpc_conv]: "rpcProtoToServiceChanges (rpcServiceChangesToProto changes) = changes"
  by (simp add: rpcProtoToServiceChanges_def rpcServiceChangesToProto_def map_idI rpc_conv)

section \<open>Reading and writing (rpc_io.go)\<close>

text \<open>\<^verbatim>\<open>proto.Marshal\<close> and \<^verbatim>\<open>proto.Unmarshal\<close>.\<close>

record codec =
  marshal :: "message \<Rightarrow> go_error + u8 list"
  unmarshal :: "msgtype \<Rightarrow> u8 list \<Rightarrow> go_error + message"

text \<open>What the library promises for a message: it can be encoded, and decoding gives it back.\<close>

definition carried :: "codec \<Rightarrow> message \<Rightarrow> bool" where
  "carried c m \<longleftrightarrow> (case marshal c m of Inl _ \<Rightarrow> False | Inr b \<Rightarrow> length b < 2 ^ 32 \<and> unmarshal c (msg_type m) b = Inr m)"

text \<open>
  The reader of the stream is the model of an \<^verbatim>\<open>io.Reader\<close> that the theory of frames has; its
  scratch buffer is not used here.
\<close>

abbreviation (input) io_source :: "u8 list \<Rightarrow> go_error \<Rightarrow> FrameReader" where
  "io_source data err \<equiv> \<lparr>r_data = data, r_end = err, r_scratch = []\<rparr>"

definition rpcReadRequestType :: "FrameReader \<Rightarrow> (go_error + u8) \<times> FrameReader" where
  "rpcReadRequestType r =
     (let (buf, err, r) = io_ReadFull r (replicate 1 0)
      in case err of Some e \<Rightarrow> (Inl e, r) | None \<Rightarrow> (Inr (buf ! 0), r))"

text \<open>
  The array has four bytes, so they always make up a number; and on a platform with 64-bit integers
  the size is never negative.
\<close>

definition rpcReadMessage :: "codec \<Rightarrow> msgtype \<Rightarrow> FrameReader \<Rightarrow> (go_error + message) \<times> FrameReader" where
  "rpcReadMessage c t r =
     (let (buf, err, r) = io_ReadFull r (replicate 4 0)
      in case err of
           Some e \<Rightarrow> (Inl (if e = IoEOF then IoUnexpectedEOF else e), r)
         | None \<Rightarrow>
             let size = (case get_u32 buf of None \<Rightarrow> 0 | Some v \<Rightarrow> unat v)
             in if 0 < size then
                  let (data, err, r) = io_ReadFull r (replicate size 0)
                  in (case err of
                        Some e \<Rightarrow> (Inl (if e = IoEOF then IoUnexpectedEOF else e), r)
                      | None \<Rightarrow> (unmarshal c t data, r))
                else (unmarshal c t [], r))"

definition rpcWriteRequestType :: "'w io_write \<Rightarrow> 'w \<Rightarrow> u8 \<Rightarrow> go_error option \<times> 'w" where
  "rpcWriteRequestType wr w rtype = wr w [rtype]"

definition rpcWriteMessage :: "codec \<Rightarrow> 'w io_write \<Rightarrow> 'w \<Rightarrow> message \<Rightarrow> go_error option \<times> 'w" where
  "rpcWriteMessage c wr w m =
     (case marshal c m of
        Inl e \<Rightarrow> (Some e, w)
      | Inr data \<Rightarrow>
          then_write (wr w (put_u32 (of_nat (length data))))
            (\<lambda>w. if length data > 0 then wr w data else (None, w)))"


lemma rpcWriteMessage_mem:
  "marshal c m = Inr b \<Longrightarrow> rpcWriteMessage c mem_write w m = (None, w @ put_u32 (of_nat (length b)) @ b)"
  by (simp add: rpcWriteMessage_def then_write_def mem_write_def)

lemma read_size: "4 \<le> length d \<Longrightarrow> io_ReadFull (io_source d e) (replicate 4 0) = (take 4 d, None, io_source (drop 4 d) e)"
  by (simp add: io_ReadFull_enough)

lemma rpcReadMessage_written:
  assumes "length b < 2 ^ 32"
  shows "rpcReadMessage c t (io_source (put_u32 (of_nat (length b)) @ b @ rest) e) = (unmarshal c t b, io_source rest e)"
proof -
  have size: "unat (of_nat (length b) :: u32) = length b" using assms by (simp add: unat_of_nat)
  have buf: "get_u32 (put_u32 (of_nat (length b))) = Some (of_nat (length b))" using get_put_u32 [of _ "[]"] by simp
  show ?thesis
  proof (cases "b = []")
    case True
    with buf show ?thesis by (simp add: rpcReadMessage_def read_size)
  next
    case False
    then show ?thesis by (simp add: rpcReadMessage_def read_size buf size io_ReadFull_enough)
  qed
qed

lemma rpcReadMessage_end:
  "fst (rpcReadMessage c t (io_source [] e)) = Inl (if e = IoEOF then IoUnexpectedEOF else e)"
  by (simp add: rpcReadMessage_def io_ReadFull_def)

lemma carried_cases:
  assumes "carried c m"
  obtains b where "marshal c m = Inr b" "length b < 2 ^ 32" "unmarshal c (msg_type m) b = Inr m"
  using assms by (auto simp: carried_def split: sum.splits)

text \<open>A stream of messages, as in the answers to \<^verbatim>\<open>StreamServices\<close>.\<close>

fun rpc_write_all :: "codec \<Rightarrow> 'w io_write \<Rightarrow> 'w \<Rightarrow> message list \<Rightarrow> go_error option \<times> 'w" where
  "rpc_write_all c wr w [] = (None, w)"
| "rpc_write_all c wr w (m # ms) = then_write (rpcWriteMessage c wr w m) (\<lambda>w. rpc_write_all c wr w ms)"

text \<open>The loop of \<^verbatim>\<open>readloop\<close>, at most \<open>n\<close> times around: the messages, and the error that ended it.\<close>

fun rpc_read_all :: "nat \<Rightarrow> codec \<Rightarrow> msgtype \<Rightarrow> FrameReader \<Rightarrow> message list \<times> go_error option" where
  "rpc_read_all 0 c t r = ([], None)"
| "rpc_read_all (Suc n) c t r =
     (case rpcReadMessage c t r of
        (Inl e, r) \<Rightarrow> ([], Some e)
      | (Inr m, r) \<Rightarrow> (case rpc_read_all n c t r of (ms, e) \<Rightarrow> (m # ms, e)))"

lemma rpc_write_all_append:
  assumes "\<forall>m \<in> set ms. carried c m"
  shows "rpc_write_all c mem_write w ms = (None, w @ snd (rpc_write_all c mem_write [] ms))"
  using assms
proof (induction ms arbitrary: w)
  case (Cons m ms)
  then obtain b where "marshal c m = Inr b" by (auto elim: carried_cases)
  then have wr: "rpcWriteMessage c mem_write v m = (None, v @ put_u32 (of_nat (length b)) @ b)" for v by (rule rpcWriteMessage_mem)
  have IH: "rpc_write_all c mem_write v ms = (None, v @ snd (rpc_write_all c mem_write [] ms))" for v
    by (rule Cons.IH) (use Cons.prems in simp)
  show ?case using IH [of "w @ put_u32 (of_nat (length b)) @ b"] IH [of "put_u32 (of_nat (length b)) @ b"]
    by (simp add: then_write_def wr)
qed simp

lemma rpc_write_all_step:
  assumes "\<forall>m \<in> set (m # ms). carried c m"
  obtains b where "length b < 2 ^ 32" "unmarshal c (msg_type m) b = Inr m"
    "snd (rpc_write_all c mem_write [] (m # ms)) = put_u32 (of_nat (length b)) @ b @ snd (rpc_write_all c mem_write [] ms)"
proof -
  from assms obtain b where b: "marshal c m = Inr b" "length b < 2 ^ 32" "unmarshal c (msg_type m) b = Inr m" by (auto elim: carried_cases)
  have "snd (rpc_write_all c mem_write [] (m # ms)) = put_u32 (of_nat (length b)) @ b @ snd (rpc_write_all c mem_write [] ms)"
    using rpc_write_all_append [of ms c "put_u32 (of_nat (length b)) @ b"] assms
    by (simp add: then_write_def rpcWriteMessage_mem [OF b(1)])
  with b(2,3) that show ?thesis by blast
qed

lemma rpc_stream_round_trip:
  assumes "\<forall>m \<in> set ms. carried c m \<and> msg_type m = t" and "length ms < n"
  shows "rpc_read_all n c t (io_source (snd (rpc_write_all c mem_write [] ms)) e) = (ms, Some (if e = IoEOF then IoUnexpectedEOF else e))"
  using assms
proof (induction ms arbitrary: n)
  case Nil
  then obtain k where n: "n = Suc k" by (cases n) auto
  obtain x r where "rpcReadMessage c t (io_source [] e) = (x, r)" by (meson surj_pair)
  with rpcReadMessage_end [of c t e] show ?case by (simp add: n)
next
  case (Cons m ms)
  then obtain k where n: "n = Suc k" by (cases n) auto
  from Cons.prems obtain b where b: "length b < 2 ^ 32" "unmarshal c (msg_type m) b = Inr m"
    "snd (rpc_write_all c mem_write [] (m # ms)) = put_u32 (of_nat (length b)) @ b @ snd (rpc_write_all c mem_write [] ms)"
    by (meson rpc_write_all_step)
  with Cons.IH [of k] Cons.prems n show ?case by (simp add: rpcReadMessage_written [OF b(1)] del: rpc_write_all.simps)
qed

lemma rpc_stream_so_far:
  assumes "\<forall>m \<in> set ms. carried c m \<and> msg_type m = t"
  shows "fst (rpc_read_all (length ms) c t (io_source (snd (rpc_write_all c mem_write [] ms)) e)) = ms"
  using assms
proof (induction ms)
  case (Cons m ms)
  then obtain b where b: "length b < 2 ^ 32" "unmarshal c (msg_type m) b = Inr m"
    "snd (rpc_write_all c mem_write [] (m # ms)) = put_u32 (of_nat (length b)) @ b @ snd (rpc_write_all c mem_write [] ms)"
    by (meson rpc_write_all_step)
  with Cons show ?case by (simp add: rpcReadMessage_written [OF b(1)] split_beta del: rpc_write_all.simps)
qed simp

end
