(* ===== verification/Server_Subs.thy ===== *)
theory Server_Subs
  imports Server_State
begin

text \<open>
  Subscriptions, \<^verbatim>\<open>server_subs.go\<close>. A subscription is a list of options in the order of
  preference. Each option keeps the route, the local publications and the remotes that match it,
  sorted by priority, and the subscription the index of its first option that has any; all of it is
  updated whenever a route, a publication or a remote comes or goes.
\<close>

abbreviation (input) worst_priority :: u32 where "worst_priority \<equiv> 0xffffffff"

section \<open>Options\<close>

definition pub_priority :: "server \<Rightarrow> pubref \<Rightarrow> u32" where
  "pub_priority s p = ps_Priority (pub_settings (sv_pub s p))"

definition remote_priority :: "server \<Rightarrow> remoteref \<Rightarrow> u32" where
  "remote_priority s m = ps_Priority (rm_settings (sv_remote s m))"

definition option_isActive :: "serverSubscriptionOption \<Rightarrow> bool" where
  "option_isActive o' \<longleftrightarrow>
     (if so_route o' \<noteq> None then True
      else if 0 < length (so_local o') then True
      else if 0 < length (so_remote o') then True
      else False)"

definition updateLocalPriority :: "(pubref \<Rightarrow> u32) \<Rightarrow> serverSubscriptionOption \<Rightarrow> serverSubscriptionOption" where
  "updateLocalPriority prio o' =
     (if 0 < length (so_local o') then o'\<lparr>so_localPriority := prio (so_local o' ! 0)\<rparr>
      else o'\<lparr>so_localPriority := worst_priority\<rparr>)"

text \<open>The loop that counts the remotes after the first which have the same priority.\<close>

fun count_same :: "(remoteref \<Rightarrow> u32) \<Rightarrow> u32 \<Rightarrow> remoteref list \<Rightarrow> int" where
  "count_same prio q [] = 0"
| "count_same prio q (m # ms) = (if prio m \<noteq> q then 0 else 1 + count_same prio q ms)"

definition updateRemotePriority :: "(remoteref \<Rightarrow> u32) \<Rightarrow> serverSubscriptionOption \<Rightarrow> serverSubscriptionOption" where
  "updateRemotePriority prio o' =
     (case so_remote o' of
        m # ms \<Rightarrow> o'\<lparr>so_remoteCount := 1 + count_same prio (prio m) ms, so_remotePriority := prio m\<rparr>
      | [] \<Rightarrow> o'\<lparr>so_remoteCount := 0, so_remotePriority := worst_priority\<rparr>)"

definition option_addRoute :: "routeref \<Rightarrow> serverSubscriptionOption \<Rightarrow> bool \<times> serverSubscriptionOption" where
  "option_addRoute r o' = (True, o'\<lparr>so_route := Some r\<rparr>)"

definition option_removeRoute :: "routeref \<Rightarrow> serverSubscriptionOption \<Rightarrow> bool \<times> serverSubscriptionOption" where
  "option_removeRoute r o' = (if so_route o' = Some r then (True, o'\<lparr>so_route := None\<rparr>) else (False, o'))"

definition option_addPublication :: "pubref \<Rightarrow> serverSubscriptionOption \<Rightarrow> bool \<times> serverSubscriptionOption" where
  "option_addPublication p o' =
     (if opt_MinDistance (so_option o') = 0 then (True, o'\<lparr>so_local := so_local o' @ [p]\<rparr>) else (False, o'))"

text \<open>The search for a pointer in a slice, and its removal by moving the rest of the slice down.\<close>

fun remove_ref :: "nat \<Rightarrow> nat list \<Rightarrow> nat list option" where
  "remove_ref x [] = None"
| "remove_ref x (y # ys) =
     (if y = x then Some ys else case remove_ref x ys of None \<Rightarrow> None | Some zs \<Rightarrow> Some (y # zs))"

definition option_removePublication :: "pubref \<Rightarrow> serverSubscriptionOption \<Rightarrow> bool \<times> serverSubscriptionOption" where
  "option_removePublication p o' =
     (if opt_MinDistance (so_option o') = 0 then
        case remove_ref p (so_local o') of
          Some ps \<Rightarrow> (True, o'\<lparr>so_local := ps\<rparr>)
        | None \<Rightarrow> (False, o')
      else (False, o'))"

definition option_in_range :: "u32 \<Rightarrow> serverSubscriptionOption \<Rightarrow> bool" where
  "option_in_range distance o' \<longleftrightarrow>
     opt_MinDistance (so_option o') \<le> distance \<and> distance \<le> opt_MaxDistance (so_option o')"

definition option_addRemote :: "remoteref \<Rightarrow> u32 \<Rightarrow> serverSubscriptionOption \<Rightarrow> bool \<times> serverSubscriptionOption" where
  "option_addRemote m distance o' =
     (if option_in_range distance o' then (True, o'\<lparr>so_remote := so_remote o' @ [m]\<rparr>) else (False, o'))"

definition option_removeRemote :: "remoteref \<Rightarrow> u32 \<Rightarrow> serverSubscriptionOption \<Rightarrow> bool \<times> serverSubscriptionOption" where
  "option_removeRemote m distance o' =
     (if option_in_range distance o' then
        case remove_ref m (so_remote o') of
          Some ms \<Rightarrow> (True, o'\<lparr>so_remote := ms\<rparr>)
        | None \<Rightarrow> (False, o')
      else (False, o'))"

section \<open>Subscriptions\<close>

definition sub_isActive :: "serverSubscription \<Rightarrow> bool" where
  "sub_isActive sub \<longleftrightarrow> sub_active sub < zlen (sub_options sub)"

fun first_active :: "serverSubscriptionOption list \<Rightarrow> int" where
  "first_active [] = 0"
| "first_active (o' # os) = (if option_isActive o' then 0 else 1 + first_active os)"

definition updateActiveIndex :: "serverSubscription \<Rightarrow> serverSubscription" where
  "updateActiveIndex sub = sub\<lparr>sub_active := first_active (sub_options sub)\<rparr>"

text \<open>
  The loop that every notification has: it calls a method on the options at the given indexes, and
  remembers whether any of the calls returned true.
\<close>

fun update_options :: "(serverSubscriptionOption \<Rightarrow> bool \<times> serverSubscriptionOption) \<Rightarrow> int list \<Rightarrow>
    serverSubscriptionOption list \<Rightarrow> (bool \<times> serverSubscriptionOption list) option" where
  "update_options f [] os = Some (False, os)"
| "update_options f (i # is) os =
     (case index os i of
        None \<Rightarrow> None
      | Some o' \<Rightarrow>
          (case store os i (snd (f o')) of
             None \<Rightarrow> None
           | Some os' \<Rightarrow>
               (case update_options f is os' of
                  None \<Rightarrow> None
                | Some (changed, os'') \<Rightarrow> Some (fst (f o') \<or> changed, os''))))"

definition indexes_of :: "serverSubscription \<Rightarrow> go_string \<Rightarrow> int list" where
  "indexes_of sub name = (case map_of (sub_indexByName sub) name of None \<Rightarrow> [] | Some is \<Rightarrow> is)"

definition sub_addRoute :: "subref \<Rightarrow> routeref \<Rightarrow> server \<Rightarrow> server option" where
  "sub_addRoute u r s =
     (if ss_DisableRoutes (sub_settings (sv_sub s u)) then Some s
      else do {
        (changed, os) \<leftarrow> update_options (option_addRoute r) (indexes_of (sv_sub s u) (ro_name (sv_route s r)))
                           (sub_options (sv_sub s u));
        let s = upd_sub u (\<lambda>sub. sub\<lparr>sub_options := os\<rparr>) s;
        Some (if changed then
                let s = upd_route r (\<lambda>ro. ro\<lparr>ro_subscriptions := insert u (ro_subscriptions ro)\<rparr>) s
                in upd_sub u updateActiveIndex s
              else s)
      })"

definition sub_removeRoute :: "subref \<Rightarrow> routeref \<Rightarrow> server \<Rightarrow> server option" where
  "sub_removeRoute u r s =
     (if ss_DisableRoutes (sub_settings (sv_sub s u)) then Some s
      else do {
        (changed, os) \<leftarrow> update_options (option_removeRoute r)
                           [0..zlen (ss_Options (sub_settings (sv_sub s u))) - 1] (sub_options (sv_sub s u));
        let s = upd_sub u (\<lambda>sub. sub\<lparr>sub_options := os\<rparr>) s;
        Some (if changed then upd_sub u updateActiveIndex s else s)
      })"

definition option_addPublication_sorted :: "runtime \<Rightarrow> (pubref \<Rightarrow> u32) \<Rightarrow> pubref \<Rightarrow> serverSubscriptionOption \<Rightarrow>
    bool \<times> serverSubscriptionOption" where
  "option_addPublication_sorted rt prio p o' =
     (case option_addPublication p o' of
        (True, o') \<Rightarrow> (True, updateLocalPriority prio (o'\<lparr>so_local := rt_sort rt prio (so_local o')\<rparr>))
      | (False, o') \<Rightarrow> (False, o'))"

definition sub_addPublication :: "runtime \<Rightarrow> subref \<Rightarrow> pubref \<Rightarrow> server \<Rightarrow> server option" where
  "sub_addPublication rt u p s = do {
     (changed, os) \<leftarrow> update_options (option_addPublication_sorted rt (pub_priority s) p)
                        (indexes_of (sv_sub s u) (pub_name (sv_pub s p))) (sub_options (sv_sub s u));
     let s = upd_sub u (\<lambda>sub. sub\<lparr>sub_options := os\<rparr>) s;
     Some (if changed then
             let s = upd_pub p (\<lambda>pub. pub\<lparr>pub_subscriptions := insert u (pub_subscriptions pub)\<rparr>) s
             in upd_sub u updateActiveIndex s
           else s)
   }"

definition option_removePublication_prio :: "(pubref \<Rightarrow> u32) \<Rightarrow> pubref \<Rightarrow> serverSubscriptionOption \<Rightarrow>
    bool \<times> serverSubscriptionOption" where
  "option_removePublication_prio prio p o' =
     (case option_removePublication p o' of
        (True, o') \<Rightarrow> (True, updateLocalPriority prio o')
      | (False, o') \<Rightarrow> (False, o'))"

definition sub_removePublication :: "subref \<Rightarrow> pubref \<Rightarrow> server \<Rightarrow> server option" where
  "sub_removePublication u p s = do {
     (changed, os) \<leftarrow> update_options (option_removePublication_prio (pub_priority s) p)
                        (indexes_of (sv_sub s u) (pub_name (sv_pub s p))) (sub_options (sv_sub s u));
     let s = upd_sub u (\<lambda>sub. sub\<lparr>sub_options := os\<rparr>) s;
     Some (if changed then upd_sub u updateActiveIndex s else s)
   }"

definition option_addRemote_sorted :: "runtime \<Rightarrow> (remoteref \<Rightarrow> u32) \<Rightarrow> remoteref \<Rightarrow> u32 \<Rightarrow> serverSubscriptionOption \<Rightarrow>
    bool \<times> serverSubscriptionOption" where
  "option_addRemote_sorted rt prio m distance o' =
     (case option_addRemote m distance o' of
        (True, o') \<Rightarrow> (True, updateRemotePriority prio (o'\<lparr>so_remote := rt_sort rt prio (so_remote o')\<rparr>))
      | (False, o') \<Rightarrow> (False, o'))"

definition sub_addRemote :: "runtime \<Rightarrow> subref \<Rightarrow> remoteref \<Rightarrow> server \<Rightarrow> server option" where
  "sub_addRemote rt u m s = do {
     (changed, os) \<leftarrow> update_options (option_addRemote_sorted rt (remote_priority s) m (rm_distance (sv_remote s m)))
                        (indexes_of (sv_sub s u) (rm_name (sv_remote s m))) (sub_options (sv_sub s u));
     let s = upd_sub u (\<lambda>sub. sub\<lparr>sub_options := os\<rparr>) s;
     Some (if changed then
             let s = upd_remote m (\<lambda>rm. rm\<lparr>rm_subscriptions := insert u (rm_subscriptions rm)\<rparr>) s
             in upd_sub u updateActiveIndex s
           else s)
   }"

definition option_removeRemote_prio :: "(remoteref \<Rightarrow> u32) \<Rightarrow> remoteref \<Rightarrow> u32 \<Rightarrow> serverSubscriptionOption \<Rightarrow>
    bool \<times> serverSubscriptionOption" where
  "option_removeRemote_prio prio m distance o' =
     (case option_removeRemote m distance o' of
        (True, o') \<Rightarrow> (True, updateRemotePriority prio o')
      | (False, o') \<Rightarrow> (False, o'))"

definition sub_removeRemote :: "subref \<Rightarrow> remoteref \<Rightarrow> server \<Rightarrow> server option" where
  "sub_removeRemote u m s = do {
     (changed, os) \<leftarrow> update_options (option_removeRemote_prio (remote_priority s) m (rm_distance (sv_remote s m)))
                        (indexes_of (sv_sub s u) (rm_name (sv_remote s m))) (sub_options (sv_sub s u));
     let s = upd_sub u (\<lambda>sub. sub\<lparr>sub_options := os\<rparr>) s;
     Some (if changed then upd_sub u updateActiveIndex s else s)
   }"

section \<open>Subscribing\<close>

text \<open>The new object: one option per setting, and the indexes of the options by the name of their service.\<close>

fun index_options :: "int \<Rightarrow> SubscribeOption list \<Rightarrow> (go_string, int list) gomap \<Rightarrow> (go_string, int list) gomap" where
  "index_options i [] m = m"
| "index_options i (opt # opts) m =
     index_options (i + 1) opts
       (AList.update (opt_Service opt) ((case map_of m (opt_Service opt) of None \<Rightarrow> [] | Some is \<Rightarrow> is) @ [i]) m)"

definition new_option :: "SubscribeOption \<Rightarrow> serverSubscriptionOption" where
  "new_option opt = \<lparr>so_option = opt, so_route = None, so_local = [], so_remote = [], so_localPriority = 0,
     so_remoteCount = 0, so_remotePriority = 0\<rparr>"

definition new_subscription :: "i64 \<Rightarrow> SubscribeSettings \<Rightarrow> serverSubscription" where
  "new_subscription t settings = \<lparr>sub_targetID = t, sub_settings = settings,
     sub_options = map new_option (ss_Options settings), sub_active = zlen (ss_Options settings),
     sub_indexByName = index_options 0 (ss_Options settings) []\<rparr>"

text \<open>The body of the loop over the names: the interest is registered, then what exists already is added.\<close>

definition subscribe_interest :: "subref \<Rightarrow> go_string \<Rightarrow> server \<Rightarrow> server" where
  "subscribe_interest u name s =
     s\<lparr>sv_subsByName := (sv_subsByName s)(name \<mapsto> insert u (case sv_subsByName s name of None \<Rightarrow> {} | Some subs \<Rightarrow> subs))\<rparr>"

definition subscribe_route :: "subref \<Rightarrow> go_string \<Rightarrow> server \<Rightarrow> server option" where
  "subscribe_route u name s =
     (if \<not> ss_DisableRoutes (sub_settings (sv_sub s u)) then
        case map_of (sv_routeByName s) name of
          None \<Rightarrow> Some s
        | Some r \<Rightarrow> do {
            (changed, os) \<leftarrow> update_options (option_addRoute r) (indexes_of (sv_sub s u) name) (sub_options (sv_sub s u));
            let s = upd_sub u (\<lambda>sub. sub\<lparr>sub_options := os\<rparr>) s;
            Some (if changed then upd_route r (\<lambda>ro. ro\<lparr>ro_subscriptions := insert u (ro_subscriptions ro)\<rparr>) s else s)
          }
      else Some s)"

definition subscribe_pub :: "subref \<Rightarrow> go_string \<Rightarrow> pubref \<Rightarrow> server \<Rightarrow> server option" where
  "subscribe_pub u name p s = do {
     (changed, os) \<leftarrow> update_options (option_addPublication p) (indexes_of (sv_sub s u) name) (sub_options (sv_sub s u));
     let s = upd_sub u (\<lambda>sub. sub\<lparr>sub_options := os\<rparr>) s;
     Some (if changed then upd_pub p (\<lambda>pub. pub\<lparr>pub_subscriptions := insert u (pub_subscriptions pub)\<rparr>) s else s)
   }"

definition subscribe_remote :: "subref \<Rightarrow> go_string \<Rightarrow> remoteref \<Rightarrow> server \<Rightarrow> server option" where
  "subscribe_remote u name m s = do {
     (changed, os) \<leftarrow> update_options (option_addRemote m (rm_distance (sv_remote s m)))
                        (indexes_of (sv_sub s u) name) (sub_options (sv_sub s u));
     let s = upd_sub u (\<lambda>sub. sub\<lparr>sub_options := os\<rparr>) s;
     Some (if changed then upd_remote m (\<lambda>rm. rm\<lparr>rm_subscriptions := insert u (rm_subscriptions rm)\<rparr>) s else s)
   }"

definition pubs_named :: "server \<Rightarrow> go_string \<Rightarrow> (u32, pubref) gomap" where
  "pubs_named s name = (case sv_pubsByName s name of None \<Rightarrow> [] | Some pubs \<Rightarrow> pubs)"

definition remotes_named :: "serverPeer \<Rightarrow> go_string \<Rightarrow> (i64, remoteref) gomap" where
  "remotes_named peer name = (case pe_remotesByName peer name of None \<Rightarrow> [] | Some remotes \<Rightarrow> remotes)"

definition subscribe_name :: "runtime \<Rightarrow> subref \<Rightarrow> go_string \<Rightarrow> server \<Rightarrow> server option" where
  "subscribe_name rt u name s = do {
     let s = subscribe_interest u name s;
     s \<leftarrow> subscribe_route u name s;
     s \<leftarrow> range_loop (subscribe_pub u name) (rt_refs rt (gm_values (pubs_named s name))) s;
     range_loop (\<lambda>peer s. range_loop (subscribe_remote u name) (rt_refs rt (gm_values (remotes_named (sv_peer s peer) name))) s)
       (rt_refs rt (gm_values (sv_peers s))) s
   }"

definition sort_option :: "runtime \<Rightarrow> (pubref \<Rightarrow> u32) \<Rightarrow> (remoteref \<Rightarrow> u32) \<Rightarrow> serverSubscriptionOption \<Rightarrow> serverSubscriptionOption" where
  "sort_option rt pprio rprio o' =
     (let o' = updateLocalPriority pprio (o'\<lparr>so_local := rt_sort rt pprio (so_local o')\<rparr>)
      in updateRemotePriority rprio (o'\<lparr>so_remote := rt_sort rt rprio (so_remote o')\<rparr>))"

definition subscribeLocked :: "runtime \<Rightarrow> eref \<Rightarrow> SubscribeSettings \<Rightarrow> server \<Rightarrow> ((go_error + subref) \<times> server) option" where
  "subscribeLocked rt ref settings s =
     (if length (ss_Options settings) = 0 then Some (Inl (OtherError ref (str ''cannot subscribe with 0 options'') False), s)
      else do {
        let (t, s) = allocateTargetID s;
        let (u, s) = fresh s;
        let s = upd_sub u (\<lambda>_. new_subscription t settings) s;
        s \<leftarrow> range_loop (subscribe_name rt u) (rt_names rt (gm_keys (sub_indexByName (sv_sub s u)))) s;
        let s = upd_sub u (\<lambda>sub. sub\<lparr>sub_options := map (sort_option rt (pub_priority s) (remote_priority s)) (sub_options sub)\<rparr>) s;
        Some (Inr u, upd_sub u updateActiveIndex s)
      })"

section \<open>Unsubscribing\<close>

definition unsubscribe_option :: "subref \<Rightarrow> serverSubscriptionOption \<Rightarrow> server \<Rightarrow> server" where
  "unsubscribe_option u o' s =
     (let s = (case so_route o' of None \<Rightarrow> s
               | Some r \<Rightarrow> upd_route r (\<lambda>ro. ro\<lparr>ro_subscriptions := ro_subscriptions ro - {u}\<rparr>) s);
          s = fold (\<lambda>p. upd_pub p (\<lambda>pub. pub\<lparr>pub_subscriptions := pub_subscriptions pub - {u}\<rparr>)) (so_local o') s
      in fold (\<lambda>m. upd_remote m (\<lambda>rm. rm\<lparr>rm_subscriptions := rm_subscriptions rm - {u}\<rparr>)) (so_remote o') s)"

definition unsubscribe_name :: "subref \<Rightarrow> go_string \<Rightarrow> server \<Rightarrow> server" where
  "unsubscribe_name u name s =
     (case sv_subsByName s name of
        None \<Rightarrow> s
      | Some subs \<Rightarrow>
          let subs = subs - {u}
          in if subs = {} then s\<lparr>sv_subsByName := (sv_subsByName s)(name := None)\<rparr>
             else s\<lparr>sv_subsByName := (sv_subsByName s)(name \<mapsto> subs)\<rparr>)"

definition unsubscribeLocked :: "runtime \<Rightarrow> subref \<Rightarrow> server \<Rightarrow> server" where
  "unsubscribeLocked rt u s =
     (let s = fold (unsubscribe_option u) (sub_options (sv_sub s u)) s;
          s = fold (unsubscribe_name u) (rt_names rt (gm_keys (sub_indexByName (sv_sub s u)))) s
      in upd_sub u (\<lambda>sub. sub\<lparr>sub_active := 0, sub_options := [], sub_indexByName := []\<rparr>) s)"

end
