(* ===== verification/Server_Changes.thy ===== *)
theory Server_Changes
  imports Server_State
begin

text \<open>
  Streams of service changes, \<^verbatim>\<open>server_changes.go\<close>: a watcher of the directory of
  publications. A stream remembers which target ids its reader has been told about, and collects
  what has changed since; \<^verbatim>\<open>Read\<close> hands the collected changes over in batches.
\<close>

abbreviation (input) maxChangedServicesBatch :: int where "maxChangedServicesBatch \<equiv> 256"

definition newServerServiceChangesStream :: "runtime \<Rightarrow> clientref option \<Rightarrow> server \<Rightarrow> csref \<times> server" where
  "newServerServiceChangesStream rt c s =
     (let (cs, s) = fresh s;
          changed = fold (\<lambda>p m. if 0 < length (pub_endpoints (sv_pub s p))
                               then AList.update (pub_targetID (sv_pub s p)) p m else m)
                      (rt_refs rt (gm_values (sv_pubByTarget s))) [];
          s = upd_cs cs (\<lambda>_. \<lparr>cs_client = c, cs_closed = False, cs_wakeup = 0, cs_sent = {}, cs_removed = {},
                               cs_changed = changed\<rparr>) s;
          s = s\<lparr>sv_pubWatchers := insert cs (sv_pubWatchers s)\<rparr>;
          s = (case c of None \<Rightarrow> s
               | Some c \<Rightarrow> upd_client c (\<lambda>k. k\<lparr>cl_pubWatchers := insert cs (cl_pubWatchers k)\<rparr>) s)
      in (cs, s))"

definition cs_broadcast :: "serverServiceChangesStream \<Rightarrow> serverServiceChangesStream" where
  "cs_broadcast cs = cs\<lparr>cs_wakeup := Suc (cs_wakeup cs)\<rparr>"

definition addRemovedLocked :: "serverPublication \<Rightarrow> serverServiceChangesStream \<Rightarrow> serverServiceChangesStream" where
  "addRemovedLocked pub cs =
     (if \<not> cs_closed cs then
        let cs = cs\<lparr>cs_changed := AList.delete (pub_targetID pub) (cs_changed cs)\<rparr>
        in if pub_targetID pub \<in> cs_sent cs
           then cs_broadcast (cs\<lparr>cs_removed := insert (pub_targetID pub) (cs_removed cs)\<rparr>)
           else cs
      else cs)"

definition addChangedLocked :: "pubref \<Rightarrow> serverPublication \<Rightarrow> serverServiceChangesStream \<Rightarrow> serverServiceChangesStream" where
  "addChangedLocked p pub cs =
     (if \<not> cs_closed cs then
        cs_broadcast (cs\<lparr>cs_removed := cs_removed cs - {pub_targetID pub},
                         cs_changed := AList.update (pub_targetID pub) p (cs_changed cs)\<rparr>)
      else cs)"

text \<open>The loop of \<^verbatim>\<open>Read\<close> over the changed publications, left when the batch is full.\<close>

fun read_changed :: "(pubref \<Rightarrow> serverPublication) \<Rightarrow> i64 list \<Rightarrow> ServiceChange list \<Rightarrow> serverServiceChangesStream \<Rightarrow>
    ServiceChange list \<times> serverServiceChangesStream" where
  "read_changed pubs [] changes cs = (changes, cs)"
| "read_changed pubs (t # ts) changes cs =
     (case map_of (cs_changed cs) t of
        None \<Rightarrow> read_changed pubs ts changes cs
      | Some p \<Rightarrow>
          let cs = cs\<lparr>cs_sent := insert t (cs_sent cs), cs_changed := AList.delete t (cs_changed cs)\<rparr>;
              changes = changes @ [\<lparr>sc_TargetID = t, sc_Name = pub_name (pubs p), sc_Settings = pub_settings (pubs p)\<rparr>]
          in if maxChangedServicesBatch \<le> zlen changes then (changes, cs)
             else read_changed pubs ts changes cs)"

text \<open>
  One round of \<^verbatim>\<open>Read\<close>, from the moment it holds the lock until it returns or waits: the
  result is \<^term>\<open>None\<close> if it waits on the condition variable, which gives up the lock.
\<close>

definition cs_Read :: "runtime \<Rightarrow> (pubref \<Rightarrow> serverPublication) \<Rightarrow> serverServiceChangesStream \<Rightarrow>
    (go_error + ServiceChanges) option \<times> serverServiceChangesStream" where
  "cs_Read rt pubs cs =
     (if cs_closed cs then (Some (Inl IoEOF), cs)
      else
        let removed = rt_ids rt (cs_removed cs);
            cs = cs\<lparr>cs_sent := cs_sent cs - set removed, cs_removed := cs_removed cs - set removed\<rparr>;
            (changed, cs) = read_changed pubs (rt_ids rt (gm_keys (cs_changed cs))) [] cs
        in if 0 < length removed \<or> 0 < length changed
           then (Some (Inr \<lparr>scs_Removed = removed, scs_Changed = changed\<rparr>), cs)
           else (None, cs))"

definition cs_stopLocked :: "csref \<Rightarrow> server \<Rightarrow> server" where
  "cs_stopLocked c s =
     (if \<not> cs_closed (sv_cs s c) then
        let s = upd_cs c (\<lambda>cs. cs\<lparr>cs_closed := True\<rparr>) s;
            s = s\<lparr>sv_pubWatchers := sv_pubWatchers s - {c}\<rparr>;
            s = (case cs_client (sv_cs s c) of None \<Rightarrow> s
                 | Some k \<Rightarrow> upd_client k (\<lambda>k. k\<lparr>cl_pubWatchers := cl_pubWatchers k - {c}\<rparr>) s)
        in upd_cs c cs_broadcast s
      else s)"

section \<open>What a reader knows\<close>

text \<open>
  A reader of the stream keeps a directory: it forgets the removed ids and then enters the changed
  services, as \<^verbatim>\<open>processChanges\<close> in \<^verbatim>\<open>server_peers.go\<close> does.
\<close>

type_synonym directory = "i64 \<rightharpoonup> go_string \<times> PublishSettings"

definition apply_changes :: "ServiceChanges \<Rightarrow> directory \<Rightarrow> directory" where
  "apply_changes ch d =
     fold (\<lambda>c d. d(sc_TargetID c \<mapsto> (sc_Name c, sc_Settings c))) (scs_Changed ch)
       (fold (\<lambda>t d. d(t := None)) (scs_Removed ch) d)"

definition service_entry :: "serverPublication \<Rightarrow> go_string \<times> PublishSettings" where
  "service_entry pub = (pub_name pub, pub_settings pub)"

text \<open>
  The relation between a stream, what its reader knows and the directory of the server: the reader
  knows exactly the ids that were sent; the ids that are neither in \<^verbatim>\<open>removed\<close> nor in
  \<^verbatim>\<open>changed\<close> it knows correctly.
\<close>

definition cs_view :: "serverServiceChangesStream \<Rightarrow> directory \<Rightarrow> (i64 \<rightharpoonup> pubref) \<Rightarrow> (pubref \<Rightarrow> serverPublication) \<Rightarrow> bool" where
  "cs_view cs d dir pubs \<longleftrightarrow>
     gm_wf (cs_changed cs) \<and> finite (cs_removed cs) \<and> dom d = cs_sent cs \<and>
     cs_removed cs \<subseteq> cs_sent cs \<and> cs_removed cs \<inter> dom dir = {} \<and>
     (\<forall>t p. map_of (cs_changed cs) t = Some p \<longrightarrow> dir t = Some p) \<and>
     (\<forall>t. t \<notin> cs_removed cs \<longrightarrow> map_of (cs_changed cs) t = None \<longrightarrow>
        d t = map_option (\<lambda>p. service_entry (pubs p)) (dir t))"

lemma fold_forget: "fold (\<lambda>t d. d(t := None)) ts d = (\<lambda>t. if t \<in> set ts then None else d t)"
  by (induction ts arbitrary: d) (auto simp: fun_eq_iff)

lemma fold_enter_append:
  "apply_changes \<lparr>scs_Removed = r, scs_Changed = cs @ [c]\<rparr> d =
   (apply_changes \<lparr>scs_Removed = r, scs_Changed = cs\<rparr> d)(sc_TargetID c \<mapsto> (sc_Name c, sc_Settings c))"
  by (simp add: apply_changes_def)

text \<open>Every entry the loop hands over brings the reader's directory a step closer.\<close>

lemma cs_view_deliver:
  assumes "cs_view cs d dir pubs" and "map_of (cs_changed cs) t = Some p"
  shows "cs_view (cs\<lparr>cs_sent := insert t (cs_sent cs), cs_changed := AList.delete t (cs_changed cs)\<rparr>)
           (d(t \<mapsto> service_entry (pubs p))) dir pubs"
proof -
  from assms have "dir t = Some p" "cs_removed cs \<inter> dom dir = {}" unfolding cs_view_def by auto
  then have "t \<notin> cs_removed cs" by auto
  with assms \<open>dir t = Some p\<close> show ?thesis unfolding cs_view_def by (auto simp: gomap_simps)
qed

lemma read_changed_view:
  assumes "cs_view cs (apply_changes \<lparr>scs_Removed = r, scs_Changed = changes\<rparr> d) dir pubs"
    and "read_changed pubs ts changes cs = (changes', cs')"
  shows "cs_view cs' (apply_changes \<lparr>scs_Removed = r, scs_Changed = changes'\<rparr> d) dir pubs \<and>
     cs_removed cs' = cs_removed cs \<and> cs_closed cs' = cs_closed cs"
  using assms
proof (induction ts arbitrary: changes cs)
  case (Cons t ts)
  show ?case
  proof (cases "map_of (cs_changed cs) t")
    case None
    with Cons show ?thesis by simp
  next
    case (Some p)
    define c where "c = \<lparr>sc_TargetID = t, sc_Name = pub_name (pubs p), sc_Settings = pub_settings (pubs p)\<rparr>"
    define cs1 where "cs1 = cs\<lparr>cs_sent := insert t (cs_sent cs), cs_changed := AList.delete t (cs_changed cs)\<rparr>"
    have v: "cs_view cs1 (apply_changes \<lparr>scs_Removed = r, scs_Changed = changes @ [c]\<rparr> d) dir pubs"
      using cs_view_deliver [OF Cons.prems(1) Some]
      by (simp add: fold_enter_append c_def cs1_def service_entry_def)
    have same: "cs_removed cs1 = cs_removed cs" "cs_closed cs1 = cs_closed cs" by (simp_all add: cs1_def)
    show ?thesis
    proof (cases "maxChangedServicesBatch \<le> zlen (changes @ [c])")
      case True
      with Cons.prems(2) Some have "changes' = changes @ [c]" "cs' = cs1"
        by (simp_all add: Let_def c_def cs1_def split: if_splits)
      with v same show ?thesis by simp
    next
      case False
      with Cons.prems(2) Some have "read_changed pubs ts (changes @ [c]) cs1 = (changes', cs')"
        by (simp add: Let_def c_def cs1_def split: if_splits)
      from Cons.IH [OF v this] same show ?thesis by simp
    qed
  qed
qed auto

lemma read_changed_grows: "length changes \<le> length (fst (read_changed pubs ts changes cs))"
proof (induction ts arbitrary: changes cs)
  case (Cons t ts)
  have "length changes \<le> length (fst (read_changed pubs ts (changes @ [c]) cs1))" for c cs1
    using Cons.IH [of "changes @ [c]" cs1] by simp
  with Cons.IH show ?case by (simp add: Let_def split: option.split)
qed simp

lemma read_changed_nothing:
  assumes "fst (read_changed pubs ts [] cs) = []" and "t \<in> set ts"
  shows "map_of (cs_changed cs) t = None"
  using assms
proof (induction ts)
  case (Cons u ts)
  show ?case
  proof (cases "map_of (cs_changed cs) u")
    case None
    with Cons show ?thesis by auto
  next
    case (Some p)
    define c where "c = \<lparr>sc_TargetID = u, sc_Name = pub_name (pubs p), sc_Settings = pub_settings (pubs p)\<rparr>"
    have "fst (read_changed pubs ts [c] cs1) \<noteq> []" for cs1
      using read_changed_grows [of "[c]" pubs ts cs1] by auto
    with Some have "fst (read_changed pubs (u # ts) [] cs) \<noteq> []"
      by (simp add: Let_def c_def)
    with Cons.prems show ?thesis by simp
  qed
qed simp

text \<open>The removed ids are forgotten before anything else is delivered.\<close>

lemma cs_view_forget:
  assumes "cs_view cs d dir pubs" and "set r = cs_removed cs"
  shows "cs_view (cs\<lparr>cs_sent := cs_sent cs - set r, cs_removed := cs_removed cs - set r\<rparr>)
           (apply_changes \<lparr>scs_Removed = r, scs_Changed = []\<rparr> d) dir pubs"
proof -
  have d: "apply_changes \<lparr>scs_Removed = r, scs_Changed = []\<rparr> d = (\<lambda>t. if t \<in> set r then None else d t)"
    by (simp add: apply_changes_def fold_forget)
  then have "dom (apply_changes \<lparr>scs_Removed = r, scs_Changed = []\<rparr> d) = dom d - set r"
    by (auto simp: dom_def)
  with assms show ?thesis unfolding cs_view_def d by (auto split: if_splits)
qed

lemma cs_Read_view:
  assumes "runtime_ok rt" and "cs_view cs d dir pubs" and "cs_Read rt pubs cs = (res, cs')" and "\<not> cs_closed cs"
  shows "case res of
      None \<Rightarrow> cs_removed cs = {} \<and> cs_changed cs = [] \<and> cs_view cs' d dir pubs
    | Some (Inl err) \<Rightarrow> False
    | Some (Inr ch) \<Rightarrow> cs_view cs' (apply_changes ch d) dir pubs \<and> cs_removed cs' = {}"
proof -
  define r where "r = rt_ids rt (cs_removed cs)"
  define cs1 where "cs1 = cs\<lparr>cs_sent := cs_sent cs - set r, cs_removed := cs_removed cs - set r\<rparr>"
  define ts where "ts = rt_ids rt (gm_keys (cs_changed cs1))"
  have fin: "finite (cs_removed cs)" "gm_wf (cs_changed cs)" using assms(2) unfolding cs_view_def by auto
  then have r: "set r = cs_removed cs" and ts: "set ts = gm_keys (cs_changed cs1)"
    using assms(1) unfolding runtime_ok_def enumerates_def r_def ts_def by (auto simp: cs1_def)
  have v1: "cs_view cs1 (apply_changes \<lparr>scs_Removed = r, scs_Changed = []\<rparr> d) dir pubs"
    unfolding cs1_def using assms(2) r by (rule cs_view_forget)
  obtain ch cs2 where rc: "read_changed pubs ts [] cs1 = (ch, cs2)" by (meson surj_pair)
  from read_changed_view [OF v1 rc]
  have v2: "cs_view cs2 (apply_changes \<lparr>scs_Removed = r, scs_Changed = ch\<rparr> d) dir pubs" "cs_removed cs2 = cs_removed cs1"
    by simp_all
  have "(res, cs') = (if 0 < length r \<or> 0 < length ch then (Some (Inr \<lparr>scs_Removed = r, scs_Changed = ch\<rparr>), cs2) else (None, cs2))"
    using assms(3,4) rc unfolding cs_Read_def r_def [symmetric] cs1_def [symmetric] ts_def [symmetric] Let_def
    by (simp add: cs1_def [symmetric] ts_def [symmetric])
  moreover have "cs_removed cs1 = {}" using r by (simp add: cs1_def)
  moreover have "cs_removed cs = {} \<and> cs_changed cs = [] \<and> cs_view cs2 d dir pubs" if "r = []" "ch = []"
  proof -
    from that rc have "map_of (cs_changed cs1) t = None" if "t \<in> set ts" for t
      using read_changed_nothing [of pubs ts cs1 t] that by simp
    then have "t \<notin> gm_keys (cs_changed cs1)" for t using ts map_of_None_keys by metis
    then have "cs_changed cs1 = []" by (cases "cs_changed cs1") auto
    with that r v2(1) show ?thesis by (simp add: cs1_def apply_changes_def)
  qed
  ultimately show ?thesis using v2 by (auto split: if_splits)
qed

text \<open>A batch is never longer than the limit.\<close>

lemma read_changed_bound:
  "zlen changes < maxChangedServicesBatch \<Longrightarrow> zlen (fst (read_changed pubs ts changes cs)) \<le> maxChangedServicesBatch"
proof (induction ts arbitrary: changes cs)
  case (Cons t ts)
  have "zlen (fst (read_changed pubs ts (changes @ [c]) cs1)) \<le> maxChangedServicesBatch"
    if "\<not> maxChangedServicesBatch \<le> zlen (changes @ [c])" for c cs1
    using that by (intro Cons.IH) simp
  with Cons show ?case by (auto simp: Let_def split: option.split)
qed simp

text \<open>
  The effect of the two notifications: the directory and the entry of one id have changed, those of
  all others are as before.
\<close>

definition same_services :: "i64 \<Rightarrow> (i64 \<rightharpoonup> pubref) \<Rightarrow> (pubref \<Rightarrow> serverPublication) \<Rightarrow> (i64 \<rightharpoonup> pubref) \<Rightarrow>
    (pubref \<Rightarrow> serverPublication) \<Rightarrow> bool" where
  "same_services t dir pubs dir' pubs' \<longleftrightarrow>
     (\<forall>u. u \<noteq> t \<longrightarrow> dir' u = dir u \<and> (\<forall>p. dir u = Some p \<longrightarrow> service_entry (pubs' p) = service_entry (pubs p)))"

lemma same_services_entry:
  "same_services t dir pubs dir' pubs' \<Longrightarrow> u \<noteq> t \<Longrightarrow>
   map_option (\<lambda>p. service_entry (pubs' p)) (dir' u) = map_option (\<lambda>p. service_entry (pubs p)) (dir u)"
  unfolding same_services_def by (cases "dir u") auto

lemma addRemovedLocked_view:
  assumes "cs_view cs d dir pubs" and "\<not> cs_closed cs"
    and "same_services (pub_targetID pub) dir pubs dir' pubs'" and "dir' (pub_targetID pub) = None"
  shows "cs_view (addRemovedLocked pub cs) d dir' pubs'"
proof -
  have dir': "dir' u = (if u = pub_targetID pub then None else dir u)" for u
    using assms(3,4) unfolding same_services_def by auto
  have "d t = map_option (\<lambda>p. service_entry (pubs' p)) (dir' t)"
    if "t \<notin> cs_removed cs" "map_of (cs_changed cs) t = None" "t \<noteq> pub_targetID pub" for t
    using that assms(1) same_services_entry [OF assms(3) that(3)] unfolding cs_view_def by simp
  then show ?thesis
    using assms(1,2,4) unfolding cs_view_def addRemovedLocked_def cs_broadcast_def
    by (auto simp: Let_def gomap_simps dir' dom_def)
qed

lemma addChangedLocked_view:
  assumes "cs_view cs d dir pubs" and "\<not> cs_closed cs"
    and "same_services (pub_targetID pub) dir pubs dir' pubs'" and "dir' (pub_targetID pub) = Some p"
  shows "cs_view (addChangedLocked p pub cs) d dir' pubs'"
proof -
  have dir': "dir' u = (if u = pub_targetID pub then Some p else dir u)" for u
    using assms(3,4) unfolding same_services_def by auto
  have "d t = map_option (\<lambda>p. service_entry (pubs' p)) (dir' t)"
    if "t \<notin> cs_removed cs" "map_of (cs_changed cs) t = None" "t \<noteq> pub_targetID pub" for t
    using that assms(1) same_services_entry [OF assms(3) that(3)] unfolding cs_view_def by simp
  then show ?thesis
    using assms(1,2,4) unfolding cs_view_def addChangedLocked_def cs_broadcast_def
    by (auto simp: Let_def gomap_simps dir' dom_def)
qed

end
