(* ===== verification/Server_Pubs.thy ===== *)
theory Server_Pubs
  imports Server_Subs Server_Changes
begin

text \<open>
  Publications, \<^verbatim>\<open>server_pubs.go\<close>: endpoints of the clients published under a name and a
  priority, how many requests each of them serves, and the queue of the requests that wait for one.
  The methods whose names end in \<^verbatim>\<open>RLocked\<close> hold the server lock for reading and take the lock
  of the publication; each of them is one atomic step here, except \<^verbatim>\<open>cancelWaiterRLocked\<close> and
  \<^verbatim>\<open>handleRequestRLocked\<close>, which give up a lock on the way and are split there.
\<close>

section \<open>Taking and releasing endpoints\<close>

text \<open>The loop that looks for the endpoint with the fewest active requests.\<close>

fun pick_endpoint :: "(epref \<Rightarrow> localEndpoint) \<Rightarrow> epref list \<Rightarrow> epref option \<Rightarrow> u32 \<Rightarrow> epref option" where
  "pick_endpoint eps [] best active = best"
| "pick_endpoint eps (e # es) best active =
     (if best = None \<or> ep_active (eps e) < active then
        if ep_active (eps e) = 0 then Some e
        else pick_endpoint eps es (Some e) (ep_active (eps e))
      else pick_endpoint eps es best active)"

definition takeEndpointLocked :: "runtime \<Rightarrow> nat \<Rightarrow> pubref \<Rightarrow> server \<Rightarrow> epref option \<times> server" where
  "takeEndpointLocked rt n p s =
     (case pick_endpoint (sv_ep s) (rt_take rt n (pub_ready (sv_pub s p))) None 0 of
        None \<Rightarrow> (None, s)
      | Some best \<Rightarrow>
          let s = upd_ep best (\<lambda>e. e\<lparr>ep_active := ep_active e + 1\<rparr>) s;
              s = (if ep_active (sv_ep s best) = ps_Concurrency (ep_settings (sv_ep s best))
                   then upd_pub p (\<lambda>pub. pub\<lparr>pub_ready := pub_ready pub - {best}\<rparr>) s else s)
          in (Some best, s))"

definition takeEndpointRLocked :: "runtime \<Rightarrow> pubref \<Rightarrow> server \<Rightarrow> epref option \<times> server" where
  "takeEndpointRLocked rt p s = takeEndpointLocked rt 0 p s"

text \<open>\<^verbatim>\<open>waiter <- endpoint; close(waiter)\<close>\<close>

definition deliver :: "waiter \<Rightarrow> epref \<Rightarrow> server \<Rightarrow> server option" where
  "deliver w e s = do {
     ch \<leftarrow> chan_send (sv_chan s w) e;
     ch \<leftarrow> chan_close ch;
     Some (s\<lparr>sv_chan := (sv_chan s)(w := ch)\<rparr>)
   }"

definition close_waiter :: "waiter \<Rightarrow> server \<Rightarrow> server option" where
  "close_waiter w s = do { ch \<leftarrow> chan_close (sv_chan s w); Some (s\<lparr>sv_chan := (sv_chan s)(w := ch)\<rparr>) }"

definition releaseEndpointRLocked :: "pubref \<Rightarrow> epref \<Rightarrow> server \<Rightarrow> server option" where
  "releaseEndpointRLocked p e s =
     (case ep_pub (sv_ep s e) of
        None \<Rightarrow> Some s
      | Some q \<Rightarrow>
          (case pub_queue (sv_pub s p) of
             w # ws \<Rightarrow> deliver w e (upd_pub p (\<lambda>pub. pub\<lparr>pub_queue := ws\<rparr>) s)
           | [] \<Rightarrow>
               let s = upd_ep e (\<lambda>e. e\<lparr>ep_active := ep_active e - 1\<rparr>) s
               in Some (upd_pub q (\<lambda>pub. pub\<lparr>pub_ready := insert e (pub_ready pub)\<rparr>) s)))"

section \<open>Waiting\<close>

definition queueWaiterRLocked :: "pubref \<Rightarrow> server \<Rightarrow> waiter option \<times> server" where
  "queueWaiterRLocked p s =
     (if uint (ps_QueueSize (pub_settings (sv_pub s p))) \<le> zlen (pub_queue (sv_pub s p)) then (None, s)
      else
        let (w, s) = fresh s;
            s = s\<lparr>sv_chan := (sv_chan s)(w := \<lparr>wc_value = None, wc_closed = False\<rparr>)\<rparr>
        in (Some w, upd_pub p (\<lambda>pub. pub\<lparr>pub_queue := pub_queue pub @ [w]\<rparr>) s))"

text \<open>
  The first half of \<^verbatim>\<open>cancelWaiterRLocked\<close>: the search under the lock of the publication. If
  the waiter is no longer in the queue, the code goes on to receive from the channel (which must not
  block) and to release the endpoint it gets; that is in the theory of requests.
\<close>

definition cancelWaiter_search :: "pubref \<Rightarrow> waiter \<Rightarrow> server \<Rightarrow> bool \<times> server" where
  "cancelWaiter_search p w s =
     (case remove_ref w (pub_queue (sv_pub s p)) of
        Some q \<Rightarrow> (True, upd_pub p (\<lambda>pub. pub\<lparr>pub_queue := q\<rparr>) s)
      | None \<Rightarrow> (False, s))"

text \<open>
  The loop of \<^verbatim>\<open>wakeupWaitersLocked\<close> over the first \<open>n\<close> waiters: how many of them got an
  endpoint.
\<close>

fun wakeup_loop :: "runtime \<Rightarrow> pubref \<Rightarrow> nat \<Rightarrow> waiter list \<Rightarrow> server \<Rightarrow> (nat \<times> server) option" where
  "wakeup_loop rt p i [] s = Some (i, s)"
| "wakeup_loop rt p i (w # ws) s =
     (case takeEndpointLocked rt i p s of
        (None, s) \<Rightarrow> Some (i, s)
      | (Some e, s) \<Rightarrow> (case deliver w e s of None \<Rightarrow> None | Some s \<Rightarrow> wakeup_loop rt p (Suc i) ws s))"

definition wakeupWaitersLocked :: "runtime \<Rightarrow> pubref \<Rightarrow> nat \<Rightarrow> server \<Rightarrow> (nat \<times> server) option" where
  "wakeupWaitersLocked rt p n s =
     (let n = (if length (pub_queue (sv_pub s p)) < n then length (pub_queue (sv_pub s p)) else n)
      in if 0 < n then do {
           (n, s) \<leftarrow> wakeup_loop rt p 0 (take n (pub_queue (sv_pub s p))) s;
           Some (n, upd_pub p (\<lambda>pub. pub\<lparr>pub_queue := drop n (pub_queue pub)\<rparr>) s)
         } else Some (n, s))"

definition pub_getEndpoints :: "serverPublication \<Rightarrow> Endpoint list" where
  "pub_getEndpoints pub = [\<lparr>e_Network = [], e_Address = [], e_TargetID = pub_targetID pub\<rparr>]"

section \<open>Publishing\<close>

definition notify_changed :: "runtime \<Rightarrow> pubref \<Rightarrow> server \<Rightarrow> server" where
  "notify_changed rt p s =
     fold (\<lambda>c s. upd_cs c (addChangedLocked p (sv_pub s p)) s) (rt_refs rt (sv_pubWatchers s)) s"

definition notify_removed :: "runtime \<Rightarrow> pubref \<Rightarrow> server \<Rightarrow> server" where
  "notify_removed rt p s =
     fold (\<lambda>c s. upd_cs c (addRemovedLocked (sv_pub s p)) s) (rt_refs rt (sv_pubWatchers s)) s"

definition subs_named :: "server \<Rightarrow> go_string \<Rightarrow> subref set" where
  "subs_named s name = (case sv_subsByName s name of None \<Rightarrow> {} | Some subs \<Rightarrow> subs)"

text \<open>The branch that creates a publication for a name and a priority which has none.\<close>

definition publish_new :: "runtime \<Rightarrow> go_string \<Rightarrow> PublishSettings \<Rightarrow> server \<Rightarrow> (pubref \<times> server) option" where
  "publish_new rt name settings s = do {
     let (t, s) = allocateTargetID s;
     let (p, s) = fresh s;
     let s = upd_pub p (\<lambda>_. \<lparr>pub_name = name, pub_targetID = t, pub_endpoints = [], pub_settings = settings,
               pub_maxDistanceCounts = [], pub_ready = {}, pub_queue = [], pub_subscriptions = {}\<rparr>) s;
     let s = s\<lparr>sv_pubsByName := (sv_pubsByName s)(name \<mapsto> AList.update (ps_Priority settings) p (pubs_named s name)),
               sv_pubByTarget := AList.update t p (sv_pubByTarget s)\<rparr>;
     s \<leftarrow> range_loop (\<lambda>u. sub_addPublication rt u p) (rt_refs rt (subs_named s name)) s;
     Some (p, s)
   }"

text \<open>The branch that adds to an existing publication, with its three checks.\<close>

definition publish_merge :: "eref \<Rightarrow> localEndpointKey \<Rightarrow> PublishSettings \<Rightarrow> serverPublication \<Rightarrow> go_error + serverPublication" where
  "publish_merge ref key settings pub =
     (let old = pub_settings pub;
          fail = (\<lambda>what. Inl (OtherError ref (str ''new endpoint with target='' @ show_int (sint (snd key)) @ what) False))
      in if map_of (pub_endpoints pub) key \<noteq> None then fail (str '' conflicts with a previous publication'')
         else if ps_Concurrency old + ps_Concurrency settings < ps_Concurrency old then
           fail (str '' overflows maximum capacity'')
         else if ps_QueueSize old + ps_QueueSize settings < ps_QueueSize old then
           fail (str '' overflows maximum queue size'')
         else
           let new = (if ps_MaxDistance old < ps_MaxDistance settings then old\<lparr>ps_MaxDistance := ps_MaxDistance settings\<rparr> else old)
           in Inr (pub\<lparr>pub_settings := new\<lparr>ps_Concurrency := ps_Concurrency new + ps_Concurrency settings,
                                            ps_QueueSize := ps_QueueSize new + ps_QueueSize settings\<rparr>\<rparr>))"

definition count_of :: "(u32, int) gomap \<Rightarrow> u32 \<Rightarrow> int" where
  "count_of m d = (case map_of m d of None \<Rightarrow> 0 | Some n \<Rightarrow> n)"

text \<open>What both branches go on with.\<close>

definition publish_endpoint :: "runtime \<Rightarrow> pubref \<Rightarrow> localEndpointKey \<Rightarrow> PublishSettings \<Rightarrow> server \<Rightarrow> (epref \<times> server) option" where
  "publish_endpoint rt p key settings s = do {
     let d = ps_MaxDistance settings;
     let s = upd_pub p (\<lambda>pub. pub\<lparr>pub_maxDistanceCounts :=
               AList.update d (count_of (pub_maxDistanceCounts pub) d + 1) (pub_maxDistanceCounts pub)\<rparr>) s;
     let (e, s) = fresh s;
     let s = upd_ep e (\<lambda>_. \<lparr>ep_pub = Some p, ep_key = key, ep_active = 0, ep_settings = settings\<rparr>) s;
     let s = upd_pub p (\<lambda>pub. pub\<lparr>pub_endpoints := AList.update key e (pub_endpoints pub),
                                  pub_ready := insert e (pub_ready pub)\<rparr>) s;
     (_, s) \<leftarrow> wakeupWaitersLocked rt p (unat (ps_Concurrency settings)) s;
     Some (e, notify_changed rt p s)
   }"

definition publishLocked :: "runtime \<Rightarrow> eref \<Rightarrow> go_string \<Rightarrow> localEndpointKey \<Rightarrow> PublishSettings \<Rightarrow> server \<Rightarrow>
    ((go_error + epref) \<times> server) option" where
  "publishLocked rt ref name key settings s = do {
     let s = (case sv_pubsByName s name of None \<Rightarrow> s\<lparr>sv_pubsByName := (sv_pubsByName s)(name \<mapsto> [])\<rparr> | Some _ \<Rightarrow> s);
     case map_of (pubs_named s name) (ps_Priority settings) of
       None \<Rightarrow> do {
         (p, s) \<leftarrow> publish_new rt name settings s;
         (e, s) \<leftarrow> publish_endpoint rt p key settings s;
         Some (Inr e, s)
       }
     | Some p \<Rightarrow>
         (case publish_merge ref key settings (sv_pub s p) of
            Inl err \<Rightarrow> Some (Inl err, s)
          | Inr pub \<Rightarrow> do {
              (e, s) \<leftarrow> publish_endpoint rt p key settings (upd_pub p (\<lambda>_. pub) s);
              Some (Inr e, s)
            })
   }"

section \<open>Unpublishing\<close>

text \<open>The maximum is taken over the keys of a map; the order in which they are visited makes no difference.\<close>

definition max_distance :: "(u32, int) gomap \<Rightarrow> u32" where
  "max_distance counts = fold (\<lambda>d m. if m < d then d else m) (map fst counts) 0"

definition withdraw_endpoint :: "epref \<Rightarrow> localEndpoint \<Rightarrow> serverPublication \<Rightarrow> serverPublication" where
  "withdraw_endpoint e ep pub =
     (let pub = pub\<lparr>pub_ready := pub_ready pub - {e}\<rparr>;
          (counts, gone) = decrementCounterUint32 (pub_maxDistanceCounts pub) (ps_MaxDistance (ep_settings ep));
          pub = pub\<lparr>pub_maxDistanceCounts := counts\<rparr>;
          settings = (if gone then (pub_settings pub)\<lparr>ps_MaxDistance := max_distance counts\<rparr> else pub_settings pub)
      in pub\<lparr>pub_settings := settings\<lparr>ps_Concurrency := ps_Concurrency settings - ps_Concurrency (ep_settings ep),
                                      ps_QueueSize := ps_QueueSize settings - ps_QueueSize (ep_settings ep)\<rparr>,
             pub_endpoints := AList.delete (ep_key ep) (pub_endpoints pub)\<rparr>)"

text \<open>The last endpoint is gone: the publication leaves the directory and its waiters are woken.\<close>

definition forget_pub :: "pubref \<Rightarrow> server \<Rightarrow> server" where
  "forget_pub p s =
     (let pub = sv_pub s p;
          s = s\<lparr>sv_pubByTarget := AList.delete (pub_targetID pub) (sv_pubByTarget s)\<rparr>
      in case sv_pubsByName s (pub_name pub) of
           None \<Rightarrow> s
         | Some pubs \<Rightarrow>
             let pubs = AList.delete (ps_Priority (pub_settings pub)) pubs
             in if length pubs = 0 then s\<lparr>sv_pubsByName := (sv_pubsByName s)(pub_name pub := None)\<rparr>
                else s\<lparr>sv_pubsByName := (sv_pubsByName s)(pub_name pub \<mapsto> pubs)\<rparr>)"

definition unpublish_last :: "runtime \<Rightarrow> pubref \<Rightarrow> server \<Rightarrow> server option" where
  "unpublish_last rt p s = do {
     let s = forget_pub p s;
     s \<leftarrow> range_loop close_waiter (pub_queue (sv_pub s p)) s;
     let s = upd_pub p (\<lambda>pub. pub\<lparr>pub_queue := []\<rparr>) s;
     let s = notify_removed rt p s;
     range_loop (\<lambda>u. sub_removePublication u p) (rt_refs rt (pub_subscriptions (sv_pub s p))) s
   }"

definition unpublish_some :: "runtime \<Rightarrow> pubref \<Rightarrow> server \<Rightarrow> server option" where
  "unpublish_some rt p s = do {
     let n = unat (ps_QueueSize (pub_settings (sv_pub s p)));
     s \<leftarrow> (if n < length (pub_queue (sv_pub s p)) then do {
             s \<leftarrow> range_loop close_waiter (drop n (pub_queue (sv_pub s p))) s;
             Some (upd_pub p (\<lambda>pub. pub\<lparr>pub_queue := take n (pub_queue pub)\<rparr>) s)
           } else Some s);
     Some (notify_changed rt p s)
   }"

definition unpublishLocked :: "runtime \<Rightarrow> eref \<Rightarrow> epref \<Rightarrow> server \<Rightarrow> (go_error option \<times> server) option" where
  "unpublishLocked rt ref e s =
     (case ep_pub (sv_ep s e) of
        None \<Rightarrow> Some (Some (OtherError ref (str ''endpoint is not published'') False), s)
      | Some p \<Rightarrow> do {
          let s = upd_ep e (\<lambda>ep. ep\<lparr>ep_pub := None\<rparr>) s;
          let s = upd_pub p (withdraw_endpoint e (sv_ep s e)) s;
          s \<leftarrow> (if length (pub_endpoints (sv_pub s p)) = 0 then unpublish_last rt p s else unpublish_some rt p s);
          Some (None, s)
        })"

end
