(* ===== verification/Server_Routes.thy ===== *)
theory Server_Routes
  imports Server_Pubs
begin

text \<open>
  Routes, \<^verbatim>\<open>server_routes.go\<close>, and what \<^verbatim>\<open>getEndpointsRLocked\<close> returns for each of the
  things a subscription can lead to. A route replaces a service by a weighted choice of other
  subscriptions, which the server makes itself and which do not follow routes.
\<close>

section \<open>Setting a route\<close>

text \<open>
  The loop at the end of \<^verbatim>\<open>setRouteLocked\<close>: one subscription per case. A route without
  options makes \<^verbatim>\<open>subscribeLocked\<close> fail, and the code panics.
\<close>

fun build_cases :: "runtime \<Rightarrow> eref \<Rightarrow> Route list \<Rightarrow> server \<Rightarrow> (serverRouteCase list \<times> server) option" where
  "build_cases rt ref [] s = Some ([], s)"
| "build_cases rt ref (route # routes) s =
     (case subscribeLocked rt ref \<lparr>ss_Options = route_Options route, ss_DisableRoutes = True\<rparr> s of
        None \<Rightarrow> None
      | Some (Inl err, s) \<Rightarrow> None
      | Some (Inr u, s) \<Rightarrow>
          (case build_cases rt ref routes s of
             None \<Rightarrow> None
           | Some (cases, s) \<Rightarrow> Some (\<lparr>rc_sub = u, rc_weight = route_Weight route\<rparr> # cases, s)))"

definition unsubscribe_cases :: "runtime \<Rightarrow> serverRouteCase list \<Rightarrow> server \<Rightarrow> server" where
  "unsubscribe_cases rt cases s = fold (\<lambda>c. unsubscribeLocked rt (rc_sub c)) cases s"

definition set_cases :: "runtime \<Rightarrow> eref \<Rightarrow> routeref \<Rightarrow> server \<Rightarrow> server option" where
  "set_cases rt ref r s = do {
     (cases, s) \<leftarrow> build_cases rt ref (ro_routes (sv_route s r)) s;
     Some (upd_route r (\<lambda>ro. ro\<lparr>ro_cases := cases\<rparr>) s)
   }"

definition setRouteLocked :: "runtime \<Rightarrow> eref \<Rightarrow> go_string \<Rightarrow> Route list \<Rightarrow> server \<Rightarrow> server option" where
  "setRouteLocked rt ref name routes s =
     (case map_of (sv_routeByName s) name of
        None \<Rightarrow>
          if length routes = 0 then Some s
          else do {
            let (r, s) = fresh s;
            let s = upd_route r (\<lambda>_. \<lparr>ro_name = name, ro_routes = routes, ro_cases = [], ro_subscriptions = {}\<rparr>) s;
            let s = s\<lparr>sv_routeByName := AList.update name r (sv_routeByName s)\<rparr>;
            s \<leftarrow> range_loop (\<lambda>u. sub_addRoute u r) (rt_refs rt (subs_named s name)) s;
            set_cases rt ref r s
          }
      | Some r \<Rightarrow>
          if length routes = 0 then do {
            s \<leftarrow> range_loop (\<lambda>u. sub_removeRoute u r) (rt_refs rt (ro_subscriptions (sv_route s r))) s;
            let s = upd_route r (\<lambda>ro. ro\<lparr>ro_subscriptions := {}\<rparr>) s;
            let s = unsubscribe_cases rt (ro_cases (sv_route s r)) s;
            let s = upd_route r (\<lambda>ro. ro\<lparr>ro_cases := [], ro_routes := []\<rparr>) s;
            Some (s\<lparr>sv_routeByName := AList.delete name (sv_routeByName s)\<rparr>)
          }
          else if ro_routes (sv_route s r) = routes then Some s
          else
            let s = unsubscribe_cases rt (ro_cases (sv_route s r)) s;
                s = upd_route r (\<lambda>ro. ro\<lparr>ro_cases := [], ro_routes := routes\<rparr>) s
            in set_cases rt ref r s)"

section \<open>Choosing a case\<close>

definition case_counts :: "server \<Rightarrow> serverRouteCase \<Rightarrow> bool" where
  "case_counts s c \<longleftrightarrow> 0 < rc_weight c \<and> sub_isActive (sv_sub s (rc_sub c))"

text \<open>The sum of the weights, an \<^verbatim>\<open>int64\<close> that cannot overflow for less than $2^{31}$ cases.\<close>

definition weight_sum :: "server \<Rightarrow> serverRouteCase list \<Rightarrow> int" where
  "weight_sum s cases = fold (\<lambda>c sum. if case_counts s c then sum + uint (rc_weight c) else sum) cases 0"

fun choose_case :: "server \<Rightarrow> int \<Rightarrow> serverRouteCase list \<Rightarrow> subref option" where
  "choose_case s bin [] = None"
| "choose_case s bin (c # cases) =
     (if case_counts s c then
        if bin < uint (rc_weight c) then Some (rc_sub c) else choose_case s (bin - uint (rc_weight c)) cases
      else choose_case s bin cases)"

text \<open>
  Where a request to a route goes; \<open>rnd n\<close> is the value of \<^verbatim>\<open>Int63n(n)\<close>. The outer option is
  the panic of the code if no case matches, the inner one the status \<^verbatim>\<open>NoRoute\<close>.
\<close>

definition route_choose :: "server \<Rightarrow> (int \<Rightarrow> int) \<Rightarrow> serverRoute \<Rightarrow> subref option option" where
  "route_choose s rnd ro =
     (let sum = weight_sum s (ro_cases ro)
      in if sum = 0 then Some None
         else case choose_case s (rnd sum) (ro_cases ro) of None \<Rightarrow> None | Some u \<Rightarrow> Some (Some u))"

section \<open>Endpoints\<close>

definition remote_getEndpoints :: "server \<Rightarrow> serverPeerRemote \<Rightarrow> Endpoint list" where
  "remote_getEndpoints s rm =
     (case rm_peer rm of
        Some pe \<Rightarrow> [\<lparr>e_Network = fst (pe_key (sv_peer s pe)), e_Address = snd (pe_key (sv_peer s pe)), e_TargetID = rm_targetID rm\<rparr>]
      | None \<Rightarrow> [])"

text \<open>
  The methods of routes, options and subscriptions call each other: an option may have a route,
  whose cases are subscriptions. The subscriptions of a route disable routes, so the recursion ends
  there; the argument is the number of calls that may still be nested.
\<close>

fun sub_getEndpoints :: "nat \<Rightarrow> server \<Rightarrow> subref \<Rightarrow> Endpoint list" where
  "sub_getEndpoints 0 s u = []"
| "sub_getEndpoints (Suc n) s u =
     (let sub = sv_sub s u
      in if sub_active sub < zlen (sub_options sub) then
           let o' = sub_options sub ! nat (sub_active sub)
           in case so_route o' of
                Some r \<Rightarrow> concat (map (\<lambda>c. if case_counts s c then sub_getEndpoints n s (rc_sub c) else []) (ro_cases (sv_route s r)))
              | None \<Rightarrow>
                  if 0 < length (so_local o') \<and> so_localPriority o' \<le> so_remotePriority o'
                  then pub_getEndpoints (sv_pub s (so_local o' ! 0))
                  else concat (map (\<lambda>m. if remote_priority s m = so_remotePriority o' then remote_getEndpoints s (sv_remote s m) else [])
                         (so_remote o'))
         else [])"

text \<open>Where a request to an option without a route goes; \<open>rnd n\<close> is the value of \<^verbatim>\<open>Intn(n)\<close>.\<close>

datatype target = ToPub pubref | ToRemote remoteref

definition option_choose :: "(int \<Rightarrow> int) \<Rightarrow> serverSubscriptionOption \<Rightarrow> target option option" where
  "option_choose rnd o' =
     (if 0 < length (so_local o') \<and> so_localPriority o' \<le> so_remotePriority o' then Some (Some (ToPub (so_local o' ! 0)))
      else if 0 < so_remoteCount o' then
        let i = (if 1 < so_remoteCount o' then rnd (so_remoteCount o') else 0)
        in case index (so_remote o') i of None \<Rightarrow> None | Some m \<Rightarrow> Some (Some (ToRemote m))
      else Some None)"

text \<open>
  The whole way of a request through a subscription, down to the publication or remote that handles
  it: a subscription passes it to its active option, an option to its route, a route to one of its
  cases.
\<close>

fun sub_choose :: "nat \<Rightarrow> (int \<Rightarrow> int) \<Rightarrow> server \<Rightarrow> subref \<Rightarrow> target option option" where
  "sub_choose 0 rnd s u = None"
| "sub_choose (Suc n) rnd s u =
     (let sub = sv_sub s u
      in if sub_active sub < zlen (sub_options sub) then
           (case index (sub_options sub) (sub_active sub) of
              None \<Rightarrow> None
            | Some o' \<Rightarrow>
                (case so_route o' of
                   Some r \<Rightarrow>
                     (case route_choose s rnd (sv_route s r) of
                        None \<Rightarrow> None
                      | Some None \<Rightarrow> Some None
                      | Some (Some u') \<Rightarrow> sub_choose n rnd s u')
                 | None \<Rightarrow> option_choose rnd o'))
         else Some None)"

end
