(* ===== verification/Server_Peers.thy ===== *)
theory Server_Peers
  imports Server_Routes
begin

text \<open>
  Peers, \<^verbatim>\<open>server_peers.go\<close>: other servers whose services this server learns from their
  streams of service changes, and the search for the best endpoint of a service over local
  publications and peers (\<^verbatim>\<open>findEndpointRLocked\<close> of \<^verbatim>\<open>server.go\<close>). A connection to a peer is
  an address; the goroutines that dial and listen are in the theory of peers at work.
\<close>

section \<open>Remotes\<close>

definition peer_forget :: "remoteref \<Rightarrow> serverPeerRemote \<Rightarrow> serverPeer \<Rightarrow> serverPeer" where
  "peer_forget m rm peer =
     (let peer = (case pe_remotesByName peer (rm_name rm) of
                    None \<Rightarrow> peer
                  | Some remotes \<Rightarrow>
                      let remotes = AList.delete (rm_targetID rm) remotes
                      in if length remotes = 0 then peer\<lparr>pe_remotesByName := (pe_remotesByName peer)(rm_name rm := None)\<rparr>
                         else peer\<lparr>pe_remotesByName := (pe_remotesByName peer)(rm_name rm \<mapsto> remotes)\<rparr>)
      in peer\<lparr>pe_remotesByTarget := AList.delete (rm_targetID rm) (pe_remotesByTarget peer)\<rparr>)"

definition remote_removeLocked :: "runtime \<Rightarrow> remoteref \<Rightarrow> server \<Rightarrow> server option" where
  "remote_removeLocked rt m s =
     (case rm_peer (sv_remote s m) of
        None \<Rightarrow> Some s
      | Some pe \<Rightarrow>
          if pe_client (sv_peer s pe) \<noteq> rm_client (sv_remote s m) then Some s
          else do {
            let s = upd_remote m (\<lambda>rm. rm\<lparr>rm_peer := None\<rparr>) s;
            s \<leftarrow> range_loop (\<lambda>u. sub_removeRemote u m) (rt_refs rt (rm_subscriptions (sv_remote s m))) s;
            Some (upd_peer pe (peer_forget m (sv_remote s m)) s)
          })"

definition peer_enter :: "remoteref \<Rightarrow> serverPeerRemote \<Rightarrow> serverPeer \<Rightarrow> serverPeer" where
  "peer_enter m rm peer =
     (let remotes = (case pe_remotesByName peer (rm_name rm) of None \<Rightarrow> [] | Some remotes \<Rightarrow> remotes)
      in peer\<lparr>pe_remotesByName := (pe_remotesByName peer)(rm_name rm \<mapsto> AList.update (rm_targetID rm) m remotes),
              pe_remotesByTarget := AList.update (rm_targetID rm) m (pe_remotesByTarget peer)\<rparr>)"

definition add_new_remote :: "runtime \<Rightarrow> peerref \<Rightarrow> ServiceChange \<Rightarrow> server \<Rightarrow> server option" where
  "add_new_remote rt pe change s = do {
     let (m, s) = fresh s;
     let s = upd_remote m (\<lambda>_. \<lparr>rm_peer = Some pe, rm_client = pe_client (sv_peer s pe), rm_targetID = sc_TargetID change,
               rm_name = sc_Name change, rm_distance = pe_distance (sv_peer s pe), rm_settings = sc_Settings change,
               rm_subscriptions = {}\<rparr>) s;
     let s = upd_peer pe (peer_enter m (sv_remote s m)) s;
     range_loop (\<lambda>u. sub_addRemote rt u m) (rt_refs rt (subs_named s (sc_Name change))) s
   }"

definition peer_addRemoteLocked :: "runtime \<Rightarrow> peerref \<Rightarrow> ServiceChange \<Rightarrow> server \<Rightarrow> server option" where
  "peer_addRemoteLocked rt pe change s =
     (let known = map_of (pe_remotesByTarget (sv_peer s pe)) (sc_TargetID change)
      in if ps_MaxDistance (sc_Settings change) < pe_distance (sv_peer s pe) then
           (case known of None \<Rightarrow> Some s | Some m \<Rightarrow> remote_removeLocked rt m s)
         else case known of
           None \<Rightarrow> add_new_remote rt pe change s
         | Some m \<Rightarrow>
             if rm_name (sv_remote s m) = sc_Name change \<and>
                ps_Priority (sc_Settings change) = ps_Priority (rm_settings (sv_remote s m))
             then Some (upd_remote m (\<lambda>rm. rm\<lparr>rm_settings := sc_Settings change\<rparr>) s)
             else do {
               s \<leftarrow> remote_removeLocked rt m s;
               add_new_remote rt pe change s
             })"

definition processChanges :: "runtime \<Rightarrow> peerref \<Rightarrow> connref \<Rightarrow> ServiceChanges \<Rightarrow> server \<Rightarrow> (bool \<times> server) option" where
  "processChanges rt pe client changes s =
     (if pe_client (sv_peer s pe) \<noteq> Some client \<or> pe_failure (sv_peer s pe) \<noteq> None then Some (False, s)
      else do {
        s \<leftarrow> range_loop (\<lambda>t s. case map_of (pe_remotesByTarget (sv_peer s pe)) t of
                                None \<Rightarrow> Some s | Some m \<Rightarrow> remote_removeLocked rt m s) (scs_Removed changes) s;
        s \<leftarrow> range_loop (peer_addRemoteLocked rt pe) (scs_Changed changes) s;
        Some (True, s)
      })"

section \<open>Peers\<close>

definition addPeerLocked :: "eref \<Rightarrow> go_string \<Rightarrow> go_string \<Rightarrow> u32 \<Rightarrow> server \<Rightarrow> go_error option \<times> server" where
  "addPeerLocked ref network address distance s =
     (let key = (network, address)
      in case map_of (sv_peers s) key of
           Some _ \<Rightarrow> (Some (OtherError ref (str ''peer for '' @ network @ str '':'' @ address @ str '' already exists'') False), s)
         | None \<Rightarrow>
             let (pe, s) = fresh s;
                 s = upd_peer pe (\<lambda>_. \<lparr>pe_key = key, pe_distance = distance, pe_failure = None, pe_failed = False,
                       pe_client = None, pe_remotesByTarget = [], pe_remotesByName = Map.empty\<rparr>) s
             in (None, s\<lparr>sv_peers := AList.update key pe (sv_peers s)\<rparr>))"

definition peer_closeWithErrorLocked :: "go_error \<Rightarrow> serverPeer \<Rightarrow> serverPeer option" where
  "peer_closeWithErrorLocked err peer =
     (if pe_failure peer = None then do {
        ch \<leftarrow> close_chan (pe_failed peer);
        Some (peer\<lparr>pe_failure := Some err, pe_failed := ch\<rparr>)
      } else Some peer)"

definition attachClient :: "peerref \<Rightarrow> connref \<Rightarrow> server \<Rightarrow> server" where
  "attachClient pe client s = upd_peer pe (\<lambda>peer. peer\<lparr>pe_client := Some client\<rparr>) s"

definition detachClient :: "runtime \<Rightarrow> peerref \<Rightarrow> connref \<Rightarrow> server \<Rightarrow> server option" where
  "detachClient rt pe client s =
     (if pe_client (sv_peer s pe) = Some client then do {
        s \<leftarrow> range_loop (remote_removeLocked rt) (rt_refs rt (gm_values (pe_remotesByTarget (sv_peer s pe)))) s;
        Some (upd_peer pe (\<lambda>peer. peer\<lparr>pe_client := None\<rparr>) s)
      } else Some s)"

section \<open>The best endpoint (server.go)\<close>

definition isBetterEndpoint :: "u32 \<Rightarrow> u32 \<Rightarrow> u32 \<Rightarrow> u32 \<Rightarrow> bool" where
  "isBetterEndpoint priority minFoundPriority distance minFoundDistance =
     (if priority < minFoundPriority then True
      else if priority \<noteq> minFoundPriority then False
      else if minFoundDistance < 2 then False
      else distance < minFoundDistance)"

text \<open>What \<^verbatim>\<open>endpointReference\<close> stands for in the result of \<^verbatim>\<open>findEndpointRLocked\<close>.\<close>

datatype endpointReference = RefRoute routeref | RefPub pubref | RefRemote remoteref

type_synonym found = "(endpointReference \<times> u32 \<times> u32) option"

text \<open>
  The loop over the local publications. Its early return is \<^term>\<open>Inl\<close>; otherwise what has been
  found, with its priority and distance.
\<close>

fun find_local :: "server \<Rightarrow> pubref list \<Rightarrow> found \<Rightarrow> pubref + found" where
  "find_local s [] found = Inr found"
| "find_local s (p # ps) found =
     (let priority = pub_priority s p
      in if (case found of None \<Rightarrow> True | Some (_, minFoundPriority, _) \<Rightarrow> priority < minFoundPriority) then
           if priority = 0 then Inl p
           else find_local s ps (Some (RefPub p, priority, 0))
         else find_local s ps found)"

fun find_remotes :: "server \<Rightarrow> u32 \<Rightarrow> remoteref list \<Rightarrow> found \<Rightarrow> found" where
  "find_remotes s distance [] found = found"
| "find_remotes s distance (m # ms) found =
     (let priority = remote_priority s m
      in if (case found of None \<Rightarrow> True
             | Some (_, minFoundPriority, minFoundDistance) \<Rightarrow>
                 isBetterEndpoint priority minFoundPriority distance minFoundDistance)
         then find_remotes s distance ms (Some (RefRemote m, priority, distance))
         else find_remotes s distance ms found)"

fun find_peers :: "runtime \<Rightarrow> server \<Rightarrow> go_string \<Rightarrow> u32 \<Rightarrow> u32 \<Rightarrow> peerref list \<Rightarrow> found \<Rightarrow> found" where
  "find_peers rt s name minDistance maxDistance [] found = found"
| "find_peers rt s name minDistance maxDistance (pe # pes) found =
     (let distance = pe_distance (sv_peer s pe)
      in if distance < minDistance \<or> maxDistance < distance
         then find_peers rt s name minDistance maxDistance pes found
         else find_peers rt s name minDistance maxDistance pes
                (find_remotes s distance (rt_refs rt (gm_values (remotes_named (sv_peer s pe) name))) found))"

definition findEndpointRLocked :: "runtime \<Rightarrow> server \<Rightarrow> go_string \<Rightarrow> u32 \<Rightarrow> u32 \<Rightarrow> endpointReference option" where
  "findEndpointRLocked rt s name minDistance maxDistance =
     (case map_of (sv_routeByName s) name of
        Some r \<Rightarrow> Some (RefRoute r)
      | None \<Rightarrow>
          let pubs = pubs_named s name
          in case (if 0 < length pubs \<and> minDistance = 0 then find_local s (rt_refs rt (gm_values pubs)) None else Inr None) of
               Inl p \<Rightarrow> Some (RefPub p)
             | Inr found \<Rightarrow> map_option fst (find_peers rt s name minDistance maxDistance (rt_refs rt (gm_values (sv_peers s))) found))"

section \<open>The best endpoint, declaratively\<close>

text \<open>The candidates for a request, with priority and distance: local publications have distance 0.\<close>

definition candidate :: "server \<Rightarrow> go_string \<Rightarrow> u32 \<Rightarrow> u32 \<Rightarrow> endpointReference \<Rightarrow> u32 \<Rightarrow> u32 \<Rightarrow> bool" where
  "candidate s name minDistance maxDistance ref priority distance \<longleftrightarrow>
     (\<exists>p. ref = RefPub p \<and> p \<in> gm_values (pubs_named s name) \<and> minDistance = 0 \<and> priority = pub_priority s p \<and> distance = 0) \<or>
     (\<exists>pe m. ref = RefRemote m \<and> pe \<in> gm_values (sv_peers s) \<and> m \<in> gm_values (remotes_named (sv_peer s pe) name) \<and>
        distance = pe_distance (sv_peer s pe) \<and> minDistance \<le> distance \<and> distance \<le> maxDistance \<and>
        priority = remote_priority s m)"

text \<open>
  The order of the comment above \<^verbatim>\<open>findEndpointRLocked\<close>: first the priority, then the distance,
  where 0 and 1 are the same data centre.
\<close>

definition distance_class :: "u32 \<Rightarrow> u32" where
  "distance_class d = (if d < 2 then 0 else d)"

definition no_worse :: "u32 \<times> u32 \<Rightarrow> u32 \<times> u32 \<Rightarrow> bool" where
  "no_worse a b \<longleftrightarrow> fst a < fst b \<or> fst a = fst b \<and> distance_class (snd a) \<le> distance_class (snd b)"

lemma no_worse_trans: "no_worse a b \<Longrightarrow> no_worse b c \<Longrightarrow> no_worse a c"
  unfolding no_worse_def by auto

lemma no_worse_refl [simp]: "no_worse a a"
  by (simp add: no_worse_def)

lemma isBetterEndpoint_iff: "isBetterEndpoint p q d e \<longleftrightarrow> \<not> no_worse (q, e) (p, d)"
  unfolding isBetterEndpoint_def no_worse_def distance_class_def
  by (cases p q rule: linorder_cases) auto

text \<open>
  What the loops keep: what has been found is a candidate, and no worse than any that has been
  looked at.
\<close>

definition best_of :: "(endpointReference \<times> u32 \<times> u32) set \<Rightarrow> found \<Rightarrow> bool" where
  "best_of C found \<longleftrightarrow> (case found of None \<Rightarrow> C = {} | Some (r, p, d) \<Rightarrow> (r, p, d) \<in> C \<and> (\<forall>(r', a) \<in> C. no_worse (p, d) a))"

lemma find_local_best:
  assumes "best_of C found" and "\<forall>(r, p, d) \<in> C. d = 0"
  shows "case find_local s ps found of
      Inl p \<Rightarrow> p \<in> set ps \<and> pub_priority s p = 0
    | Inr found' \<Rightarrow> best_of (C \<union> (\<lambda>p. (RefPub p, pub_priority s p, 0)) ` set ps) found'"
  using assms
proof (induction ps arbitrary: C found)
  case (Cons p ps)
  let ?C = "insert (RefPub p, pub_priority s p, 0) C"
  have zero: "\<forall>(r, p, d) \<in> ?C. d = 0" using Cons.prems(2) by auto
  have un: "C \<union> (\<lambda>p. (RefPub p, pub_priority s p, 0)) ` set (p # ps) =
      ?C \<union> (\<lambda>p. (RefPub p, pub_priority s p, 0)) ` set ps" by auto
  show ?case
  proof (cases "case found of None \<Rightarrow> True | Some (_, q, _) \<Rightarrow> pub_priority s p < q")
    case True
    show ?thesis
    proof (cases "pub_priority s p = 0")
      case True
      then have "find_local s (p # ps) found = Inl p"
        using \<open>case found of None \<Rightarrow> True | Some (_, q, _) \<Rightarrow> pub_priority s p < q\<close>
        by (auto simp: Let_def split: option.splits)
      with True show ?thesis by simp
    next
      case False
      have "best_of ?C (Some (RefPub p, pub_priority s p, 0))"
        using Cons.prems True unfolding best_of_def no_worse_def by (fastforce split: option.splits)
      from Cons.IH [OF this zero] True False show ?thesis
        unfolding un by (auto simp: Let_def split: sum.splits)
    qed
  next
    case False
    then obtain r q d where f: "found = Some (r, q, d)" "q \<le> pub_priority s p" by (auto split: option.splits)
    with Cons.prems have "best_of ?C found" unfolding best_of_def no_worse_def
      by (fastforce simp: distance_class_def)
    from Cons.IH [OF this zero] f False show ?thesis unfolding un by (auto simp: Let_def split: sum.splits)
  qed
qed simp

lemma best_of_insert:
  assumes "best_of C found"
  shows "best_of (insert (r, p, d) C)
     (if (case found of None \<Rightarrow> True | Some (_, q, e) \<Rightarrow> isBetterEndpoint p q d e) then Some (r, p, d) else found)"
proof (cases found)
  case None
  with assms show ?thesis by (simp add: best_of_def)
next
  case (Some f)
  obtain r0 q e where f: "f = (r0, q, e)" by (metis prod_cases3)
  have C: "(r0, q, e) \<in> C" "\<And>r' a. (r', a) \<in> C \<Longrightarrow> no_worse (q, e) a"
    using assms Some f by (auto simp: best_of_def)
  show ?thesis
  proof (cases "isBetterEndpoint p q d e")
    case True
    then have n: "no_worse (p, d) (q, e)" unfolding isBetterEndpoint_iff no_worse_def by auto
    have "no_worse (p, d) a" if "(r', a) \<in> C" for r' a
      using no_worse_trans [OF n C(2) [OF that]] .
    with True Some f show ?thesis by (auto simp: best_of_def)
  next
    case False
    then have "no_worse (q, e) (p, d)" by (simp add: isBetterEndpoint_iff)
    with C False Some f show ?thesis by (auto simp: best_of_def)
  qed
qed

lemma find_remotes_best:
  "best_of C found \<Longrightarrow>
   best_of (C \<union> (\<lambda>m. (RefRemote m, remote_priority s m, d)) ` set ms) (find_remotes s d ms found)"
proof (induction ms arbitrary: C found)
  case (Cons m ms)
  let ?c = "(RefRemote m, remote_priority s m, d)"
  let ?f = "if (case found of None \<Rightarrow> True | Some (_, q, e) \<Rightarrow> isBetterEndpoint (remote_priority s m) q d e)
            then Some ?c else found"
  have step: "find_remotes s d (m # ms) found = find_remotes s d ms ?f"
    by (simp only: find_remotes.simps Let_def if_distrib [of "find_remotes s d ms"])
  have set: "C \<union> (\<lambda>m. (RefRemote m, remote_priority s m, d)) ` set (m # ms) =
      insert ?c C \<union> (\<lambda>m. (RefRemote m, remote_priority s m, d)) ` set ms" by auto
  show ?case unfolding step set by (rule Cons.IH [OF best_of_insert [OF Cons.prems]])
qed simp

definition remote_candidates :: "server \<Rightarrow> go_string \<Rightarrow> u32 \<Rightarrow> u32 \<Rightarrow> peerref \<Rightarrow> (endpointReference \<times> u32 \<times> u32) set" where
  "remote_candidates s name minDistance maxDistance pe =
     (if pe_distance (sv_peer s pe) < minDistance \<or> maxDistance < pe_distance (sv_peer s pe) then {}
      else (\<lambda>m. (RefRemote m, remote_priority s m, pe_distance (sv_peer s pe))) ` gm_values (remotes_named (sv_peer s pe) name))"

lemma find_peers_best:
  assumes "runtime_ok rt"
  shows "best_of C found \<Longrightarrow>
    best_of (C \<union> (\<Union>pe \<in> set pes. remote_candidates s name minDistance maxDistance pe))
      (find_peers rt s name minDistance maxDistance pes found)"
proof (induction pes arbitrary: C found)
  case (Cons pe pes)
  let ?R = "remote_candidates s name minDistance maxDistance"
  have set: "C \<union> (\<Union>pe \<in> set (pe # pes). ?R pe) = (C \<union> ?R pe) \<union> (\<Union>pe \<in> set pes. ?R pe)" by auto
  show ?case
  proof (cases "pe_distance (sv_peer s pe) < minDistance \<or> maxDistance < pe_distance (sv_peer s pe)")
    case True
    then have "?R pe = {}" by (simp add: remote_candidates_def)
    with True Cons.IH [OF Cons.prems] show ?thesis unfolding set by (simp add: Let_def)
  next
    case False
    have "best_of (C \<union> ?R pe) (find_remotes s (pe_distance (sv_peer s pe))
        (rt_refs rt (gm_values (remotes_named (sv_peer s pe) name))) found)"
      using find_remotes_best [OF Cons.prems, of s "pe_distance (sv_peer s pe)"
          "rt_refs rt (gm_values (remotes_named (sv_peer s pe) name))"] False
      by (simp add: remote_candidates_def runtime_refs [OF assms])
    from Cons.IH [OF this] False show ?thesis unfolding set by (simp add: Let_def)
  qed
qed simp

definition local_candidates :: "server \<Rightarrow> go_string \<Rightarrow> u32 \<Rightarrow> (endpointReference \<times> u32 \<times> u32) set" where
  "local_candidates s name minDistance =
     (if minDistance = 0 then (\<lambda>p. (RefPub p, pub_priority s p, 0)) ` gm_values (pubs_named s name) else {})"

lemma remote_candidates_iff:
  "(ref, p, d) \<in> remote_candidates s name minDistance maxDistance pe \<longleftrightarrow>
     (\<exists>m. ref = RefRemote m \<and> m \<in> gm_values (remotes_named (sv_peer s pe) name) \<and>
        d = pe_distance (sv_peer s pe) \<and> minDistance \<le> d \<and> d \<le> maxDistance \<and> p = remote_priority s m)"
proof (cases "pe_distance (sv_peer s pe) < minDistance \<or> maxDistance < pe_distance (sv_peer s pe)")
  case True
  then show ?thesis unfolding remote_candidates_def by (auto simp: not_less [symmetric])
next
  case False
  then show ?thesis unfolding remote_candidates_def not_less de_Morgan_disj by auto
qed

lemma candidate_iff:
  "candidate s name minDistance maxDistance ref p d \<longleftrightarrow>
     (ref, p, d) \<in> local_candidates s name minDistance \<or>
     (\<exists>pe \<in> gm_values (sv_peers s). (ref, p, d) \<in> remote_candidates s name minDistance maxDistance pe)"
proof -
  have "(\<exists>p'. ref = RefPub p' \<and> p' \<in> gm_values (pubs_named s name) \<and> minDistance = 0 \<and> p = pub_priority s p' \<and> d = 0) \<longleftrightarrow>
      (ref, p, d) \<in> local_candidates s name minDistance"
    unfolding local_candidates_def by (auto simp del: split_paired_Ex)
  then show ?thesis unfolding candidate_def remote_candidates_iff Bex_def by (intro disj_cong) (assumption, blast)
qed

lemma find_best:
  assumes "runtime_ok rt" and "map_of (sv_routeByName s) name = None"
  shows "case findEndpointRLocked rt s name minDistance maxDistance of
      None \<Rightarrow> \<forall>ref p d. \<not> candidate s name minDistance maxDistance ref p d
    | Some ref \<Rightarrow> \<exists>p d. candidate s name minDistance maxDistance ref p d \<and>
        (\<forall>ref' p' d'. candidate s name minDistance maxDistance ref' p' d' \<longrightarrow> no_worse (p, d) (p', d'))"
proof -
  let ?pubs = "pubs_named s name"
  let ?L = "local_candidates s name minDistance"
  let ?R = "\<Union>pe \<in> gm_values (sv_peers s). remote_candidates s name minDistance maxDistance pe"
  define loc where "loc = (if 0 < length ?pubs \<and> minDistance = 0 then find_local s (rt_refs rt (gm_values ?pubs)) None else Inr None)"
  have loc: "case loc of Inl p \<Rightarrow> p \<in> gm_values ?pubs \<and> minDistance = 0 \<and> pub_priority s p = 0 | Inr f \<Rightarrow> best_of ?L f"
    using find_local_best [where C = "{}" and found = None and s = s and ps = "rt_refs rt (gm_values ?pubs)"] runtime_refs [OF assms(1), of "gm_values ?pubs"]
    by (cases loc) (auto simp: loc_def best_of_def local_candidates_def split: if_splits)
  show ?thesis
  proof (cases loc)
    case (Inl p)
    then have "candidate s name minDistance maxDistance (RefPub p) 0 0" using loc unfolding candidate_def by auto
    moreover have "no_worse (0, 0) a" for a unfolding no_worse_def distance_class_def
      by (cases "fst a = 0") (auto simp: word_neq_0_conv)
    ultimately show ?thesis using Inl assms(2) unfolding findEndpointRLocked_def loc_def [symmetric] Let_def by auto
  next
    case (Inr f)
    with loc have "best_of ?L f" by simp
    from find_peers_best [OF assms(1) this, where pes = "rt_refs rt (gm_values (sv_peers s))" and s = s and name = name and minDistance = minDistance and maxDistance = maxDistance]
    have b: "best_of (?L \<union> ?R) (find_peers rt s name minDistance maxDistance (rt_refs rt (gm_values (sv_peers s))) f)"
      by (simp add: runtime_refs [OF assms(1)])
    have "findEndpointRLocked rt s name minDistance maxDistance =
        map_option fst (find_peers rt s name minDistance maxDistance (rt_refs rt (gm_values (sv_peers s))) f)"
      using Inr assms(2) unfolding findEndpointRLocked_def loc_def [symmetric] Let_def by simp
    with b show ?thesis unfolding candidate_iff best_of_def UN_iff Un_iff
      by (cases "find_peers rt s name minDistance maxDistance (rt_refs rt (gm_values (sv_peers s))) f") (simp, force)
  qed
qed

end
