(* ===== verification/Server_Client.thy ===== *)
theory Server_Client
  imports Server_Peers
begin

text \<open>
  The connections of clients to the server, \<^verbatim>\<open>server_client.go\<close>, and what \<^verbatim>\<open>server.go\<close>
  does with clients, peers and watchers as a whole. Each operation here runs under the write lock of
  the server (the ones that only read, under the read lock) and is one atomic step. The routing of
  requests is in the theory of requests.
\<close>

section \<open>Clients\<close>

definition newServerClient :: "bool \<Rightarrow> server \<Rightarrow> clientref \<times> server" where
  "newServerClient allowChanges s =
     (let (c, s) = fresh s
      in (c, upd_client c (\<lambda>_. \<lparr>cl_failure = None, cl_connClosed = False, cl_allowChanges = allowChanges,
            cl_subscriptions = [], cl_published = [], cl_pubWatchers = {}\<rparr>) s))"

definition client_closeWithErrorLocked :: "runtime \<Rightarrow> eref \<Rightarrow> clientref \<Rightarrow> go_error \<Rightarrow> server \<Rightarrow> server option" where
  "client_closeWithErrorLocked rt ref c err s =
     (if cl_failure (sv_client s c) = None then do {
        let s = upd_client c (\<lambda>k. k\<lparr>cl_failure := Some err, cl_connClosed := True\<rparr>) s;
        let subs = rt_refs rt (gm_values (cl_subscriptions (sv_client s c)));
        let s = fold (unsubscribeLocked rt) subs (upd_client c (\<lambda>k. k\<lparr>cl_subscriptions := []\<rparr>) s);
        let eps = rt_refs rt (gm_values (cl_published (sv_client s c)));
        s \<leftarrow> range_loop (\<lambda>e s. map_option snd (unpublishLocked rt ref e s)) eps (upd_client c (\<lambda>k. k\<lparr>cl_published := []\<rparr>) s);
        Some (fold cs_stopLocked (rt_refs rt (cl_pubWatchers (sv_client s c))) s)
      } else Some s)"

text \<open>The end of \<^verbatim>\<open>serve\<close>, once the connection of the client is done.\<close>

definition client_serve_end :: "runtime \<Rightarrow> eref \<Rightarrow> clientref \<Rightarrow> go_error \<Rightarrow> server \<Rightarrow> server option" where
  "client_serve_end rt ref c err s =
     client_closeWithErrorLocked rt ref c err (s\<lparr>sv_clients := sv_clients s - {c}\<rparr>)"

definition client_subscribe :: "runtime \<Rightarrow> eref \<Rightarrow> clientref \<Rightarrow> SubscribeSettings \<Rightarrow> server \<Rightarrow> ((go_error + i64) \<times> server) option" where
  "client_subscribe rt ref c settings s =
     (case cl_failure (sv_client s c) of
        Some err \<Rightarrow> Some (Inl err, s)
      | None \<Rightarrow>
          (case subscribeLocked rt ref settings s of
             None \<Rightarrow> None
           | Some (Inl err, s) \<Rightarrow> Some (Inl err, s)
           | Some (Inr u, s) \<Rightarrow>
               let t = sub_targetID (sv_sub s u)
               in Some (Inr t, upd_client c (\<lambda>k. k\<lparr>cl_subscriptions := AList.update t u (cl_subscriptions k)\<rparr>) s)))"

definition not_found :: "eref \<Rightarrow> i64 \<Rightarrow> go_string \<Rightarrow> go_error" where
  "not_found ref t what = OtherError ref (str ''target '' @ show_int (sint t) @ what) False"

definition client_getEndpoints :: "eref \<Rightarrow> clientref \<Rightarrow> i64 \<Rightarrow> server \<Rightarrow> go_error + Endpoint list" where
  "client_getEndpoints ref c t s =
     (case cl_failure (sv_client s c) of
        Some err \<Rightarrow> Inl err
      | None \<Rightarrow>
          (case map_of (cl_subscriptions (sv_client s c)) t of
             None \<Rightarrow> Inl (not_found ref t (str '' is not subscribed''))
           | Some u \<Rightarrow> Inr (sub_getEndpoints 2 s u)))"

definition client_streamEndpoints :: "i64 \<Rightarrow> go_error" where
  "client_streamEndpoints t = ErrCode EUNSUPPORTED"

definition client_unsubscribe :: "runtime \<Rightarrow> eref \<Rightarrow> clientref \<Rightarrow> i64 \<Rightarrow> server \<Rightarrow> go_error option \<times> server" where
  "client_unsubscribe rt ref c t s =
     (case cl_failure (sv_client s c) of
        Some err \<Rightarrow> (Some err, s)
      | None \<Rightarrow>
          (case map_of (cl_subscriptions (sv_client s c)) t of
             None \<Rightarrow> (Some (not_found ref t (str '' is not subscribed'')), s)
           | Some u \<Rightarrow>
               (None, unsubscribeLocked rt u (upd_client c (\<lambda>k. k\<lparr>cl_subscriptions := AList.delete t (cl_subscriptions k)\<rparr>) s))))"

text \<open>The name in the message has the verb \<^verbatim>\<open>%q\<close>; its quoting is left out.\<close>

definition client_publish :: "runtime \<Rightarrow> eref \<Rightarrow> clientref \<Rightarrow> i64 \<Rightarrow> go_string \<Rightarrow> PublishSettings \<Rightarrow> server \<Rightarrow>
    (go_error option \<times> server) option" where
  "client_publish rt ref c t name settings s =
     (case cl_failure (sv_client s c) of
        Some err \<Rightarrow> Some (Some err, s)
      | None \<Rightarrow>
          if \<not> cl_allowChanges (sv_client s c) then Some (Some (OtherError ref (str ''publishing is not allowed'') False), s)
          else case (case map_of (cl_published (sv_client s c)) t of None \<Rightarrow> None | Some old \<Rightarrow> ep_pub (sv_ep s old)) of
            Some p \<Rightarrow> Some (Some (not_found ref t (str '' is already published as '' @ pub_name (sv_pub s p))), s)
          | None \<Rightarrow>
              if ps_Concurrency settings = 0 then
                Some (Some (OtherError ref (str ''publishing with concurrency=0 is not alloswed'') False), s)
              else
                (case publishLocked rt ref name (c, t) settings s of
                   None \<Rightarrow> None
                 | Some (Inl err, s) \<Rightarrow> Some (Some (not_found ref t (str '' cannot be published: '' @ err_text err)), s)
                 | Some (Inr e, s) \<Rightarrow>
                     Some (None, upd_client c (\<lambda>k. k\<lparr>cl_published := AList.update t e (cl_published k)\<rparr>) s)))"

definition client_unpublish :: "runtime \<Rightarrow> eref \<Rightarrow> clientref \<Rightarrow> i64 \<Rightarrow> server \<Rightarrow> (go_error option \<times> server) option" where
  "client_unpublish rt ref c t s =
     (case cl_failure (sv_client s c) of
        Some err \<Rightarrow> Some (Some err, s)
      | None \<Rightarrow>
          (case map_of (cl_published (sv_client s c)) t of
             None \<Rightarrow> Some (Some (not_found ref t (str '' is not published'')), s)
           | Some e \<Rightarrow> do {
               let s = upd_client c (\<lambda>k. k\<lparr>cl_published := AList.delete t (cl_published k)\<rparr>) s;
               (err, s) \<leftarrow> unpublishLocked rt ref e s;
               Some (case err of
                       Some err \<Rightarrow> (Some (not_found ref t (str '' cannot be unpublished: '' @ err_text err)), s)
                     | None \<Rightarrow> (None, upd_client c (\<lambda>k. k\<lparr>cl_published := AList.delete t (cl_published k)\<rparr>) s))
             }))"

definition client_setRoute :: "runtime \<Rightarrow> eref \<Rightarrow> clientref \<Rightarrow> go_string \<Rightarrow> Route list \<Rightarrow> server \<Rightarrow> (go_error option \<times> server) option" where
  "client_setRoute rt ref c name routes s =
     (case cl_failure (sv_client s c) of
        Some err \<Rightarrow> Some (Some err, s)
      | None \<Rightarrow>
          if \<not> cl_allowChanges (sv_client s c) then Some (Some (OtherError ref (str ''setting routes is not allowed'') False), s)
          else map_option (\<lambda>s. (None, s)) (setRouteLocked rt ref name routes s))"

definition client_listRoutes :: "runtime \<Rightarrow> clientref \<Rightarrow> server \<Rightarrow> go_error + go_string list" where
  "client_listRoutes rt c s =
     (case cl_failure (sv_client s c) of
        Some err \<Rightarrow> Inl err
      | None \<Rightarrow> Inr (rt_names rt (gm_keys (sv_routeByName s))))"

definition client_lookupRoute :: "clientref \<Rightarrow> go_string \<Rightarrow> server \<Rightarrow> go_error + Route list" where
  "client_lookupRoute c name s =
     (case cl_failure (sv_client s c) of
        Some err \<Rightarrow> Inl err
      | None \<Rightarrow> Inr (case map_of (sv_routeByName s) name of Some r \<Rightarrow> ro_routes (sv_route s r) | None \<Rightarrow> []))"

definition client_streamServices :: "runtime \<Rightarrow> clientref \<Rightarrow> server \<Rightarrow> (go_error + csref) \<times> server" where
  "client_streamServices rt c s =
     (case cl_failure (sv_client s c) of
        Some err \<Rightarrow> (Inl err, s)
      | None \<Rightarrow> (case newServerServiceChangesStream rt (Some c) s of (cs, s) \<Rightarrow> (Inr cs, s)))"

section \<open>The server as a whole (server.go)\<close>

definition server_addClient :: "bool \<Rightarrow> server \<Rightarrow> (go_error + clientref) \<times> server" where
  "server_addClient allowChanges s =
     (case sv_failure s of
        Some err \<Rightarrow> (Inl err, s)
      | None \<Rightarrow>
          let (c, s) = newServerClient allowChanges s
          in (Inr c, s\<lparr>sv_clients := insert c (sv_clients s)\<rparr>))"

definition server_AddPeer :: "eref \<Rightarrow> go_string \<Rightarrow> go_string \<Rightarrow> u32 \<Rightarrow> server \<Rightarrow> go_error option \<times> server" where
  "server_AddPeer ref network address distance s =
     (case sv_failure s of
        Some err \<Rightarrow> (Some err, s)
      | None \<Rightarrow> addPeerLocked ref network address distance s)"

text \<open>
  A listener is an address, and the set \<open>sv_listenersClosed\<close> the listeners whose \<^verbatim>\<open>Close\<close> has
  been called. The same function models \<^verbatim>\<open>AddListener\<close> and \<^verbatim>\<open>AddHTTPListener\<close>, which differ
  in the goroutine they start.
\<close>

definition server_AddListener :: "nat \<Rightarrow> server \<Rightarrow> go_error option \<times> server" where
  "server_AddListener l s =
     (case sv_failure s of
        Some err \<Rightarrow> (Some err, s)
      | None \<Rightarrow> (None, s\<lparr>sv_listeners := sv_listeners s @ [l]\<rparr>))"

definition server_closeWithError :: "runtime \<Rightarrow> eref \<Rightarrow> go_error option \<Rightarrow> server \<Rightarrow> (go_error option \<times> server) option" where
  "server_closeWithError rt ref err s =
     (let err = (case err of None \<Rightarrow> ErrCode ECONNCLOSED | Some e \<Rightarrow> e);
          preverror = sv_failure s
      in if sv_failure s = None then do {
           let s = s\<lparr>sv_failure := Some err\<rparr>;
           let s = s\<lparr>sv_listeners := [], sv_listenersClosed := sv_listenersClosed s \<union> set (sv_listeners s)\<rparr>;
           s \<leftarrow> range_loop (\<lambda>pe s. map_option (\<lambda>peer. upd_peer pe (\<lambda>_. peer) s) (peer_closeWithErrorLocked err (sv_peer s pe)))
                  (rt_refs rt (gm_values (sv_peers s))) s;
           s \<leftarrow> range_loop (\<lambda>c. client_closeWithErrorLocked rt ref c err) (rt_refs rt (sv_clients s)) s;
           Some (preverror, fold cs_stopLocked (rt_refs rt (sv_pubWatchers s)) s)
         } else Some (preverror, s))"

definition server_Close :: "runtime \<Rightarrow> eref \<Rightarrow> server \<Rightarrow> (go_error option \<times> server) option" where
  "server_Close rt ref s = server_closeWithError rt ref (Some (ErrCode ECONNSHUTDOWN)) s"

definition server_SetUpstream :: go_error where
  "server_SetUpstream = ErrCode EUNSUPPORTED"

definition server_Err :: "server \<Rightarrow> go_error option" where
  "server_Err s = sv_failure s"

text \<open>The state of the channel that \<^verbatim>\<open>Closed\<close> returns: whether it has been closed.\<close>

definition server_Closed :: "server \<Rightarrow> bool" where
  "server_Closed s = sv_closedchan s"

end
