(* ===== verification/Rpc_Calls.thy ===== *)
theory Rpc_Calls
  imports Rpc_Wire Server_Client
begin

text \<open>
  Calls of the server over a connection: \<^verbatim>\<open>rpcWrapServer\<close> of \<^verbatim>\<open>rpc_server.go\<close> reads a request,
  calls the server and writes the answer; the methods of \<^verbatim>\<open>rpcClient\<close> in \<^verbatim>\<open>rpc_client.go\<close> do
  the opposite. A stream is what has been written into it and how it ended; what streams do in between
  is the subject of the theories of the transport.
\<close>

section \<open>Request types\<close>

abbreviation (input) RequestType_NewStream :: u8 where "RequestType_NewStream \<equiv> 0"
abbreviation (input) RequestType_Subscribe :: u8 where "RequestType_Subscribe \<equiv> 1"
abbreviation (input) RequestType_GetEndpoints :: u8 where "RequestType_GetEndpoints \<equiv> 2"
abbreviation (input) RequestType_StreamEndpoints :: u8 where "RequestType_StreamEndpoints \<equiv> 3"
abbreviation (input) RequestType_Unsubscribe :: u8 where "RequestType_Unsubscribe \<equiv> 4"
abbreviation (input) RequestType_Publish :: u8 where "RequestType_Publish \<equiv> 5"
abbreviation (input) RequestType_Unpublish :: u8 where "RequestType_Unpublish \<equiv> 6"
abbreviation (input) RequestType_SetRoute :: u8 where "RequestType_SetRoute \<equiv> 7"
abbreviation (input) RequestType_ListRoutes :: u8 where "RequestType_ListRoutes \<equiv> 8"
abbreviation (input) RequestType_LookupRoute :: u8 where "RequestType_LookupRoute \<equiv> 9"
abbreviation (input) RequestType_StreamServices :: u8 where "RequestType_StreamServices \<equiv> 10"

section \<open>The interface of the server (lowLevelServer)\<close>

text \<open>
  A value of the Go interface is a record of functions. Each of them may panic (\<^term>\<open>None\<close>), and
  changes the state of what implements it; streams of changes are addresses.
\<close>

type_synonym ('a, 's) call = "'s \<Rightarrow> ((go_error + 'a) \<times> 's) option"

record 's lowLevelServer =
  ll_subscribe :: "SubscribeSettings \<Rightarrow> (i64, 's) call"
  ll_getEndpoints :: "i64 \<Rightarrow> (Endpoint list, 's) call"
  ll_streamEndpoints :: "i64 \<Rightarrow> (nat, 's) call"
  ll_unsubscribe :: "i64 \<Rightarrow> (unit, 's) call"
  ll_publish :: "i64 \<Rightarrow> go_string \<Rightarrow> PublishSettings \<Rightarrow> (unit, 's) call"
  ll_unpublish :: "i64 \<Rightarrow> (unit, 's) call"
  ll_setRoute :: "go_string \<Rightarrow> Route list \<Rightarrow> (unit, 's) call"
  ll_listRoutes :: "(go_string list, 's) call"
  ll_lookupRoute :: "go_string \<Rightarrow> (Route list, 's) call"
  ll_streamServices :: "(csref, 's) call"

text \<open>How the clients of the server implement it.\<close>

definition no_result :: "go_error option \<Rightarrow> go_error + unit" where
  "no_result err = (case err of None \<Rightarrow> Inr () | Some e \<Rightarrow> Inl e)"

definition serverClient_server :: "runtime \<Rightarrow> eref \<Rightarrow> clientref \<Rightarrow> server lowLevelServer" where
  "serverClient_server rt ref c = \<lparr>
     ll_subscribe = client_subscribe rt ref c,
     ll_getEndpoints = (\<lambda>t s. Some (client_getEndpoints ref c t s, s)),
     ll_streamEndpoints = (\<lambda>t s. Some (Inl (client_streamEndpoints t), s)),
     ll_unsubscribe = (\<lambda>t s. Some (map_prod no_result id (client_unsubscribe rt ref c t s))),
     ll_publish = (\<lambda>t name settings s. map_option (map_prod no_result id) (client_publish rt ref c t name settings s)),
     ll_unpublish = (\<lambda>t s. map_option (map_prod no_result id) (client_unpublish rt ref c t s)),
     ll_setRoute = (\<lambda>name routes s. map_option (map_prod no_result id) (client_setRoute rt ref c name routes s)),
     ll_listRoutes = (\<lambda>s. Some (client_listRoutes rt c s, s)),
     ll_lookupRoute = (\<lambda>name s. Some (client_lookupRoute c name s, s)),
     ll_streamServices = (\<lambda>s. Some (client_streamServices rt c s))\<rparr>"

section \<open>Serving a request (rpc_server.go)\<close>

text \<open>
  What \<^verbatim>\<open>rpcWrapServer\<close> does with a stream: it returns, it goes on with the stream in
  \<^verbatim>\<open>handleNewStream\<close>, or it goes on to write changes.
\<close>

datatype 'w rpc_served =
    ServeReturn "go_error option" 'w
  | ServeStream i64 FrameReader 'w
  | ServeEndpoints nat 'w
  | ServeServices csref 'w

text \<open>
  The target id of a new stream is read with a single \<^verbatim>\<open>Read\<close>. That waits for the first byte
  and returns what has arrived: \<open>seen\<close> is \<open>Some n\<close> if so far \<open>n\<close> bytes have, and \<open>None\<close> if all
  bytes have and the end of the stream too. In that case a \<^verbatim>\<open>Read\<close> that takes the last byte returns
  the error as well (\<^verbatim>\<open>rawStream.Read\<close>). What is missing of the eight bytes stays zero.
\<close>

definition arrived_Read :: "nat option \<Rightarrow> nat \<Rightarrow> FrameReader \<Rightarrow> u8 list \<times> go_error option \<times> FrameReader" where
  "arrived_Read seen n r =
     (let d = take (case seen of None \<Rightarrow> n | Some k \<Rightarrow> min n (max 1 k)) (r_data r);
          rest = drop (length d) (r_data r)
      in (d, if d = [] \<or> seen = None \<and> rest = [] then Some (r_end r) else None, r\<lparr>r_data := rest\<rparr>))"

definition read_target :: "nat option \<Rightarrow> FrameReader \<Rightarrow> (go_error + i64) \<times> FrameReader" where
  "read_target seen r =
     (case arrived_Read seen 8 r of
        (d, Some err, r) \<Rightarrow> (Inl err, r)
      | (d, None, r) \<Rightarrow> (Inr (case get_u64 (d @ replicate (8 - length d) 0) of None \<Rightarrow> 0 | Some t \<Rightarrow> t), r))"

definition serve_reply :: "codec \<Rightarrow> 'w io_write \<Rightarrow> 'w \<Rightarrow> ('a \<Rightarrow> message) \<Rightarrow> ((go_error + 'a) \<times> 's) option \<Rightarrow> ('w rpc_served \<times> 's) option" where
  "serve_reply c wr w reply res =
     (case res of
        None \<Rightarrow> None
      | Some (Inl err, s) \<Rightarrow> Some (ServeReturn (Some err) w, s)
      | Some (Inr a, s) \<Rightarrow> (case rpcWriteMessage c wr w (reply a) of (err, w) \<Rightarrow> Some (ServeReturn err w, s)))"

definition serve_request :: "codec \<Rightarrow> msgtype \<Rightarrow> FrameReader \<Rightarrow> 'w \<Rightarrow> 's \<Rightarrow> (message \<Rightarrow> ('w rpc_served \<times> 's) option) \<Rightarrow>
    ('w rpc_served \<times> 's) option" where
  "serve_request c t r w s k =
     (case fst (rpcReadMessage c t r) of
        Inl err \<Rightarrow> Some (ServeReturn (Some (ErrCode EINVALID)) w, s)
      | Inr m \<Rightarrow> k m)"

definition serve_changes :: "(nat \<Rightarrow> 'w rpc_served) \<Rightarrow> 'w \<Rightarrow> ((go_error + nat) \<times> 's) option \<Rightarrow> ('w rpc_served \<times> 's) option" where
  "serve_changes k w res =
     (case res of
        None \<Rightarrow> None
      | Some (Inl err, s) \<Rightarrow> Some (ServeReturn (Some err) w, s)
      | Some (Inr ch, s) \<Rightarrow> Some (k ch, s))"

definition rpcWrapServer :: "codec \<Rightarrow> eref \<Rightarrow> 's lowLevelServer \<Rightarrow> nat option \<Rightarrow> 'w io_write \<Rightarrow> FrameReader \<Rightarrow> 'w \<Rightarrow> 's \<Rightarrow>
    ('w rpc_served \<times> 's) option" where
  "rpcWrapServer c ref ll seen wr r w s =
     (case rpcReadRequestType r of
        (Inl err, r) \<Rightarrow> Some (ServeReturn (Some (ErrCode EINVALID)) w, s)
      | (Inr rtype, r) \<Rightarrow>
          if rtype = RequestType_NewStream then
            (case read_target seen r of
               (Inl err, r) \<Rightarrow> Some (ServeReturn (Some (ErrCode EINVALID)) w, s)
             | (Inr t, r) \<Rightarrow> Some (ServeStream t r w, s))
          else if rtype = RequestType_Subscribe then
            serve_request c T_SubscribeRequest r w s (\<lambda>m.
              serve_reply c wr w SubscribeResponse
                (ll_subscribe ll \<lparr>ss_Options = rpcProtoToSubscribeOptions (GetOptions m), ss_DisableRoutes = GetDisableRoutes m\<rparr> s))
          else if rtype = RequestType_GetEndpoints then
            serve_request c T_GetEndpointsRequest r w s (\<lambda>m.
              serve_reply c wr w (\<lambda>es. GetEndpointsResponse (rpcEndpointsToProto es)) (ll_getEndpoints ll (GetTargetId m) s))
          else if rtype = RequestType_StreamEndpoints then
            serve_request c T_StreamEndpointsRequest r w s (\<lambda>m.
              serve_changes (\<lambda>ch. ServeEndpoints ch w) w (ll_streamEndpoints ll (GetTargetId m) s))
          else if rtype = RequestType_Unsubscribe then
            serve_request c T_UnsubscribeRequest r w s (\<lambda>m.
              serve_reply c wr w (\<lambda>_. UnsubscribeResponse) (ll_unsubscribe ll (GetTargetId m) s))
          else if rtype = RequestType_Publish then
            serve_request c T_PublishRequest r w s (\<lambda>m.
              serve_reply c wr w (\<lambda>_. PublishResponse)
                (ll_publish ll (GetTargetId m) (GetName m) (rpcProtoToPublishSettings (GetSettings m)) s))
          else if rtype = RequestType_Unpublish then
            serve_request c T_UnpublishRequest r w s (\<lambda>m.
              serve_reply c wr w (\<lambda>_. UnpublishResponse) (ll_unpublish ll (GetTargetId m) s))
          else if rtype = RequestType_SetRoute then
            serve_request c T_SetRouteRequest r w s (\<lambda>m.
              serve_reply c wr w (\<lambda>_. SetRouteResponse) (ll_setRoute ll (GetName m) (rpcProtoToRoutes (GetRoutes m)) s))
          else if rtype = RequestType_ListRoutes then
            serve_request c T_ListRoutesRequest r w s (\<lambda>m. serve_reply c wr w ListRoutesResponse (ll_listRoutes ll s))
          else if rtype = RequestType_LookupRoute then
            serve_request c T_LookupRouteRequest r w s (\<lambda>m.
              serve_reply c wr w (\<lambda>routes. LookupRouteResponse (rpcRoutesToProto routes)) (ll_lookupRoute ll (GetName m) s))
          else if rtype = RequestType_StreamServices then
            serve_request c T_StreamServicesRequest r w s (\<lambda>m.
              serve_changes (\<lambda>ch. ServeServices ch w) w (ll_streamServices ll s))
          else Some (ServeReturn (Some (CopperErrorVal ref (str ''unsupported request type '' @ show_int (uint rtype)) EUNSUPPORTED)) w, s))"

text \<open>
  The loops that write changes, on the results that \<^verbatim>\<open>Read\<close> of the stream of changes returns
  one after the other. The outer option is \<^term>\<open>None\<close> as long as the loop waits for another.
\<close>

record EndpointChanges =
  ec_Added :: "Endpoint list"
  ec_Removed :: "Endpoint list"

definition endpoints_message :: "EndpointChanges \<Rightarrow> message" where
  "endpoints_message result = StreamEndpointsResponse (rpcEndpointsToProto (ec_Added result)) (rpcEndpointsToProto (ec_Removed result))"

definition services_message :: "ServiceChanges \<Rightarrow> message" where
  "services_message result = StreamServicesResponse (scs_Removed result) (rpcServiceChangesToProto (scs_Changed result))"

fun serve_changes_loop :: "codec \<Rightarrow> 'w io_write \<Rightarrow> ('a \<Rightarrow> message) \<Rightarrow> 'w \<Rightarrow> (go_error + 'a) list \<Rightarrow> go_error option option \<times> 'w" where
  "serve_changes_loop c wr msg w [] = (None, w)"
| "serve_changes_loop c wr msg w (Inl err # rs) = (Some (if err = IoEOF then None else Some err), w)"
| "serve_changes_loop c wr msg w (Inr result # rs) =
     (case rpcWriteMessage c wr w (msg result) of
        (Some err, w) \<Rightarrow> (Some (Some err), w)
      | (None, w) \<Rightarrow> serve_changes_loop c wr msg w rs)"

section \<open>Making requests (rpc_io.go, rpc_client.go)\<close>

text \<open>\<^verbatim>\<open>rpcNewStream\<close>, once the connection has a stream; after an error the stream is closed.\<close>

definition rpcNewStream :: "'w io_write \<Rightarrow> 'w \<Rightarrow> i64 \<Rightarrow> go_error option \<times> 'w" where
  "rpcNewStream wr w targetID =
     then_write (rpcWriteRequestType wr w RequestType_NewStream) (\<lambda>w. wr w (put_u64 targetID))"

text \<open>What \<^verbatim>\<open>rpcSimpleRequest\<close> and \<^verbatim>\<open>rpcStreamingRequest\<close> write before they close the write side.\<close>

definition rpc_send_request :: "codec \<Rightarrow> 'w io_write \<Rightarrow> 'w \<Rightarrow> u8 \<Rightarrow> message \<Rightarrow> go_error option \<times> 'w" where
  "rpc_send_request c wr w rtype request =
     then_write (rpcWriteRequestType wr w rtype) (\<lambda>w. rpcWriteMessage c wr w request)"

text \<open>
  The methods of \<^verbatim>\<open>rpcClient\<close>. Their argument \<open>simple\<close> is \<^verbatim>\<open>rpcSimpleRequest\<close> on their
  connection: the type of the request, the request and the type of the response; the state is whatever
  is on the other side.
\<close>

type_synonym 's simple_request = "u8 \<Rightarrow> message \<Rightarrow> msgtype \<Rightarrow> (message, 's) call"

definition got :: "(message \<Rightarrow> 'a) \<Rightarrow> ((go_error + message) \<times> 's) option \<Rightarrow> ((go_error + 'a) \<times> 's) option" where
  "got f res = map_option (\<lambda>(x, s). (case x of Inl err \<Rightarrow> Inl err | Inr m \<Rightarrow> Inr (f m), s)) res"

definition rpcClient_subscribe :: "'s simple_request \<Rightarrow> SubscribeSettings \<Rightarrow> (i64, 's) call" where
  "rpcClient_subscribe simple settings s =
     got GetTargetId (simple RequestType_Subscribe
       (SubscribeRequest (rpcSubscribeOptionsToProto (ss_Options settings)) (ss_DisableRoutes settings)) T_SubscribeResponse s)"

definition rpcClient_getEndpoints :: "'s simple_request \<Rightarrow> i64 \<Rightarrow> (Endpoint list, 's) call" where
  "rpcClient_getEndpoints simple targetID s =
     got (\<lambda>m. rpcProtoToEndpoints (GetEndpoints m))
       (simple RequestType_GetEndpoints (GetEndpointsRequest targetID) T_GetEndpointsResponse s)"

definition rpcClient_unsubscribe :: "'s simple_request \<Rightarrow> i64 \<Rightarrow> (unit, 's) call" where
  "rpcClient_unsubscribe simple targetID s =
     got (\<lambda>_. ()) (simple RequestType_Unsubscribe (UnsubscribeRequest targetID) T_UnsubscribeResponse s)"

definition rpcClient_publish :: "'s simple_request \<Rightarrow> i64 \<Rightarrow> go_string \<Rightarrow> PublishSettings \<Rightarrow> (unit, 's) call" where
  "rpcClient_publish simple targetID name settings s =
     got (\<lambda>_. ()) (simple RequestType_Publish (PublishRequest targetID name (rpcPublishSettingsToProto settings)) T_PublishResponse s)"

definition rpcClient_unpublish :: "'s simple_request \<Rightarrow> i64 \<Rightarrow> (unit, 's) call" where
  "rpcClient_unpublish simple targetID s =
     got (\<lambda>_. ()) (simple RequestType_Unpublish (UnpublishRequest targetID) T_UnpublishResponse s)"

definition rpcClient_setRoute :: "'s simple_request \<Rightarrow> go_string \<Rightarrow> Route list \<Rightarrow> (unit, 's) call" where
  "rpcClient_setRoute simple name routes s =
     got (\<lambda>_. ()) (simple RequestType_SetRoute (SetRouteRequest name (rpcRoutesToProto routes)) T_SetRouteResponse s)"

definition rpcClient_listRoutes :: "'s simple_request \<Rightarrow> (go_string list, 's) call" where
  "rpcClient_listRoutes simple s = got GetNames (simple RequestType_ListRoutes ListRoutesRequest T_ListRoutesResponse s)"

definition rpcClient_lookupRoute :: "'s simple_request \<Rightarrow> go_string \<Rightarrow> (Route list, 's) call" where
  "rpcClient_lookupRoute simple name s =
     got (\<lambda>m. rpcProtoToRoutes (GetRoutes m)) (simple RequestType_LookupRoute (LookupRouteRequest name) T_LookupRouteResponse s)"

section \<open>A request and its answer\<close>

text \<open>
  How a stream ends for the other side: a handler that returns closes it (\<^verbatim>\<open>handleStream\<close>), with
  the error it returned. The error travels in a RESET frame, in which \<^verbatim>\<open>ECLOSED\<close> is the end of the
  stream (\<^verbatim>\<open>closeWithErrorLocked\<close>, \<^verbatim>\<open>processResetFrame\<close>).
\<close>

definition sent_error :: "eref \<Rightarrow> go_error \<Rightarrow> go_error" where
  "sent_error ref err =
     (case wire_frame ref (ResetFrame 0 FlagResetWrite (if err = IoEOF then ErrCode ECLOSED else err)) of
        ResetFrame sid flags e \<Rightarrow> if e = ErrCode ECLOSED then IoEOF else e
      | _ \<Rightarrow> err)"

definition stream_end :: "eref \<Rightarrow> go_error option \<Rightarrow> go_error" where
  "stream_end ref err = (case err of None \<Rightarrow> IoEOF | Some e \<Rightarrow> sent_error ref e)"

text \<open>
  \<^verbatim>\<open>rpcSimpleRequest\<close> with the server at the other end of the connection: the request is written
  and the write side closed, the server handles the stream and closes it, the answer is read. If the
  request cannot be written, the server finds no message in the stream and does nothing. A server
  that goes on with the stream does not answer (\<^term>\<open>None\<close>, as for a panic); no request of
  \<^verbatim>\<open>rpcSimpleRequest\<close> in the code has such a type.
\<close>

definition rpcSimpleRequest :: "codec \<Rightarrow> eref \<Rightarrow> 's lowLevelServer \<Rightarrow> 's simple_request" where
  "rpcSimpleRequest c ref ll rtype request t s =
     (case rpc_send_request c mem_write [] rtype request of
        (Some err, _) \<Rightarrow> Some (Inl err, s)
      | (None, bytes) \<Rightarrow>
          (case rpcWrapServer c ref ll None mem_write (io_source bytes IoEOF) [] s of
             Some (ServeReturn err out, s) \<Rightarrow> Some (fst (rpcReadMessage c t (io_source out (stream_end ref err))), s)
           | _ \<Rightarrow> None))"

text \<open>
  \<^verbatim>\<open>rpcStreamingRequest\<close> likewise, up to where the server goes on with the stream: what the
  client gets is the other end of it.
\<close>

definition rpcStreamingRequest :: "codec \<Rightarrow> eref \<Rightarrow> 's lowLevelServer \<Rightarrow> u8 \<Rightarrow> message \<Rightarrow> (u8 list rpc_served, 's) call" where
  "rpcStreamingRequest c ref ll rtype request s =
     (case rpc_send_request c mem_write [] rtype request of
        (Some err, _) \<Rightarrow> Some (Inl err, s)
      | (None, bytes) \<Rightarrow> map_option (map_prod Inr id) (rpcWrapServer c ref ll None mem_write (io_source bytes IoEOF) [] s))"

definition rpcClient_streamEndpoints :: "codec \<Rightarrow> eref \<Rightarrow> 's lowLevelServer \<Rightarrow> i64 \<Rightarrow> (u8 list rpc_served, 's) call" where
  "rpcClient_streamEndpoints c ref ll targetID s =
     rpcStreamingRequest c ref ll RequestType_StreamEndpoints (StreamEndpointsRequest targetID) s"

definition rpcClient_streamServices :: "codec \<Rightarrow> eref \<Rightarrow> 's lowLevelServer \<Rightarrow> (u8 list rpc_served, 's) call" where
  "rpcClient_streamServices c ref ll s = rpcStreamingRequest c ref ll RequestType_StreamServices StreamServicesRequest s"

text \<open>
  \<^verbatim>\<open>readloop\<close> of the client, at most \<open>n\<close> times around: what it has passed to the channel of
  results, and the error that it stops with.
\<close>

definition endpoints_result :: "message \<Rightarrow> EndpointChanges" where
  "endpoints_result m = \<lparr>ec_Added = rpcProtoToEndpoints (GetAdded m), ec_Removed = rpcProtoToEndpoints (GetRemovedEndpoints m)\<rparr>"

definition services_result :: "message \<Rightarrow> ServiceChanges" where
  "services_result m = \<lparr>scs_Removed = GetRemoved m, scs_Changed = rpcProtoToServiceChanges (GetChanged m)\<rparr>"

definition readloop_endpoints :: "nat \<Rightarrow> codec \<Rightarrow> FrameReader \<Rightarrow> EndpointChanges list \<times> go_error option" where
  "readloop_endpoints n c r = map_prod (map endpoints_result) id (rpc_read_all n c T_StreamEndpointsResponse r)"

definition readloop_services :: "nat \<Rightarrow> codec \<Rightarrow> FrameReader \<Rightarrow> ServiceChanges list \<times> go_error option" where
  "readloop_services n c r = map_prod (map services_result) id (rpc_read_all n c T_StreamServicesResponse r)"

text \<open>
  \<^verbatim>\<open>Read\<close> takes the next result from the channel; once the channel is closed and empty it
  returns the error. Without either it waits (\<^term>\<open>None\<close>).
\<close>

definition changes_Read :: "'a list \<times> go_error option \<Rightarrow> ((go_error + 'a) \<times> ('a list \<times> go_error option)) option" where
  "changes_Read ch =
     (case ch of
        (x # xs, err) \<Rightarrow> Some (Inr x, (xs, err))
      | ([], Some err) \<Rightarrow> Some (Inl err, ch)
      | ([], None) \<Rightarrow> None)"

section \<open>Calls as values\<close>

text \<open>What is the same for all calls that \<^verbatim>\<open>rpcSimpleRequest\<close> makes, stated once.\<close>

datatype rpc_call =
    CallSubscribe SubscribeSettings
  | CallGetEndpoints i64
  | CallUnsubscribe i64
  | CallPublish i64 go_string PublishSettings
  | CallUnpublish i64
  | CallSetRoute go_string "Route list"
  | CallListRoutes
  | CallLookupRoute go_string

datatype rpc_answer =
    AnsTarget i64
  | AnsEndpoints "Endpoint list"
  | AnsDone
  | AnsNames "go_string list"
  | AnsRoutes "Route list"

abbreviation (input) call_map :: "('a \<Rightarrow> 'b) \<Rightarrow> ((go_error + 'a) \<times> 's) option \<Rightarrow> ((go_error + 'b) \<times> 's) option" where
  "call_map f \<equiv> map_option (map_prod (map_sum id f) id)"

text \<open>The call made on the server itself, and through the client.\<close>

fun direct_call :: "'s lowLevelServer \<Rightarrow> rpc_call \<Rightarrow> (rpc_answer, 's) call" where
  "direct_call ll (CallSubscribe settings) s = call_map AnsTarget (ll_subscribe ll settings s)"
| "direct_call ll (CallGetEndpoints t) s = call_map AnsEndpoints (ll_getEndpoints ll t s)"
| "direct_call ll (CallUnsubscribe t) s = call_map (\<lambda>_. AnsDone) (ll_unsubscribe ll t s)"
| "direct_call ll (CallPublish t name settings) s = call_map (\<lambda>_. AnsDone) (ll_publish ll t name settings s)"
| "direct_call ll (CallUnpublish t) s = call_map (\<lambda>_. AnsDone) (ll_unpublish ll t s)"
| "direct_call ll (CallSetRoute name routes) s = call_map (\<lambda>_. AnsDone) (ll_setRoute ll name routes s)"
| "direct_call ll CallListRoutes s = call_map AnsNames (ll_listRoutes ll s)"
| "direct_call ll (CallLookupRoute name) s = call_map AnsRoutes (ll_lookupRoute ll name s)"

fun client_call :: "'s simple_request \<Rightarrow> rpc_call \<Rightarrow> (rpc_answer, 's) call" where
  "client_call simple (CallSubscribe settings) s = call_map AnsTarget (rpcClient_subscribe simple settings s)"
| "client_call simple (CallGetEndpoints t) s = call_map AnsEndpoints (rpcClient_getEndpoints simple t s)"
| "client_call simple (CallUnsubscribe t) s = call_map (\<lambda>_. AnsDone) (rpcClient_unsubscribe simple t s)"
| "client_call simple (CallPublish t name settings) s = call_map (\<lambda>_. AnsDone) (rpcClient_publish simple t name settings s)"
| "client_call simple (CallUnpublish t) s = call_map (\<lambda>_. AnsDone) (rpcClient_unpublish simple t s)"
| "client_call simple (CallSetRoute name routes) s = call_map (\<lambda>_. AnsDone) (rpcClient_setRoute simple name routes s)"
| "client_call simple CallListRoutes s = call_map AnsNames (rpcClient_listRoutes simple s)"
| "client_call simple (CallLookupRoute name) s = call_map AnsRoutes (rpcClient_lookupRoute simple name s)"

text \<open>The messages that carry the call and its answer.\<close>

fun call_request :: "rpc_call \<Rightarrow> message" where
  "call_request (CallSubscribe settings) = SubscribeRequest (rpcSubscribeOptionsToProto (ss_Options settings)) (ss_DisableRoutes settings)"
| "call_request (CallGetEndpoints t) = GetEndpointsRequest t"
| "call_request (CallUnsubscribe t) = UnsubscribeRequest t"
| "call_request (CallPublish t name settings) = PublishRequest t name (rpcPublishSettingsToProto settings)"
| "call_request (CallUnpublish t) = UnpublishRequest t"
| "call_request (CallSetRoute name routes) = SetRouteRequest name (rpcRoutesToProto routes)"
| "call_request CallListRoutes = ListRoutesRequest"
| "call_request (CallLookupRoute name) = LookupRouteRequest name"

fun call_response :: "rpc_call \<Rightarrow> rpc_answer \<Rightarrow> message" where
  "call_response _ (AnsTarget t) = SubscribeResponse t"
| "call_response _ (AnsEndpoints es) = GetEndpointsResponse (rpcEndpointsToProto es)"
| "call_response _ (AnsNames names) = ListRoutesResponse names"
| "call_response _ (AnsRoutes routes) = LookupRouteResponse (rpcRoutesToProto routes)"
| "call_response (CallUnsubscribe _) AnsDone = UnsubscribeResponse"
| "call_response (CallPublish _ _ _) AnsDone = PublishResponse"
| "call_response (CallUnpublish _) AnsDone = UnpublishResponse"
| "call_response _ AnsDone = SetRouteResponse"

text \<open>The error the client gets for an error of the server.\<close>

definition client_error :: "eref \<Rightarrow> go_error \<Rightarrow> go_error" where
  "client_error ref err = (if sent_error ref err = IoEOF then IoUnexpectedEOF else sent_error ref err)"

section \<open>Lemmas\<close>

lemma rpcReadRequestType_written [simp]: "rpcReadRequestType (io_source (t # d) e) = (Inr t, io_source d e)"
  by (simp add: rpcReadRequestType_def io_ReadFull_enough)

lemma rpc_send_request_mem:
  "marshal c m = Inr b \<Longrightarrow> rpc_send_request c mem_write [] rtype m = (None, rtype # put_u32 (of_nat (length b)) @ b)"
  by (simp add: rpc_send_request_def rpcWriteRequestType_def then_write_def rpcWriteMessage_mem mem_write_def [of "[]"])

lemma serve_request_written:
  assumes "length b < 2 ^ 32" and "unmarshal c t b = Inr m"
  shows "serve_request c t (io_source (put_u32 (of_nat (length b)) @ b) e) w s k = k m"
  using rpcReadMessage_written [OF assms(1), of c t "[]" e] assms(2) by (simp add: serve_request_def)

text \<open>What the client makes of a reply, and what it would have got directly.\<close>

definition read_reply :: "codec \<Rightarrow> eref \<Rightarrow> msgtype \<Rightarrow> (u8 list rpc_served \<times> 's) option \<Rightarrow> ((go_error + message) \<times> 's) option" where
  "read_reply c ref t res =
     (case res of
        Some (ServeReturn err out, s) \<Rightarrow> Some (fst (rpcReadMessage c t (io_source out (stream_end ref err))), s)
      | _ \<Rightarrow> None)"

lemma read_reply_served:
  assumes "\<And>a s'. res = Some (Inr a, s') \<Longrightarrow> carried c (reply a) \<and> msg_type (reply a) = t"
  shows "read_reply c ref t (serve_reply c mem_write [] reply res) = map_option (map_prod (map_sum (client_error ref) reply) id) res"
proof (cases res)
  case None
  then show ?thesis by (simp add: serve_reply_def read_reply_def)
next
  case (Some p)
  obtain x s' where p: "p = (x, s')" by (cases p)
  show ?thesis
  proof (cases x)
    case (Inl err)
    then show ?thesis by (simp add: Some p serve_reply_def read_reply_def rpcReadMessage_end stream_end_def client_error_def)
  next
    case (Inr a)
    with assms [of a s'] Some p have a: "carried c (reply a)" "msg_type (reply a) = t" by simp_all
    from a(1) obtain b where b: "marshal c (reply a) = Inr b" "length b < 2 ^ 32" "unmarshal c (msg_type (reply a)) b = Inr (reply a)"
      by (rule carried_cases)
    show ?thesis using rpcReadMessage_written [OF b(2), of c t "[]" IoEOF] b(3) a(2)
      by (simp add: Some p Inr serve_reply_def read_reply_def rpcWriteMessage_mem [OF b(1)] stream_end_def)
  qed
qed

lemma rpcSimpleRequest_sent:
  assumes "marshal c request = Inr b"
  shows "rpcSimpleRequest c ref ll rtype request t s =
    read_reply c ref t (rpcWrapServer c ref ll None mem_write (io_source (rtype # put_u32 (of_nat (length b)) @ b) IoEOF) [] s)"
  by (simp add: rpcSimpleRequest_def rpc_send_request_mem [OF assms] read_reply_def)

lemma got_reply:
  "got f (map_option (map_prod (map_sum g reply) id) res) = map_option (map_prod (map_sum g (\<lambda>a. f (reply a))) id) res"
proof (cases res)
  case (Some p)
  then show ?thesis by (cases p; cases "fst p") (auto simp: got_def)
qed (simp add: got_def)

lemma call_map_twice: "call_map f (map_option (map_prod (map_sum g h) id) res) = map_option (map_prod (map_sum g (\<lambda>a. f (h a))) id) res"
proof (cases res)
  case (Some p)
  then show ?thesis by (cases p; cases "fst p") auto
qed simp

lemma map_sum_Inr: "map_sum id f x = Inr y \<longleftrightarrow> (\<exists>z. x = Inr z \<and> y = f z)"
  by (cases x) auto

lemmas rpc_client_defs = rpcClient_subscribe_def rpcClient_getEndpoints_def rpcClient_unsubscribe_def rpcClient_publish_def
  rpcClient_unpublish_def rpcClient_setRoute_def rpcClient_listRoutes_def rpcClient_lookupRoute_def

text \<open>Both sides in terms of the messages: the server answers with the response to the direct call, the client reads the answer off it.\<close>

fun call_type :: "rpc_call \<Rightarrow> u8 \<times> msgtype" where
  "call_type (CallSubscribe _) = (RequestType_Subscribe, T_SubscribeResponse)"
| "call_type (CallGetEndpoints _) = (RequestType_GetEndpoints, T_GetEndpointsResponse)"
| "call_type (CallUnsubscribe _) = (RequestType_Unsubscribe, T_UnsubscribeResponse)"
| "call_type (CallPublish _ _ _) = (RequestType_Publish, T_PublishResponse)"
| "call_type (CallUnpublish _) = (RequestType_Unpublish, T_UnpublishResponse)"
| "call_type (CallSetRoute _ _) = (RequestType_SetRoute, T_SetRouteResponse)"
| "call_type CallListRoutes = (RequestType_ListRoutes, T_ListRoutesResponse)"
| "call_type (CallLookupRoute _) = (RequestType_LookupRoute, T_LookupRouteResponse)"

fun call_answer :: "rpc_call \<Rightarrow> message \<Rightarrow> rpc_answer" where
  "call_answer (CallSubscribe _) = (\<lambda>m. AnsTarget (GetTargetId m))"
| "call_answer (CallGetEndpoints _) = (\<lambda>m. AnsEndpoints (rpcProtoToEndpoints (GetEndpoints m)))"
| "call_answer CallListRoutes = (\<lambda>m. AnsNames (GetNames m))"
| "call_answer (CallLookupRoute _) = (\<lambda>m. AnsRoutes (rpcProtoToRoutes (GetRoutes m)))"
| "call_answer _ = (\<lambda>m. AnsDone)"

lemma serve_reply_map: "serve_reply c wr w f (call_map g res) = serve_reply c wr w (\<lambda>a. f (g a)) res"
proof (cases res)
  case (Some p)
  then show ?thesis by (cases p; cases "fst p") (auto simp: serve_reply_def)
qed (simp add: serve_reply_def)

lemma got_map: "call_map g (got f res) = got (\<lambda>m. g (f m)) res"
proof (cases res)
  case (Some p)
  then show ?thesis by (cases p; cases "fst p") (auto simp: got_def)
qed (simp add: got_def)

lemma settings_eta [rpc_conv]: "\<lparr>ss_Options = ss_Options x, ss_DisableRoutes = ss_DisableRoutes x\<rparr> = x"
  by simp

lemma serves_call:
  assumes "length b < 2 ^ 32" and "unmarshal c (msg_type (call_request k)) b = Inr (call_request k)"
  shows "rpcWrapServer c ref ll seen wr (io_source (fst (call_type k) # put_u32 (of_nat (length b)) @ b) e) w s =
    serve_reply c wr w (call_response k) (direct_call ll k s)"
  using assms(2) by (cases k) (simp_all add: rpcWrapServer_def serve_request_written [OF assms(1)] serve_reply_map rpc_conv)

lemma client_call_got:
  "client_call simple k s = got (call_answer k) (simple (fst (call_type k)) (call_request k) (snd (call_type k)) s)"
  by (cases k) (simp_all add: rpc_client_defs got_map)

lemma answer_of_response:
  assumes "direct_call ll k s = Some (Inr a, s')"
  shows "call_answer k (call_response k a) = a \<and> msg_type (call_response k a) = snd (call_type k)"
  using assms by (cases k) (auto simp: map_sum_Inr rpc_conv)

lemma client_call_direct:
  assumes "carried c (call_request k)"
    and "\<And>a s'. direct_call ll k s = Some (Inr a, s') \<Longrightarrow> carried c (call_response k a)"
  shows "client_call (rpcSimpleRequest c ref ll) k s = map_option (map_prod (map_sum (client_error ref) id) id) (direct_call ll k s)"
proof -
  obtain b where b: "marshal c (call_request k) = Inr b" "length b < 2 ^ 32" "unmarshal c (msg_type (call_request k)) b = Inr (call_request k)"
    using assms(1) by (rule carried_cases)
  have "client_call (rpcSimpleRequest c ref ll) k s =
      map_option (map_prod (map_sum (client_error ref) (\<lambda>a. call_answer k (call_response k a))) id) (direct_call ll k s)"
    using assms(2) answer_of_response [of ll k s]
    by (simp add: client_call_got rpcSimpleRequest_sent [OF b(1)] serves_call [OF b(2,3)] read_reply_served got_reply)
  also have "\<dots> = map_option (map_prod (map_sum (client_error ref) id) id) (direct_call ll k s)"
  proof (cases "direct_call ll k s")
    case (Some p)
    then show ?thesis using answer_of_response [of ll k s] by (cases p; cases "fst p") auto
  qed simp
  finally show ?thesis .
qed

end
