(* ===== verification/Server_Pool.thy ===== *)
theory Server_Pool
  imports Server_Client
begin

text \<open>
  The accounting of a publication: which endpoints it has, how many requests each of them serves,
  which of them can take another one, the totals of their settings, and the queue of waiting
  requests. The lemmas say what each operation of \<^verbatim>\<open>server_pubs.go\<close> does to it.
\<close>

section \<open>Invariants\<close>

definition pub_eps :: "server \<Rightarrow> pubref \<Rightarrow> epref set" where
  "pub_eps s p = gm_values (pub_endpoints (sv_pub s p))"

definition ep_limit :: "localEndpoint \<Rightarrow> nat" where
  "ep_limit ep = unat (ps_Concurrency (ep_settings ep))"

definition ep_queue :: "localEndpoint \<Rightarrow> nat" where
  "ep_queue ep = unat (ps_QueueSize (ep_settings ep))"

definition ep_distance :: "localEndpoint \<Rightarrow> u32" where
  "ep_distance ep = ps_MaxDistance (ep_settings ep)"

text \<open>The endpoints of a publication point back at it, and are ready while they are below their limit.\<close>

definition members_inv :: "server \<Rightarrow> pubref \<Rightarrow> bool" where
  "members_inv s p \<longleftrightarrow> gm_wf (pub_endpoints (sv_pub s p)) \<and>
     (\<forall>k e. (k, e) \<in> set (pub_endpoints (sv_pub s p)) \<longrightarrow>
        ep_pub (sv_ep s e) = Some p \<and> ep_key (sv_ep s e) = k \<and> e < sv_fresh s) \<and>
     (\<forall>e. ep_pub (sv_ep s e) = Some p \<longrightarrow> e \<in> pub_eps s p)"

definition pool_inv :: "server \<Rightarrow> pubref \<Rightarrow> bool" where
  "pool_inv s p \<longleftrightarrow>
     pub_ready (sv_pub s p) = {e \<in> pub_eps s p. unat (ep_active (sv_ep s e)) < ep_limit (sv_ep s e)} \<and>
     (\<forall>e \<in> pub_eps s p. unat (ep_active (sv_ep s e)) \<le> ep_limit (sv_ep s e) \<and> 0 < ep_limit (sv_ep s e))"

text \<open>
  The settings of a publication are the totals over its endpoints; \<open>extra\<close> is what has been added
  for an endpoint that is about to join.
\<close>

definition totals_inv :: "PublishSettings list \<Rightarrow> server \<Rightarrow> pubref \<Rightarrow> bool" where
  "totals_inv extra s p \<longleftrightarrow>
     (let st = pub_settings (sv_pub s p); E = pub_eps s p
      in unat (ps_Concurrency st) = (\<Sum>e \<in> E. ep_limit (sv_ep s e)) + sum_list (map (\<lambda>x. unat (ps_Concurrency x)) extra) \<and>
         unat (ps_QueueSize st) = (\<Sum>e \<in> E. ep_queue (sv_ep s e)) + sum_list (map (\<lambda>x. unat (ps_QueueSize x)) extra) \<and>
         ps_MaxDistance st = Max (insert 0 (ep_distance ` sv_ep s ` E \<union> ps_MaxDistance ` set extra)))"

definition counts_inv :: "server \<Rightarrow> pubref \<Rightarrow> bool" where
  "counts_inv s p \<longleftrightarrow>
     gm_wf (pub_maxDistanceCounts (sv_pub s p)) \<and>
     (\<forall>d. map_of (pub_maxDistanceCounts (sv_pub s p)) d =
        (let n = card {e \<in> pub_eps s p. ep_distance (sv_ep s e) = d} in if n = 0 then None else Some (int n)))"

definition line_inv :: "server \<Rightarrow> pubref \<Rightarrow> bool" where
  "line_inv s p \<longleftrightarrow> distinct (pub_queue (sv_pub s p)) \<and>
     length (pub_queue (sv_pub s p)) \<le> unat (ps_QueueSize (pub_settings (sv_pub s p))) \<and>
     (\<forall>w \<in> set (pub_queue (sv_pub s p)). sv_chan s w = \<lparr>wc_value = None, wc_closed = False\<rparr> \<and> w < sv_fresh s)"

definition lines_apart :: "server \<Rightarrow> bool" where
  "lines_apart s \<longleftrightarrow> (\<forall>p q. p \<noteq> q \<longrightarrow> set (pub_queue (sv_pub s p)) \<inter> set (pub_queue (sv_pub s q)) = {})"

text \<open>Addresses that have not been handed out hold no publication.\<close>

definition unused_pubs :: "server \<Rightarrow> bool" where
  "unused_pubs s \<longleftrightarrow> (\<forall>p. sv_fresh s \<le> p \<longrightarrow> pub_endpoints (sv_pub s p) = [])"

definition pub_inv :: "server \<Rightarrow> pubref \<Rightarrow> bool" where
  "pub_inv s p \<longleftrightarrow> members_inv s p \<and> pool_inv s p \<and> totals_inv [] s p \<and> counts_inv s p"

definition pubs_inv :: "server \<Rightarrow> bool" where
  "pubs_inv s \<longleftrightarrow> (\<forall>p. pub_inv s p \<and> line_inv s p) \<and> lines_apart s \<and> unused_pubs s"

lemmas pub_inv_defs = members_inv_def pool_inv_def totals_inv_def counts_inv_def line_inv_def

lemma pub_eps_finite [simp]: "finite (pub_eps s p)"
  by (simp add: pub_eps_def)

lemma members_eps: "members_inv s p \<Longrightarrow> e \<in> pub_eps s p \<longleftrightarrow> ep_pub (sv_ep s e) = Some p"
  unfolding members_inv_def pub_eps_def by force

lemma ready_finite: "pool_inv s p \<Longrightarrow> finite (pub_ready (sv_pub s p))"
  by (simp add: pool_inv_def)

section \<open>Choosing an endpoint\<close>

lemma pick_endpoint_least:
  assumes "pick_endpoint eps es best active = r"
    and "best \<noteq> None \<longrightarrow> active = ep_active (eps (the best))"
  shows "(r = None \<longleftrightarrow> es = [] \<and> best = None) \<and>
    (\<forall>e. r = Some e \<longrightarrow> (e \<in> set es \<or> best = Some e) \<and>
       (\<forall>e' \<in> set es. ep_active (eps e) \<le> ep_active (eps e')) \<and> (\<forall>b. best = Some b \<longrightarrow> ep_active (eps e) \<le> ep_active (eps b)))"
  using assms
proof (induction es arbitrary: best active)
  case (Cons x xs)
  show ?case
  proof (cases "best = None \<or> ep_active (eps x) < active")
    case True
    show ?thesis
    proof (cases "ep_active (eps x) = 0")
      case True
      with \<open>best = None \<or> ep_active (eps x) < active\<close> Cons.prems(1) have "r = Some x" by auto
      with True show ?thesis by auto
    next
      case False
      with True Cons.prems(1) have "pick_endpoint eps xs (Some x) (ep_active (eps x)) = r" by auto
      from Cons.IH [OF this] True Cons.prems(2) show ?thesis by (cases best) (auto intro: less_imp_le order.trans)
    qed
  next
    case False
    then have b: "best \<noteq> None" "active \<le> ep_active (eps x)" by auto
    with False Cons.prems(1) have "pick_endpoint eps xs best active = r" by auto
    from Cons.IH [OF this Cons.prems(2)] b Cons.prems(2) show ?thesis by (auto intro: order.trans)
  qed
qed auto

section \<open>Changing the load of an endpoint\<close>

text \<open>
  The operations of requests change no more than the number of active requests of endpoints, which
  of them are ready, the queues and their channels.
\<close>

definition load_rel :: "server \<Rightarrow> server \<Rightarrow> bool" where
  "load_rel s s' \<longleftrightarrow>
     s' = s\<lparr>sv_ep := sv_ep s', sv_pub := sv_pub s', sv_chan := sv_chan s', sv_fresh := sv_fresh s'\<rparr> \<and> sv_fresh s \<le> sv_fresh s' \<and>
     (\<forall>p. sv_pub s' p = (sv_pub s p)\<lparr>pub_ready := pub_ready (sv_pub s' p), pub_queue := pub_queue (sv_pub s' p)\<rparr>) \<and>
     (\<forall>e. sv_ep s' e = (sv_ep s e)\<lparr>ep_active := ep_active (sv_ep s' e)\<rparr>)"

lemma load_rel_refl [simp]: "load_rel s s"
  by (simp add: load_rel_def)

lemma load_rel_pub:
  assumes "load_rel s s'"
  shows "pub_endpoints (sv_pub s' p) = pub_endpoints (sv_pub s p)" "pub_settings (sv_pub s' p) = pub_settings (sv_pub s p)"
    "pub_maxDistanceCounts (sv_pub s' p) = pub_maxDistanceCounts (sv_pub s p)"
    "pub_name (sv_pub s' p) = pub_name (sv_pub s p)" "pub_targetID (sv_pub s' p) = pub_targetID (sv_pub s p)"
    "pub_subscriptions (sv_pub s' p) = pub_subscriptions (sv_pub s p)" "pub_eps s' p = pub_eps s p"
proof -
  have eq: "sv_pub s' p = (sv_pub s p)\<lparr>pub_ready := pub_ready (sv_pub s' p), pub_queue := pub_queue (sv_pub s' p)\<rparr>"
    using assms by (simp add: load_rel_def)
  show "pub_endpoints (sv_pub s' p) = pub_endpoints (sv_pub s p)" "pub_settings (sv_pub s' p) = pub_settings (sv_pub s p)"
    "pub_maxDistanceCounts (sv_pub s' p) = pub_maxDistanceCounts (sv_pub s p)"
    "pub_name (sv_pub s' p) = pub_name (sv_pub s p)" "pub_targetID (sv_pub s' p) = pub_targetID (sv_pub s p)"
    "pub_subscriptions (sv_pub s' p) = pub_subscriptions (sv_pub s p)" "pub_eps s' p = pub_eps s p"
    unfolding pub_eps_def by (subst eq, simp)+
qed

lemma load_rel_ep:
  assumes "load_rel s s'"
  shows "ep_settings (sv_ep s' e) = ep_settings (sv_ep s e)" "ep_pub (sv_ep s' e) = ep_pub (sv_ep s e)"
    "ep_key (sv_ep s' e) = ep_key (sv_ep s e)" "ep_limit (sv_ep s' e) = ep_limit (sv_ep s e)"
    "ep_queue (sv_ep s' e) = ep_queue (sv_ep s e)" "ep_distance (sv_ep s' e) = ep_distance (sv_ep s e)"
proof -
  have eq: "sv_ep s' e = (sv_ep s e)\<lparr>ep_active := ep_active (sv_ep s' e)\<rparr>" using assms by (simp add: load_rel_def)
  show "ep_settings (sv_ep s' e) = ep_settings (sv_ep s e)" "ep_pub (sv_ep s' e) = ep_pub (sv_ep s e)"
    "ep_key (sv_ep s' e) = ep_key (sv_ep s e)" "ep_limit (sv_ep s' e) = ep_limit (sv_ep s e)"
    "ep_queue (sv_ep s' e) = ep_queue (sv_ep s e)" "ep_distance (sv_ep s' e) = ep_distance (sv_ep s e)"
    unfolding ep_limit_def ep_queue_def ep_distance_def by (subst eq, simp)+
qed

lemmas load_rels = load_rel_pub load_rel_ep

lemma load_rel_trans:
  assumes "load_rel s s'" and "load_rel s' s''"
  shows "load_rel s s''"
proof -
  have "sv_pub s'' p = (sv_pub s p)\<lparr>pub_ready := pub_ready (sv_pub s'' p), pub_queue := pub_queue (sv_pub s'' p)\<rparr>" for p
  proof -
    have "sv_pub s' p = (sv_pub s p)\<lparr>pub_ready := pub_ready (sv_pub s' p), pub_queue := pub_queue (sv_pub s' p)\<rparr>"
      "sv_pub s'' p = (sv_pub s' p)\<lparr>pub_ready := pub_ready (sv_pub s'' p), pub_queue := pub_queue (sv_pub s'' p)\<rparr>"
      using assms unfolding load_rel_def by blast+
    then show ?thesis by (cases "sv_pub s p"; cases "sv_pub s' p"; cases "sv_pub s'' p") simp
  qed
  moreover have "sv_ep s'' e = (sv_ep s e)\<lparr>ep_active := ep_active (sv_ep s'' e)\<rparr>" for e
  proof -
    have "sv_ep s' e = (sv_ep s e)\<lparr>ep_active := ep_active (sv_ep s' e)\<rparr>"
      "sv_ep s'' e = (sv_ep s' e)\<lparr>ep_active := ep_active (sv_ep s'' e)\<rparr>"
      using assms unfolding load_rel_def by blast+
    then show ?thesis by (cases "sv_ep s e"; cases "sv_ep s' e"; cases "sv_ep s'' e") simp
  qed
  moreover have "s'' = s\<lparr>sv_ep := sv_ep s'', sv_pub := sv_pub s'', sv_chan := sv_chan s'', sv_fresh := sv_fresh s''\<rparr>"
  proof -
    have "s' = s\<lparr>sv_ep := sv_ep s', sv_pub := sv_pub s', sv_chan := sv_chan s', sv_fresh := sv_fresh s'\<rparr>"
      "s'' = s'\<lparr>sv_ep := sv_ep s'', sv_pub := sv_pub s'', sv_chan := sv_chan s'', sv_fresh := sv_fresh s''\<rparr>"
      using assms unfolding load_rel_def by blast+
    then show ?thesis by (cases s; cases s'; cases s'') simp
  qed
  moreover have "sv_fresh s \<le> sv_fresh s''" using assms unfolding load_rel_def by auto
  ultimately show ?thesis unfolding load_rel_def by blast
qed

text \<open>Such a change keeps everything but the pools and the queues.\<close>

lemma load_rel_inv:
  assumes "load_rel s s'"
  shows "members_inv s p \<Longrightarrow> members_inv s' p" "totals_inv ex s' p \<longleftrightarrow> totals_inv ex s p" "counts_inv s' p \<longleftrightarrow> counts_inv s p"
proof -
  have "ep_distance ` sv_ep s' ` E = ep_distance ` sv_ep s ` E" for E
    by (simp add: image_image load_rels [OF assms])
  then show "totals_inv ex s' p \<longleftrightarrow> totals_inv ex s p" "counts_inv s' p \<longleftrightarrow> counts_inv s p"
    by (simp_all add: pub_inv_defs load_rels [OF assms])
  have "sv_fresh s \<le> sv_fresh s'" using assms by (simp add: load_rel_def)
  then show "members_inv s p \<Longrightarrow> members_inv s' p"
    unfolding members_inv_def load_rels [OF assms] by (meson less_le_trans)
qed

lemma load_rel_pool:
  assumes "load_rel s s'" and "pub_inv s p"
    and "pub_ready (sv_pub s' p) = pub_ready (sv_pub s p)" and "\<And>e. e \<in> pub_eps s p \<Longrightarrow> ep_active (sv_ep s' e) = ep_active (sv_ep s e)"
  shows "pub_inv s' p"
  using assms by (auto simp: pub_inv_def pool_inv_def load_rel_inv [OF assms(1)] load_rels [OF assms(1)])

text \<open>Taking and releasing are the same update: a new count of active requests, and readiness to match.\<close>

definition set_load :: "pubref \<Rightarrow> epref \<Rightarrow> u32 \<Rightarrow> server \<Rightarrow> server" where
  "set_load p e a s = s\<lparr>sv_ep := (sv_ep s)(e := (sv_ep s e)\<lparr>ep_active := a\<rparr>),
     sv_pub := (sv_pub s)(p := (sv_pub s p)\<lparr>pub_ready :=
       (if unat a < ep_limit (sv_ep s e) then insert e (pub_ready (sv_pub s p)) else pub_ready (sv_pub s p) - {e})\<rparr>)\<rparr>"

lemma set_load_rel: "load_rel s (set_load p e a s)"
  by (simp add: load_rel_def set_load_def)

lemma set_load_active: "ep_active (sv_ep (set_load p e a s) f) = (if f = e then a else ep_active (sv_ep s f))"
  by (simp add: set_load_def)

lemma set_load_chan [simp]: "sv_chan (set_load p e a s) = sv_chan s"
  by (simp add: set_load_def)

lemma set_load_inv:
  assumes "pub_inv s q" and "members_inv s p" and "e \<in> pub_eps s p" and "unat a \<le> ep_limit (sv_ep s e)"
  shows "pub_inv (set_load p e a s) q"
proof -
  note rel = load_rels [OF set_load_rel [of s p e a]]
  have "pool_inv (set_load p e a s) q"
  proof (cases "q = p")
    case True
    with assms show ?thesis
      by (auto simp: pub_inv_def pool_inv_def set_load_active rel) (auto simp: set_load_def split: if_splits)
  next
    case False
    with assms(2,3) assms(1) have "e \<notin> pub_eps s q"
      by (simp add: members_eps pub_inv_def)
    then have "ep_active (sv_ep (set_load p e a s) f) = ep_active (sv_ep s f)" if "f \<in> pub_eps s q" for f
      using that by (auto simp: set_load_active)
    moreover have "pub_ready (sv_pub (set_load p e a s) q) = pub_ready (sv_pub s q)"
      using False by (simp add: set_load_def)
    ultimately show ?thesis using assms(1) by (auto simp: pub_inv_def pool_inv_def rel)
  qed
  with assms(1) show ?thesis by (simp add: pub_inv_def load_rel_inv [OF set_load_rel])
qed

lemma take_spec:
  assumes "runtime_ok rt" and "pub_inv s p"
  shows "case takeEndpointLocked rt n p s of
      (None, s') \<Rightarrow> s' = s \<and> pub_ready (sv_pub s p) = {}
    | (Some e, s') \<Rightarrow> e \<in> pub_ready (sv_pub s p) \<and> e \<in> pub_eps s p \<and> s' = set_load p e (ep_active (sv_ep s e) + 1) s \<and>
        unat (ep_active (sv_ep s e) + 1) = unat (ep_active (sv_ep s e)) + 1 \<and>
        unat (ep_active (sv_ep s e) + 1) \<le> ep_limit (sv_ep s e) \<and>
        (\<forall>e' \<in> pub_ready (sv_pub s p). ep_active (sv_ep s e) \<le> ep_active (sv_ep s e'))"
proof -
  let ?R = "pub_ready (sv_pub s p)"
  have pool: "pool_inv s p" using assms(2) by (simp add: pub_inv_def)
  define r where "r = pick_endpoint (sv_ep s) (rt_take rt n ?R) None 0"
  have R: "set (rt_take rt n ?R) = ?R" using assms(1) ready_finite [OF pool] by (rule runtime_take)
  from pick_endpoint_least [OF r_def [symmetric]]
  have none: "r = None \<longleftrightarrow> ?R = {}"
    and some: "r = Some e \<Longrightarrow> e \<in> ?R \<and> (\<forall>e' \<in> ?R. ep_active (sv_ep s e) \<le> ep_active (sv_ep s e'))" for e
    using R by auto
  show ?thesis
  proof (cases r)
    case None
    with none show ?thesis by (simp add: takeEndpointLocked_def r_def)
  next
    case (Some e)
    let ?a = "ep_active (sv_ep s e) + 1"
    from some [OF Some] pool have e: "e \<in> ?R" "e \<in> pub_eps s p" "unat (ep_active (sv_ep s e)) < ep_limit (sv_ep s e)"
      by (auto simp: pool_inv_def)
    have lt: "ep_limit (sv_ep s e) < 2 ^ 32" using unsigned_less [of "ps_Concurrency (ep_settings (sv_ep s e))"]
      by (simp add: ep_limit_def)
    with e(3) have a: "unat ?a = unat (ep_active (sv_ep s e)) + 1"
      by (subst unat_add_lem [THEN iffD1]) auto
    have "?a = ps_Concurrency (ep_settings (sv_ep s e)) \<longleftrightarrow> \<not> unat ?a < ep_limit (sv_ep s e)"
      using a e(3) by (auto simp: ep_limit_def word_unat_eq_iff)
    then have "takeEndpointLocked rt n p s = (Some e, set_load p e ?a s)"
      using Some e(1) by (auto simp: takeEndpointLocked_def r_def [symmetric] Let_def set_load_def insert_absorb)
    with e a some [OF Some] show ?thesis by auto
  qed
qed

section \<open>Waiters\<close>

abbreviation idle_chan :: waiterChan where
  "idle_chan \<equiv> \<lparr>wc_value = None, wc_closed = False\<rparr>"

abbreviation served_chan :: "epref \<Rightarrow> waiterChan" where
  "served_chan e \<equiv> \<lparr>wc_value = Some e, wc_closed = True\<rparr>"

abbreviation dropped_chan :: waiterChan where
  "dropped_chan \<equiv> \<lparr>wc_value = None, wc_closed = True\<rparr>"

lemma deliver_ok: "sv_chan s w = idle_chan \<Longrightarrow> deliver w e s = Some (s\<lparr>sv_chan := (sv_chan s)(w := served_chan e)\<rparr>)"
  by (simp add: deliver_def chan_send_def chan_close_def)

lemma close_waiter_ok: "sv_chan s w = idle_chan \<Longrightarrow> close_waiter w s = Some (s\<lparr>sv_chan := (sv_chan s)(w := dropped_chan)\<rparr>)"
  by (simp add: close_waiter_def chan_close_def)

lemma load_rel_chan: "load_rel s (s\<lparr>sv_chan := ch\<rparr>)"
  by (simp add: load_rel_def)

lemma load_rel_queue: "load_rel s (upd_pub p (\<lambda>pub. pub\<lparr>pub_queue := q\<rparr>) s)"
  by (simp add: load_rel_def)

definition serve_chans :: "(waiter \<times> epref) list \<Rightarrow> (waiter \<Rightarrow> waiterChan) \<Rightarrow> waiter \<Rightarrow> waiterChan" where
  "serve_chans ds ch w = (case map_of ds w of None \<Rightarrow> ch w | Some e \<Rightarrow> served_chan e)"

lemma serve_chans_Cons: "w \<notin> fst ` set ds \<Longrightarrow> serve_chans ds (ch(w := served_chan e)) = serve_chans ((w, e) # ds) ch"
  by (auto simp: serve_chans_def fun_eq_iff map_of_None_keys [symmetric] split: option.splits)

text \<open>
  The loop hands endpoints to a prefix of the waiters, each endpoint as often as it has room, and
  stops early only when nothing is ready any more.
\<close>

lemma wakeup_loop_ok:
  assumes "runtime_ok rt" and "\<forall>q. pub_inv s q" and "distinct ws" and "\<forall>w \<in> set ws. sv_chan s w = idle_chan"
  shows "\<exists>es s'. wakeup_loop rt p i ws s = Some (i + length es, s') \<and> length es \<le> length ws \<and>
     load_rel s s' \<and> (\<forall>q. pub_inv s' q) \<and> set es \<subseteq> pub_eps s p \<and>
     (length es < length ws \<longrightarrow> pub_ready (sv_pub s' p) = {}) \<and>
     (\<forall>q. pub_queue (sv_pub s' q) = pub_queue (sv_pub s q)) \<and> sv_fresh s' = sv_fresh s \<and>
     sv_chan s' = serve_chans (zip ws es) (sv_chan s) \<and>
     (\<forall>f. unat (ep_active (sv_ep s' f)) = unat (ep_active (sv_ep s f)) + count_list es f)"
  using assms(2-4)
proof (induction ws arbitrary: s i)
  case Nil
  show ?case by (intro exI [of _ "[]"] exI [of _ s]) (use Nil in \<open>simp add: serve_chans_def fun_eq_iff\<close>)
next
  case (Cons w ws)
  have inv: "pub_inv s p" using Cons.prems by blast
  obtain r s1 where t: "takeEndpointLocked rt i p s = (r, s1)" by (meson surj_pair)
  show ?case
  proof (cases r)
    case None
    with take_spec [OF assms(1) inv, of i] t have "s1 = s" "pub_ready (sv_pub s p) = {}" by simp_all
    with None t Cons.prems show ?thesis
      by (intro exI [of _ "[]"] exI [of _ s]) (simp add: serve_chans_def fun_eq_iff)
  next
    case (Some e)
    let ?a = "ep_active (sv_ep s e) + 1"
    from take_spec [OF assms(1) inv, of i] t Some have e: "e \<in> pub_eps s p" "s1 = set_load p e ?a s"
      "unat ?a = unat (ep_active (sv_ep s e)) + 1" "unat ?a \<le> ep_limit (sv_ep s e)" by simp_all
    define s2 where "s2 = s1\<lparr>sv_chan := (sv_chan s1)(w := served_chan e)\<rparr>"
    have d: "deliver w e s1 = Some s2" unfolding s2_def using Cons.prems(3) e(2) by (intro deliver_ok) simp
    have r12: "load_rel s s2" using load_rel_trans [OF set_load_rel load_rel_chan] unfolding s2_def e(2) .
    have "pub_inv s1 q" for q unfolding e(2) using Cons.prems(1) inv e by (intro set_load_inv) (auto simp: pub_inv_def)
    then have inv2: "pub_inv s2 q" for q
      by (intro load_rel_pool [OF load_rel_chan [of s1 "(sv_chan s1)(w := served_chan e)"], folded s2_def]) (simp_all add: s2_def)
    have ch2: "\<forall>w \<in> set ws. sv_chan s2 w = idle_chan" using Cons.prems(2,3) e(2) by (auto simp: s2_def)
    from Cons.IH [of s2 "Suc i"] inv2 ch2 Cons.prems(2) obtain es s' where
      IH: "wakeup_loop rt p (Suc i) ws s2 = Some (Suc i + length es, s')" "length es \<le> length ws" "load_rel s2 s'"
      "\<forall>q. pub_inv s' q" "set es \<subseteq> pub_eps s2 p" "length es < length ws \<longrightarrow> pub_ready (sv_pub s' p) = {}"
      "\<forall>q. pub_queue (sv_pub s' q) = pub_queue (sv_pub s2 q)" "sv_fresh s' = sv_fresh s2"
      "sv_chan s' = serve_chans (zip ws es) (sv_chan s2)"
      "\<forall>f. unat (ep_active (sv_ep s' f)) = unat (ep_active (sv_ep s2 f)) + count_list es f" by auto
    have "w \<notin> fst ` set (zip ws es)" using Cons.prems(2) by (auto dest: set_zip_leftD)
    then have "sv_chan s' = serve_chans (zip (w # ws) (e # es)) (sv_chan s)"
      unfolding IH(9) s2_def e(2) by (simp add: serve_chans_Cons)
    moreover have "load_rel s s'" using r12 IH(3) by (rule load_rel_trans)
    moreover have "wakeup_loop rt p i (w # ws) s = Some (i + length (e # es), s')"
      using t Some d IH(1) by simp
    moreover have "set (e # es) \<subseteq> pub_eps s p" using IH(5) e(1) load_rels(7) [OF r12] by simp
    moreover have "\<forall>f. unat (ep_active (sv_ep s' f)) = unat (ep_active (sv_ep s f)) + count_list (e # es) f"
      using IH(10) e(3) by (simp add: s2_def e(2) set_load_active)
    moreover have "\<forall>q. pub_queue (sv_pub s' q) = pub_queue (sv_pub s q)" "sv_fresh s' = sv_fresh s"
      using IH(7,8) by (simp_all add: s2_def e(2) set_load_def)
    ultimately show ?thesis using IH(2,4,6) by (intro exI [of _ "e # es"] exI [of _ s']) simp
  qed
qed

section \<open>The queue\<close>

lemma remove_ref_eq: "remove_ref x xs = (if x \<in> set xs then Some (remove1 x xs) else None)"
  by (induction xs) auto

text \<open>A change after which every queue has only waiters that it had before, with their channels as before.\<close>

lemma pubs_inv_shrink:
  assumes "pubs_inv s" and rel: "load_rel s s'" and "\<And>q. pub_inv s' q"
    and "\<And>q. distinct (pub_queue (sv_pub s' q))" and sub: "\<And>q. set (pub_queue (sv_pub s' q)) \<subseteq> set (pub_queue (sv_pub s q))"
    and "\<And>q w. w \<in> set (pub_queue (sv_pub s' q)) \<Longrightarrow> sv_chan s' w = sv_chan s w"
  shows "pubs_inv s'"
proof -
  have fresh: "sv_fresh s \<le> sv_fresh s'" using rel by (simp add: load_rel_def)
  have "line_inv s' q" for q
  proof -
    have "line_inv s q" using assms(1) by (simp add: pubs_inv_def)
    moreover have "length (pub_queue (sv_pub s' q)) \<le> length (pub_queue (sv_pub s q))" if "distinct (pub_queue (sv_pub s q))"
      using card_mono [OF _ sub [of q]] assms(4) [of q] that by (simp add: distinct_card)
    ultimately show ?thesis using assms(4) [of q] sub [of q] assms(6) [of _ q] fresh
      unfolding line_inv_def load_rels [OF rel] by (auto intro: order.trans less_le_trans)
  qed
  moreover have "lines_apart s'" using assms(1) sub unfolding pubs_inv_def lines_apart_def by blast
  moreover have "unused_pubs s'" using assms(1) fresh unfolding pubs_inv_def unused_pubs_def load_rels [OF rel] by simp
  ultimately show ?thesis using assms(3) by (simp add: pubs_inv_def)
qed

lemma unat_minus_1: "0 < unat (a :: u32) \<Longrightarrow> unat (a - 1) = unat a - 1"
  by (metis unat_minus_one unat_eq_zero neq0_conv)

lemma queue_idle: "pubs_inv s \<Longrightarrow> w \<in> set (pub_queue (sv_pub s p)) \<Longrightarrow> sv_chan s w = idle_chan"
  by (simp add: pubs_inv_def line_inv_def)

lemma queue_apart: "pubs_inv s \<Longrightarrow> w \<in> set (pub_queue (sv_pub s p)) \<Longrightarrow> w \<in> set (pub_queue (sv_pub s q)) \<Longrightarrow> q = p"
  unfolding pubs_inv_def lines_apart_def by (metis disjoint_iff)

lemma queue_distinct: "pubs_inv s \<Longrightarrow> distinct (pub_queue (sv_pub s p))"
  by (simp add: pubs_inv_def line_inv_def)

lemma pubs_inv_pub: "pubs_inv s \<Longrightarrow> pub_inv s p" "pubs_inv s \<Longrightarrow> members_inv s p" "pubs_inv s \<Longrightarrow> pool_inv s p"
  by (simp_all add: pubs_inv_def pub_inv_def)

text \<open>A released endpoint goes to the first waiter, or is ready again.\<close>

lemma release_ok:
  assumes "pubs_inv s" and "ep_pub (sv_ep s e) = Some p" and "0 < unat (ep_active (sv_ep s e))"
  shows "\<exists>s'. releaseEndpointRLocked p e s = Some s' \<and> pubs_inv s' \<and> load_rel s s' \<and> sv_fresh s' = sv_fresh s \<and>
    (case pub_queue (sv_pub s p) of
       w # ws \<Rightarrow> pub_queue (sv_pub s' p) = ws \<and> sv_chan s' = (sv_chan s)(w := served_chan e) \<and> sv_ep s' = sv_ep s \<and>
         (\<forall>q. q \<noteq> p \<longrightarrow> sv_pub s' q = sv_pub s q)
     | [] \<Rightarrow> s' = set_load p e (ep_active (sv_ep s e) - 1) s)"
proof -
  have e: "e \<in> pub_eps s p" using assms(2) members_eps [OF pubs_inv_pub(2) [OF assms(1)]] by simp
  show ?thesis
  proof (cases "pub_queue (sv_pub s p)")
    case Nil
    let ?a = "ep_active (sv_ep s e) - 1"
    have a: "unat ?a = unat (ep_active (sv_ep s e)) - 1" using assms(3) by (rule unat_minus_1)
    have le: "unat ?a < ep_limit (sv_ep s e)"
      using pubs_inv_pub(3) [OF assms(1), of p] e assms(3) a unfolding pool_inv_def by (auto dest!: bspec [of _ _ e])
    then have r: "releaseEndpointRLocked p e s = Some (set_load p e ?a s)"
      using Nil assms(2) by (simp add: releaseEndpointRLocked_def Let_def set_load_def)
    have "pubs_inv (set_load p e ?a s)"
    proof (rule pubs_inv_shrink [OF assms(1) set_load_rel])
      show "pub_inv (set_load p e ?a s) q" for q
        using assms(1) e le by (intro set_load_inv) (auto simp: pubs_inv_def pub_inv_def)
    qed (use queue_distinct [OF assms(1)] in \<open>auto simp: set_load_def\<close>)
    with r Nil show ?thesis by (simp add: set_load_rel) (simp add: set_load_def)
  next
    case (Cons w ws)
    define s1 where "s1 = upd_pub p (\<lambda>pub. pub\<lparr>pub_queue := ws\<rparr>) s"
    define s2 where "s2 = s1\<lparr>sv_chan := (sv_chan s1)(w := served_chan e)\<rparr>"
    have "sv_chan s1 w = idle_chan" using queue_idle [OF assms(1), of w p] Cons by (simp add: s1_def)
    then have r: "releaseEndpointRLocked p e s = Some s2"
      using Cons assms(2) by (simp add: releaseEndpointRLocked_def deliver_ok s1_def [symmetric] s2_def)
    have rel: "load_rel s s2" unfolding s2_def s1_def by (rule load_rel_trans [OF load_rel_queue load_rel_chan])
    have q2: "pub_queue (sv_pub s2 q) = (if q = p then ws else pub_queue (sv_pub s q))" for q by (simp add: s2_def s1_def)
    have "pubs_inv s2"
    proof (rule pubs_inv_shrink [OF assms(1) rel])
      show "pub_inv s2 q" for q by (rule load_rel_pool [OF rel pubs_inv_pub(1) [OF assms(1)]]) (simp_all add: s2_def s1_def)
      show "distinct (pub_queue (sv_pub s2 q))" for q using queue_distinct [OF assms(1), of q] Cons by (auto simp: q2)
      show "set (pub_queue (sv_pub s2 q)) \<subseteq> set (pub_queue (sv_pub s q))" for q using Cons by (auto simp: q2)
      show "sv_chan s2 v = sv_chan s v" if "v \<in> set (pub_queue (sv_pub s2 q))" for q v
        using that queue_apart [OF assms(1), of w p q] queue_distinct [OF assms(1), of p] Cons
        by (auto simp: q2 s2_def s1_def split: if_splits)
    qed
    with r rel Cons show ?thesis by (simp add: s2_def s1_def)
  qed
qed

lemma release_gone: "ep_pub (sv_ep s e) = None \<Longrightarrow> releaseEndpointRLocked p e s = Some s"
  by (simp add: releaseEndpointRLocked_def)

lemma take_ok:
  assumes "runtime_ok rt" and "pubs_inv s" and "takeEndpointRLocked rt p s = (r, s')"
  shows "pubs_inv s' \<and> (case r of
      None \<Rightarrow> s' = s \<and> pub_ready (sv_pub s p) = {}
    | Some e \<Rightarrow> e \<in> pub_eps s p \<and> s' = set_load p e (ep_active (sv_ep s e) + 1) s \<and>
        unat (ep_active (sv_ep s e) + 1) = unat (ep_active (sv_ep s e)) + 1 \<and>
        (\<forall>e' \<in> pub_ready (sv_pub s p). ep_active (sv_ep s e) \<le> ep_active (sv_ep s e')))"
proof (cases r)
  case None
  with take_spec [OF assms(1) pubs_inv_pub(1) [OF assms(2)], of p 0] assms(2,3) show ?thesis
    by (simp add: takeEndpointRLocked_def)
next
  case (Some e)
  from take_spec [OF assms(1) pubs_inv_pub(1) [OF assms(2)], of p 0] assms(3) Some
  have e: "e \<in> pub_eps s p" "s' = set_load p e (ep_active (sv_ep s e) + 1) s"
    "unat (ep_active (sv_ep s e) + 1) = unat (ep_active (sv_ep s e)) + 1"
    "unat (ep_active (sv_ep s e) + 1) \<le> ep_limit (sv_ep s e)"
    "\<forall>e' \<in> pub_ready (sv_pub s p). ep_active (sv_ep s e) \<le> ep_active (sv_ep s e')"
    by (simp_all add: takeEndpointRLocked_def)
  have "pubs_inv s'"
  proof (rule pubs_inv_shrink [OF assms(2)])
    show "load_rel s s'" unfolding e(2) by (rule set_load_rel)
    show "pub_inv s' q" for q unfolding e(2)
      using assms(2) e(1,4) by (intro set_load_inv) (auto simp: pubs_inv_def pub_inv_def)
  qed (use queue_distinct [OF assms(2)] in \<open>auto simp: e(2) set_load_def\<close>)
  with Some e show ?thesis by simp
qed

lemma uint_le_zlen: "uint (x :: u32) \<le> zlen xs \<longleftrightarrow> unat x \<le> length xs"
  using of_nat_le_iff [of "unat x" "length xs", where 'a = int] by simp

lemma queueWaiter_ok:
  assumes "pubs_inv s"
  shows "case queueWaiterRLocked p s of
      (None, s') \<Rightarrow> s' = s \<and> length (pub_queue (sv_pub s p)) = unat (ps_QueueSize (pub_settings (sv_pub s p)))
    | (Some w, s') \<Rightarrow> w = sv_fresh s \<and> pubs_inv s' \<and> load_rel s s' \<and> sv_fresh s' = Suc (sv_fresh s) \<and>
        sv_chan s' = (sv_chan s)(w := idle_chan) \<and> sv_ep s' = sv_ep s \<and>
        sv_pub s' = (sv_pub s)(p := (sv_pub s p)\<lparr>pub_queue := pub_queue (sv_pub s p) @ [w]\<rparr>)"
proof (cases "uint (ps_QueueSize (pub_settings (sv_pub s p))) \<le> zlen (pub_queue (sv_pub s p))")
  case True
  moreover have "length (pub_queue (sv_pub s p)) \<le> unat (ps_QueueSize (pub_settings (sv_pub s p)))"
    using assms by (simp add: pubs_inv_def line_inv_def)
  ultimately show ?thesis by (simp add: queueWaiterRLocked_def uint_le_zlen)
next
  case False
  define s' where "s' = s\<lparr>sv_fresh := Suc (sv_fresh s), sv_chan := (sv_chan s)(sv_fresh s := idle_chan),
    sv_pub := (sv_pub s)(p := (sv_pub s p)\<lparr>pub_queue := pub_queue (sv_pub s p) @ [sv_fresh s]\<rparr>)\<rparr>"
  have eq: "queueWaiterRLocked p s = (Some (sv_fresh s), s')"
    using False by (simp add: queueWaiterRLocked_def fresh_def s'_def Let_def)
  have rel: "load_rel s s'" by (simp add: load_rel_def s'_def)
  have old: "w < sv_fresh s" if "w \<in> set (pub_queue (sv_pub s q))" for w q
    using assms that by (simp add: pubs_inv_def line_inv_def)
  have room: "Suc (length (pub_queue (sv_pub s p))) \<le> unat (ps_QueueSize (pub_settings (sv_pub s p)))"
    using False by (simp add: uint_le_zlen not_le Suc_le_eq)
  have "pub_inv s' q" for q by (rule load_rel_pool [OF rel pubs_inv_pub(1) [OF assms]]) (simp_all add: s'_def)
  moreover have "line_inv s' q" for q
    using assms old [of _ q] room unfolding pubs_inv_def line_inv_def s'_def by (auto dest: less_not_refl3 intro: less_SucI)
  moreover have "lines_apart s'"
    using assms old unfolding pubs_inv_def lines_apart_def s'_def by (auto dest: less_not_refl3)
  moreover have "unused_pubs s'" using assms unfolding pubs_inv_def unused_pubs_def s'_def by simp
  ultimately have "pubs_inv s'" by (simp add: pubs_inv_def)
  with eq rel show ?thesis by (simp add: s'_def)
qed

lemma cancel_search_ok:
  assumes "pubs_inv s"
  shows "case cancelWaiter_search p w s of
      (True, s') \<Rightarrow> w \<in> set (pub_queue (sv_pub s p)) \<and> pubs_inv s' \<and>
        s' = upd_pub p (\<lambda>pub. pub\<lparr>pub_queue := remove1 w (pub_queue pub)\<rparr>) s
    | (False, s') \<Rightarrow> w \<notin> set (pub_queue (sv_pub s p)) \<and> s' = s"
proof (cases "w \<in> set (pub_queue (sv_pub s p))")
  case True
  define s' where "s' = upd_pub p (\<lambda>pub. pub\<lparr>pub_queue := remove1 w (pub_queue pub)\<rparr>) s"
  have rel: "load_rel s s'" by (simp add: load_rel_def s'_def)
  have "pubs_inv s'"
  proof (rule pubs_inv_shrink [OF assms rel])
    show "pub_inv s' q" for q by (rule load_rel_pool [OF rel pubs_inv_pub(1) [OF assms]]) (simp_all add: s'_def)
  qed (use queue_distinct [OF assms] notin_set_remove1 in \<open>auto simp: s'_def\<close>)
  with True show ?thesis by (simp add: cancelWaiter_search_def remove_ref_eq s'_def)
qed (simp add: cancelWaiter_search_def remove_ref_eq)

end
