(* ===== verification/Server_Publish.thy ===== *)
theory Server_Publish
  imports Server_Pool
begin

text \<open>
  What publishing and unpublishing do to the accounting of publications: \<^verbatim>\<open>wakeupWaitersLocked\<close>,
  \<^verbatim>\<open>publishLocked\<close> and \<^verbatim>\<open>unpublishLocked\<close>.
\<close>

section \<open>Waking waiters\<close>

lemma zip_take_le: "length es \<le> n \<Longrightarrow> zip (take n ws) es = zip ws es"
  by (simp add: list_eq_iff_nth_eq)

lemma serve_chans_other: "w \<notin> set ws \<Longrightarrow> serve_chans (zip ws es) ch w = ch w"
  by (auto simp: serve_chans_def split: option.splits dest!: map_of_SomeD set_zip_leftD)

lemma wakeupWaiters_ok:
  assumes "runtime_ok rt" and "pubs_inv s"
  shows "\<exists>es s'. wakeupWaitersLocked rt p n s = Some (length es, s') \<and> pubs_inv s' \<and> load_rel s s' \<and>
     sv_fresh s' = sv_fresh s \<and> set es \<subseteq> pub_eps s p \<and> length es \<le> length (pub_queue (sv_pub s p)) \<and>
     (\<forall>q. pub_queue (sv_pub s' q) = (if q = p then drop (length es) (pub_queue (sv_pub s p)) else pub_queue (sv_pub s q))) \<and>
     sv_chan s' = serve_chans (zip (pub_queue (sv_pub s p)) es) (sv_chan s) \<and>
     (\<forall>f. unat (ep_active (sv_ep s' f)) = unat (ep_active (sv_ep s f)) + count_list es f) \<and>
     (length es < min n (length (pub_queue (sv_pub s p))) \<longrightarrow> pub_ready (sv_pub s' p) = {})"
proof -
  let ?q = "pub_queue (sv_pub s p)"
  let ?n = "min n (length ?q)"
  have n: "(if length ?q < n then length ?q else n) = ?n" by simp
  have dq: "distinct ?q" using assms(2) by (rule queue_distinct)
  show ?thesis
  proof (cases "?n = 0")
    case True
    have "wakeupWaitersLocked rt p n s = Some (0, s)"
      using True unfolding wakeupWaitersLocked_def n Let_def by simp
    moreover have "serve_chans (zip ?q []) (sv_chan s) = sv_chan s" by (simp add: serve_chans_def fun_eq_iff)
    ultimately show ?thesis using assms(2) True by (intro exI [of _ "[]"] exI [of _ s]) auto
  next
    case False
    have "\<forall>q. pub_inv s q" using assms(2) by (simp add: pubs_inv_def)
    moreover have "distinct (take ?n ?q)" using dq by simp
    moreover have "\<forall>w \<in> set (take ?n ?q). sv_chan s w = idle_chan"
      using queue_idle [OF assms(2), of _ p] by (meson in_set_takeD)
    ultimately obtain es s1 where
      l: "wakeup_loop rt p 0 (take ?n ?q) s = Some (0 + length es, s1)" "length es \<le> length (take ?n ?q)" "load_rel s s1"
      "\<forall>q. pub_inv s1 q" "set es \<subseteq> pub_eps s p" "length es < length (take ?n ?q) \<longrightarrow> pub_ready (sv_pub s1 p) = {}"
      "\<forall>q. pub_queue (sv_pub s1 q) = pub_queue (sv_pub s q)" "sv_fresh s1 = sv_fresh s"
      "sv_chan s1 = serve_chans (zip (take ?n ?q) es) (sv_chan s)"
      "\<forall>f. unat (ep_active (sv_ep s1 f)) = unat (ep_active (sv_ep s f)) + count_list es f"
      using wakeup_loop_ok [OF assms(1), of s "take ?n ?q" p 0] by blast
    define s2 where "s2 = upd_pub p (\<lambda>pub. pub\<lparr>pub_queue := drop (length es) (pub_queue pub)\<rparr>) s1"
    have w: "wakeupWaitersLocked rt p n s = Some (length es, s2)"
      using False l(1) unfolding wakeupWaitersLocked_def n Let_def by (simp add: s2_def)
    have chan: "sv_chan s2 = serve_chans (zip ?q es) (sv_chan s)"
      using l(2,9) zip_take_le [of es ?n ?q] by (simp add: s2_def)
    have rel1: "load_rel s1 s2" by (simp add: load_rel_def s2_def)
    have rel: "load_rel s s2" using l(3) rel1 by (rule load_rel_trans)
    have q2: "pub_queue (sv_pub s2 q) = (if q = p then drop (length es) ?q else pub_queue (sv_pub s q))" for q
      using l(7) by (simp add: s2_def)
    have "pubs_inv s2"
    proof (rule pubs_inv_shrink [OF assms(2) rel])
      show "pub_inv s2 q" for q using l(4) by (intro load_rel_pool [OF rel1]) (simp_all add: s2_def)
      show "distinct (pub_queue (sv_pub s2 q))" for q using queue_distinct [OF assms(2), of q] by (auto simp: q2)
      show "set (pub_queue (sv_pub s2 q)) \<subseteq> set (pub_queue (sv_pub s q))" for q by (simp add: q2 set_drop_subset)
      show "sv_chan s2 w = sv_chan s w" if "w \<in> set (pub_queue (sv_pub s2 q))" for q w
      proof -
        have "w \<notin> set (take (length es) ?q)"
        proof (cases "q = p")
          case True
          with that have "w \<in> set (drop (length es) ?q)" by (simp add: q2)
          then show ?thesis using dq set_take_disj_set_drop_if_distinct [of ?q "length es" "length es"] by auto
        next
          case False
          with that queue_apart [OF assms(2), of w p q] have "w \<notin> set ?q" by (auto simp: q2)
          then show ?thesis by (auto dest: in_set_takeD)
        qed
        then show ?thesis unfolding chan using serve_chans_other [of w "take (length es) ?q" es] zip_take_le [of es "length es" ?q] by simp
      qed
    qed
    with w rel chan l q2 show ?thesis by (intro exI [of _ es] exI [of _ s2]) (auto simp: s2_def)
  qed
qed

section \<open>Adding an endpoint\<close>

text \<open>The state in which both branches of \<^verbatim>\<open>publishLocked\<close> go on: the totals already count the new endpoint.\<close>

definition joining :: "server \<Rightarrow> pubref \<Rightarrow> localEndpointKey \<Rightarrow> PublishSettings \<Rightarrow> bool" where
  "joining s p key settings \<longleftrightarrow>
     (\<forall>q. q \<noteq> p \<longrightarrow> pub_inv s q) \<and> members_inv s p \<and> pool_inv s p \<and> counts_inv s p \<and> totals_inv [settings] s p \<and>
     (\<forall>q. line_inv s q) \<and> lines_apart s \<and> unused_pubs s \<and> p < sv_fresh s \<and>
     map_of (pub_endpoints (sv_pub s p)) key = None \<and> 0 < unat (ps_Concurrency settings)"

text \<open>The state after the new endpoint has been entered.\<close>

definition joined :: "pubref \<Rightarrow> localEndpointKey \<Rightarrow> PublishSettings \<Rightarrow> server \<Rightarrow> server" where
  "joined p key settings s =
     (let d = ps_MaxDistance settings; e = sv_fresh s
      in s\<lparr>sv_fresh := Suc e,
           sv_ep := (sv_ep s)(e := \<lparr>ep_pub = Some p, ep_key = key, ep_active = 0, ep_settings = settings\<rparr>),
           sv_pub := (sv_pub s)(p := (sv_pub s p)\<lparr>
             pub_maxDistanceCounts := AList.update d (count_of (pub_maxDistanceCounts (sv_pub s p)) d + 1) (pub_maxDistanceCounts (sv_pub s p)),
             pub_endpoints := AList.update key e (pub_endpoints (sv_pub s p)),
             pub_ready := insert e (pub_ready (sv_pub s p))\<rparr>)\<rparr>)"

lemma publish_endpoint_eq:
  "publish_endpoint rt p key settings s =
     (case wakeupWaitersLocked rt p (unat (ps_Concurrency settings)) (joined p key settings s) of
        None \<Rightarrow> None
      | Some (_, s') \<Rightarrow> Some (sv_fresh s, notify_changed rt p s'))"
proof -
  have "upd_pub p (\<lambda>pub. pub\<lparr>pub_endpoints := AList.update key (sv_fresh s) (pub_endpoints pub), pub_ready := insert (sv_fresh s) (pub_ready pub)\<rparr>)
      (upd_ep (sv_fresh s) (\<lambda>_. \<lparr>ep_pub = Some p, ep_key = key, ep_active = 0, ep_settings = settings\<rparr>)
        ((upd_pub p (\<lambda>pub. pub\<lparr>pub_maxDistanceCounts := AList.update (ps_MaxDistance settings)
            (count_of (pub_maxDistanceCounts pub) (ps_MaxDistance settings) + 1) (pub_maxDistanceCounts pub)\<rparr>) s)
          \<lparr>sv_fresh := Suc (sv_fresh s)\<rparr>)) = joined p key settings s"
    by (simp add: joined_def Let_def)
  then show ?thesis
    unfolding publish_endpoint_def fresh_def Let_def
    by (simp add: Option.bind_def split: option.split)
qed

lemma set_update_new: "map_of m k = None \<Longrightarrow> set (AList.update k v m) = insert (k, v) (set m)"
  by (induction m) (auto split: if_splits)

lemma joined_eps:
  assumes "joining s p key settings"
  shows "pub_eps (joined p key settings s) q = (if q = p then insert (sv_fresh s) (pub_eps s p) else pub_eps s q)"
  using assms by (auto simp: joined_def joining_def pub_eps_def Let_def set_update_new)

lemma joined_ep: "e \<noteq> sv_fresh s \<Longrightarrow> sv_ep (joined p key settings s) e = sv_ep s e"
  by (simp add: joined_def Let_def)

lemma joined_new:
  "sv_ep (joined p key settings s) (sv_fresh s) = \<lparr>ep_pub = Some p, ep_key = key, ep_active = 0, ep_settings = settings\<rparr>"
  by (simp add: joined_def Let_def)

lemma joined_other: "q \<noteq> p \<Longrightarrow> sv_pub (joined p key settings s) q = sv_pub s q"
  by (simp add: joined_def Let_def)

lemma members_entry:
  "members_inv s q \<Longrightarrow> (k, e) \<in> set (pub_endpoints (sv_pub s q)) \<Longrightarrow>
   ep_pub (sv_ep s e) = Some q \<and> ep_key (sv_ep s e) = k \<and> e < sv_fresh s"
  unfolding members_inv_def by blast

lemma member_old: "members_inv s q \<Longrightarrow> e \<in> pub_eps s q \<Longrightarrow> e < sv_fresh s"
  unfolding members_inv_def pub_eps_def by auto

lemma card_filter_insert:
  "finite A \<Longrightarrow> x \<notin> A \<Longrightarrow> card {y \<in> insert x A. P y} = (if P x then Suc (card {y \<in> A. P y}) else card {y \<in> A. P y})"
proof -
  assume "finite A" "x \<notin> A"
  moreover have "{y \<in> insert x A. P y} = (if P x then insert x {y \<in> A. P y} else {y \<in> A. P y})" by auto
  ultimately show ?thesis by simp
qed

text \<open>An invariant that only looks at the publication and its endpoints.\<close>

lemma pub_inv_cong:
  assumes "sv_pub s' q = sv_pub s q" and "\<And>e. e \<in> pub_eps s q \<Longrightarrow> sv_ep s' e = sv_ep s e"
    and "\<And>e. ep_pub (sv_ep s' e) = Some q \<Longrightarrow> ep_pub (sv_ep s e) = Some q" and "sv_fresh s \<le> sv_fresh s'" and "pub_inv s q"
  shows "pub_inv s' q"
proof -
  have eps: "pub_eps s' q = pub_eps s q" by (simp add: pub_eps_def assms(1))
  have m: "members_inv s q" using assms(5) by (simp add: pub_inv_def)
  have "members_inv s' q"
    unfolding members_inv_def eps assms(1)
  proof (intro conjI allI impI)
    show "gm_wf (pub_endpoints (sv_pub s q))" using m by (simp add: members_inv_def)
    fix k e assume ke: "(k, e) \<in> set (pub_endpoints (sv_pub s q))"
    then have "e \<in> pub_eps s q" by (force simp: pub_eps_def)
    then have "sv_ep s' e = sv_ep s e" by (rule assms(2))
    with members_entry [OF m ke] assms(4)
    show "ep_pub (sv_ep s' e) = Some q" "ep_key (sv_ep s' e) = k" "e < sv_fresh s'" by simp_all
  next
    fix e assume "ep_pub (sv_ep s' e) = Some q"
    with assms(3) m show "e \<in> pub_eps s q" by (simp add: members_inv_def)
  qed
  moreover have "pool_inv s' q" "counts_inv s' q"
    using assms(2,5) unfolding pub_inv_def pool_inv_def counts_inv_def eps assms(1) by (auto cong: conj_cong)
  moreover have "totals_inv [] s' q"
    using assms(2,5) unfolding pub_inv_def totals_inv_def eps assms(1) by (simp add: image_image cong: sum.cong image_cong)
  ultimately show ?thesis by (simp add: pub_inv_def)
qed

lemma joined_members:
  assumes "joining s p key settings"
  shows "members_inv (joined p key settings s) p"
proof -
  let ?s = "joined p key settings s"
  have m: "members_inv s p" and key: "map_of (pub_endpoints (sv_pub s p)) key = None" using assms by (simp_all add: joining_def)
  have eps: "pub_endpoints (sv_pub ?s p) = AList.update key (sv_fresh s) (pub_endpoints (sv_pub s p))"
    by (simp add: joined_def Let_def)
  show ?thesis
    unfolding members_inv_def
  proof (intro conjI allI impI)
    show "gm_wf (pub_endpoints (sv_pub ?s p))" using m by (simp add: eps members_inv_def)
    fix k e assume "(k, e) \<in> set (pub_endpoints (sv_pub ?s p))"
    then have ke: "(k, e) = (key, sv_fresh s) \<or> (k, e) \<in> set (pub_endpoints (sv_pub s p))"
      by (simp add: eps set_update_new [OF key])
    moreover have "ep_pub (sv_ep s e) = Some p \<and> ep_key (sv_ep s e) = k \<and> e < sv_fresh s"
      if "(k, e) \<in> set (pub_endpoints (sv_pub s p))" using members_entry [OF m that] .
    ultimately have "ep_pub (sv_ep ?s e) = Some p \<and> ep_key (sv_ep ?s e) = k \<and> e < sv_fresh ?s"
      by (cases "e = sv_fresh s") (auto simp: joined_def Let_def)
    then show "ep_pub (sv_ep ?s e) = Some p" "ep_key (sv_ep ?s e) = k" "e < sv_fresh ?s" by simp_all
  next
    fix e assume "ep_pub (sv_ep ?s e) = Some p"
    then show "e \<in> pub_eps ?s p" using m unfolding joined_eps [OF assms]
      by (cases "e = sv_fresh s") (auto simp: joined_ep members_eps)
  qed
qed

lemma joined_totals:
  assumes "joining s p key settings"
  shows "totals_inv [] (joined p key settings s) p" "counts_inv (joined p key settings s) p" "pool_inv (joined p key settings s) p"
proof -
  let ?s = "joined p key settings s" let ?e = "sv_fresh s"
  have m: "members_inv s p" using assms by (simp add: joining_def)
  have new: "?e \<notin> pub_eps s p" using member_old [OF m, of ?e] by auto
  have old: "sv_ep ?s e = sv_ep s e" if "e \<in> pub_eps s p" for e
    using that new by (intro joined_ep) auto
  have st: "pub_settings (sv_pub ?s p) = pub_settings (sv_pub s p)" by (simp add: joined_def Let_def)
  have eps: "pub_eps ?s p = insert ?e (pub_eps s p)" using joined_eps [OF assms] by simp
  have sums: "(\<Sum>e \<in> insert ?e (pub_eps s p). f (sv_ep ?s e)) = f (sv_ep ?s ?e) + (\<Sum>e \<in> pub_eps s p. f (sv_ep s e))"
    for f :: "localEndpoint \<Rightarrow> nat" using new old by (simp cong: sum.cong)
  have img: "ep_distance ` sv_ep ?s ` insert ?e (pub_eps s p) = insert (ps_MaxDistance settings) (ep_distance ` sv_ep s ` pub_eps s p)"
    using old by (auto simp: joined_new ep_distance_def image_iff)
  have "totals_inv [settings] s p" using assms by (simp add: joining_def)
  then show "totals_inv [] ?s p"
    unfolding totals_inv_def st eps sums img Let_def by (simp add: joined_new ep_limit_def ep_queue_def insert_commute)
  have "counts_inv s p" using assms by (simp add: joining_def)
  moreover have "{e \<in> pub_eps s p. ep_distance (sv_ep ?s e) = d} = {e \<in> pub_eps s p. ep_distance (sv_ep s e) = d}" for d
    using old by auto
  then have "card {e \<in> insert ?e (pub_eps s p). ep_distance (sv_ep ?s e) = d} =
      (if d = ps_MaxDistance settings then Suc (card {e \<in> pub_eps s p. ep_distance (sv_ep s e) = d})
       else card {e \<in> pub_eps s p. ep_distance (sv_ep s e) = d})" for d
    using card_filter_insert [OF pub_eps_finite new, of "\<lambda>e. ep_distance (sv_ep ?s e) = d"]
    by (simp add: joined_new ep_distance_def eq_commute)
  ultimately show "counts_inv ?s p"
    unfolding counts_inv_def eps by (auto simp: joined_def Let_def gomap_simps count_of_def)
  have "pool_inv s p" and pos: "0 < unat (ps_Concurrency settings)" using assms by (simp_all add: joining_def)
  then show "pool_inv ?s p"
    unfolding pool_inv_def eps using old new
    by (auto simp: joined_new ep_limit_def) (auto simp: joined_def Let_def)
qed

lemma joined_inv:
  assumes "joining s p key settings"
  shows "pubs_inv (joined p key settings s)"
proof -
  let ?s = "joined p key settings s"
  have "pub_inv ?s q" for q
  proof (cases "q = p")
    case True
    with joined_members [OF assms] joined_totals [OF assms] show ?thesis by (simp add: pub_inv_def)
  next
    case False
    then have q: "pub_inv s q" using assms by (simp add: joining_def)
    then have old: "e < sv_fresh s" if "e \<in> pub_eps s q" for e
      using member_old that by (auto simp: pub_inv_def)
    show ?thesis
    proof (rule pub_inv_cong [OF joined_other [OF False] _ _ _ q])
      show "sv_ep ?s e = sv_ep s e" if "e \<in> pub_eps s q" for e using old [OF that] by (intro joined_ep) simp
      show "ep_pub (sv_ep s e) = Some q" if "ep_pub (sv_ep ?s e) = Some q" for e
        using that False by (cases "e = sv_fresh s") (simp_all add: joined_new joined_ep)
      show "sv_fresh s \<le> sv_fresh ?s" by (simp add: joined_def Let_def)
    qed
  qed
  moreover have "line_inv ?s q" "lines_apart ?s" "unused_pubs ?s" for q
    using assms unfolding joining_def line_inv_def lines_apart_def unused_pubs_def joined_def Let_def
    by (auto intro: less_SucI)
  ultimately show ?thesis by (simp add: pubs_inv_def)
qed

section \<open>Removing an endpoint\<close>

lemma max_distance_Max: "max_distance counts = Max (insert 0 (gm_keys counts))"
proof -
  have "fold (\<lambda>d m. if m < d then d else m) ds (x :: u32) = Max (insert x (set ds))" for ds x
  proof (induction ds arbitrary: x)
    case (Cons d ds)
    have "fold (\<lambda>d m. if m < d then d else m) (d # ds) x = Max (insert (max x d) (set ds))"
    proof -
      have "(if x < d then d else x) = max x d" by (auto simp: max_def)
      then show ?thesis using Cons.IH [of "max x d"] by simp
    qed
    also have "\<dots> = Max (insert x (set (d # ds)))"
      by (cases "ds = []") (auto simp: ac_simps)
    finally show ?case .
  qed simp
  then show ?thesis by (simp add: max_distance_def)
qed

definition withdrawn :: "pubref \<Rightarrow> epref \<Rightarrow> server \<Rightarrow> server" where
  "withdrawn p e s =
     (let s = upd_ep e (\<lambda>ep. ep\<lparr>ep_pub := None\<rparr>) s in upd_pub p (withdraw_endpoint e (sv_ep s e)) s)"

lemma withdrawn_eps:
  assumes "members_inv s p" and "e \<in> pub_eps s p"
  shows "pub_eps (withdrawn p e s) q = (if q = p then pub_eps s p - {e} else pub_eps s q)"
proof (cases "q = p")
  case True
  have "\<And>k f. (k, f) \<in> set (pub_endpoints (sv_pub s p)) \<Longrightarrow> k \<noteq> ep_key (sv_ep s e) \<longleftrightarrow> f \<noteq> e"
  proof -
    from assms(2) obtain k0 where k0: "(k0, e) \<in> set (pub_endpoints (sv_pub s p))" by (auto simp: pub_eps_def)
    then have "ep_key (sv_ep s e) = k0" using members_entry [OF assms(1)] by blast
    fix k f assume kf: "(k, f) \<in> set (pub_endpoints (sv_pub s p))"
    with members_entry [OF assms(1) kf] \<open>ep_key (sv_ep s e) = k0\<close> k0 assms(1) show "k \<noteq> ep_key (sv_ep s e) \<longleftrightarrow> f \<noteq> e"
      unfolding members_inv_def by (metis eq_key_imp_eq_value)
  qed
  then show ?thesis using True
    by (force simp: withdrawn_def withdraw_endpoint_def Let_def pub_eps_def gomap_simps split: prod.splits)
next
  case False
  then show ?thesis by (simp add: withdrawn_def Let_def pub_eps_def)
qed

lemma withdrawn_ep: "sv_ep (withdrawn p e s) f = (if f = e then (sv_ep s e)\<lparr>ep_pub := None\<rparr> else sv_ep s f)"
  by (simp add: withdrawn_def Let_def)

lemma withdrawn_other: "q \<noteq> p \<Longrightarrow> sv_pub (withdrawn p e s) q = sv_pub s q"
  by (simp add: withdrawn_def Let_def)

lemma withdrawn_members:
  assumes "members_inv s p" and "e \<in> pub_eps s p"
  shows "members_inv (withdrawn p e s) p"
  unfolding members_inv_def
proof (intro conjI allI impI)
  let ?s = "withdrawn p e s"
  have eps: "pub_endpoints (sv_pub ?s p) = AList.delete (ep_key (sv_ep s e)) (pub_endpoints (sv_pub s p))"
    by (simp add: withdrawn_def withdraw_endpoint_def Let_def split: prod.splits)
  show "gm_wf (pub_endpoints (sv_pub ?s p))" using assms(1) by (simp add: eps members_inv_def)
  fix k f assume kf: "(k, f) \<in> set (pub_endpoints (sv_pub ?s p))"
  then have old: "(k, f) \<in> set (pub_endpoints (sv_pub s p))" by (simp add: eps gomap_simps)
  from kf have "f \<in> pub_eps ?s p" by (force simp: pub_eps_def)
  then have "f \<noteq> e" by (simp add: withdrawn_eps [OF assms])
  with members_entry [OF assms(1) old]
  show "ep_pub (sv_ep ?s f) = Some p" "ep_key (sv_ep ?s f) = k" "f < sv_fresh ?s"
    by (simp_all add: withdrawn_ep) (simp add: withdrawn_def Let_def)
next
  fix f assume "ep_pub (sv_ep (withdrawn p e s) f) = Some p"
  then show "f \<in> pub_eps (withdrawn p e s) p"
    using assms(1) by (cases "f = e") (simp_all add: withdrawn_ep withdrawn_eps [OF assms] members_eps)
qed

lemma card_filter_remove:
  "finite A \<Longrightarrow> x \<in> A \<Longrightarrow> card {y \<in> A. P y} = (if P x then Suc (card {y \<in> A - {x}. P y}) else card {y \<in> A - {x}. P y})"
  using card_filter_insert [of "A - {x}" x P] by (simp add: insert_absorb insert_Diff)

lemma withdrawn_pool:
  assumes "members_inv s p" and "e \<in> pub_eps s p" and "pool_inv s p"
  shows "pool_inv (withdrawn p e s) p"
proof -
  have "pub_ready (sv_pub (withdrawn p e s) p) = pub_ready (sv_pub s p) - {e}"
    by (simp add: withdrawn_def withdraw_endpoint_def Let_def split: prod.splits)
  with assms(3) show ?thesis unfolding pool_inv_def withdrawn_eps [OF assms(1,2)] by (auto simp: withdrawn_ep)
qed

lemma withdrawn_counts:
  assumes "members_inv s p" and "e \<in> pub_eps s p" and "counts_inv s p"
  shows "counts_inv (withdrawn p e s) p"
    and "(pub_settings (sv_pub (withdrawn p e s) p)) =
      (pub_settings (sv_pub s p))\<lparr>
         ps_MaxDistance := (if card {f \<in> pub_eps s p - {e}. ep_distance (sv_ep s f) = ep_distance (sv_ep s e)} = 0
           then Max (insert 0 (ep_distance ` sv_ep s ` (pub_eps s p - {e}))) else ps_MaxDistance (pub_settings (sv_pub s p))),
         ps_Concurrency := ps_Concurrency (pub_settings (sv_pub s p)) - ps_Concurrency (ep_settings (sv_ep s e)),
         ps_QueueSize := ps_QueueSize (pub_settings (sv_pub s p)) - ps_QueueSize (ep_settings (sv_ep s e))\<rparr>"
proof -
  let ?s = "withdrawn p e s" let ?d = "ep_distance (sv_ep s e)" let ?C = "pub_maxDistanceCounts (sv_pub s p)"
  let ?n = "\<lambda>d. card {f \<in> pub_eps s p - {e}. ep_distance (sv_ep s f) = d}"
  obtain C' gone where dec: "decrementCounterUint32 ?C ?d = (C', gone)" by (meson surj_pair)
  have wf: "gm_wf ?C" using assms(3) by (simp add: counts_inv_def)
  have C: "map_of ?C d = (let n = (if d = ?d then Suc (?n d) else ?n d) in if n = 0 then None else Some (int n))" for d
  proof -
    have "card {f \<in> pub_eps s p. ep_distance (sv_ep s f) = d} = (if d = ?d then Suc (?n d) else ?n d)"
      using card_filter_remove [OF pub_eps_finite assms(2), of "\<lambda>f. ep_distance (sv_ep s f) = d"]
      by (simp only: eq_commute [of d ?d])
    then show ?thesis using assms(3) unfolding counts_inv_def by (simp only:)
  qed
  define m where "m = ?n ?d"
  have "map_of ?C ?d = Some (int (Suc m))" unfolding m_def C [of ?d] Let_def by (simp only: if_True nat.simps simp_thms if_False)
  then have dec': "(C', gone) = (if m \<noteq> 0 then (AList.update ?d (int m) ?C, False) else (AList.delete ?d ?C, True))"
    using dec by (simp add: decrementCounterUint32_def Let_def)
  then have gone: "gone \<longleftrightarrow> ?n ?d = 0" unfolding m_def [symmetric] by (cases "m = 0") simp_all
  have C': "map_of C' d = (let n = ?n d in if n = 0 then None else Some (int n))" "gm_wf C'" for d
  proof -
    show "gm_wf C'" using dec' wf by (cases "m = 0") simp_all
    have upd: "map_of C' = (if m \<noteq> 0 then (map_of ?C)(?d \<mapsto> int m) else (map_of ?C)(?d := None))"
      using dec' by (cases "m = 0") (simp_all add: gomap_simps)
    show "map_of C' d = (let n = ?n d in if n = 0 then None else Some (int n))"
    proof (cases "d = ?d")
      case True
      then show ?thesis unfolding upd Let_def True m_def [symmetric] by simp
    next
      case False
      then have "map_of C' d = map_of ?C d" unfolding upd by simp
      then show ?thesis unfolding C [of d] Let_def using False by (simp only: if_False)
    qed
  qed
  have pub: "pub_maxDistanceCounts (sv_pub ?s p) = C'"
    and st: "pub_settings (sv_pub ?s p) = (let st = (if gone then (pub_settings (sv_pub s p))\<lparr>ps_MaxDistance := max_distance C'\<rparr> else pub_settings (sv_pub s p))
      in st\<lparr>ps_Concurrency := ps_Concurrency st - ps_Concurrency (ep_settings (sv_ep s e)), ps_QueueSize := ps_QueueSize st - ps_QueueSize (ep_settings (sv_ep s e))\<rparr>)"
    using dec by (simp_all add: withdrawn_def withdraw_endpoint_def Let_def ep_distance_def)
  have n: "card {f \<in> pub_eps s p - {e}. ep_distance (sv_ep ?s f) = d} = ?n d" for d
    by (rule arg_cong [of _ _ card]) (auto simp: withdrawn_ep)
  show "counts_inv ?s p" unfolding counts_inv_def pub withdrawn_eps [OF assms(1,2)]
    by (simp only: n if_True simp_thms) (use C' in blast)
  have "gm_keys C' = ep_distance ` sv_ep s ` (pub_eps s p - {e})"
  proof (rule set_eqI)
    fix d
    define k where "k = ?n d"
    have "d \<in> gm_keys C' \<longleftrightarrow> k \<noteq> 0"
      using map_of_None_keys [of C' d] C'(1) [of d] unfolding k_def [symmetric] Let_def by (cases "k = 0") simp_all
    also have "k \<noteq> 0 \<longleftrightarrow> {f \<in> pub_eps s p - {e}. ep_distance (sv_ep s f) = d} \<noteq> {}"
      unfolding k_def by (subst card_0_eq) simp_all
    also have "\<dots> \<longleftrightarrow> d \<in> ep_distance ` sv_ep s ` (pub_eps s p - {e})" by auto
    finally show "d \<in> gm_keys C' \<longleftrightarrow> d \<in> ep_distance ` sv_ep s ` (pub_eps s p - {e})" .
  qed
  then show "pub_settings (sv_pub ?s p) = (pub_settings (sv_pub s p))\<lparr>
         ps_MaxDistance := (if ?n ?d = 0 then Max (insert 0 (ep_distance ` sv_ep s ` (pub_eps s p - {e}))) else ps_MaxDistance (pub_settings (sv_pub s p))),
         ps_Concurrency := ps_Concurrency (pub_settings (sv_pub s p)) - ps_Concurrency (ep_settings (sv_ep s e)),
         ps_QueueSize := ps_QueueSize (pub_settings (sv_pub s p)) - ps_QueueSize (ep_settings (sv_ep s e))\<rparr>"
    unfolding st gone [symmetric] max_distance_Max Let_def by (cases gone) simp_all
qed

lemma withdrawn_totals:
  assumes "members_inv s p" and "e \<in> pub_eps s p" and "counts_inv s p" and "totals_inv [] s p"
  shows "totals_inv [] (withdrawn p e s) p"
proof -
  let ?s = "withdrawn p e s" let ?E = "pub_eps s p - {e}"
  have st: "pub_settings (sv_pub ?s p) = (pub_settings (sv_pub s p))\<lparr>
         ps_MaxDistance := (if card {f \<in> ?E. ep_distance (sv_ep s f) = ep_distance (sv_ep s e)} = 0
           then Max (insert 0 (ep_distance ` sv_ep s ` ?E)) else ps_MaxDistance (pub_settings (sv_pub s p))),
         ps_Concurrency := ps_Concurrency (pub_settings (sv_pub s p)) - ps_Concurrency (ep_settings (sv_ep s e)),
         ps_QueueSize := ps_QueueSize (pub_settings (sv_pub s p)) - ps_QueueSize (ep_settings (sv_ep s e))\<rparr>"
    by (rule withdrawn_counts(2) [OF assms(1-3)])
  have sum: "(\<Sum>f \<in> pub_eps s p. g (sv_ep s f)) = g (sv_ep s e) + (\<Sum>f \<in> ?E. g (sv_ep ?s f))" for g :: "localEndpoint \<Rightarrow> nat"
  proof -
    have "(\<Sum>f \<in> ?E. g (sv_ep ?s f)) = (\<Sum>f \<in> ?E. g (sv_ep s f))" by (rule sum.cong) (simp_all add: withdrawn_ep)
    with sum.remove [OF pub_eps_finite assms(2), of "\<lambda>f. g (sv_ep s f)"] show ?thesis by simp
  qed
  have img: "ep_distance ` sv_ep ?s ` ?E = ep_distance ` sv_ep s ` ?E" by (auto simp: withdrawn_ep image_iff)
  have old: "unat (ps_Concurrency (pub_settings (sv_pub s p))) = ep_limit (sv_ep s e) + (\<Sum>f \<in> ?E. ep_limit (sv_ep ?s f))"
    "unat (ps_QueueSize (pub_settings (sv_pub s p))) = ep_queue (sv_ep s e) + (\<Sum>f \<in> ?E. ep_queue (sv_ep ?s f))"
    "ps_MaxDistance (pub_settings (sv_pub s p)) = Max (insert 0 (ep_distance ` sv_ep s ` pub_eps s p))"
    using assms(4) sum unfolding totals_inv_def Let_def by simp_all
  have "unat (ps_Concurrency (pub_settings (sv_pub s p)) - ps_Concurrency (ep_settings (sv_ep s e))) = (\<Sum>f \<in> ?E. ep_limit (sv_ep ?s f))"
    "unat (ps_QueueSize (pub_settings (sv_pub s p)) - ps_QueueSize (ep_settings (sv_ep s e))) = (\<Sum>f \<in> ?E. ep_queue (sv_ep ?s f))"
    using old(1,2) by (simp_all add: unat_sub word_le_nat_alt ep_limit_def ep_queue_def)
  moreover have "Max (insert 0 (ep_distance ` sv_ep s ` pub_eps s p)) = Max (insert 0 (ep_distance ` sv_ep s ` ?E))"
    if "card {f \<in> ?E. ep_distance (sv_ep s f) = ep_distance (sv_ep s e)} \<noteq> 0"
  proof -
    from that have "{f \<in> ?E. ep_distance (sv_ep s f) = ep_distance (sv_ep s e)} \<noteq> {}" by (metis card.empty)
    then obtain f where "f \<in> ?E" "ep_distance (sv_ep s f) = ep_distance (sv_ep s e)" by blast
    then have "ep_distance (sv_ep s e) \<in> ep_distance ` sv_ep s ` ?E" by (metis image_eqI)
    then have "ep_distance ` sv_ep s ` insert e ?E = ep_distance ` sv_ep s ` ?E" by (simp only: image_insert insert_absorb)
    moreover have "insert e ?E = pub_eps s p" using assms(2) by blast
    ultimately show ?thesis by (simp only:)
  qed
  ultimately show ?thesis
    unfolding totals_inv_def Let_def withdrawn_eps [OF assms(1,2)] st by (simp add: img old(3))
qed

lemma withdrawn_inv:
  assumes "\<And>q. pub_inv s q" and "e \<in> pub_eps s p"
  shows "pub_inv (withdrawn p e s) q"
proof (cases "q = p")
  case True
  have "members_inv s p" "pool_inv s p" "totals_inv [] s p" "counts_inv s p" using assms(1) [of p] by (simp_all add: pub_inv_def)
  with withdrawn_members withdrawn_pool withdrawn_counts(1) withdrawn_totals assms(2) True show ?thesis
    by (simp add: pub_inv_def)
next
  case False
  have "e \<notin> pub_eps s q"
    using assms False members_eps [of s q e] members_eps [of s p e] by (auto simp: pub_inv_def)
  then show ?thesis
  proof (intro pub_inv_cong [OF withdrawn_other [OF False] _ _ _ assms(1)])
    show "ep_pub (sv_ep s f) = Some q" if "ep_pub (sv_ep (withdrawn p e s) f) = Some q" for f
      using that by (cases "f = e") (simp_all add: withdrawn_ep)
    show "sv_fresh s \<le> sv_fresh (withdrawn p e s)" by (simp add: withdrawn_def Let_def)
  qed (auto simp: withdrawn_ep)
qed

end
