(* ===== verification/Server_Frame.thy ===== *)
theory Server_Frame
  imports Server_Client
begin

text \<open>
  What the operations on subscriptions, routes and peers leave alone: they change which
  subscriptions a publication notifies, but nothing else of publications, endpoints and watchers
  (\<open>sub_rel\<close>), and those on subscriptions and routes no more of peers and remotes (\<open>quiet\<close>).
\<close>

definition sub_rel :: "server \<Rightarrow> server \<Rightarrow> bool" where
  "sub_rel s s' \<longleftrightarrow> sv_ep s' = sv_ep s \<and> sv_chan s' = sv_chan s \<and> sv_fresh s \<le> sv_fresh s' \<and>
     sv_pubByTarget s' = sv_pubByTarget s \<and> sv_pubsByName s' = sv_pubsByName s \<and>
     sv_cs s' = sv_cs s \<and> sv_pubWatchers s' = sv_pubWatchers s \<and>
     (\<forall>p. sv_pub s' p = (sv_pub s p)\<lparr>pub_subscriptions := pub_subscriptions (sv_pub s' p)\<rparr>)"

named_theorems sub_rels "operations that leave publications, endpoints and watchers alone"

lemma sub_rel_refl [simp]: "sub_rel s s"
  by (simp add: sub_rel_def)

lemma sub_rel_trans:
  assumes "sub_rel s s'" and "sub_rel s' s''"
  shows "sub_rel s s''"
proof -
  have "sv_pub s'' p = (sv_pub s p)\<lparr>pub_subscriptions := pub_subscriptions (sv_pub s'' p)\<rparr>" for p
  proof -
    have "sv_pub s' p = (sv_pub s p)\<lparr>pub_subscriptions := pub_subscriptions (sv_pub s' p)\<rparr>"
      "sv_pub s'' p = (sv_pub s' p)\<lparr>pub_subscriptions := pub_subscriptions (sv_pub s'' p)\<rparr>"
      using assms unfolding sub_rel_def by blast+
    then show ?thesis by (cases "sv_pub s p"; cases "sv_pub s' p"; cases "sv_pub s'' p") simp
  qed
  with assms show ?thesis unfolding sub_rel_def by simp
qed

lemma range_loop_sub_rel:
  assumes "range_loop f xs s = Some s'" and "\<And>x t t'. f x t = Some t' \<Longrightarrow> sub_rel t t'"
  shows "sub_rel s s'"
  by (rule range_loop_rel [OF assms(1) sub_rel_refl]) (blast intro: sub_rel_trans assms(2))

lemma fold_sub_rel:
  assumes "\<And>x t. sub_rel t (f x t)"
  shows "sub_rel s (fold f xs s)"
proof (induction xs arbitrary: s)
  case (Cons x xs)
  show ?case using sub_rel_trans [OF assms Cons.IH] by simp
qed simp

text \<open>Single updates of the heaps that do not matter.\<close>

lemma sub_rel_updates [sub_rels]:
  "sub_rel s (upd_sub u f s)" "sub_rel s (upd_route r g s)" "sub_rel s (upd_remote m h s)" "sub_rel s (upd_peer pe k s)"
  "sub_rel s (s\<lparr>sv_subsByName := b\<rparr>)" "sub_rel s (s\<lparr>sv_routeByName := rb\<rparr>)" "sub_rel s (s\<lparr>sv_peers := ps\<rparr>)"
  "sub_rel s (upd_client c l s)" "sub_rel s (s\<lparr>sv_clients := cs\<rparr>)" "sub_rel s (s\<lparr>sv_lastTargetID := t\<rparr>)"
  "sub_rel s (s\<lparr>sv_fresh := Suc (sv_fresh s)\<rparr>)"
  "sub_rel s (upd_pub p (\<lambda>pub. pub\<lparr>pub_subscriptions := subs pub\<rparr>) s)"
  by (simp_all add: sub_rel_def)

text \<open>
  Operations on subscriptions and routes leave peers and remotes alone as well, but for the
  subscriptions that a remote notifies.
\<close>

definition same_remotes :: "server \<Rightarrow> server \<Rightarrow> bool" where
  "same_remotes s s' \<longleftrightarrow> sv_peer s' = sv_peer s \<and> sv_fresh s \<le> sv_fresh s' \<and>
     (\<forall>m. sv_remote s' m = (sv_remote s m)\<lparr>rm_subscriptions := rm_subscriptions (sv_remote s' m)\<rparr>)"

lemma same_remotes_refl [simp]: "same_remotes s s"
  by (simp add: same_remotes_def)

lemma same_remotes_trans:
  assumes "same_remotes s s'" and "same_remotes s' s''"
  shows "same_remotes s s''"
proof -
  have "sv_remote s'' m = (sv_remote s m)\<lparr>rm_subscriptions := rm_subscriptions (sv_remote s'' m)\<rparr>" for m
  proof -
    have "sv_remote s' m = (sv_remote s m)\<lparr>rm_subscriptions := rm_subscriptions (sv_remote s' m)\<rparr>"
      "sv_remote s'' m = (sv_remote s' m)\<lparr>rm_subscriptions := rm_subscriptions (sv_remote s'' m)\<rparr>"
      using assms unfolding same_remotes_def by blast+
    then show ?thesis by (cases "sv_remote s m"; cases "sv_remote s' m"; cases "sv_remote s'' m") simp
  qed
  with assms show ?thesis unfolding same_remotes_def by simp
qed

definition quiet :: "server \<Rightarrow> server \<Rightarrow> bool" where
  "quiet s s' \<longleftrightarrow> sub_rel s s' \<and> same_remotes s s'"

lemmas quiet_defs = quiet_def sub_rel_def same_remotes_def

lemma quiet_sub_rel: "quiet s s' \<Longrightarrow> sub_rel s s'"
  by (simp add: quiet_def)

lemma quiet_same_remotes: "quiet s s' \<Longrightarrow> same_remotes s s'"
  by (simp add: quiet_def)

lemma quiet_refl [simp]: "quiet s s"
  by (simp add: quiet_def)

lemma quiet_trans: "quiet s s' \<Longrightarrow> quiet s' s'' \<Longrightarrow> quiet s s''"
  unfolding quiet_def by (blast intro: sub_rel_trans same_remotes_trans)

lemma range_loop_quiet:
  assumes "range_loop f xs s = Some s'" and "\<And>x t t'. f x t = Some t' \<Longrightarrow> quiet t t'"
  shows "quiet s s'"
  by (rule range_loop_rel [OF assms(1) quiet_refl]) (blast intro: quiet_trans assms(2))

lemma fold_quiet:
  assumes "\<And>x t. quiet t (f x t)"
  shows "quiet s (fold f xs s)"
proof (induction xs arbitrary: s)
  case (Cons x xs)
  show ?case using quiet_trans [OF assms Cons.IH] by simp
qed simp

section \<open>Subscriptions and routes\<close>

named_theorems quiets "operations that leave publications, endpoints, watchers, peers and remotes alone"

lemma quiet_updates [quiets]:
  "quiet s (upd_sub u f s)" "quiet s (upd_route r g s)"
  "quiet s (s\<lparr>sv_subsByName := b\<rparr>)" "quiet s (s\<lparr>sv_routeByName := rb\<rparr>)"
  "quiet s (upd_remote m (\<lambda>rm. rm\<lparr>rm_subscriptions := subs' rm\<rparr>) s)"
  "quiet s (upd_pub p (\<lambda>pub. pub\<lparr>pub_subscriptions := subs pub\<rparr>) s)"
  by (simp_all add: quiet_defs)

lemma sub_ops_quiet [quiets]:
  "sub_addRoute u r s = Some s' \<Longrightarrow> quiet s s'" "sub_removeRoute u r s = Some s' \<Longrightarrow> quiet s s'"
  "sub_addPublication rt u p s = Some s' \<Longrightarrow> quiet s s'" "sub_removePublication u p s = Some s' \<Longrightarrow> quiet s s'"
  "sub_addRemote rt u m s = Some s' \<Longrightarrow> quiet s s'" "sub_removeRemote u m s = Some s' \<Longrightarrow> quiet s s'"
  "subscribe_route u name s = Some s' \<Longrightarrow> quiet s s'" "subscribe_pub u name p s = Some s' \<Longrightarrow> quiet s s'"
  "subscribe_remote u name m s = Some s' \<Longrightarrow> quiet s s'"
  by (auto simp: sub_addRoute_def sub_removeRoute_def sub_addPublication_def sub_removePublication_def sub_addRemote_def
      sub_removeRemote_def subscribe_route_def subscribe_pub_def subscribe_remote_def quiet_defs Let_def
      split: Option.bind_splits if_splits option.splits)

lemma subscribe_name_quiet [quiets]:
  assumes "subscribe_name rt u name s = Some s'"
  shows "quiet s s'"
proof -
  from assms obtain s1 s2 where s1: "subscribe_route u name (subscribe_interest u name s) = Some s1"
    and s2: "range_loop (subscribe_pub u name) (rt_refs rt (gm_values (pubs_named s1 name))) s1 = Some s2"
    and s3: "range_loop (\<lambda>peer s. range_loop (subscribe_remote u name) (rt_refs rt (gm_values (remotes_named (sv_peer s peer) name))) s)
       (rt_refs rt (gm_values (sv_peers s2))) s2 = Some s'"
    unfolding subscribe_name_def by (auto split: Option.bind_splits)
  have "quiet s (subscribe_interest u name s)" unfolding subscribe_interest_def by (rule quiets)
  moreover have "quiet s1 s2" using s2 by (rule range_loop_quiet) (rule quiets)
  moreover have "quiet s2 s'" using s3 by (rule range_loop_quiet) (erule range_loop_quiet, rule quiets)
  ultimately show ?thesis using sub_ops_quiet(7) [OF s1] by (blast intro: quiet_trans)
qed

lemma subscribeLocked_quiet [quiets]:
  assumes "subscribeLocked rt ref settings s = Some (r, s')"
  shows "quiet s s'"
proof (cases "length (ss_Options settings) = 0")
  case True
  with assms show ?thesis by (simp add: subscribeLocked_def)
next
  case False
  define u where "u = sv_fresh s"
  define s1 where "s1 = upd_sub u (\<lambda>_. new_subscription (sv_lastTargetID s + 1) settings)
      (s\<lparr>sv_lastTargetID := sv_lastTargetID s + 1, sv_fresh := Suc (sv_fresh s)\<rparr>)"
  from assms False obtain s2 where
    l: "range_loop (subscribe_name rt u) (rt_names rt (gm_keys (sub_indexByName (sv_sub s1 u)))) s1 = Some s2"
    and s': "s' = upd_sub u updateActiveIndex (upd_sub u (\<lambda>sub. sub\<lparr>sub_options :=
        map (sort_option rt (pub_priority s2) (remote_priority s2)) (sub_options sub)\<rparr>) s2)"
    unfolding subscribeLocked_def allocateTargetID_def fresh_def Let_def s1_def u_def
    by (auto split: Option.bind_splits)
  have "quiet s s1" by (simp add: s1_def quiet_defs)
  moreover have "quiet s1 s2" using l by (rule range_loop_quiet) (rule quiets)
  moreover have "quiet s2 s'" unfolding s' by (simp add: quiet_defs)
  ultimately show ?thesis by (blast intro: quiet_trans)
qed

lemma unsubscribe_option_quiet: "quiet s (unsubscribe_option u o' s)"
proof -
  have 1: "quiet t (fold (\<lambda>p. upd_pub p (\<lambda>pub. pub\<lparr>pub_subscriptions := pub_subscriptions pub - {u}\<rparr>)) ps t)" for t ps
    by (rule fold_quiet) (rule quiets)
  have 2: "quiet t (fold (\<lambda>m. upd_remote m (\<lambda>rm. rm\<lparr>rm_subscriptions := rm_subscriptions rm - {u}\<rparr>)) ms t)" for t ms
    by (rule fold_quiet) (rule quiets)
  show ?thesis unfolding unsubscribe_option_def Let_def
    by (cases "so_route o'") (simp_all, (intro quiet_trans [OF 1 2] quiet_trans [OF quiet_trans [OF quiet_updates(2) 1] 2])+)
qed

lemma unsubscribeLocked_quiet [quiets]: "quiet s (unsubscribeLocked rt u s)"
proof -
  have "quiet t (unsubscribe_name u name t)" for name t
    by (simp add: unsubscribe_name_def quiet_defs Let_def split: option.split)
  then have 2: "quiet t (fold (unsubscribe_name u) ns t)" for ns t by (rule fold_quiet)
  have 1: "quiet t (fold (unsubscribe_option u) os t)" for os t
    by (rule fold_quiet) (rule unsubscribe_option_quiet)
  show ?thesis unfolding unsubscribeLocked_def Let_def
    by (rule quiet_trans [OF 1 quiet_trans [OF 2 quiet_updates(1)]])
qed

lemma unsubscribe_cases_quiet [quiets]: "quiet s (unsubscribe_cases rt cases s)"
  unfolding unsubscribe_cases_def by (rule fold_quiet) (rule quiets)

lemma build_cases_quiet:
  "build_cases rt ref routes s = Some (cases, s') \<Longrightarrow> quiet s s'"
proof (induction routes arbitrary: s cases)
  case (Cons route routes)
  from Cons.prems obtain u s1 cases' where
    "subscribeLocked rt ref \<lparr>ss_Options = route_Options route, ss_DisableRoutes = True\<rparr> s = Some (Inr u, s1)"
    "build_cases rt ref routes s1 = Some (cases', s')"
    by (auto split: option.splits sum.splits)
  with Cons.IH subscribeLocked_quiet show ?case by (blast intro: quiet_trans)
qed simp

lemma set_cases_quiet [quiets]: "set_cases rt ref r s = Some s' \<Longrightarrow> quiet s s'"
  unfolding set_cases_def by (auto split: Option.bind_splits intro: quiet_trans [OF build_cases_quiet quiet_updates(2)])

lemma setRouteLocked_quiet [quiets]:
  assumes "setRouteLocked rt ref name routes s = Some s'"
  shows "quiet s s'"
proof (cases "map_of (sv_routeByName s) name")
  case None
  define r where "r = sv_fresh s"
  define s1 where "s1 = (upd_route r (\<lambda>_. \<lparr>ro_name = name, ro_routes = routes, ro_cases = [], ro_subscriptions = {}\<rparr>)
      (s\<lparr>sv_fresh := Suc r\<rparr>))\<lparr>sv_routeByName := AList.update name r (sv_routeByName s)\<rparr>"
  show ?thesis
  proof (cases "length routes = 0")
    case True
    with assms None show ?thesis by (simp add: setRouteLocked_def)
  next
    case False
    with assms None obtain s2 where
      "range_loop (\<lambda>u. sub_addRoute u r) (rt_refs rt (subs_named s1 name)) s1 = Some s2" "set_cases rt ref r s2 = Some s'"
      by (auto simp: setRouteLocked_def fresh_def s1_def r_def Let_def split: Option.bind_splits)
    moreover have "quiet s s1" by (simp add: s1_def quiet_defs r_def)
    ultimately show ?thesis by (meson quiet_trans set_cases_quiet range_loop_quiet sub_ops_quiet(1))
  qed
next
  case (Some r)
  have U: "quiet t (upd_route r f (unsubscribe_cases rt cases t))" for t f cases
    by (rule quiet_trans [OF unsubscribe_cases_quiet quiet_updates(2)])
  show ?thesis
  proof (cases "length routes = 0")
    case True
    with assms Some obtain s1 where l: "range_loop (\<lambda>u. sub_removeRoute u r) (rt_refs rt (ro_subscriptions (sv_route s r))) s = Some s1"
      and s': "s' = (let s = upd_route r (\<lambda>ro. ro\<lparr>ro_subscriptions := {}\<rparr>) s1; s = unsubscribe_cases rt (ro_cases (sv_route s r)) s;
            s = upd_route r (\<lambda>ro. ro\<lparr>ro_cases := [], ro_routes := []\<rparr>) s in s\<lparr>sv_routeByName := AList.delete name (sv_routeByName s)\<rparr>)"
      by (auto simp: setRouteLocked_def Let_def split: Option.bind_splits)
    have "quiet s s1" using l by (rule range_loop_quiet) (rule quiets)
    moreover have "quiet s1 s'" unfolding s' Let_def
      by (rule quiet_trans [OF quiet_updates(2) quiet_trans [OF U quiet_updates(4)]])
    ultimately show ?thesis by (rule quiet_trans)
  next
    case False
    with assms Some show ?thesis
      by (auto simp: setRouteLocked_def Let_def split: if_splits intro: quiet_trans [OF U set_cases_quiet])
  qed
qed

lemmas sub_ops_rel [sub_rels] = sub_ops_quiet [THEN quiet_sub_rel]
lemmas subscribeLocked_rel [sub_rels] = subscribeLocked_quiet [THEN quiet_sub_rel]
lemmas unsubscribeLocked_rel [sub_rels] = unsubscribeLocked_quiet [THEN quiet_sub_rel]
lemmas setRouteLocked_rel [sub_rels] = setRouteLocked_quiet [THEN quiet_sub_rel]

section \<open>Peers\<close>

lemma remote_removeLocked_rel [sub_rels]:
  assumes "remote_removeLocked rt m s = Some s'"
  shows "sub_rel s s'"
proof -
  have "sub_rel t t'" if "range_loop (\<lambda>u. sub_removeRemote u m) us t = Some t'" for us t t'
    using that by (rule range_loop_sub_rel) (rule sub_rels)
  with assms show ?thesis
    unfolding remote_removeLocked_def Let_def
    by (auto split: option.splits if_splits Option.bind_splits
        intro!: sub_rel_trans [OF sub_rel_updates(3) sub_rel_trans [OF _ sub_rel_updates(4)]])
qed

lemma add_new_remote_rel [sub_rels]:
  assumes "add_new_remote rt pe change s = Some s'"
  shows "sub_rel s s'"
proof -
  define s1 where "s1 = upd_remote (sv_fresh s) (\<lambda>_. \<lparr>rm_peer = Some pe, rm_client = pe_client (sv_peer s pe), rm_targetID = sc_TargetID change,
      rm_name = sc_Name change, rm_distance = pe_distance (sv_peer s pe), rm_settings = sc_Settings change, rm_subscriptions = {}\<rparr>)
      (s\<lparr>sv_fresh := Suc (sv_fresh s)\<rparr>)"
  define s2 where "s2 = upd_peer pe (peer_enter (sv_fresh s) (sv_remote s1 (sv_fresh s))) s1"
  have "sub_rel s s2" by (simp add: s2_def s1_def sub_rel_def)
  moreover have "range_loop (\<lambda>u. sub_addRemote rt u (sv_fresh s)) (rt_refs rt (subs_named s2 (sc_Name change))) s2 = Some s'"
    using assms unfolding add_new_remote_def fresh_def Let_def by (simp add: s1_def s2_def)
  then have "sub_rel s2 s'" by (rule range_loop_sub_rel) (rule sub_rels)
  ultimately show ?thesis by (rule sub_rel_trans)
qed

lemma peer_addRemoteLocked_rel [sub_rels]:
  "peer_addRemoteLocked rt pe change s = Some s' \<Longrightarrow> sub_rel s s'"
  unfolding peer_addRemoteLocked_def Let_def
  by (auto split: if_splits option.splits Option.bind_splits
      intro: sub_rels sub_rel_trans [OF remote_removeLocked_rel add_new_remote_rel])

lemma processChanges_rel [sub_rels]:
  assumes "processChanges rt pe client changes s = Some (b, s')"
  shows "sub_rel s s'"
proof -
  have 1: "sub_rel t t'" if "range_loop (\<lambda>u s. case map_of (pe_remotesByTarget (sv_peer s pe)) u of
      None \<Rightarrow> Some s | Some m \<Rightarrow> remote_removeLocked rt m s) us t = Some t'" for us t t'
    using that by (rule range_loop_sub_rel) (auto split: option.splits intro: sub_rels)
  have 2: "sub_rel t t'" if "range_loop (peer_addRemoteLocked rt pe) cs t = Some t'" for cs t t'
    using that by (rule range_loop_sub_rel) (rule sub_rels)
  from assms show ?thesis unfolding processChanges_def
    by (auto split: if_splits Option.bind_splits intro: sub_rel_trans [OF 1 2])
qed

lemma addPeerLocked_rel [sub_rels]: "addPeerLocked ref network address distance s = (r, s') \<Longrightarrow> sub_rel s s'"
  by (auto simp: addPeerLocked_def fresh_def Let_def sub_rel_def split: option.splits)

lemma attachClient_rel [sub_rels]: "sub_rel s (attachClient pe client s)"
  unfolding attachClient_def by (rule sub_rels)

lemma detachClient_rel [sub_rels]:
  assumes "detachClient rt pe client s = Some s'"
  shows "sub_rel s s'"
proof -
  have "sub_rel t t'" if "range_loop (remote_removeLocked rt) ms t = Some t'" for ms t t'
    using that by (rule range_loop_sub_rel) (rule sub_rels)
  with assms show ?thesis unfolding detachClient_def
    by (auto split: if_splits Option.bind_splits intro: sub_rel_trans [OF _ sub_rel_updates(4)])
qed

end
