(* ===== verification/Server_Requests.thy ===== *)
theory Server_Requests
  imports Server_Publish Server_Frame
begin

text \<open>
  Requests to publications: \<^verbatim>\<open>handleRequestRLocked\<close> of \<^verbatim>\<open>server_pubs.go\<close>, with the rest of
  \<^verbatim>\<open>cancelWaiterRLocked\<close>. A request is a goroutine; it is split at the points where another
  goroutine can run: it takes the lock of the publication several times, it gives up the lock of the
  server while it waits for an endpoint and while it serves, and it receives from its channel before
  it gets the server lock back.
\<close>

section \<open>The life of a request\<close>

datatype handleRequestStatus = StatusDone | StatusRetry | StatusNoRoute | StatusOverCapacity

text \<open>
  \<open>R_queue\<close>: no endpoint was free, the request is about to join the queue, the server still read-locked.
  \<open>R_wait\<close>: in the select. \<open>R_woken\<close>: has received, and waits for the server lock. \<open>R_serve\<close>: has an
  endpoint. \<open>R_cancel\<close>: the select has seen the cancellation. \<open>R_receive\<close>: is no longer in the queue and
  is about to receive. \<open>R_release\<close>: about to release its endpoint and return.
\<close>

datatype request =
    R_queue pubref
  | R_wait pubref waiter
  | R_woken pubref "epref option"
  | R_serve pubref epref
  | R_cancel pubref waiter
  | R_receive pubref waiter
  | R_release pubref epref handleRequestStatus
  | R_done handleRequestStatus

text \<open>Up to the first point where it can be interrupted; \<open>cancelled\<close> is the value of \<^verbatim>\<open>isCancelled\<close>.\<close>

definition req_start :: "runtime \<Rightarrow> bool \<Rightarrow> pubref \<Rightarrow> server \<Rightarrow> request \<times> server" where
  "req_start rt cancelled p s =
     (if length (pub_endpoints (sv_pub s p)) = 0 then (R_done StatusNoRoute, s)
      else case takeEndpointRLocked rt p s of
        (Some e, s) \<Rightarrow> (R_serve p e, s)
      | (None, s) \<Rightarrow> if cancelled then (R_done StatusDone, s) else (R_queue p, s))"

definition req_queue :: "pubref \<Rightarrow> server \<Rightarrow> request \<times> server" where
  "req_queue p s =
     (case queueWaiterRLocked p s of
        (None, s) \<Rightarrow> (R_done StatusOverCapacity, s)
      | (Some w, s) \<Rightarrow> (R_wait p w, s))"

definition recv_waiter :: "waiter \<Rightarrow> server \<Rightarrow> (epref option \<times> server) option" where
  "recv_waiter w s = map_option (\<lambda>(e, ch). (e, s\<lparr>sv_chan := (sv_chan s)(w := ch)\<rparr>)) (chan_recv (sv_chan s w))"

definition req_woken :: "pubref \<Rightarrow> epref option \<Rightarrow> server \<Rightarrow> request" where
  "req_woken p endpoint s =
     (case endpoint of
        None \<Rightarrow> if length (pub_endpoints (sv_pub s p)) = 0 then R_done StatusRetry else R_done StatusOverCapacity
      | Some e \<Rightarrow> if ep_pub (sv_ep s e) = None then R_done StatusRetry else R_serve p e)"

definition req_cancel :: "pubref \<Rightarrow> waiter \<Rightarrow> server \<Rightarrow> request \<times> server" where
  "req_cancel p w s =
     (case cancelWaiter_search p w s of
        (True, s) \<Rightarrow> (R_done StatusDone, s)
      | (False, s) \<Rightarrow> (R_receive p w, s))"

definition req_receive :: "pubref \<Rightarrow> waiter \<Rightarrow> server \<Rightarrow> (request \<times> server) option" where
  "req_receive p w s =
     (case recv_waiter w s of
        None \<Rightarrow> None
      | Some (None, s) \<Rightarrow> Some (R_done StatusDone, s)
      | Some (Some e, s) \<Rightarrow> Some (R_release p e StatusDone, s))"

text \<open>
  The end of a request: the stream could not be opened, so the endpoint is unpublished; or the
  callback has returned (or the request was cancelled before a stream was opened).
\<close>

definition req_failed :: "runtime \<Rightarrow> eref \<Rightarrow> pubref \<Rightarrow> epref \<Rightarrow> server \<Rightarrow> (request \<times> server) option" where
  "req_failed rt ref p e s = map_option (\<lambda>(_, s). (R_release p e StatusRetry, s)) (unpublishLocked rt ref e s)"

definition req_release :: "pubref \<Rightarrow> epref \<Rightarrow> handleRequestStatus \<Rightarrow> server \<Rightarrow> (request \<times> server) option" where
  "req_release p e status s = map_option (\<lambda>s. (R_done status, s)) (releaseEndpointRLocked p e s)"

text \<open>Whether a request holds the server lock for reading between two of its steps.\<close>

fun holds_lock :: "request \<Rightarrow> bool" where
  "holds_lock (R_queue p) = True"
| "holds_lock (R_receive p w) = True"
| "holds_lock _ = False"

section \<open>Who holds what\<close>

fun waiting_on :: "request \<Rightarrow> waiter option" where
  "waiting_on (R_wait p w) = Some w"
| "waiting_on (R_cancel p w) = Some w"
| "waiting_on (R_receive p w) = Some w"
| "waiting_on _ = None"

fun req_pub :: "request \<Rightarrow> pubref" where
  "req_pub (R_queue p) = p"
| "req_pub (R_wait p w) = p"
| "req_pub (R_woken p e) = p"
| "req_pub (R_serve p e) = p"
| "req_pub (R_cancel p w) = p"
| "req_pub (R_receive p w) = p"
| "req_pub (R_release p e st) = p"
| "req_pub (R_done st) = 0"

text \<open>The endpoint a request has been given, possibly without knowing yet.\<close>

fun holding :: "(waiter \<Rightarrow> waiterChan) \<Rightarrow> request \<Rightarrow> epref option" where
  "holding ch (R_wait p w) = wc_value (ch w)"
| "holding ch (R_cancel p w) = wc_value (ch w)"
| "holding ch (R_receive p w) = wc_value (ch w)"
| "holding ch (R_woken p e) = e"
| "holding ch (R_serve p e) = Some e"
| "holding ch (R_release p e st) = Some e"
| "holding ch (R_queue p) = None"
| "holding ch (R_done st) = None"

definition holders :: "(waiter \<Rightarrow> waiterChan) \<Rightarrow> request list \<Rightarrow> epref \<Rightarrow> nat set" where
  "holders ch rs e = {i. i < length rs \<and> holding ch (rs ! i) = Some e}"

lemma holders_finite [simp]: "finite (holders ch rs e)"
  by (simp add: holders_def)

lemma holding_waiting: "waiting_on r = Some w \<Longrightarrow> holding ch r = wc_value (ch w)"
  by (cases r) auto

lemma holding_other: "waiting_on r \<noteq> Some w \<Longrightarrow> holding (ch(w := c)) r = holding ch r"
  by (cases r) auto

lemma holding_chan: "waiting_on r = None \<Longrightarrow> holding ch r = holding ch' r"
  by (cases r) auto

definition hold_inv :: "server \<Rightarrow> request list \<Rightarrow> bool" where
  "hold_inv s rs \<longleftrightarrow> (\<forall>e p. ep_pub (sv_ep s e) = Some p \<longrightarrow> unat (ep_active (sv_ep s e)) = card (holders (sv_chan s) rs e)) \<and>
     (\<forall>i < length rs. \<forall>e. holding (sv_chan s) (rs ! i) = Some e \<longrightarrow>
        e < sv_fresh s \<and> (ep_pub (sv_ep s e) = None \<or> ep_pub (sv_ep s e) = Some (req_pub (rs ! i))))"

definition wait_inv :: "server \<Rightarrow> request list \<Rightarrow> bool" where
  "wait_inv s rs \<longleftrightarrow>
     (\<forall>i < length rs. \<forall>j < length rs. \<forall>w. waiting_on (rs ! i) = Some w \<longrightarrow> waiting_on (rs ! j) = Some w \<longrightarrow> i = j) \<and>
     (\<forall>p. \<forall>w \<in> set (pub_queue (sv_pub s p)). \<exists>i < length rs. rs ! i = R_wait p w \<or> rs ! i = R_cancel p w) \<and>
     (\<forall>i < length rs. \<forall>w. waiting_on (rs ! i) = Some w \<longrightarrow> w < sv_fresh s \<and>
        (w \<in> set (pub_queue (sv_pub s (req_pub (rs ! i)))) \<and> rs ! i \<noteq> R_receive (req_pub (rs ! i)) w \<or>
         wc_closed (sv_chan s w) \<and> (\<forall>p. w \<notin> set (pub_queue (sv_pub s p)))))"

definition req_inv :: "server \<Rightarrow> request list \<Rightarrow> bool" where
  "req_inv s rs \<longleftrightarrow> pubs_inv s \<and> hold_inv s rs \<and> wait_inv s rs"

section \<open>Steps of requests\<close>

text \<open>
  A step after which one request holds something else, or is new, and the count of active requests
  of its endpoints has followed.
\<close>

lemma hold_inv_step:
  assumes inv: "hold_inv s rs"
    and same: "\<And>i. i < length rs' \<Longrightarrow> i \<noteq> k \<Longrightarrow> i < length rs \<and>
      holding (sv_chan s') (rs' ! i) = holding (sv_chan s) (rs ! i) \<and> req_pub (rs' ! i) = req_pub (rs ! i)"
    and len: "length rs \<le> length rs'"
    and act: "\<And>e p. ep_pub (sv_ep s' e) = Some p \<Longrightarrow> ep_pub (sv_ep s e) = Some p \<and>
      unat (ep_active (sv_ep s' e)) + (if k < length rs \<and> holding (sv_chan s) (rs ! k) = Some e then 1 else 0) =
      unat (ep_active (sv_ep s e)) + (if k < length rs' \<and> holding (sv_chan s') (rs' ! k) = Some e then 1 else 0)"
    and new: "\<And>e. k < length rs' \<Longrightarrow> holding (sv_chan s') (rs' ! k) = Some e \<Longrightarrow>
      e < sv_fresh s' \<and> (ep_pub (sv_ep s' e) = None \<or> ep_pub (sv_ep s' e) = Some (req_pub (rs' ! k)))"
    and fresh: "sv_fresh s \<le> sv_fresh s'"
  shows "hold_inv s' rs'"
  unfolding hold_inv_def
proof (intro conjI allI impI)
  fix e p assume e: "ep_pub (sv_ep s' e) = Some p"
  let ?H = "holders (sv_chan s) rs e" and ?H' = "holders (sv_chan s') rs' e"
  have eq: "?H' - {k} = ?H - {k}" using same len by (auto simp: holders_def)
  have c: "card H = card (H - {k}) + (if k \<in> H then 1 else 0)" if "finite H" for H :: "nat set"
    using card.remove [OF that, of k] by (cases "k \<in> H") auto
  have "card ?H' + (if k \<in> ?H then 1 else 0) = card ?H + (if k \<in> ?H' then 1 else 0)"
    using c [OF holders_finite [of "sv_chan s" rs e]] c [OF holders_finite [of "sv_chan s'" rs' e]] unfolding eq by linarith
  moreover have "k \<in> ?H \<longleftrightarrow> k < length rs \<and> holding (sv_chan s) (rs ! k) = Some e"
    "k \<in> ?H' \<longleftrightarrow> k < length rs' \<and> holding (sv_chan s') (rs' ! k) = Some e" by (simp_all add: holders_def)
  moreover have "unat (ep_active (sv_ep s e)) = card ?H" using inv act [OF e] unfolding hold_inv_def by blast
  ultimately show "unat (ep_active (sv_ep s' e)) = card ?H'" using act [OF e] by (auto split: if_splits)
next
  fix i e assume i: "i < length rs'" and h: "holding (sv_chan s') (rs' ! i) = Some e"
  have "e < sv_fresh s' \<and> (ep_pub (sv_ep s' e) = None \<or> ep_pub (sv_ep s' e) = Some (req_pub (rs' ! i)))"
  proof (cases "i = k")
    case True
    with i h new show ?thesis by blast
  next
    case False
    with same [OF i] h have "i < length rs" "holding (sv_chan s) (rs ! i) = Some e" and pub: "req_pub (rs' ! i) = req_pub (rs ! i)" by simp_all
    then have "e < sv_fresh s" "ep_pub (sv_ep s e) = None \<or> ep_pub (sv_ep s e) = Some (req_pub (rs ! i))"
      using inv unfolding hold_inv_def by blast+
    moreover have "ep_pub (sv_ep s' e) = None \<or> ep_pub (sv_ep s' e) = ep_pub (sv_ep s e)"
      using act [of e] by (cases "ep_pub (sv_ep s' e)") auto
    ultimately show ?thesis using fresh pub by (auto intro: less_le_trans)
  qed
  then show "e < sv_fresh s'" "ep_pub (sv_ep s' e) = None \<or> ep_pub (sv_ep s' e) = Some (req_pub (rs' ! i))" by blast+
qed

text \<open>A step after which no request waits that did not wait before.\<close>

lemma wait_inv_step:
  assumes inv: "wait_inv s rs"
    and waits: "\<And>i w. i < length rs' \<Longrightarrow> waiting_on (rs' ! i) = Some w \<Longrightarrow>
      i < length rs \<and> waiting_on (rs ! i) = Some w \<and> req_pub (rs' ! i) = req_pub (rs ! i)"
    and queues: "\<And>p w i. w \<in> set (pub_queue (sv_pub s' p)) \<Longrightarrow> w \<in> set (pub_queue (sv_pub s p)) \<and>
      (i < length rs \<longrightarrow> rs ! i = R_wait p w \<or> rs ! i = R_cancel p w \<longrightarrow> i < length rs' \<and> (rs' ! i = R_wait p w \<or> rs' ! i = R_cancel p w))"
    and chans: "\<And>i w. i < length rs' \<Longrightarrow> waiting_on (rs' ! i) = Some w \<Longrightarrow>
      w \<in> set (pub_queue (sv_pub s' (req_pub (rs' ! i)))) \<and> rs' ! i \<noteq> R_receive (req_pub (rs' ! i)) w \<or>
      wc_closed (sv_chan s' w) \<and> (\<forall>p. w \<notin> set (pub_queue (sv_pub s' p)))"
    and fresh: "sv_fresh s \<le> sv_fresh s'"
  shows "wait_inv s' rs'"
  unfolding wait_inv_def
proof (intro conjI allI impI ballI)
  fix i j w assume "i < length rs'" "j < length rs'" "waiting_on (rs' ! i) = Some w" "waiting_on (rs' ! j) = Some w"
  with waits inv show "i = j" unfolding wait_inv_def by metis
next
  fix p w assume w: "w \<in> set (pub_queue (sv_pub s' p))"
  with queues inv obtain i where "i < length rs" "rs ! i = R_wait p w \<or> rs ! i = R_cancel p w"
    unfolding wait_inv_def by metis
  with queues [OF w, of i] show "\<exists>i < length rs'. rs' ! i = R_wait p w \<or> rs' ! i = R_cancel p w" by blast
next
  fix i w assume iw: "i < length rs'" "waiting_on (rs' ! i) = Some w"
  with waits inv have "w < sv_fresh s" unfolding wait_inv_def by metis
  with fresh show "w < sv_fresh s'" by simp
  from chans [OF iw] show "w \<in> set (pub_queue (sv_pub s' (req_pub (rs' ! i)))) \<and> rs' ! i \<noteq> R_receive (req_pub (rs' ! i)) w \<or>
      wc_closed (sv_chan s' w) \<and> (\<forall>p. w \<notin> set (pub_queue (sv_pub s' p)))" .
qed

lemma wait_chan:
  "wait_inv s rs \<Longrightarrow> i < length rs \<Longrightarrow> waiting_on (rs ! i) = Some w \<Longrightarrow> w < sv_fresh s \<and>
   (w \<in> set (pub_queue (sv_pub s (req_pub (rs ! i)))) \<and> rs ! i \<noteq> R_receive (req_pub (rs ! i)) w \<or>
    wc_closed (sv_chan s w) \<and> (\<forall>p. w \<notin> set (pub_queue (sv_pub s p))))"
  unfolding wait_inv_def by blast

lemma wait_unique:
  "wait_inv s rs \<Longrightarrow> i < length rs \<Longrightarrow> j < length rs \<Longrightarrow> waiting_on (rs ! i) = Some w \<Longrightarrow> waiting_on (rs ! j) = Some w \<Longrightarrow> i = j"
  unfolding wait_inv_def by blast

lemma waiting_on_cases: "waiting_on r = Some w \<Longrightarrow> r = R_wait (req_pub r) w \<or> r = R_cancel (req_pub r) w \<or> r = R_receive (req_pub r) w"
  by (cases r) auto

text \<open>The queues and channels stay as they are: one request, not waiting before nor after, moves on.\<close>

lemma wait_inv_quiet:
  assumes "wait_inv s rs" and "i < length rs" and "waiting_on (rs ! i) = None" and "waiting_on r = None"
    and "\<And>p. pub_queue (sv_pub s' p) = pub_queue (sv_pub s p)" and "sv_chan s' = sv_chan s" and "sv_fresh s' = sv_fresh s"
  shows "wait_inv s' (rs[i := r])"
proof (rule wait_inv_step [OF assms(1)])
  fix j w assume j: "j < length (rs[i := r])" "waiting_on (rs[i := r] ! j) = Some w"
  with assms(2,4) have ji: "j \<noteq> i" by auto
  with j show w: "j < length rs \<and> waiting_on (rs ! j) = Some w \<and> req_pub (rs[i := r] ! j) = req_pub (rs ! j)" by simp
  from w wait_chan [OF assms(1), of j w] ji
  show "w \<in> set (pub_queue (sv_pub s' (req_pub (rs[i := r] ! j)))) \<and> rs[i := r] ! j \<noteq> R_receive (req_pub (rs[i := r] ! j)) w \<or>
      wc_closed (sv_chan s' w) \<and> (\<forall>p. w \<notin> set (pub_queue (sv_pub s' p)))" by (simp add: assms(5,6))
next
  fix p w j assume "w \<in> set (pub_queue (sv_pub s' p))"
  then show "w \<in> set (pub_queue (sv_pub s p)) \<and> (j < length rs \<longrightarrow> rs ! j = R_wait p w \<or> rs ! j = R_cancel p w \<longrightarrow>
      j < length (rs[i := r]) \<and> (rs[i := r] ! j = R_wait p w \<or> rs[i := r] ! j = R_cancel p w))"
    using assms(3) by (cases "j = i") (auto simp: assms(5))
qed (simp add: assms(7))

text \<open>The same with a new request at the end of the list.\<close>

lemma wait_inv_append:
  assumes "wait_inv s rs" and "waiting_on r = None"
    and "\<And>p. pub_queue (sv_pub s' p) = pub_queue (sv_pub s p)" and "sv_chan s' = sv_chan s" and "sv_fresh s' = sv_fresh s"
  shows "wait_inv s' (rs @ [r])"
proof (rule wait_inv_step [OF assms(1)])
  fix j w assume j: "j < length (rs @ [r])" "waiting_on ((rs @ [r]) ! j) = Some w"
  with assms(2) have ji: "j < length rs" by (cases "j = length rs") auto
  with j show w: "j < length rs \<and> waiting_on (rs ! j) = Some w \<and> req_pub ((rs @ [r]) ! j) = req_pub (rs ! j)" by (simp add: nth_append)
  from w wait_chan [OF assms(1), of j w] ji
  show "w \<in> set (pub_queue (sv_pub s' (req_pub ((rs @ [r]) ! j)))) \<and> (rs @ [r]) ! j \<noteq> R_receive (req_pub ((rs @ [r]) ! j)) w \<or>
      wc_closed (sv_chan s' w) \<and> (\<forall>p. w \<notin> set (pub_queue (sv_pub s' p)))" by (simp add: assms(3,4) nth_append)
qed (auto simp: assms(3,5) nth_append)

lemma req_inv_append:
  assumes "req_inv s rs" and "holding (sv_chan s) r = None" and "waiting_on r = None"
  shows "req_inv s (rs @ [r])"
proof -
  have "hold_inv s (rs @ [r])"
    by (rule hold_inv_step [where k = "length rs" and s = s and rs = rs])
      (use assms in \<open>auto simp: req_inv_def nth_append\<close>)
  moreover have "wait_inv s (rs @ [r])"
    by (rule wait_inv_append [where s = s]) (use assms in \<open>auto simp: req_inv_def\<close>)
  ultimately show ?thesis using assms(1) by (simp add: req_inv_def)
qed

text \<open>A request moves on, holding and waiting for the same as before.\<close>

lemma req_inv_move:
  assumes "req_inv s rs" and "i < length rs" and "holding (sv_chan s) r = holding (sv_chan s) (rs ! i)"
    and "waiting_on (rs ! i) = None" and "waiting_on r = None" and "holding (sv_chan s) r \<noteq> None \<longrightarrow> req_pub r = req_pub (rs ! i)"
  shows "req_inv s (rs[i := r])"
proof -
  have "hold_inv s (rs[i := r])"
  proof (rule hold_inv_step [where k = i and s = s and rs = rs])
    show "e < sv_fresh s \<and> (ep_pub (sv_ep s e) = None \<or> ep_pub (sv_ep s e) = Some (req_pub (rs[i := r] ! i)))"
      if "i < length (rs[i := r])" "holding (sv_chan s) (rs[i := r] ! i) = Some e" for e
    proof -
      from that assms(2) have h: "holding (sv_chan s) r = Some e" by simp
      with assms(3) have "holding (sv_chan s) (rs ! i) = Some e" by simp
      moreover have "hold_inv s rs" using assms(1) by (simp add: req_inv_def)
      ultimately show ?thesis using assms(2,6) h unfolding hold_inv_def by auto
    qed
  qed (use assms in \<open>auto simp: req_inv_def\<close>)
  moreover have "wait_inv s (rs[i := r])"
    by (rule wait_inv_quiet [where s = s]) (use assms in \<open>auto simp: req_inv_def\<close>)
  ultimately show ?thesis using assms(1) by (simp add: req_inv_def)
qed

text \<open>A request gives up what it holds; if that endpoint is still published, somebody counts it down.\<close>

lemma req_inv_drop:
  assumes "req_inv s rs" and "i < length rs" and "waiting_on (rs ! i) = None" and "holding (sv_chan s) r = None" and "waiting_on r = None"
    and "\<And>e. holding (sv_chan s) (rs ! i) = Some e \<Longrightarrow> ep_pub (sv_ep s e) = None"
  shows "req_inv s (rs[i := r])"
proof -
  have "hold_inv s (rs[i := r])"
  proof (rule hold_inv_step [where k = i and s = s and rs = rs])
    fix e p assume e: "ep_pub (sv_ep s e) = Some p"
    then have "holding (sv_chan s) (rs ! i) \<noteq> Some e" using assms(6) by auto
    with e assms(2,4) show "ep_pub (sv_ep s e) = Some p \<and>
        unat (ep_active (sv_ep s e)) + (if i < length rs \<and> holding (sv_chan s) (rs ! i) = Some e then 1 else 0) =
        unat (ep_active (sv_ep s e)) + (if i < length (rs[i := r]) \<and> holding (sv_chan s) (rs[i := r] ! i) = Some e then 1 else 0)"
      by simp
  qed (use assms in \<open>auto simp: req_inv_def\<close>)
  moreover have "wait_inv s (rs[i := r])"
    by (rule wait_inv_quiet [where s = s]) (use assms in \<open>auto simp: req_inv_def\<close>)
  ultimately show ?thesis using assms(1) by (simp add: req_inv_def)
qed

lemma req_start_ok:
  assumes "runtime_ok rt" and "req_inv s rs" and "req_start rt cancelled p s = (r, s')"
  shows "req_inv s' (rs @ [r])"
proof (cases "length (pub_endpoints (sv_pub s p)) = 0")
  case True
  with assms show ?thesis by (auto simp: req_start_def intro: req_inv_append)
next
  case False
  obtain eo s1 where t: "takeEndpointRLocked rt p s = (eo, s1)" by (meson surj_pair)
  have pi: "pubs_inv s" using assms(2) by (simp add: req_inv_def)
  note tk = take_ok [OF assms(1) pi t]
  show ?thesis
  proof (cases eo)
    case None
    with tk have "s1 = s" by simp
    with None t False assms show ?thesis by (auto simp: req_start_def split: if_splits intro: req_inv_append)
  next
    case (Some e)
    let ?s = "set_load p e (ep_active (sv_ep s e) + 1) s"
    from tk Some have e: "e \<in> pub_eps s p" "s1 = ?s" "unat (ep_active (sv_ep s e) + 1) = unat (ep_active (sv_ep s e)) + 1"
      by simp_all
    have pi': "pubs_inv ?s" using tk unfolding e(2) [symmetric] by blast
    have ep: "ep_pub (sv_ep s e) = Some p" "e < sv_fresh s"
      using e(1) pubs_inv_pub(2) [OF pi, of p] by (auto simp: members_eps member_old)
    from Some t False assms(3) e(2) have r: "r = R_serve p e" "s' = ?s" by (simp_all add: req_start_def)
    have "hold_inv ?s (rs @ [R_serve p e])"
    proof (rule hold_inv_step [where k = "length rs" and s = s and rs = rs])
      show "hold_inv s rs" using assms(2) by (simp add: req_inv_def)
    qed (auto simp: nth_append set_load_active load_rels [OF set_load_rel] e(3) ep, auto simp: set_load_def ep)
    moreover have "wait_inv ?s (rs @ [R_serve p e])"
      by (rule wait_inv_append [where s = s]) (use assms(2) in \<open>auto simp: req_inv_def set_load_def\<close>)
    ultimately show ?thesis using pi' r by (simp add: req_inv_def)
  qed
qed

lemma req_queue_ok:
  assumes "req_inv s rs" and "i < length rs" and "rs ! i = R_queue p" and "req_queue p s = (r, s')"
  shows "req_inv s' (rs[i := r])"
proof -
  have pi: "pubs_inv s" and hi: "hold_inv s rs" and wi: "wait_inv s rs" using assms(1) by (simp_all add: req_inv_def)
  obtain wo s1 where q: "queueWaiterRLocked p s = (wo, s1)" by (meson surj_pair)
  show ?thesis
  proof (cases wo)
    case None
    with queueWaiter_ok [OF pi, of p] q have "s1 = s" by simp
    with None q assms show ?thesis by (auto simp: req_queue_def intro: req_inv_move)
  next
    case (Some w)
    with queueWaiter_ok [OF pi, of p] q have w: "w = sv_fresh s" "pubs_inv s1" "sv_fresh s1 = Suc (sv_fresh s)"
      "sv_chan s1 = (sv_chan s)(w := idle_chan)" "sv_ep s1 = sv_ep s"
      "sv_pub s1 = (sv_pub s)(p := (sv_pub s p)\<lparr>pub_queue := pub_queue (sv_pub s p) @ [w]\<rparr>)" by simp_all
    from Some q assms(4) have r: "r = R_wait p w" "s' = s1" by (simp_all add: req_queue_def)
    have old: "waiting_on (rs ! j) \<noteq> Some w" if "j < length rs" for j using wait_chan [OF wi that, of w] w(1) by auto
    have oldq: "w \<notin> set (pub_queue (sv_pub s q))" for q using pi w(1) unfolding pubs_inv_def line_inv_def by (auto dest: less_not_refl3)
    have "hold_inv s1 (rs[i := r])"
      by (rule hold_inv_step [where k = i and s = s and rs = rs, OF hi])
        (use assms(2,3) old in \<open>auto simp: w(3-5) r(1) holding_other\<close>)
    moreover have "wait_inv s1 (rs[i := r])"
      unfolding wait_inv_def
    proof (intro conjI allI impI ballI)
      fix j k v assume jk: "j < length (rs[i := r])" "k < length (rs[i := r])" "waiting_on (rs[i := r] ! j) = Some v" "waiting_on (rs[i := r] ! k) = Some v"
      then show "j = k" using old wait_unique [OF wi, of j k v] r(1) by (cases "j = i"; cases "k = i") auto
    next
      fix q v assume v: "v \<in> set (pub_queue (sv_pub s1 q))"
      show "\<exists>j < length (rs[i := r]). rs[i := r] ! j = R_wait q v \<or> rs[i := r] ! j = R_cancel q v"
      proof (cases "v = w")
        case True
        with v oldq have "q = p" by (auto simp: w(6) split: if_splits)
        with True assms(2) r(1) show ?thesis by (auto intro!: exI [of _ i])
      next
        case False
        with v have "v \<in> set (pub_queue (sv_pub s q))" by (auto simp: w(6) split: if_splits)
        then obtain j where "j < length rs" "rs ! j = R_wait q v \<or> rs ! j = R_cancel q v" using wi unfolding wait_inv_def by blast
        moreover from this assms(3) have "j \<noteq> i" by auto
        ultimately show ?thesis by (intro exI [of _ j]) simp
      qed
    next
      fix j v assume j: "j < length (rs[i := r])" "waiting_on (rs[i := r] ! j) = Some v"
      show "v < sv_fresh s1"
        using j wait_chan [OF wi, of j v] r(1) w(1,3) by (cases "j = i") auto
      show "v \<in> set (pub_queue (sv_pub s1 (req_pub (rs[i := r] ! j)))) \<and> rs[i := r] ! j \<noteq> R_receive (req_pub (rs[i := r] ! j)) v \<or>
          wc_closed (sv_chan s1 v) \<and> (\<forall>p. v \<notin> set (pub_queue (sv_pub s1 p)))"
      proof (cases "j = i")
        case True
        with j assms(2) r(1) show ?thesis by (simp add: w(6))
      next
        case False
        with j have "j < length rs" "waiting_on (rs ! j) = Some v" "rs[i := r] ! j = rs ! j" by simp_all
        with wait_chan [OF wi, of j v] old [of j] show ?thesis by (auto simp: w(4,6))
      qed
    qed
    ultimately show ?thesis using w(2) r(2) by (simp add: req_inv_def)
  qed
qed

lemma recv_waiter_Some:
  "recv_waiter w s = Some (e, s') \<longleftrightarrow> e = wc_value (sv_chan s w) \<and> (e \<noteq> None \<or> wc_closed (sv_chan s w)) \<and>
     s' = s\<lparr>sv_chan := (sv_chan s)(w := (sv_chan s w)\<lparr>wc_value := None\<rparr>)\<rparr>"
  unfolding recv_waiter_def chan_recv_def by (cases "sv_chan s w") (auto split: option.splits)

text \<open>A request receives from its channel.\<close>

lemma req_inv_receive:
  assumes inv: "req_inv s rs" and i: "i < length rs" "waiting_on (rs ! i) = Some w" and rc: "recv_waiter w s = Some (e, s')"
    and r: "waiting_on r = None" "\<And>ch. holding ch r = e" "e \<noteq> None \<longrightarrow> req_pub r = req_pub (rs ! i)"
  shows "req_inv s' (rs[i := r])"
proof -
  have pi: "pubs_inv s" and hi: "hold_inv s rs" and wi: "wait_inv s rs" using inv by (simp_all add: req_inv_def)
  have e: "e = wc_value (sv_chan s w)" "sv_chan s w \<noteq> idle_chan"
    and s': "s' = s\<lparr>sv_chan := (sv_chan s)(w := (sv_chan s w)\<lparr>wc_value := None\<rparr>)\<rparr>" using rc by (auto simp: recv_waiter_Some)
  then have nq: "w \<notin> set (pub_queue (sv_pub s p))" for p using queue_idle [OF pi, of w p] by blast
  have other: "waiting_on (rs ! j) \<noteq> Some w" if "j < length rs" "j \<noteq> i" for j using wait_unique [OF wi that(1) i(1)] i(2) that(2) by blast
  have "pubs_inv s'"
  proof (rule pubs_inv_shrink [OF pi])
    show "load_rel s s'" unfolding s' by (rule load_rel_chan)
    show "pub_inv s' q" for q unfolding s' by (rule load_rel_pool [OF load_rel_chan pubs_inv_pub(1) [OF pi]]) simp_all
  qed (use queue_distinct [OF pi] nq in \<open>auto simp: s'\<close>)
  moreover have "hold_inv s' (rs[i := r])"
  proof (rule hold_inv_step [where k = i and s = s and rs = rs, OF hi])
    have hold: "holding (sv_chan s) (rs ! i) = e" using holding_waiting [OF i(2)] e(1) by simp
    show "f < sv_fresh s' \<and> (ep_pub (sv_ep s' f) = None \<or> ep_pub (sv_ep s' f) = Some (req_pub (rs[i := r] ! i)))"
      if "i < length (rs[i := r])" "holding (sv_chan s') (rs[i := r] ! i) = Some f" for f
    proof -
      from that i(1) r(2) have "e = Some f" by simp
      with hold have "holding (sv_chan s) (rs ! i) = Some f" and pub: "req_pub r = req_pub (rs ! i)" using r(3) by simp_all
      with hi i(1) have "f < sv_fresh s \<and> (ep_pub (sv_ep s f) = None \<or> ep_pub (sv_ep s f) = Some (req_pub (rs ! i)))"
        unfolding hold_inv_def by blast
      with pub i(1) show ?thesis by (simp add: s')
    qed
    show "ep_pub (sv_ep s f) = Some p \<and>
      unat (ep_active (sv_ep s' f)) + (if i < length rs \<and> holding (sv_chan s) (rs ! i) = Some f then 1 else 0) =
      unat (ep_active (sv_ep s f)) + (if i < length (rs[i := r]) \<and> holding (sv_chan s') (rs[i := r] ! i) = Some f then 1 else 0)"
      if "ep_pub (sv_ep s' f) = Some p" for f p
      using that i(1) hold r(2) by (simp add: s')
  qed (use other i in \<open>auto simp: s' holding_other\<close>)
  moreover have "wait_inv s' (rs[i := r])"
  proof (rule wait_inv_step [OF wi])
    fix j v assume j: "j < length (rs[i := r])" "waiting_on (rs[i := r] ! j) = Some v"
    with i(1) r(1) have ji: "j \<noteq> i" by auto
    with j show v: "j < length rs \<and> waiting_on (rs ! j) = Some v \<and> req_pub (rs[i := r] ! j) = req_pub (rs ! j)" by simp
    with wait_chan [OF wi, of j v] ji other [of j]
    show "v \<in> set (pub_queue (sv_pub s' (req_pub (rs[i := r] ! j)))) \<and> rs[i := r] ! j \<noteq> R_receive (req_pub (rs[i := r] ! j)) v \<or>
      wc_closed (sv_chan s' v) \<and> (\<forall>p. v \<notin> set (pub_queue (sv_pub s' p)))" by (auto simp: s')
  next
    fix p v j assume "v \<in> set (pub_queue (sv_pub s' p))"
    then have "v \<in> set (pub_queue (sv_pub s p))" by (simp add: s')
    moreover have "v \<noteq> w" using calculation nq by blast
    ultimately show "v \<in> set (pub_queue (sv_pub s p)) \<and> (j < length rs \<longrightarrow> rs ! j = R_wait p v \<or> rs ! j = R_cancel p v \<longrightarrow>
        j < length (rs[i := r]) \<and> (rs[i := r] ! j = R_wait p v \<or> rs[i := r] ! j = R_cancel p v))"
      using i(2) by (cases "j = i") auto
  qed (simp add: s')
  ultimately show ?thesis by (simp add: req_inv_def)
qed

lemma req_recv_ok:
  assumes "req_inv s rs" and "i < length rs" and "rs ! i = R_wait p w" and "recv_waiter w s = Some (e, s')"
  shows "req_inv s' (rs[i := R_woken p e])"
  by (rule req_inv_receive [OF assms(1,2) _ assms(4)]) (simp_all add: assms(3))

lemma req_receive_ok:
  assumes "req_inv s rs" and "i < length rs" and "rs ! i = R_receive p w" and "req_receive p w s = Some (r, s')"
  shows "req_inv s' (rs[i := r])"
proof -
  from assms(4) obtain e where e: "recv_waiter w s = Some (e, s')"
    "r = (case e of None \<Rightarrow> R_done StatusDone | Some e \<Rightarrow> R_release p e StatusDone)"
    unfolding req_receive_def by (auto split: option.splits)
  show ?thesis
    by (rule req_inv_receive [OF assms(1,2) _ e(1)]) (simp_all add: assms(3) e(2) split: option.split)
qed

text \<open>It never blocks there: whoever is no longer in the queue has been answered.\<close>

lemma req_receive_some:
  assumes "req_inv s rs" and "i < length rs" and "rs ! i = R_receive p w"
  shows "\<exists>r s'. req_receive p w s = Some (r, s')"
proof -
  have "wc_closed (sv_chan s w)" using wait_chan [of s rs i w] assms by (simp add: req_inv_def)
  then have "recv_waiter w s = Some (wc_value (sv_chan s w), s\<lparr>sv_chan := (sv_chan s)(w := (sv_chan s w)\<lparr>wc_value := None\<rparr>)\<rparr>)"
    by (simp add: recv_waiter_Some)
  then show ?thesis unfolding req_receive_def by (cases "wc_value (sv_chan s w)") simp_all
qed

lemma req_woken_ok:
  assumes "req_inv s rs" and "i < length rs" and "rs ! i = R_woken p e"
  shows "req_inv s (rs[i := req_woken p e s])"
proof (cases "e = None \<or> (\<exists>f. e = Some f \<and> ep_pub (sv_ep s f) = None)")
  case True
  then have "holding (sv_chan s) (req_woken p e s) = None" "waiting_on (req_woken p e s) = None"
    by (auto simp: req_woken_def)
  with True show ?thesis by (intro req_inv_drop [OF assms(1,2)]) (auto simp: assms(3))
next
  case False
  then obtain f where "req_woken p e s = R_serve p f" "e = Some f" by (auto simp: req_woken_def)
  then show ?thesis by (intro req_inv_move [OF assms(1,2)]) (simp_all add: assms(3))
qed

lemma req_wait_cancel_ok:
  assumes "req_inv s rs" and "i < length rs" and "rs ! i = R_wait p w"
  shows "req_inv s (rs[i := R_cancel p w])"
proof -
  have hi: "hold_inv s rs" and wi: "wait_inv s rs" using assms(1) by (simp_all add: req_inv_def)
  have w: "waiting_on (rs[i := R_cancel p w] ! j) = waiting_on (rs ! j)" "req_pub (rs[i := R_cancel p w] ! j) = req_pub (rs ! j)"
    "holding ch (rs[i := R_cancel p w] ! j) = holding ch (rs ! j)" if "j < length rs" for j ch
    using that assms(2,3) by (cases "j = i"; simp)+
  have "hold_inv s (rs[i := R_cancel p w])"
    using hi w unfolding hold_inv_def holders_def by (simp cong: conj_cong)
  moreover have "wait_inv s (rs[i := R_cancel p w])"
  proof (rule wait_inv_step [OF wi])
    fix j v assume "j < length (rs[i := R_cancel p w])" "waiting_on (rs[i := R_cancel p w] ! j) = Some v"
    then have j: "j < length rs" "waiting_on (rs ! j) = Some v" using w by auto
    then show "j < length rs \<and> waiting_on (rs ! j) = Some v \<and> req_pub (rs[i := R_cancel p w] ! j) = req_pub (rs ! j)" using w by simp
    show "v \<in> set (pub_queue (sv_pub s (req_pub (rs[i := R_cancel p w] ! j)))) \<and> rs[i := R_cancel p w] ! j \<noteq> R_receive (req_pub (rs[i := R_cancel p w] ! j)) v \<or>
        wc_closed (sv_chan s v) \<and> (\<forall>p. v \<notin> set (pub_queue (sv_pub s p)))"
      using wait_chan [OF wi j] w(2) [OF j(1)] j assms(2) by (cases "j = i") auto
  next
    fix q v j assume "v \<in> set (pub_queue (sv_pub s q))"
    then show "v \<in> set (pub_queue (sv_pub s q)) \<and> (j < length rs \<longrightarrow> rs ! j = R_wait q v \<or> rs ! j = R_cancel q v \<longrightarrow>
        j < length (rs[i := R_cancel p w]) \<and> (rs[i := R_cancel p w] ! j = R_wait q v \<or> rs[i := R_cancel p w] ! j = R_cancel q v))"
      using assms(2,3) by (cases "j = i") auto
  qed simp
  ultimately show ?thesis using assms(1) by (simp add: req_inv_def)
qed

lemma req_cancel_ok:
  assumes "req_inv s rs" and "i < length rs" and "rs ! i = R_cancel p w" and "req_cancel p w s = (r, s')"
  shows "req_inv s' (rs[i := r])"
proof -
  have pi: "pubs_inv s" and hi: "hold_inv s rs" and wi: "wait_inv s rs" using assms(1) by (simp_all add: req_inv_def)
  obtain b s1 where c: "cancelWaiter_search p w s = (b, s1)" by (meson surj_pair)
  have other: "waiting_on (rs ! j) \<noteq> Some w" if "j < length rs" "j \<noteq> i" for j
    using wait_unique [OF wi that(1) assms(2)] assms(3) that(2) by auto
  show ?thesis
  proof (cases b)
    case True
    with c have c': "cancelWaiter_search p w s = (True, s1)" by simp
    note cs = cancel_search_ok [OF pi, where p = p and w = w, unfolded c' prod.case bool.case]
    from cs have w: "w \<in> set (pub_queue (sv_pub s p))" "pubs_inv s1" by blast+
    from cs have s1: "s1 = upd_pub p (\<lambda>pub. pub\<lparr>pub_queue := remove1 w (pub_queue pub)\<rparr>) s" by blast
    from True c assms(4) have r: "r = R_done StatusDone" "s' = s1" by (simp_all add: req_cancel_def)
    have q1: "set (pub_queue (sv_pub s1 q)) = set (pub_queue (sv_pub s q)) - {w}" for q
      using queue_apart [OF pi w(1), of q] queue_distinct [OF pi, of p] by (auto simp: s1)
    have idle: "wc_value (sv_chan s w) = None" using queue_idle [OF pi w(1)] by simp
    have "hold_inv s1 (rs[i := r])"
      by (rule hold_inv_step [where k = i and s = s and rs = rs, OF hi])
        (use assms(2,3) idle in \<open>auto simp: r(1) s1\<close>)
    moreover have "wait_inv s1 (rs[i := r])"
    proof (rule wait_inv_step [OF wi])
      fix j v assume j: "j < length (rs[i := r])" "waiting_on (rs[i := r] ! j) = Some v"
      with assms(2) r(1) have ji: "j \<noteq> i" by auto
      with j show v: "j < length rs \<and> waiting_on (rs ! j) = Some v \<and> req_pub (rs[i := r] ! j) = req_pub (rs ! j)" by simp
      with wait_chan [OF wi, of j v] ji other [of j]
      show "v \<in> set (pub_queue (sv_pub s1 (req_pub (rs[i := r] ! j)))) \<and> rs[i := r] ! j \<noteq> R_receive (req_pub (rs[i := r] ! j)) v \<or>
        wc_closed (sv_chan s1 v) \<and> (\<forall>p. v \<notin> set (pub_queue (sv_pub s1 p)))" unfolding q1 by (auto simp: s1)
    next
      fix q v j assume "v \<in> set (pub_queue (sv_pub s1 q))"
      then show "v \<in> set (pub_queue (sv_pub s q)) \<and> (j < length rs \<longrightarrow> rs ! j = R_wait q v \<or> rs ! j = R_cancel q v \<longrightarrow>
          j < length (rs[i := r]) \<and> (rs[i := r] ! j = R_wait q v \<or> rs[i := r] ! j = R_cancel q v))"
        using assms(3) unfolding q1 by (cases "j = i") auto
    qed (simp add: s1)
    ultimately show ?thesis using w(2) r(2) by (simp add: req_inv_def)
  next
    case False
    with cancel_search_ok [OF pi, where p = p and w = w] c have w: "w \<notin> set (pub_queue (sv_pub s p))" "s1 = s" by simp_all
    from False c assms(4) w(2) have r: "r = R_receive p w" "s' = s" by (simp_all add: req_cancel_def)
    have closed: "wc_closed (sv_chan s w) \<and> (\<forall>q. w \<notin> set (pub_queue (sv_pub s q)))"
      using wait_chan [OF wi assms(2), of w] w(1) assms(3) by simp
    have same: "waiting_on (rs[i := r] ! j) = waiting_on (rs ! j)" "req_pub (rs[i := r] ! j) = req_pub (rs ! j)"
      "holding ch (rs[i := r] ! j) = holding ch (rs ! j)" if "j < length rs" for j ch
      using that assms(2,3) r(1) by (cases "j = i"; simp)+
    have "hold_inv s (rs[i := r])"
      using hi same unfolding hold_inv_def holders_def by (simp cong: conj_cong)
    moreover have "wait_inv s (rs[i := r])"
    proof (rule wait_inv_step [OF wi])
      fix j v assume "j < length (rs[i := r])" "waiting_on (rs[i := r] ! j) = Some v"
      then have j: "j < length rs" "waiting_on (rs ! j) = Some v" using same by auto
      then show "j < length rs \<and> waiting_on (rs ! j) = Some v \<and> req_pub (rs[i := r] ! j) = req_pub (rs ! j)" using same by simp
      show "v \<in> set (pub_queue (sv_pub s (req_pub (rs[i := r] ! j)))) \<and> rs[i := r] ! j \<noteq> R_receive (req_pub (rs[i := r] ! j)) v \<or>
          wc_closed (sv_chan s v) \<and> (\<forall>p. v \<notin> set (pub_queue (sv_pub s p)))"
        using wait_chan [OF wi j] same(2) [OF j(1)] j assms(2,3) closed by (cases "j = i") auto
    next
      fix q v j assume "v \<in> set (pub_queue (sv_pub s q))"
      then show "v \<in> set (pub_queue (sv_pub s q)) \<and> (j < length rs \<longrightarrow> rs ! j = R_wait q v \<or> rs ! j = R_cancel q v \<longrightarrow>
          j < length (rs[i := r]) \<and> (rs[i := r] ! j = R_wait q v \<or> rs[i := r] ! j = R_cancel q v))"
        using assms(2,3) closed by (cases "j = i") auto
    qed simp
    ultimately show ?thesis using pi r(2) by (simp add: req_inv_def)
  qed
qed


section \<open>Waiters are answered\<close>

text \<open>
  The requests stay where they are; waiters \<open>ds\<close> of one queue have been given endpoints, whose counts
  have followed, and others may have been dropped.
\<close>

lemma count_deals:
  "distinct (map fst ds) \<Longrightarrow> card {w. (w, f) \<in> set ds} = count_list (map snd ds) f"
proof (induction ds)
  case (Cons d ds)
  obtain v g where d: "d = (v, g)" by (cases d)
  have fin: "finite {w. (w, f) \<in> set ds}"
    by (rule finite_subset [of _ "fst ` set ds"]) (auto intro: rev_image_eqI)
  have "v \<notin> {w. (w, f) \<in> set ds}" using Cons.prems d by (auto intro: rev_image_eqI)
  moreover have "{w. (w, f) \<in> set (d # ds)} = (if g = f then insert v {w. (w, f) \<in> set ds} else {w. (w, f) \<in> set ds})"
    by (auto simp: d)
  ultimately show ?case using Cons fin by (simp add: d)
qed simp

definition dealt :: "(waiter \<times> epref) list \<Rightarrow> pubref \<Rightarrow> server \<Rightarrow> server \<Rightarrow> bool" where
  "dealt ds p s s' \<longleftrightarrow> distinct (map fst ds) \<and> fst ` set ds \<subseteq> set (pub_queue (sv_pub s p)) \<and>
     (\<forall>(w, e) \<in> set ds. e < sv_fresh s \<and> (ep_pub (sv_ep s e) = None \<or> ep_pub (sv_ep s e) = Some p)) \<and>
     (\<forall>w. wc_value (sv_chan s' w) = (case map_of ds w of None \<Rightarrow> wc_value (sv_chan s w) | Some e \<Rightarrow> Some e)) \<and>
     (\<forall>w. wc_closed (sv_chan s w) \<longrightarrow> wc_closed (sv_chan s' w)) \<and>
     (\<forall>e q. ep_pub (sv_ep s' e) = Some q \<longrightarrow> ep_pub (sv_ep s e) = Some q \<and>
        unat (ep_active (sv_ep s' e)) = unat (ep_active (sv_ep s e)) + count_list (map snd ds) e) \<and>
     (\<forall>q. set (pub_queue (sv_pub s' q)) \<subseteq> set (pub_queue (sv_pub s q))) \<and>
     (\<forall>q w. w \<in> set (pub_queue (sv_pub s q)) \<longrightarrow> w \<notin> set (pub_queue (sv_pub s' q)) \<longrightarrow> wc_closed (sv_chan s' w)) \<and>
     sv_fresh s \<le> sv_fresh s'"

text \<open>All that is needed of the state before: waiters in a queue have not been answered and wait in that queue only.\<close>

definition unanswered :: "server \<Rightarrow> bool" where
  "unanswered s \<longleftrightarrow> lines_apart s \<and> (\<forall>q. \<forall>w \<in> set (pub_queue (sv_pub s q)). sv_chan s w = idle_chan)"

lemma unanswered_idle: "unanswered s \<Longrightarrow> w \<in> set (pub_queue (sv_pub s q)) \<Longrightarrow> sv_chan s w = idle_chan"
  by (simp add: unanswered_def)

lemma unanswered_apart: "unanswered s \<Longrightarrow> w \<in> set (pub_queue (sv_pub s p)) \<Longrightarrow> w \<in> set (pub_queue (sv_pub s q)) \<Longrightarrow> q = p"
  unfolding unanswered_def lines_apart_def by (metis disjoint_iff)

lemma pubs_inv_unanswered: "pubs_inv s \<Longrightarrow> unanswered s"
  unfolding unanswered_def using queue_idle [of s] by (auto simp: pubs_inv_def)

lemma dealt_queued:
  assumes "dealt ds p s s'" and "(w, e) \<in> set ds"
  shows "w \<in> set (pub_queue (sv_pub s p))"
proof -
  have "fst ` set ds \<subseteq> set (pub_queue (sv_pub s p))" using assms(1) unfolding dealt_def by (elim conjE)
  moreover have "w \<in> fst ` set ds" using assms(2) by (rule rev_image_eqI) simp
  ultimately show ?thesis by (rule subsetD)
qed

lemma dealt_holding:
  assumes "dealt ds p s s'" and "unanswered s" and "wait_inv s rs" and "i < length rs"
  shows "holding (sv_chan s') (rs ! i) = Some f \<longleftrightarrow>
     holding (sv_chan s) (rs ! i) = Some f \<or> (\<exists>w. waiting_on (rs ! i) = Some w \<and> (w, f) \<in> set ds)"
proof (cases "waiting_on (rs ! i)")
  case None
  then show ?thesis using holding_chan [of "rs ! i" "sv_chan s'" "sv_chan s"] by simp
next
  case (Some w)
  have val: "wc_value (sv_chan s' w) = (case map_of ds w of None \<Rightarrow> wc_value (sv_chan s w) | Some e \<Rightarrow> Some e)"
    and dist: "distinct (map fst ds)" using assms(1) by (simp_all add: dealt_def)
  show ?thesis
  proof (cases "map_of ds w")
    case None
    then have "(w, f) \<notin> set ds" by (force simp: map_of_eq_None_iff)
    with None Some val show ?thesis by (simp add: holding_waiting)
  next
    case (Some e)
    then have we: "(w, e) \<in> set ds" by (rule map_of_SomeD)
    with assms(1) have "w \<in> set (pub_queue (sv_pub s p))" by (rule dealt_queued)
    then have "sv_chan s w = idle_chan" using unanswered_idle [OF assms(2)] by blast
    moreover have "(w, f) \<in> set ds \<longleftrightarrow> e = f" using we dist by (auto dest: eq_key_imp_eq_value)
    ultimately show ?thesis using Some \<open>waiting_on (rs ! i) = Some w\<close> val by (simp add: holding_waiting)
  qed
qed

lemma dealt_hold:
  assumes d: "dealt ds p s s'" and pi: "unanswered s" and hi: "hold_inv s rs" and wi: "wait_inv s rs"
  shows "hold_inv s' rs"
  unfolding hold_inv_def
proof (intro conjI allI impI)
  fix f q assume f: "ep_pub (sv_ep s' f) = Some q"
  define J where "J = {i. i < length rs \<and> (\<exists>w. waiting_on (rs ! i) = Some w \<and> (w, f) \<in> set ds)}"
  have queued: "w \<in> set (pub_queue (sv_pub s p))" if "(w, f) \<in> set ds" for w using d that by (rule dealt_queued)
  have H: "holders (sv_chan s') rs f = holders (sv_chan s) rs f \<union> J"
  proof (rule set_eqI)
    fix i
    show "i \<in> holders (sv_chan s') rs f \<longleftrightarrow> i \<in> holders (sv_chan s) rs f \<union> J"
      using dealt_holding [OF d pi wi, of i f] by (cases "i < length rs") (simp_all add: holders_def J_def)
  qed
  have disj: "holders (sv_chan s) rs f \<inter> J = {}"
  proof -
    have "holding (sv_chan s) (rs ! i) = None" if "i \<in> J" for i
    proof -
      from that obtain w where "waiting_on (rs ! i) = Some w" "(w, f) \<in> set ds" by (auto simp: J_def)
      then show ?thesis using unanswered_idle [OF pi queued, of w] by (simp add: holding_waiting)
    qed
    then show ?thesis by (auto simp: holders_def)
  qed
  have "bij_betw (\<lambda>i. the (waiting_on (rs ! i))) J {w. (w, f) \<in> set ds}"
    unfolding bij_betw_def
  proof (intro conjI inj_onI set_eqI iffI)
    fix i j assume "i \<in> J" "j \<in> J" "the (waiting_on (rs ! i)) = the (waiting_on (rs ! j))"
    then show "i = j" using wait_unique [OF wi] by (auto simp: J_def)
  next
    fix w assume w: "w \<in> {w. (w, f) \<in> set ds}"
    with queued wi obtain i where "i < length rs" "rs ! i = R_wait p w \<or> rs ! i = R_cancel p w"
      unfolding wait_inv_def by blast
    with w show "w \<in> (\<lambda>i. the (waiting_on (rs ! i))) ` J" by (intro image_eqI [of _ _ i]) (auto simp: J_def)
  qed (auto simp: J_def)
  then have "card J = card {w. (w, f) \<in> set ds}" by (rule bij_betw_same_card)
  moreover have "distinct (map fst ds)" using d unfolding dealt_def by (elim conjE)
  ultimately have "card J = count_list (map snd ds) f" using count_deals [of ds f] by simp
  moreover have "card (holders (sv_chan s') rs f) = card (holders (sv_chan s) rs f) + card J"
    unfolding H by (rule card_Un_disjoint [OF _ _ disj]) (simp_all add: J_def)
  moreover have "ep_pub (sv_ep s f) = Some q" "unat (ep_active (sv_ep s' f)) = unat (ep_active (sv_ep s f)) + count_list (map snd ds) f"
    using d f unfolding dealt_def by blast+
  ultimately show "unat (ep_active (sv_ep s' f)) = card (holders (sv_chan s') rs f)" using hi unfolding hold_inv_def by metis
next
  fix i f assume i: "i < length rs" and h: "holding (sv_chan s') (rs ! i) = Some f"
  have "f < sv_fresh s \<and> (ep_pub (sv_ep s f) = None \<or> ep_pub (sv_ep s f) = Some (req_pub (rs ! i)))"
  proof (cases "holding (sv_chan s) (rs ! i) = Some f")
    case True
    with hi i show ?thesis unfolding hold_inv_def by blast
  next
    case False
    with h dealt_holding [OF d pi wi i] obtain w where w: "waiting_on (rs ! i) = Some w" "(w, f) \<in> set ds" by blast
    then have "w \<in> set (pub_queue (sv_pub s p))" using dealt_queued [OF d] by blast
    then have "req_pub (rs ! i) = p" using wait_chan [OF wi i w(1)] unanswered_apart [OF pi] by blast
    with d w(2) show ?thesis unfolding dealt_def by blast
  qed
  moreover have "ep_pub (sv_ep s' f) = None \<or> ep_pub (sv_ep s' f) = ep_pub (sv_ep s f)"
    using d unfolding dealt_def by (cases "ep_pub (sv_ep s' f)") auto
  moreover have "sv_fresh s \<le> sv_fresh s'" using d by (simp add: dealt_def)
  ultimately show "f < sv_fresh s'" "ep_pub (sv_ep s' f) = None \<or> ep_pub (sv_ep s' f) = Some (req_pub (rs ! i))" by auto
qed

lemma dealt_wait:
  assumes d: "dealt ds p s s'" and pi: "unanswered s" and wi: "wait_inv s rs"
  shows "wait_inv s' rs"
proof (rule wait_inv_step [OF wi])
  fix i w assume iw: "i < length rs" "waiting_on (rs ! i) = Some w"
  show "w \<in> set (pub_queue (sv_pub s' (req_pub (rs ! i)))) \<and> rs ! i \<noteq> R_receive (req_pub (rs ! i)) w \<or>
      wc_closed (sv_chan s' w) \<and> (\<forall>p. w \<notin> set (pub_queue (sv_pub s' p)))"
  proof (cases "w \<in> set (pub_queue (sv_pub s (req_pub (rs ! i))))")
    case True
    show ?thesis
    proof (cases "w \<in> set (pub_queue (sv_pub s' (req_pub (rs ! i))))")
      case True
      with \<open>w \<in> set (pub_queue (sv_pub s (req_pub (rs ! i))))\<close> wait_chan [OF wi iw] show ?thesis by blast
    next
      case False
      with True d have "wc_closed (sv_chan s' w)" unfolding dealt_def by blast
      moreover have "w \<notin> set (pub_queue (sv_pub s' q))" for q
        using False unanswered_apart [OF pi True, of q] d unfolding dealt_def by blast
      ultimately show ?thesis by blast
    qed
  next
    case False
    with wait_chan [OF wi iw] d show ?thesis unfolding dealt_def by blast
  qed
next
  fix q w i assume "w \<in> set (pub_queue (sv_pub s' q))"
  then show "w \<in> set (pub_queue (sv_pub s q)) \<and> (i < length rs \<longrightarrow> rs ! i = R_wait q w \<or> rs ! i = R_cancel q w \<longrightarrow>
      i < length rs \<and> (rs ! i = R_wait q w \<or> rs ! i = R_cancel q w))" using d unfolding dealt_def by blast
qed (use d in \<open>simp_all add: dealt_def\<close>)

lemma req_inv_dealt:
  "req_inv s rs \<Longrightarrow> dealt ds p s s' \<Longrightarrow> pubs_inv s' \<Longrightarrow> req_inv s' rs"
  using dealt_hold [of ds p s s' rs] dealt_wait [of ds p s s' rs] pubs_inv_unanswered [of s] unfolding req_inv_def by blast

text \<open>Releasing: the count goes down, and up again when the first waiter is given the endpoint.\<close>

lemma hold_inv_finish:
  assumes "req_inv s rs" and "i < length rs" and "waiting_on (rs ! i) = None" and "holding (sv_chan s) (rs ! i) = Some e"
    and "waiting_on r = None" and "holding (sv_chan s) r = None" and "0 < unat (ep_active (sv_ep s e))"
  shows "hold_inv (upd_ep e (\<lambda>ep. ep\<lparr>ep_active := ep_active ep - 1\<rparr>) s) (rs[i := r])"
    and "wait_inv (upd_ep e (\<lambda>ep. ep\<lparr>ep_active := ep_active ep - 1\<rparr>) s) (rs[i := r])"
proof -
  let ?s = "upd_ep e (\<lambda>ep. ep\<lparr>ep_active := ep_active ep - 1\<rparr>) s"
  have hi: "hold_inv s rs" using assms(1) by (simp add: req_inv_def)
  have a: "unat (ep_active (sv_ep s e) - 1) + 1 = unat (ep_active (sv_ep s e))" using unat_minus_1 [OF assms(7)] assms(7) by simp
  show "hold_inv ?s (rs[i := r])"
    by (rule hold_inv_step [OF hi, where k = i]) (use assms a in \<open>auto split: if_splits\<close>)
  show "wait_inv ?s (rs[i := r])"
    by (rule wait_inv_quiet [where s = s]) (use assms in \<open>auto simp: req_inv_def\<close>)
qed



lemma hold_inv_cong:
  "sv_ep s' = sv_ep s \<Longrightarrow> sv_chan s' = sv_chan s \<Longrightarrow> sv_fresh s' = sv_fresh s \<Longrightarrow> hold_inv s rs \<Longrightarrow> hold_inv s' rs"
  by (simp add: hold_inv_def)

lemma holder_active:
  assumes "hold_inv s rs" and "i < length rs" and "holding (sv_chan s) (rs ! i) = Some e" and "ep_pub (sv_ep s e) = Some p"
  shows "0 < unat (ep_active (sv_ep s e))"
proof -
  have "i \<in> holders (sv_chan s) rs e" using assms(2,3) by (simp add: holders_def)
  then have "0 < card (holders (sv_chan s) rs e)" by (auto simp: card_gt_0_iff)
  with assms(1,4) show ?thesis unfolding hold_inv_def by metis
qed

lemma req_release_ok:
  assumes inv: "req_inv s rs" and i: "i < length rs" "rs ! i = R_release p e st"
  shows "\<exists>s'. req_release p e st s = Some (R_done st, s') \<and> req_inv s' (rs[i := R_done st])"
proof -
  have pi: "pubs_inv s" and hi: "hold_inv s rs" and wi: "wait_inv s rs" using inv by (simp_all add: req_inv_def)
  have h: "holding (sv_chan s) (rs ! i) = Some e" by (simp add: i(2))
  with hi i(1) have ep: "ep_pub (sv_ep s e) = None \<or> ep_pub (sv_ep s e) = Some (req_pub (rs ! i))" unfolding hold_inv_def by blast
  show ?thesis
  proof (cases "ep_pub (sv_ep s e)")
    case None
    then have "req_inv s (rs[i := R_done st])"
      by (intro req_inv_drop [OF inv i(1)]) (auto simp: i(2))
    with None show ?thesis by (simp add: req_release_def release_gone)
  next
    case (Some q)
    with ep i(2) have p: "ep_pub (sv_ep s e) = Some p" by simp
    have act: "0 < unat (ep_active (sv_ep s e))" using holder_active [OF hi i(1) h p] .
    from release_ok [OF pi p act] obtain s' where s': "releaseEndpointRLocked p e s = Some s'" "pubs_inv s'" "sv_fresh s' = sv_fresh s"
      and rel: "load_rel s s'" and eff: "case pub_queue (sv_pub s p) of
       w # ws \<Rightarrow> pub_queue (sv_pub s' p) = ws \<and> sv_chan s' = (sv_chan s)(w := served_chan e) \<and> sv_ep s' = sv_ep s \<and>
         (\<forall>q. q \<noteq> p \<longrightarrow> sv_pub s' q = sv_pub s q)
     | [] \<Rightarrow> s' = set_load p e (ep_active (sv_ep s e) - 1) s" by blast
    let ?s = "upd_ep e (\<lambda>ep. ep\<lparr>ep_active := ep_active ep - 1\<rparr>) s"
    have fin: "hold_inv ?s (rs[i := R_done st])" "wait_inv ?s (rs[i := R_done st])"
      using hold_inv_finish [OF inv i(1) _ h, where r = "R_done st"] act i(2) by simp_all
    have "hold_inv s' (rs[i := R_done st]) \<and> wait_inv s' (rs[i := R_done st])"
    proof (cases "pub_queue (sv_pub s p)")
      case Nil
      with eff have s'': "s' = set_load p e (ep_active (sv_ep s e) - 1) s" by simp
      have "hold_inv s' (rs[i := R_done st])"
        by (rule hold_inv_cong [OF _ _ _ fin(1)]) (simp_all add: s'' set_load_def)
      moreover have "wait_inv s' (rs[i := R_done st])"
        by (rule wait_inv_quiet [OF wi i(1)]) (simp_all add: i(2) s'' set_load_def)
      ultimately show ?thesis by blast
    next
      case (Cons w ws)
      with eff have e: "pub_queue (sv_pub s' p) = ws" "sv_chan s' = (sv_chan s)(w := served_chan e)" "sv_ep s' = sv_ep s"
        "\<And>q. q \<noteq> p \<Longrightarrow> sv_pub s' q = sv_pub s q" by simp_all
      have q: "pub_queue (sv_pub s' q) = (if q = p then ws else pub_queue (sv_pub ?s q))" for q using e(1,4) by simp
      have old: "e < sv_fresh s" using hi i(1) h unfolding hold_inv_def by blast
      have "unat (ep_active (sv_ep s e)) = unat (ep_active (sv_ep ?s e)) + 1" using unat_minus_1 [OF act] act by simp
      then have "dealt [(w, e)] p ?s s'"
        unfolding dealt_def using Cons old p s'(3) by (auto simp: q e(2,3))
      moreover have "unanswered ?s"
        using pubs_inv_unanswered [OF pi] by (simp add: unanswered_def lines_apart_def)
      ultimately show ?thesis using dealt_hold dealt_wait fin by blast
    qed
    with s' show ?thesis by (simp add: req_release_def req_inv_def)
  qed
qed

end
