(* ===== verification/Rpc_Client.thy ===== *)
theory Rpc_Client
  imports Rpc_Calls Server_Requests Server_Routes
begin

text \<open>
  Both ends of a stream to a target. The client of \<^verbatim>\<open>client.go\<close> keeps the handlers of its
  publications in a \<^verbatim>\<open>HandlerMap\<close> (\<^verbatim>\<open>handler.go\<close>) and serves the streams of the server with
  them (\<^verbatim>\<open>rpcWrapClient\<close> of \<^verbatim>\<open>rpc_client.go\<close>); the server passes the streams of its clients on
  to a publication or to a peer (\<^verbatim>\<open>handleNewStream\<close> of \<^verbatim>\<open>server_client.go\<close>).
\<close>

section \<open>Handlers (handler.go)\<close>

text \<open>
  A target without a handler and one whose handler is nil look the same to \<^verbatim>\<open>Find\<close>, the only
  reader of the map; both are \<^term>\<open>None\<close>.
\<close>

record 'h HandlerMap =
  hm_targets :: "i64 \<Rightarrow> 'h option"
  hm_nexttarget :: i64

definition NewHandlerMap :: "'h option \<Rightarrow> 'h HandlerMap" where
  "NewHandlerMap mainhandler = \<lparr>hm_targets = (\<lambda>_. None)(0 := mainhandler), hm_nexttarget = 1\<rparr>"

definition HandlerMap_Find :: "'h HandlerMap \<Rightarrow> i64 \<Rightarrow> 'h option" where
  "HandlerMap_Find h target = hm_targets h target"

definition HandlerMap_Add :: "'h option \<Rightarrow> 'h HandlerMap \<Rightarrow> i64 \<times> 'h HandlerMap" where
  "HandlerMap_Add handler h =
     (let target = hm_nexttarget h
      in (target, h\<lparr>hm_nexttarget := hm_nexttarget h + 1, hm_targets := (hm_targets h)(target := handler)\<rparr>))"

definition HandlerMap_Remove :: "i64 \<Rightarrow> 'h HandlerMap \<Rightarrow> 'h HandlerMap" where
  "HandlerMap_Remove target h = h\<lparr>hm_targets := (hm_targets h)(target := None)\<rparr>"

section \<open>Streams from the server (rpc_client.go)\<close>

text \<open>What \<^verbatim>\<open>rpcWrapClient\<close> does with a stream: it returns an error, or it acknowledges the stream and calls a handler.\<close>

datatype 'h client_served =
    ClientReturn go_error
  | ClientServe 'h FrameReader

definition rpcWrapClient :: "eref \<Rightarrow> nat option \<Rightarrow> 'h HandlerMap \<Rightarrow> FrameReader \<Rightarrow> 'h client_served" where
  "rpcWrapClient ref seen hmap r =
     (case rpcReadRequestType r of
        (Inl err, r) \<Rightarrow> ClientReturn (ErrCode EINVALID)
      | (Inr rtype, r) \<Rightarrow>
          if rtype = RequestType_NewStream then
            (case read_target seen r of
               (Inl err, r) \<Rightarrow> ClientReturn (ErrCode EINVALID)
             | (Inr targetID, r) \<Rightarrow>
                 (case HandlerMap_Find hmap targetID of
                    None \<Rightarrow> ClientReturn (ErrCode ENOTARGET)
                  | Some handler \<Rightarrow> ClientServe handler r))
          else ClientReturn (CopperErrorVal ref (str ''unsupported request type '' @ show_int (uint rtype)) EUNSUPPORTED))"

section \<open>The client (client.go)\<close>

text \<open>
  The state is the handler map and whatever is at the other end of the connection, which the requests
  go to. A publication or subscription of the client is its target id.
\<close>

type_synonym ('h, 's) client_state = "'h HandlerMap \<times> 's"

definition on_server :: "('a, 's) call \<Rightarrow> ('a, ('h, 's) client_state) call" where
  "on_server call hs = (case hs of (h, s) \<Rightarrow> map_option (\<lambda>(x, s). (x, (h, s))) (call s))"

definition newClient :: "'s \<Rightarrow> ('h, 's) client_state" where
  "newClient s = (NewHandlerMap None, s)"

definition clientConn_Subscribe :: "'s simple_request \<Rightarrow> SubscribeSettings \<Rightarrow> (i64, ('h, 's) client_state) call" where
  "clientConn_Subscribe simple settings = on_server (rpcClient_subscribe simple settings)"

definition clientSubscription_Endpoints :: "'s simple_request \<Rightarrow> i64 \<Rightarrow> (Endpoint list, ('h, 's) client_state) call" where
  "clientSubscription_Endpoints simple targetID = on_server (rpcClient_getEndpoints simple targetID)"

definition clientSubscription_Stop :: "'s simple_request \<Rightarrow> i64 \<Rightarrow> (unit, ('h, 's) client_state) call" where
  "clientSubscription_Stop simple targetID = on_server (rpcClient_unsubscribe simple targetID)"

definition clientConn_Publish :: "'s simple_request \<Rightarrow> go_string \<Rightarrow> PublishSettings \<Rightarrow> 'h option \<Rightarrow> (i64, ('h, 's) client_state) call" where
  "clientConn_Publish simple name settings handler hs =
     (case hs of (h, s) \<Rightarrow>
        case HandlerMap_Add handler h of (targetID, h) \<Rightarrow>
          (case rpcClient_publish simple targetID name settings s of
             None \<Rightarrow> None
           | Some (Inl err, s) \<Rightarrow> Some (Inl err, (HandlerMap_Remove targetID h, s))
           | Some (Inr _, s) \<Rightarrow> Some (Inr targetID, (h, s))))"

definition clientPublication_Stop :: "'s simple_request \<Rightarrow> i64 \<Rightarrow> (unit, ('h, 's) client_state) call" where
  "clientPublication_Stop simple targetID hs =
     (case hs of (h, s) \<Rightarrow>
        map_option (\<lambda>(err, s). (err, (HandlerMap_Remove targetID h, s))) (rpcClient_unpublish simple targetID s))"

definition clientConn_SetRoute :: "'s simple_request \<Rightarrow> go_string \<Rightarrow> Route list \<Rightarrow> (unit, ('h, 's) client_state) call" where
  "clientConn_SetRoute simple name routes = on_server (rpcClient_setRoute simple name routes)"

definition clientConn_ListRoutes :: "'s simple_request \<Rightarrow> (go_string list, ('h, 's) client_state) call" where
  "clientConn_ListRoutes simple = on_server (rpcClient_listRoutes simple)"

definition clientConn_LookupRoute :: "'s simple_request \<Rightarrow> go_string \<Rightarrow> (Route list, ('h, 's) client_state) call" where
  "clientConn_LookupRoute simple name = on_server (rpcClient_lookupRoute simple name)"

definition clientConn_ServeCopper :: "eref \<Rightarrow> nat option \<Rightarrow> FrameReader \<Rightarrow> ('h, 's) client_state \<Rightarrow> 'h client_served" where
  "clientConn_ServeCopper ref seen r hs = rpcWrapClient ref seen (fst hs) r"

section \<open>Streams from clients (server_client.go)\<close>

text \<open>
  Where \<^verbatim>\<open>handleNewStream\<close> takes a stream: a target is a subscription of the client, or else a
  publication of the server. In \<open>client_handleNewStream\<close> the random numbers and the nesting of routes
  are those of \<^const>\<open>sub_choose\<close>. A subscription that leads nowhere has no route.
\<close>

definition client_handleNewStream :: "(int \<Rightarrow> int) \<Rightarrow> clientref \<Rightarrow> i64 \<Rightarrow> server \<Rightarrow> (go_error + target) option" where
  "client_handleNewStream rnd c targetID s =
     (case cl_failure (sv_client s c) of
        Some err \<Rightarrow> Some (Inl err)
      | None \<Rightarrow>
          (case map_of (cl_subscriptions (sv_client s c)) targetID of
             Some u \<Rightarrow> map_option (\<lambda>t. case t of None \<Rightarrow> Inl (ErrCode ENOROUTE) | Some t \<Rightarrow> Inr t) (sub_choose 2 rnd s u)
           | None \<Rightarrow>
               (case map_of (sv_pubByTarget s) targetID of
                  Some p \<Rightarrow> Some (Inr (ToPub p))
                | None \<Rightarrow> Some (Inl (ErrCode ENOTARGET)))))"

text \<open>
  The loop of \<^verbatim>\<open>handleRequestRLockedWith\<close>: what it returns for the status of a request, or
  \<^term>\<open>None\<close> if it makes another attempt.
\<close>

fun handleRequestRLockedWith :: "handleRequestStatus \<Rightarrow> go_error option option" where
  "handleRequestRLockedWith StatusDone = Some None"
| "handleRequestRLockedWith StatusRetry = None"
| "handleRequestRLockedWith StatusNoRoute = Some (Some (ErrCode ENOROUTE))"
| "handleRequestRLockedWith StatusOverCapacity = Some (Some (ErrCode EOVERCAPACITY))"

end
