(* ===== verification/Server_Effects.thy ===== *)
theory Server_Effects
  imports Server_Requests
begin

text \<open>
  What the operations that run under the write lock of the server do to requests: publishing hands
  new endpoints to waiters, unpublishing sends the waiters away for whom there is no longer a place.
\<close>

section \<open>Changes that no request notices\<close>

definition calm :: "server \<Rightarrow> server \<Rightarrow> bool" where
  "calm s s' \<longleftrightarrow> sv_ep s' = sv_ep s \<and> sv_chan s' = sv_chan s \<and> sv_fresh s \<le> sv_fresh s' \<and>
     (\<forall>p. sv_pub s' p = (sv_pub s p)\<lparr>pub_subscriptions := pub_subscriptions (sv_pub s' p)\<rparr>)"

lemma sub_rel_calm: "sub_rel s s' \<Longrightarrow> calm s s'"
  by (simp add: sub_rel_def calm_def)

lemma calm_refl [simp]: "calm s s"
  by (simp add: calm_def)

lemma calm_trans:
  assumes "calm s s'" and "calm s' s''"
  shows "calm s s''"
proof -
  have "sv_pub s'' p = (sv_pub s p)\<lparr>pub_subscriptions := pub_subscriptions (sv_pub s'' p)\<rparr>" for p
  proof -
    have "sv_pub s' p = (sv_pub s p)\<lparr>pub_subscriptions := pub_subscriptions (sv_pub s' p)\<rparr>"
      "sv_pub s'' p = (sv_pub s' p)\<lparr>pub_subscriptions := pub_subscriptions (sv_pub s'' p)\<rparr>"
      using assms unfolding calm_def by blast+
    then show ?thesis by (cases "sv_pub s p"; cases "sv_pub s' p"; cases "sv_pub s'' p") simp
  qed
  with assms show ?thesis unfolding calm_def by simp
qed

lemma calm_pub:
  assumes "calm s s'"
  shows "pub_endpoints (sv_pub s' p) = pub_endpoints (sv_pub s p)" "pub_settings (sv_pub s' p) = pub_settings (sv_pub s p)"
    "pub_maxDistanceCounts (sv_pub s' p) = pub_maxDistanceCounts (sv_pub s p)" "pub_name (sv_pub s' p) = pub_name (sv_pub s p)"
    "pub_targetID (sv_pub s' p) = pub_targetID (sv_pub s p)" "pub_ready (sv_pub s' p) = pub_ready (sv_pub s p)"
    "pub_queue (sv_pub s' p) = pub_queue (sv_pub s p)" "pub_eps s' p = pub_eps s p"
    "sv_ep s' = sv_ep s" "sv_chan s' = sv_chan s"
proof -
  have eq: "sv_pub s' p = (sv_pub s p)\<lparr>pub_subscriptions := pub_subscriptions (sv_pub s' p)\<rparr>" using assms by (simp add: calm_def)
  show "pub_endpoints (sv_pub s' p) = pub_endpoints (sv_pub s p)" "pub_settings (sv_pub s' p) = pub_settings (sv_pub s p)"
    "pub_maxDistanceCounts (sv_pub s' p) = pub_maxDistanceCounts (sv_pub s p)" "pub_name (sv_pub s' p) = pub_name (sv_pub s p)"
    "pub_targetID (sv_pub s' p) = pub_targetID (sv_pub s p)" "pub_ready (sv_pub s' p) = pub_ready (sv_pub s p)"
    "pub_queue (sv_pub s' p) = pub_queue (sv_pub s p)" "pub_eps s' p = pub_eps s p"
    unfolding pub_eps_def by (subst eq, simp)+
  show "sv_ep s' = sv_ep s" "sv_chan s' = sv_chan s" using assms by (simp_all add: calm_def)
qed

lemma calm_fresh: "calm s s' \<Longrightarrow> sv_fresh s \<le> sv_fresh s'"
  by (simp add: calm_def)

lemma calm_parts:
  assumes "calm s s'"
  shows "members_inv s p \<Longrightarrow> members_inv s' p" "pool_inv s' p \<longleftrightarrow> pool_inv s p" "totals_inv ex s' p \<longleftrightarrow> totals_inv ex s p"
    "counts_inv s' p \<longleftrightarrow> counts_inv s p" "line_inv s p \<Longrightarrow> line_inv s' p" "lines_apart s' \<longleftrightarrow> lines_apart s"
    "unused_pubs s \<Longrightarrow> unused_pubs s'"
proof -
  have f: "n < sv_fresh s \<Longrightarrow> n < sv_fresh s'" for n using calm_fresh [OF assms] by simp
  show "pool_inv s' p \<longleftrightarrow> pool_inv s p" "totals_inv ex s' p \<longleftrightarrow> totals_inv ex s p" "counts_inv s' p \<longleftrightarrow> counts_inv s p"
    "lines_apart s' \<longleftrightarrow> lines_apart s"
    unfolding pool_inv_def totals_inv_def counts_inv_def lines_apart_def calm_pub [OF assms] by (rule refl)+
  show "line_inv s p \<Longrightarrow> line_inv s' p" unfolding line_inv_def calm_pub [OF assms] using f by blast
  show "members_inv s p \<Longrightarrow> members_inv s' p" unfolding members_inv_def calm_pub [OF assms] using f by blast
  show "unused_pubs s \<Longrightarrow> unused_pubs s'" unfolding unused_pubs_def calm_pub [OF assms] using calm_fresh [OF assms] by simp
qed

lemma calm_pubs_inv: "calm s s' \<Longrightarrow> pubs_inv s \<Longrightarrow> pubs_inv s'"
  by (simp add: pubs_inv_def pub_inv_def calm_parts)

lemma calm_dealt: "calm s s' \<Longrightarrow> dealt [] p s s'"
  unfolding dealt_def by (simp add: calm_pub calm_fresh)

lemma calm_req_inv: "calm s s' \<Longrightarrow> req_inv s rs \<Longrightarrow> req_inv s' rs"
  using req_inv_dealt [OF _ calm_dealt] calm_pubs_inv unfolding req_inv_def by blast

lemma calm_joining:
  assumes "calm s s'" and "joining s p key settings"
  shows "joining s' p key settings"
  using assms(2) calm_fresh [OF assms(1)]
  unfolding joining_def pub_inv_def by (intro conjI allI impI) (simp_all add: calm_parts [OF assms(1)] calm_pub [OF assms(1)])

lemma fold_calm: "(\<And>x t. calm t (f x t)) \<Longrightarrow> calm s (fold f xs s)"
proof (induction xs arbitrary: s)
  case (Cons x xs)
  show ?case using calm_trans [OF Cons.prems Cons.IH [OF Cons.prems]] by simp
qed simp

lemma notify_calm: "calm s (notify_changed rt p s)" "calm s (notify_removed rt p s)" "calm s (cs_stopLocked c s)"
proof -
  show "calm s (notify_changed rt p s)" "calm s (notify_removed rt p s)"
    unfolding notify_changed_def notify_removed_def by (rule fold_calm; simp add: calm_def)+
  show "calm s (cs_stopLocked c s)" by (simp add: cs_stopLocked_def calm_def Let_def split: option.split)
qed

lemma forget_calm: "calm s (forget_pub p s)"
  by (simp add: forget_pub_def calm_def Let_def split: option.split)

section \<open>Publishing\<close>

lemma joined_hold:
  assumes "hold_inv s rs"
  shows "hold_inv (joined p key settings s) rs"
proof -
  let ?s = "joined p key settings s"
  have ch: "sv_chan ?s = sv_chan s" and fr: "sv_fresh ?s = Suc (sv_fresh s)" by (simp_all add: joined_def Let_def)
  have old: "e < sv_fresh s \<and> (ep_pub (sv_ep s e) = None \<or> ep_pub (sv_ep s e) = Some (req_pub (rs ! i)))"
    if "i < length rs" "holding (sv_chan s) (rs ! i) = Some e" for i e
    using assms that unfolding hold_inv_def by blast
  then have none: "holders (sv_chan s) rs (sv_fresh s) = {}" by (auto simp: holders_def)
  show ?thesis
    unfolding hold_inv_def ch fr
  proof (intro conjI allI impI)
    fix e q assume "ep_pub (sv_ep ?s e) = Some q"
    then show "unat (ep_active (sv_ep ?s e)) = card (holders (sv_chan s) rs e)"
      using assms none by (cases "e = sv_fresh s") (auto simp: joined_new joined_ep hold_inv_def)
  next
    fix i e assume i: "i < length rs" "holding (sv_chan s) (rs ! i) = Some e"
    from old [OF i] show "e < Suc (sv_fresh s)" "ep_pub (sv_ep ?s e) = None \<or> ep_pub (sv_ep ?s e) = Some (req_pub (rs ! i))"
      by (auto simp: joined_ep)
  qed
qed

lemma joined_wait:
  assumes "wait_inv s rs"
  shows "wait_inv (joined p key settings s) rs"
proof (rule wait_inv_step [OF assms])
  let ?s = "joined p key settings s"
  have q: "pub_queue (sv_pub ?s r) = pub_queue (sv_pub s r)" and ch: "sv_chan ?s = sv_chan s" for r by (simp_all add: joined_def Let_def)
  show "sv_fresh s \<le> sv_fresh ?s" by (simp add: joined_def Let_def)
  fix i w assume "i < length rs" "waiting_on (rs ! i) = Some w"
  from wait_chan [OF assms this]
  show "w \<in> set (pub_queue (sv_pub ?s (req_pub (rs ! i)))) \<and> rs ! i \<noteq> R_receive (req_pub (rs ! i)) w \<or>
      wc_closed (sv_chan ?s w) \<and> (\<forall>p. w \<notin> set (pub_queue (sv_pub ?s p)))" unfolding q ch by blast
qed (simp_all add: joined_def Let_def split: if_splits)

lemma publish_endpoint_ok:
  assumes "runtime_ok rt" and "joining s p key settings" and "hold_inv s rs" and "wait_inv s rs"
  shows "\<exists>s1. publish_endpoint rt p key settings s = Some (sv_fresh s, notify_changed rt p s1) \<and>
    load_rel (joined p key settings s) s1 \<and> pubs_inv s1 \<and> req_inv (notify_changed rt p s1) rs"
proof -
  let ?j = "joined p key settings s" let ?n = "unat (ps_Concurrency settings)"
  have pj: "pubs_inv ?j" using joined_inv [OF assms(2)] .
  have rj: "req_inv ?j rs" using pj joined_hold [OF assms(3)] joined_wait [OF assms(4)] by (simp add: req_inv_def)
  from wakeupWaiters_ok [OF assms(1) pj, of p ?n] obtain es s1 where
    w: "wakeupWaitersLocked rt p ?n ?j = Some (length es, s1)" "pubs_inv s1" "load_rel ?j s1" "sv_fresh s1 = sv_fresh ?j"
    and es: "set es \<subseteq> pub_eps ?j p" "length es \<le> length (pub_queue (sv_pub ?j p))"
    and q: "\<forall>q. pub_queue (sv_pub s1 q) = (if q = p then drop (length es) (pub_queue (sv_pub ?j p)) else pub_queue (sv_pub ?j q))"
    and ch: "sv_chan s1 = serve_chans (zip (pub_queue (sv_pub ?j p)) es) (sv_chan ?j)"
    and act: "\<forall>f. unat (ep_active (sv_ep s1 f)) = unat (ep_active (sv_ep ?j f)) + count_list es f" by blast
  let ?q = "pub_queue (sv_pub ?j p)" let ?ds = "zip ?q es"
  have dq: "distinct ?q" using pj by (rule queue_distinct)
  have fst: "map fst ?ds = take (length es) ?q" and snd: "map snd ?ds = es" using es(2) by (simp_all add: map_fst_zip_take map_snd_zip_take)
  have "dealt ?ds p ?j s1"
    unfolding dealt_def
  proof (intro conjI allI impI ballI)
    show "distinct (map fst ?ds)" using dq by (simp add: fst)
    show "fst ` set ?ds \<subseteq> set ?q" by (auto dest: set_zip_leftD)
    show "case d of (w, e) \<Rightarrow> e < sv_fresh ?j \<and> (ep_pub (sv_ep ?j e) = None \<or> ep_pub (sv_ep ?j e) = Some p)" if "d \<in> set ?ds" for d
    proof -
      obtain w e where d: "d = (w, e)" by (cases d)
      with that es(1) have "e \<in> pub_eps ?j p" by (auto dest: set_zip_rightD)
      with pubs_inv_pub(2) [OF pj, of p] member_old [of ?j p e] show ?thesis by (simp add: d members_eps)
    qed
    show "wc_value (sv_chan s1 w) = (case map_of ?ds w of None \<Rightarrow> wc_value (sv_chan ?j w) | Some e \<Rightarrow> Some e)" for w
      by (simp add: ch serve_chans_def split: option.split)
    show "wc_closed (sv_chan s1 w)" if "wc_closed (sv_chan ?j w)" for w
      using that by (simp add: ch serve_chans_def split: option.split)
    show "ep_pub (sv_ep ?j e) = Some r" "unat (ep_active (sv_ep s1 e)) = unat (ep_active (sv_ep ?j e)) + count_list (map snd ?ds) e"
      if "ep_pub (sv_ep s1 e) = Some r" for e r using that act by (simp_all add: load_rels [OF w(3)] snd)
    show "set (pub_queue (sv_pub s1 r)) \<subseteq> set (pub_queue (sv_pub ?j r))" for r using q by (simp add: set_drop_subset)
    show "wc_closed (sv_chan s1 v)" if v: "v \<in> set (pub_queue (sv_pub ?j r))" "v \<notin> set (pub_queue (sv_pub s1 r))" for r v
    proof -
      have "r = p" using v q by (auto split: if_splits)
      with v q have "v \<in> set (take (length es) ?q)" by (metis Un_iff append_take_drop_id set_append)
      then have "v \<in> fst ` set ?ds" unfolding fst [symmetric] by simp
      then show ?thesis by (auto simp: ch serve_chans_def map_of_eq_None_iff split: option.split)
    qed
    show "sv_fresh ?j \<le> sv_fresh s1" using w(4) by simp
  qed
  with rj w(2) have "req_inv s1 rs" by (blast intro: req_inv_dealt)
  then have "req_inv (notify_changed rt p s1) rs" by (rule calm_req_inv [OF notify_calm(1)])
  with w show ?thesis by (intro exI [of _ s1]) (simp add: publish_endpoint_eq)
qed


text \<open>Addresses that have not been handed out have no queue either.\<close>

lemma empty_pub:
  assumes "pubs_inv s" and "pub_endpoints (sv_pub s p) = []"
  shows "pub_eps s p = {}" "pub_queue (sv_pub s p) = []" "pub_ready (sv_pub s p) = {}" "ep_pub (sv_ep s e) \<noteq> Some p"
proof -
  show eps: "pub_eps s p = {}" using assms(2) by (simp add: pub_eps_def gomap_simps)
  have inv: "pub_inv s p" "line_inv s p" using assms(1) by (simp_all add: pubs_inv_def)
  then show "ep_pub (sv_ep s e) \<noteq> Some p" "pub_ready (sv_pub s p) = {}"
    using members_eps [of s p e] eps by (auto simp: pub_inv_def pool_inv_def)
  from inv(1) eps have "unat (ps_QueueSize (pub_settings (sv_pub s p))) = 0"
    by (simp add: pub_inv_def totals_inv_def Let_def)
  with inv(2) show "pub_queue (sv_pub s p) = []" by (simp add: line_inv_def)
qed

text \<open>A new publication, before subscriptions hear of it.\<close>

lemma new_pub_joining:
  assumes "pubs_inv s" and "ps_Concurrency settings \<noteq> 0"
    and pub: "pub_endpoints pub = []" "pub_settings pub = settings" "pub_maxDistanceCounts pub = []" "pub_ready pub = {}" "pub_queue pub = []"
    and s': "sv_pub s' = (sv_pub s)(sv_fresh s := pub)" "sv_ep s' = sv_ep s" "sv_chan s' = sv_chan s" "sv_fresh s' = Suc (sv_fresh s)"
  shows "joining s' (sv_fresh s) key settings"
proof -
  let ?p = "sv_fresh s"
  have "pub_endpoints (sv_pub s ?p) = []" using assms(1) by (simp add: pubs_inv_def unused_pubs_def)
  note empty = empty_pub [OF assms(1) this]
  have eps: "pub_eps s' ?p = {}" using pub by (simp add: pub_eps_def s' gomap_simps)
  have "pub_inv s' q" if "q \<noteq> ?p" for q
    by (rule pub_inv_cong [OF _ _ _ _ pubs_inv_pub(1) [OF assms(1)]]) (use that in \<open>simp_all add: s'\<close>)
  moreover have "members_inv s' ?p" "pool_inv s' ?p" "counts_inv s' ?p" "totals_inv [settings] s' ?p"
    using pub empty(4) unfolding members_inv_def pool_inv_def counts_inv_def totals_inv_def eps by (simp_all add: s' max_def)
  moreover have "line_inv s' q" for q
    using assms(1) pub(5) by (auto simp: pubs_inv_def line_inv_def s' intro: less_SucI)
  moreover have "lines_apart s'" "unused_pubs s'"
    using assms(1) pub(5) by (auto simp: pubs_inv_def lines_apart_def unused_pubs_def s')
  moreover have "0 < unat (ps_Concurrency settings)" using assms(2) by (simp add: unat_gt_0)
  ultimately show ?thesis using pub(1) unfolding joining_def by (intro conjI allI impI) (simp_all add: s')
qed

text \<open>An existing publication whose totals have been raised.\<close>

lemma merged_joining:
  assumes "pubs_inv s" and "ps_Concurrency settings \<noteq> 0" and "p < sv_fresh s"
    and "publish_merge ref key settings (sv_pub s p) = Inr pub"
  shows "joining (upd_pub p (\<lambda>_. pub) s) p key settings"
proof -
  let ?s = "upd_pub p (\<lambda>_. pub) s" let ?old = "pub_settings (sv_pub s p)"
  from assms(4) have key: "map_of (pub_endpoints (sv_pub s p)) key = None"
    and conc: "ps_Concurrency ?old \<le> ps_Concurrency ?old + ps_Concurrency settings"
    and queue: "ps_QueueSize ?old \<le> ps_QueueSize ?old + ps_QueueSize settings"
    and pub: "pub = (sv_pub s p)\<lparr>pub_settings := ?old\<lparr>ps_MaxDistance := max (ps_MaxDistance ?old) (ps_MaxDistance settings),
       ps_Concurrency := ps_Concurrency ?old + ps_Concurrency settings, ps_QueueSize := ps_QueueSize ?old + ps_QueueSize settings\<rparr>\<rparr>"
    by (auto simp: publish_merge_def Let_def not_less max_def split: if_splits)
  have eps: "pub_eps ?s q = pub_eps s q" for q by (simp add: pub_eps_def pub)
  have inv: "members_inv s p" "pool_inv s p" "counts_inv s p" "totals_inv [] s p" using pubs_inv_pub(1) [OF assms(1)] by (simp_all add: pub_inv_def)
  have fields: "pub_endpoints (sv_pub ?s q) = pub_endpoints (sv_pub s q)" "pub_ready (sv_pub ?s q) = pub_ready (sv_pub s q)"
    "pub_maxDistanceCounts (sv_pub ?s q) = pub_maxDistanceCounts (sv_pub s q)" "pub_queue (sv_pub ?s q) = pub_queue (sv_pub s q)" for q
    by (simp_all add: pub)
  have "members_inv ?s p" "pool_inv ?s p" "counts_inv ?s p"
    using inv unfolding members_inv_def pool_inv_def counts_inv_def eps fields by simp_all
  moreover have "totals_inv [settings] ?s p"
  proof -
    have "unat (ps_Concurrency ?old + ps_Concurrency settings) = unat (ps_Concurrency ?old) + unat (ps_Concurrency settings)"
      "unat (ps_QueueSize ?old + ps_QueueSize settings) = unat (ps_QueueSize ?old) + unat (ps_QueueSize settings)"
      using conc queue unfolding unat_plus_simple by blast+
    moreover have "max (ps_MaxDistance ?old) (ps_MaxDistance settings) = Max (insert 0 (ep_distance ` sv_ep s ` pub_eps s p \<union> {ps_MaxDistance settings}))"
    proof -
      have "ps_MaxDistance ?old = Max (insert 0 (ep_distance ` sv_ep s ` pub_eps s p))" using inv(4) by (simp add: totals_inv_def Let_def)
      then have "max (ps_MaxDistance settings) (ps_MaxDistance ?old) = Max (insert (ps_MaxDistance settings) (insert 0 (ep_distance ` sv_ep s ` pub_eps s p)))"
        by (subst Max_insert) simp_all
      then show ?thesis by (simp add: insert_commute max.commute)
    qed
    ultimately show ?thesis using inv(4) unfolding totals_inv_def eps by (simp add: Let_def pub)
  qed
  moreover have "pub_inv ?s q" if "q \<noteq> p" for q
    by (rule pub_inv_cong [OF _ _ _ _ pubs_inv_pub(1) [OF assms(1)]]) (use that in simp_all)
  moreover have "line_inv ?s q" for q
  proof -
    have "line_inv s q" using assms(1) by (simp add: pubs_inv_def)
    moreover have "unat (ps_QueueSize (pub_settings (sv_pub s q))) \<le> unat (ps_QueueSize (pub_settings (sv_pub ?s q)))"
      using queue by (simp add: pub word_le_nat_alt)
    ultimately show ?thesis unfolding line_inv_def fields by simp
  qed
  moreover have "lines_apart ?s" "unused_pubs ?s"
    using assms(1) unfolding pubs_inv_def lines_apart_def unused_pubs_def fields by simp_all
  moreover have "0 < unat (ps_Concurrency settings)" using assms(2) by (simp add: unat_gt_0)
  ultimately show ?thesis using key assms(3) unfolding joining_def by (intro conjI allI impI) (simp_all add: pub)
qed


text \<open>The publications in the directory are ones that have been created.\<close>

definition dir_old :: "server \<Rightarrow> bool" where
  "dir_old s \<longleftrightarrow> (\<forall>name prio p. map_of (pubs_named s name) prio = Some p \<longrightarrow> p < sv_fresh s)"

lemma publish_new_ok:
  assumes "pubs_inv s" and "ps_Concurrency settings \<noteq> 0" and "publish_new rt name settings s = Some (p, s')"
    and "hold_inv s rs" and "wait_inv s rs"
  shows "p = sv_fresh s \<and> joining s' p key settings \<and> hold_inv s' rs \<and> wait_inv s' rs"
proof -
  define pub where "pub = \<lparr>pub_name = name, pub_targetID = sv_lastTargetID s + 1, pub_endpoints = [], pub_settings = settings,
               pub_maxDistanceCounts = [], pub_ready = {}, pub_queue = [], pub_subscriptions = {}\<rparr>"
  define s1 where "s1 = (upd_pub (sv_fresh s) (\<lambda>_. pub) (s\<lparr>sv_lastTargetID := sv_lastTargetID s + 1, sv_fresh := Suc (sv_fresh s)\<rparr>))
     \<lparr>sv_pubsByName := (sv_pubsByName s)(name \<mapsto> AList.update (ps_Priority settings) (sv_fresh s) (pubs_named s name)),
      sv_pubByTarget := AList.update (sv_lastTargetID s + 1) (sv_fresh s) (sv_pubByTarget s)\<rparr>"
  from assms(3) have p: "p = sv_fresh s"
    and l: "range_loop (\<lambda>u. sub_addPublication rt u p) (rt_refs rt (subs_named s1 name)) s1 = Some s'"
    unfolding publish_new_def allocateTargetID_def fresh_def Let_def
    by (auto simp: s1_def pub_def pubs_named_def split: Option.bind_splits)
  have joining: "joining s1 p key settings" unfolding p
    by (rule new_pub_joining [OF assms(1,2), where pub = pub]) (simp_all add: s1_def pub_def)
  have calm: "calm s1 s'" using range_loop_sub_rel [OF l sub_ops_rel(3)] by (rule sub_rel_calm)
  have "pub_endpoints (sv_pub s (sv_fresh s)) = []" using assms(1) by (simp add: pubs_inv_def unused_pubs_def)
  note empty = empty_pub [OF assms(1) this]
  have q: "pub_queue (sv_pub s' r) = pub_queue (sv_pub s r)" for r
    using empty(2) by (simp add: calm_pub [OF calm] s1_def pub_def)
  have fresh: "sv_fresh s \<le> sv_fresh s'" using calm_fresh [OF calm] by (simp add: s1_def)
  have "dealt [] p s s'"
    using fresh unfolding dealt_def q by (simp add: calm_pub [OF calm] s1_def)
  with dealt_hold dealt_wait pubs_inv_unanswered [OF assms(1)] assms(4,5) p calm_joining [OF calm joining] show ?thesis by blast
qed

lemma publishLocked_ok:
  assumes "runtime_ok rt" and "req_inv s rs" and "dir_old s" and "ps_Concurrency settings \<noteq> 0"
    and "publishLocked rt ref name key settings s = Some (r, s')"
  shows "req_inv s' rs"
proof -
  define s0 where "s0 = (case sv_pubsByName s name of None \<Rightarrow> s\<lparr>sv_pubsByName := (sv_pubsByName s)(name \<mapsto> [])\<rparr> | Some _ \<Rightarrow> s)"
  have "calm s s0" by (simp add: s0_def calm_def split: option.split)
  then have inv: "req_inv s0 rs" using assms(2) by (rule calm_req_inv)
  then have pi: "pubs_inv s0" and hi: "hold_inv s0 rs" and wi: "wait_inv s0 rs" by (simp_all add: req_inv_def)
  have dir: "p < sv_fresh s0" if "map_of (pubs_named s0 name) prio = Some p" for prio p
    using assms(3) that unfolding dir_old_def s0_def pubs_named_def by (fastforce split: option.splits if_splits)
  show ?thesis
  proof (cases "map_of (pubs_named s0 name) (ps_Priority settings)")
    case None
    with assms(5) obtain p s1 e where n: "publish_new rt name settings s0 = Some (p, s1)" "publish_endpoint rt p key settings s1 = Some (e, s')"
      unfolding publishLocked_def s0_def [symmetric] Let_def by (auto split: Option.bind_splits)
    from publish_new_ok [OF pi assms(4) n(1) hi wi, of key] have "joining s1 p key settings" "hold_inv s1 rs" "wait_inv s1 rs" by blast+
    from publish_endpoint_ok [OF assms(1) this] n(2) show ?thesis by auto
  next
    case (Some p)
    show ?thesis
    proof (cases "publish_merge ref key settings (sv_pub s0 p)")
      case (Inl err)
      with Some assms(5) inv show ?thesis unfolding publishLocked_def s0_def [symmetric] Let_def by simp
    next
      case (Inr pub)
      let ?s = "upd_pub p (\<lambda>_. pub) s0"
      have j: "joining ?s p key settings" using merged_joining [OF pi assms(4) dir [OF Some] Inr] .
      have q: "pub_queue (sv_pub ?s r) = pub_queue (sv_pub s0 r)" for r
        using Inr by (auto simp: publish_merge_def Let_def split: if_splits)
      have "dealt [] p s0 ?s" unfolding dealt_def q by simp
      with pubs_inv_unanswered [OF pi] hi wi have "hold_inv ?s rs" "wait_inv ?s rs" by (blast intro: dealt_hold dealt_wait)+
      from publish_endpoint_ok [OF assms(1) j this] Some Inr assms(5) show ?thesis
        unfolding publishLocked_def s0_def [symmetric] Let_def by (auto split: Option.bind_splits)
    qed
  qed
qed


section \<open>Unpublishing\<close>

definition drop_chans :: "waiter set \<Rightarrow> (waiter \<Rightarrow> waiterChan) \<Rightarrow> waiter \<Rightarrow> waiterChan" where
  "drop_chans W ch w = (if w \<in> W then dropped_chan else ch w)"

lemma drop_chans_none [simp]: "drop_chans {} ch = ch"
  by (simp add: drop_chans_def fun_eq_iff)

lemma close_loop_ok:
  "distinct ws \<Longrightarrow> \<forall>w \<in> set ws. sv_chan s w = idle_chan \<Longrightarrow>
   range_loop close_waiter ws s = Some (s\<lparr>sv_chan := drop_chans (set ws) (sv_chan s)\<rparr>)"
proof (induction ws arbitrary: s)
  case Nil
  then show ?case by (simp add: drop_chans_def)
next
  case (Cons w ws)
  let ?s = "s\<lparr>sv_chan := (sv_chan s)(w := dropped_chan)\<rparr>"
  have "\<forall>v \<in> set ws. sv_chan ?s v = idle_chan" using Cons.prems by auto
  then have "range_loop close_waiter ws ?s = Some (?s\<lparr>sv_chan := drop_chans (set ws) (sv_chan ?s)\<rparr>)" using Cons by simp
  also have "drop_chans (set ws) (sv_chan ?s) = drop_chans (set (w # ws)) (sv_chan s)"
    by (auto simp: drop_chans_def fun_eq_iff)
  finally have "range_loop close_waiter ws ?s = Some (s\<lparr>sv_chan := drop_chans (set (w # ws)) (sv_chan s)\<rparr>)" by (simp del: fun_upd_apply)
  moreover have "close_waiter w s = Some ?s" using Cons.prems by (simp add: close_waiter_ok)
  ultimately show ?case by (simp only: range_loop.simps option.case)
qed

text \<open>
  The state once an endpoint has been withdrawn and all waiters but the first \<open>n\<close> have been sent away.
\<close>

definition cut_queue :: "pubref \<Rightarrow> nat \<Rightarrow> server \<Rightarrow> server" where
  "cut_queue p n s = upd_pub p (\<lambda>pub. pub\<lparr>pub_queue := take n (pub_queue pub)\<rparr>)
     (s\<lparr>sv_chan := drop_chans (set (drop n (pub_queue (sv_pub s p)))) (sv_chan s)\<rparr>)"

lemma cut_queue_ok:
  assumes pi: "pubs_inv s" and e: "e \<in> pub_eps s p" and n: "n \<le> unat (ps_QueueSize (pub_settings (sv_pub (withdrawn p e s) p)))"
  shows "pubs_inv (cut_queue p n (withdrawn p e s)) \<and> dealt [] p s (cut_queue p n (withdrawn p e s))"
proof -
  let ?w = "withdrawn p e s" let ?s = "cut_queue p n (withdrawn p e s)" let ?q = "pub_queue (sv_pub s p)"
  have wq: "pub_queue (sv_pub ?w r) = pub_queue (sv_pub s r)" and wc: "sv_chan ?w = sv_chan s" and wf: "sv_fresh ?w = sv_fresh s" for r
    by (simp_all add: withdrawn_def withdraw_endpoint_def Let_def split: prod.splits)
  have rel: "load_rel ?w ?s" by (simp add: cut_queue_def load_rel_def)
  have q: "pub_queue (sv_pub ?s r) = (if r = p then take n ?q else pub_queue (sv_pub s r))" for r
    by (simp add: cut_queue_def wq)
  have ch: "sv_chan ?s = drop_chans (set (drop n ?q)) (sv_chan s)" and ep: "sv_ep ?s = sv_ep ?w" and fr: "sv_fresh ?s = sv_fresh s"
    by (simp_all add: cut_queue_def wq wc wf)
  have dq: "distinct ?q" using pi by (rule queue_distinct)
  have kept: "sv_chan ?s v = sv_chan s v" if "v \<in> set (pub_queue (sv_pub ?s r))" for v r
  proof -
    have "v \<notin> set (drop n ?q)"
    proof (cases "r = p")
      case True
      with that have "v \<in> set (take n ?q)" by (simp add: q)
      then show ?thesis using dq set_take_disj_set_drop_if_distinct [of ?q n n] by auto
    next
      case False
      with that queue_apart [OF pi, of v p r] show ?thesis by (auto simp: q dest: in_set_dropD)
    qed
    then show ?thesis by (simp add: ch drop_chans_def)
  qed
  have sub: "set (pub_queue (sv_pub ?s r)) \<subseteq> set (pub_queue (sv_pub s r))" for r by (auto simp: q dest: in_set_takeD)
  have other: "pub_settings (sv_pub ?s r) = pub_settings (sv_pub s r)" if "r \<noteq> p" for r
    using that by (simp add: cut_queue_def withdrawn_other)
  have "pub_inv ?s r" for r
    using withdrawn_inv [OF pubs_inv_pub(1) [OF pi] e]
    by (intro load_rel_pool [OF rel]) (simp_all add: cut_queue_def)
  moreover have "line_inv ?s r" for r
  proof -
    have "line_inv s r" using pi by (simp add: pubs_inv_def)
    moreover have "length (pub_queue (sv_pub ?s r)) \<le> unat (ps_QueueSize (pub_settings (sv_pub ?s r)))"
    proof (cases "r = p")
      case True
      with n show ?thesis by (simp add: q) (simp add: cut_queue_def)
    next
      case False
      with \<open>line_inv s r\<close> show ?thesis by (simp add: q other line_inv_def)
    qed
    moreover have "distinct (pub_queue (sv_pub ?s r))" using queue_distinct [OF pi, of r] dq by (simp add: q)
    ultimately show ?thesis using kept [of _ r] sub [of r] unfolding line_inv_def fr by auto
  qed
  moreover have "lines_apart ?s" using pi sub unfolding pubs_inv_def lines_apart_def by blast
  moreover have "unused_pubs ?s"
  proof -
    have "pub_endpoints (sv_pub ?s r) = []" if "pub_endpoints (sv_pub s r) = []" for r
      using that by (cases "r = p") (simp_all add: cut_queue_def withdrawn_def withdraw_endpoint_def Let_def split: prod.splits)
    with pi show ?thesis unfolding pubs_inv_def unused_pubs_def fr by blast
  qed
  ultimately have "pubs_inv ?s" by (simp add: pubs_inv_def)
  moreover have "dealt [] p s ?s"
    unfolding dealt_def
  proof (intro conjI allI impI)
    fix w
    have "wc_value (sv_chan s w) = None" if "w \<in> set (drop n ?q)" using queue_idle [OF pi in_set_dropD [OF that]] by simp
    then show "wc_value (sv_chan ?s w) = (case map_of [] w of None \<Rightarrow> wc_value (sv_chan s w) | Some e \<Rightarrow> Some e)"
      by (simp add: ch drop_chans_def)
    show "wc_closed (sv_chan ?s w)" if "wc_closed (sv_chan s w)" using that by (simp add: ch drop_chans_def)
  next
    fix r w assume "w \<in> set (pub_queue (sv_pub s r))" "w \<notin> set (pub_queue (sv_pub ?s r))"
    then have "w \<in> set (drop n ?q)" unfolding q by (metis Un_iff append_take_drop_id set_append)
    then show "wc_closed (sv_chan ?s w)" by (simp add: ch drop_chans_def)
  next
    fix f r assume "ep_pub (sv_ep ?s f) = Some r"
    then show "ep_pub (sv_ep s f) = Some r" "unat (ep_active (sv_ep ?s f)) = unat (ep_active (sv_ep s f)) + count_list (map snd []) f"
      by (auto simp: ep withdrawn_ep split: if_splits)
  qed (use sub in \<open>auto simp: fr\<close>)
  ultimately show ?thesis by blast
qed


lemma cut_queue_dealt:
  assumes "req_inv s rs" and "e \<in> pub_eps s p" and "n \<le> unat (ps_QueueSize (pub_settings (sv_pub (withdrawn p e s) p)))"
    and "calm (cut_queue p n (withdrawn p e s)) s'"
  shows "req_inv s' rs"
  using calm_req_inv [OF assms(4)] req_inv_dealt [OF assms(1)] cut_queue_ok [OF _ assms(2,3)] assms(1)
  unfolding req_inv_def by blast

lemma withdrawn_lines:
  "pub_queue (sv_pub (withdrawn p e s) r) = pub_queue (sv_pub s r)" "sv_chan (withdrawn p e s) = sv_chan s"
  by (simp_all add: withdrawn_def withdraw_endpoint_def Let_def split: prod.splits)

lemma unpublish_some_eq:
  assumes "pubs_inv s"
  shows "\<exists>s1. unpublish_some rt p (withdrawn p e s) = Some (notify_changed rt p s1) \<and>
    calm (cut_queue p (unat (ps_QueueSize (pub_settings (sv_pub (withdrawn p e s) p)))) (withdrawn p e s)) s1 \<and>
    sv_pubByTarget s1 = sv_pubByTarget s \<and> sv_pubsByName s1 = sv_pubsByName s \<and> sv_cs s1 = sv_cs s \<and> sv_pubWatchers s1 = sv_pubWatchers s"
proof -
  let ?w = "withdrawn p e s" let ?n = "unat (ps_QueueSize (pub_settings (sv_pub ?w p)))"
  have rest: "sv_pubByTarget ?w = sv_pubByTarget s" "sv_pubsByName ?w = sv_pubsByName s" "sv_cs ?w = sv_cs s" "sv_pubWatchers ?w = sv_pubWatchers s"
    by (simp_all add: withdrawn_def Let_def)
  show ?thesis
  proof (cases "?n < length (pub_queue (sv_pub ?w p))")
    case True
    have "range_loop close_waiter (drop ?n (pub_queue (sv_pub ?w p))) ?w =
        Some (?w\<lparr>sv_chan := drop_chans (set (drop ?n (pub_queue (sv_pub ?w p)))) (sv_chan ?w)\<rparr>)"
      using queue_distinct [OF assms, of p] queue_idle [OF assms, of _ p]
      by (intro close_loop_ok) (auto simp: withdrawn_lines dest: in_set_dropD)
    with True show ?thesis
      by (intro exI [of _ "cut_queue p ?n ?w"]) (simp add: unpublish_some_def Let_def cut_queue_def rest)
  next
    case False
    then show ?thesis
      by (intro exI [of _ ?w]) (simp add: unpublish_some_def Let_def cut_queue_def calm_def rest)
  qed
qed

lemma unpublish_last_eq:
  assumes "pubs_inv s" and "unpublish_last rt p (withdrawn p e s) = Some s'"
  shows "\<exists>s1. calm (cut_queue p 0 (withdrawn p e s)) s1 \<and> sv_cs s1 = sv_cs s \<and> sv_pubWatchers s1 = sv_pubWatchers s \<and>
    sv_pubByTarget s1 = sv_pubByTarget (forget_pub p (withdrawn p e s)) \<and> sv_pubsByName s1 = sv_pubsByName (forget_pub p (withdrawn p e s)) \<and>
    sub_rel (notify_removed rt p s1) s'"
proof -
  let ?w = "withdrawn p e s" let ?f = "forget_pub p ?w"
  have f: "sv_pub ?f = sv_pub ?w" "sv_chan ?f = sv_chan s" "sv_ep ?f = sv_ep ?w" "sv_fresh ?f = sv_fresh ?w"
    "sv_cs ?f = sv_cs s" "sv_pubWatchers ?f = sv_pubWatchers s"
    by (simp_all add: forget_pub_def Let_def withdrawn_lines split: option.split) (simp_all add: withdrawn_def Let_def)
  define s1 where "s1 = upd_pub p (\<lambda>pub. pub\<lparr>pub_queue := []\<rparr>) (?f\<lparr>sv_chan := drop_chans (set (pub_queue (sv_pub s p))) (sv_chan s)\<rparr>)"
  have "range_loop close_waiter (pub_queue (sv_pub s p)) ?f = Some (?f\<lparr>sv_chan := drop_chans (set (pub_queue (sv_pub s p))) (sv_chan ?f)\<rparr>)"
    using queue_distinct [OF assms(1), of p] queue_idle [OF assms(1), of _ p] by (intro close_loop_ok) (auto simp: f(2))
  with assms(2) have "range_loop (\<lambda>u. sub_removePublication u p) (rt_refs rt (pub_subscriptions (sv_pub (notify_removed rt p s1) p))) (notify_removed rt p s1) = Some s'"
    by (simp add: unpublish_last_def Let_def f(1,2) withdrawn_lines s1_def)
  then have "sub_rel (notify_removed rt p s1) s'" by (rule range_loop_sub_rel) (rule sub_rels)
  moreover have "calm (cut_queue p 0 ?w) s1"
    by (simp add: calm_def s1_def cut_queue_def f withdrawn_lines)
  ultimately show ?thesis by (intro exI [of _ s1]) (simp add: s1_def f)
qed

lemma unpublishLocked_eq:
  "unpublishLocked rt ref e s = (case ep_pub (sv_ep s e) of
     None \<Rightarrow> Some (Some (OtherError ref (str ''endpoint is not published'') False), s)
   | Some p \<Rightarrow> map_option (Pair None)
      (if length (pub_endpoints (sv_pub (withdrawn p e s) p)) = 0 then unpublish_last rt p (withdrawn p e s) else unpublish_some rt p (withdrawn p e s)))"
proof -
  have "Option.bind x (\<lambda>s. Some (None :: go_error option, s)) = map_option (Pair None) x" for x :: "server option" by (cases x) simp_all
  then show ?thesis unfolding unpublishLocked_def withdrawn_def Let_def by (simp only:)
qed

lemma unpublishLocked_ok:
  assumes "req_inv s rs" and "unpublishLocked rt ref e s = Some (r, s')"
  shows "req_inv s' rs"
proof (cases "ep_pub (sv_ep s e)")
  case None
  with assms show ?thesis by (simp add: unpublishLocked_def)
next
  case (Some p)
  have pi: "pubs_inv s" using assms(1) by (simp add: req_inv_def)
  have e: "e \<in> pub_eps s p" using Some members_eps [OF pubs_inv_pub(2) [OF pi]] by simp
  show ?thesis
  proof (cases "length (pub_endpoints (sv_pub (withdrawn p e s) p)) = 0")
    case True
    with assms(2) Some have "unpublish_last rt p (withdrawn p e s) = Some s'" by (auto simp: unpublishLocked_eq)
    from unpublish_last_eq [OF pi this] obtain s1 where "calm (cut_queue p 0 (withdrawn p e s)) s1" "sub_rel (notify_removed rt p s1) s'" by blast
    then have "calm (cut_queue p 0 (withdrawn p e s)) s'" using notify_calm(2) [of s1 rt p] sub_rel_calm by (blast intro: calm_trans)
    from cut_queue_dealt [OF assms(1) e _ this] show ?thesis by simp
  next
    case False
    let ?n = "unat (ps_QueueSize (pub_settings (sv_pub (withdrawn p e s) p)))"
    from unpublish_some_eq [OF pi, of rt p e] obtain s1 where
      "unpublish_some rt p (withdrawn p e s) = Some (notify_changed rt p s1)" "calm (cut_queue p ?n (withdrawn p e s)) s1" by blast
    moreover from this(1) False assms(2) Some have "s' = notify_changed rt p s1" by (auto simp: unpublishLocked_eq)
    ultimately have "calm (cut_queue p ?n (withdrawn p e s)) s'" using notify_calm(1) [of s1 rt p] by (blast intro: calm_trans)
    from cut_queue_dealt [OF assms(1) e _ this] show ?thesis by simp
  qed
qed

end
