(* ===== verification/Server_Directory.thy ===== *)
theory Server_Directory
  imports Server_Effects
begin

text \<open>
  The directory of publications, by name and priority and by target id, and the streams of changes
  that report it. Every publication that has an endpoint is in both maps and nothing else is; and a
  reader of a stream knows the directory up to what is still pending in its stream.
\<close>

section \<open>The directory\<close>

definition live :: "server \<Rightarrow> pubref \<Rightarrow> bool" where
  "live s p \<longleftrightarrow> pub_endpoints (sv_pub s p) \<noteq> []"

definition pub_label :: "serverPublication \<Rightarrow> go_string \<times> u32 \<times> i64" where
  "pub_label pub = (pub_name pub, ps_Priority (pub_settings pub), pub_targetID pub)"

definition dir_inv :: "server \<Rightarrow> bool" where
  "dir_inv s \<longleftrightarrow> gm_wf (sv_pubByTarget s) \<and>
     (\<forall>name pubs. sv_pubsByName s name = Some pubs \<longrightarrow> gm_wf pubs \<and> pubs \<noteq> []) \<and>
     (\<forall>name prio p. map_of (pubs_named s name) prio = Some p \<longleftrightarrow> live s p \<and> (\<exists>t. pub_label (sv_pub s p) = (name, prio, t))) \<and>
     (\<forall>t p. map_of (sv_pubByTarget s) t = Some p \<longleftrightarrow> live s p \<and> (\<exists>name prio. pub_label (sv_pub s p) = (name, prio, t)))"

lemma dir_inv_wf: "dir_inv s \<Longrightarrow> gm_wf (sv_pubByTarget s)"
  by (simp add: dir_inv_def)

lemma dir_inv_names: "dir_inv s \<Longrightarrow> sv_pubsByName s name = Some pubs \<Longrightarrow> gm_wf pubs \<and> pubs \<noteq> []"
  unfolding dir_inv_def by blast

lemma dir_inv_name:
  "dir_inv s \<Longrightarrow> map_of (pubs_named s name) prio = Some p \<longleftrightarrow> live s p \<and> (\<exists>t. pub_label (sv_pub s p) = (name, prio, t))"
  unfolding dir_inv_def by blast

lemma dir_inv_target:
  "dir_inv s \<Longrightarrow> map_of (sv_pubByTarget s) t = Some p \<longleftrightarrow> live s p \<and> (\<exists>name prio. pub_label (sv_pub s p) = (name, prio, t))"
  unfolding dir_inv_def by blast

lemma live_old: "pubs_inv s \<Longrightarrow> live s p \<Longrightarrow> p < sv_fresh s"
  unfolding pubs_inv_def unused_pubs_def live_def by (meson not_less)

lemma dir_inv_old: "pubs_inv s \<Longrightarrow> dir_inv s \<Longrightarrow> dir_old s"
  unfolding dir_old_def using dir_inv_name live_old by blast

text \<open>The three ways in which an operation changes the directory.\<close>

lemma dir_inv_keep:
  assumes "dir_inv s" and "sv_pubByTarget s' = sv_pubByTarget s" and "sv_pubsByName s' = sv_pubsByName s"
    and "\<And>p. live s' p \<longleftrightarrow> live s p" and "\<And>p. pub_label (sv_pub s' p) = pub_label (sv_pub s p)"
  shows "dir_inv s'"
proof -
  have "pubs_named s' = pubs_named s" by (simp add: pubs_named_def assms(3) fun_eq_iff)
  then show ?thesis using assms(1) unfolding dir_inv_def assms(2-5) by simp
qed

lemma dir_inv_enter:
  assumes "dir_inv s" and "map_of (sv_pubByTarget s) t = None" and "map_of (pubs_named s name) prio = None" and "\<not> live s p"
    and "sv_pubByTarget s' = AList.update t p (sv_pubByTarget s)"
    and "sv_pubsByName s' = (sv_pubsByName s)(name \<mapsto> AList.update prio p (pubs_named s name))"
    and "\<And>q. live s' q \<longleftrightarrow> q = p \<or> live s q"
    and "\<And>q. pub_label (sv_pub s' q) = (if q = p then (name, prio, t) else pub_label (sv_pub s q))"
  shows "dir_inv s'"
proof -
  have named: "pubs_named s' n = (if n = name then AList.update prio p (pubs_named s name) else pubs_named s n)" for n
    by (simp add: pubs_named_def assms(6))
  have wf: "gm_wf (pubs_named s name)"
    using dir_inv_names [OF assms(1), of name] by (simp add: pubs_named_def split: option.split)
  have 1: "map_of (pubs_named s' n) k = Some q \<longleftrightarrow> live s' q \<and> (\<exists>t. pub_label (sv_pub s' q) = (n, k, t))" for n k q
  proof (cases "q = p")
    case True
    have "map_of (pubs_named s n) k \<noteq> Some p" for n k using dir_inv_name [OF assms(1), of n k p] assms(4) by blast
    with True show ?thesis by (auto simp: named assms(7,8) gomap_simps)
  next
    case False
    with dir_inv_name [OF assms(1), of n k q] assms(3) show ?thesis by (auto simp: named assms(7,8) gomap_simps)
  qed
  have 2: "map_of (sv_pubByTarget s') u = Some q \<longleftrightarrow> live s' q \<and> (\<exists>n k. pub_label (sv_pub s' q) = (n, k, u))" for u q
  proof (cases "q = p")
    case True
    have "map_of (sv_pubByTarget s) u \<noteq> Some p" for u using dir_inv_target [OF assms(1), of u p] assms(4) by blast
    with True show ?thesis by (auto simp: assms(5,7,8) gomap_simps)
  next
    case False
    with dir_inv_target [OF assms(1), of u q] assms(2) show ?thesis by (auto simp: assms(5,7,8) gomap_simps)
  qed
  have "AList.update prio p (pubs_named s name) \<noteq> []" by (cases "pubs_named s name") auto
  with 1 2 dir_inv_wf [OF assms(1)] dir_inv_names [OF assms(1)] wf show ?thesis
    unfolding dir_inv_def by (auto simp: assms(5,6))
qed

lemma dir_inv_leave:
  assumes "dir_inv s" and "live s p" and "pub_label (sv_pub s p) = (name, prio, t)"
    and "sv_pubByTarget s' = AList.delete t (sv_pubByTarget s)"
    and "sv_pubsByName s' = (sv_pubsByName s)(name := (let pubs = AList.delete prio (pubs_named s name) in if pubs = [] then None else Some pubs))"
    and "\<And>q. live s' q \<longleftrightarrow> q \<noteq> p \<and> live s q"
    and "\<And>q. pub_label (sv_pub s' q) = pub_label (sv_pub s q)"
  shows "dir_inv s'"
proof -
  have named: "pubs_named s' n = (if n = name then AList.delete prio (pubs_named s name) else pubs_named s n)" for n
    by (simp add: pubs_named_def assms(5) Let_def)
  have wf: "gm_wf (pubs_named s name)"
    using dir_inv_names [OF assms(1), of name] by (simp add: pubs_named_def split: option.split)
  have p: "map_of (pubs_named s name) prio = Some p" "map_of (sv_pubByTarget s) t = Some p"
    using assms(2,3) dir_inv_name [OF assms(1)] dir_inv_target [OF assms(1)] by blast+
  have 1: "map_of (pubs_named s' n) k = Some q \<longleftrightarrow> live s' q \<and> (\<exists>t. pub_label (sv_pub s' q) = (n, k, t))" for n k q
    using dir_inv_name [OF assms(1), of n k q] p(1) assms(3) by (cases "q = p") (auto simp: named assms(6,7) gomap_simps)
  have 2: "map_of (sv_pubByTarget s') u = Some q \<longleftrightarrow> live s' q \<and> (\<exists>n k. pub_label (sv_pub s' q) = (n, k, u))" for u q
    using dir_inv_target [OF assms(1), of u q] p(2) assms(3) by (cases "q = p") (auto simp: assms(4,6,7) gomap_simps)
  from 1 2 dir_inv_wf [OF assms(1)] dir_inv_names [OF assms(1)] wf show ?thesis
    unfolding dir_inv_def by (auto simp: assms(4,5) Let_def split: if_splits)
qed

section \<open>Streams of changes\<close>

definition watch_inv :: "server \<Rightarrow> (csref \<Rightarrow> directory) \<Rightarrow> bool" where
  "watch_inv s rd \<longleftrightarrow> finite (sv_pubWatchers s) \<and>
     (\<forall>c \<in> sv_pubWatchers s. c < sv_fresh s \<and> \<not> cs_closed (sv_cs s c) \<and>
        cs_view (sv_cs s c) (rd c) (map_of (sv_pubByTarget s)) (sv_pub s))"

lemma cs_view_cong:
  assumes "cs_view cs d dir pubs" and "\<And>p. service_entry (pubs' p) = service_entry (pubs p)"
  shows "cs_view cs d dir pubs'"
  using assms by (simp add: cs_view_def)

lemma fold_upd_cs:
  assumes "distinct cs" and "\<And>s t c. sv_pub s = sv_pub t \<Longrightarrow> f s = f t"
  shows "fold (\<lambda>c s. upd_cs c (f s) s) cs s = s\<lparr>sv_cs := \<lambda>c. if c \<in> set cs then f s (sv_cs s c) else sv_cs s c\<rparr>"
  using assms(1)
proof (induction cs arbitrary: s)
  case (Cons c cs)
  define u where "u = upd_cs c (f s) s"
  have f: "f u = f s" by (rule assms(2)) (simp add: u_def)
  have "fold (\<lambda>c s. upd_cs c (f s) s) (c # cs) s = fold (\<lambda>c s. upd_cs c (f s) s) cs u" by (simp add: u_def)
  also have "\<dots> = u\<lparr>sv_cs := \<lambda>d. if d \<in> set cs then f u (sv_cs u d) else sv_cs u d\<rparr>"
    using Cons.prems by (intro Cons.IH) simp
  also have "\<dots> = s\<lparr>sv_cs := \<lambda>d. if d \<in> set (c # cs) then f s (sv_cs s d) else sv_cs s d\<rparr>"
  proof -
    have "(if d \<in> set cs then f s (sv_cs u d) else sv_cs u d) = (if d \<in> set (c # cs) then f s (sv_cs s d) else sv_cs s d)" for d
      using Cons.prems by (simp add: u_def)
    then show ?thesis unfolding f by (simp add: u_def)
  qed
  finally show ?case .
qed simp

lemma notify_cs:
  assumes "runtime_ok rt" and "finite (sv_pubWatchers s)"
  shows "notify_changed rt p s = s\<lparr>sv_cs := \<lambda>c. if c \<in> sv_pubWatchers s then addChangedLocked p (sv_pub s p) (sv_cs s c) else sv_cs s c\<rparr>"
    and "notify_removed rt p s = s\<lparr>sv_cs := \<lambda>c. if c \<in> sv_pubWatchers s then addRemovedLocked (sv_pub s p) (sv_cs s c) else sv_cs s c\<rparr>"
proof -
  have set: "set (rt_refs rt (sv_pubWatchers s)) = sv_pubWatchers s" "distinct (rt_refs rt (sv_pubWatchers s))"
    using runtime_refs [OF assms] runtime_refs_distinct [OF assms] by simp_all
  show "notify_changed rt p s = s\<lparr>sv_cs := \<lambda>c. if c \<in> sv_pubWatchers s then addChangedLocked p (sv_pub s p) (sv_cs s c) else sv_cs s c\<rparr>"
    unfolding notify_changed_def using fold_upd_cs [OF set(2), of "\<lambda>s. addChangedLocked p (sv_pub s p)" s] by (simp add: set(1))
  show "notify_removed rt p s = s\<lparr>sv_cs := \<lambda>c. if c \<in> sv_pubWatchers s then addRemovedLocked (sv_pub s p) (sv_cs s c) else sv_cs s c\<rparr>"
    unfolding notify_removed_def using fold_upd_cs [OF set(2), of "\<lambda>s. addRemovedLocked (sv_pub s p)" s] by (simp add: set(1))
qed

lemma watch_changed:
  assumes "runtime_ok rt" and "watch_inv s rd" and "sv_cs s' = sv_cs s" and "sv_pubWatchers s' = sv_pubWatchers s" and "sv_fresh s \<le> sv_fresh s'"
    and "same_services (pub_targetID (sv_pub s' p)) (map_of (sv_pubByTarget s)) (sv_pub s) (map_of (sv_pubByTarget s')) (sv_pub s')"
    and "map_of (sv_pubByTarget s') (pub_targetID (sv_pub s' p)) = Some p"
  shows "watch_inv (notify_changed rt p s') rd"
proof -
  have fin: "finite (sv_pubWatchers s')" using assms(2,4) by (simp add: watch_inv_def)
  have "\<not> cs_closed (addChangedLocked p pub cs)" if "\<not> cs_closed cs" for pub cs
    using that by (simp add: addChangedLocked_def cs_broadcast_def)
  moreover have "cs_view (addChangedLocked p (sv_pub s' p) (sv_cs s c)) (rd c) (map_of (sv_pubByTarget s')) (sv_pub s')" if "c \<in> sv_pubWatchers s" for c
    using assms(2) that by (intro addChangedLocked_view [OF _ _ assms(6,7)]) (simp_all add: watch_inv_def)
  ultimately show ?thesis using assms(2-5) unfolding notify_cs(1) [OF assms(1) fin] by (auto simp: watch_inv_def)
qed

lemma watch_removed:
  assumes "runtime_ok rt" and "watch_inv s rd" and "sv_cs s' = sv_cs s" and "sv_pubWatchers s' = sv_pubWatchers s" and "sv_fresh s \<le> sv_fresh s'"
    and "same_services (pub_targetID (sv_pub s' p)) (map_of (sv_pubByTarget s)) (sv_pub s) (map_of (sv_pubByTarget s')) (sv_pub s')"
    and "map_of (sv_pubByTarget s') (pub_targetID (sv_pub s' p)) = None"
  shows "watch_inv (notify_removed rt p s') rd"
proof -
  have fin: "finite (sv_pubWatchers s')" using assms(2,4) by (simp add: watch_inv_def)
  have "\<not> cs_closed (addRemovedLocked pub cs)" if "\<not> cs_closed cs" for pub cs
    using that by (simp add: addRemovedLocked_def cs_broadcast_def Let_def)
  moreover have "cs_view (addRemovedLocked (sv_pub s' p) (sv_cs s c)) (rd c) (map_of (sv_pubByTarget s')) (sv_pub s')" if "c \<in> sv_pubWatchers s" for c
    using assms(2) that by (intro addRemovedLocked_view [OF _ _ assms(6,7)]) (simp_all add: watch_inv_def)
  ultimately show ?thesis using assms(2-5) unfolding notify_cs(2) [OF assms(1) fin] by (auto simp: watch_inv_def)
qed


section \<open>Changes that the directory does not notice\<close>

definition dir_frame :: "server \<Rightarrow> server \<Rightarrow> bool" where
  "dir_frame s s' \<longleftrightarrow> sv_pubByTarget s' = sv_pubByTarget s \<and> sv_pubsByName s' = sv_pubsByName s \<and>
     sv_cs s' = sv_cs s \<and> sv_pubWatchers s' = sv_pubWatchers s \<and> sv_fresh s \<le> sv_fresh s' \<and>
     (\<forall>p. (live s' p \<longleftrightarrow> live s p) \<and> pub_targetID (sv_pub s' p) = pub_targetID (sv_pub s p) \<and> service_entry (sv_pub s' p) = service_entry (sv_pub s p))"

lemma pub_label_entry: "pub_label pub = (fst (service_entry pub), ps_Priority (snd (service_entry pub)), pub_targetID pub)"
  by (simp add: pub_label_def service_entry_def)

lemma dir_frame_inv:
  assumes "dir_frame s s'"
  shows "dir_inv s \<Longrightarrow> dir_inv s'" and "watch_inv s rd \<Longrightarrow> watch_inv s' rd"
proof -
  show "dir_inv s \<Longrightarrow> dir_inv s'"
    by (rule dir_inv_keep [where s = s]) (use assms in \<open>simp_all add: dir_frame_def pub_label_entry\<close>)
  show "watch_inv s rd \<Longrightarrow> watch_inv s' rd"
    using assms cs_view_cong [of _ _ _ "sv_pub s" "sv_pub s'"] unfolding dir_frame_def watch_inv_def by (auto intro: less_le_trans)
qed

lemma load_rel_dir: "load_rel s s' \<Longrightarrow> dir_frame s s'"
proof -
  assume rel: "load_rel s s'"
  then have eq: "s' = s\<lparr>sv_ep := sv_ep s', sv_pub := sv_pub s', sv_chan := sv_chan s', sv_fresh := sv_fresh s'\<rparr>" and "sv_fresh s \<le> sv_fresh s'"
    unfolding load_rel_def by blast+
  moreover have "sv_pubByTarget s' = sv_pubByTarget s" "sv_pubsByName s' = sv_pubsByName s" "sv_cs s' = sv_cs s" "sv_pubWatchers s' = sv_pubWatchers s"
    by (subst eq, simp)+
  ultimately show ?thesis by (simp add: dir_frame_def live_def service_entry_def load_rels [OF rel])
qed

lemma sub_rel_dir: "sub_rel s s' \<Longrightarrow> dir_frame s s'"
proof -
  assume rel: "sub_rel s s'"
  note same = calm_pub [OF sub_rel_calm [OF rel]]
  from rel have "sv_pubByTarget s' = sv_pubByTarget s" "sv_pubsByName s' = sv_pubsByName s" "sv_cs s' = sv_cs s" "sv_pubWatchers s' = sv_pubWatchers s"
    "sv_fresh s \<le> sv_fresh s'" unfolding sub_rel_def by blast+
  then show ?thesis unfolding dir_frame_def live_def service_entry_def same by simp
qed

section \<open>The server under its lock\<close>

definition srv_inv :: "server \<Rightarrow> request list \<Rightarrow> (csref \<Rightarrow> directory) \<Rightarrow> bool" where
  "srv_inv s rs rd \<longleftrightarrow> req_inv s rs \<and> dir_inv s \<and> watch_inv s rd"

lemma srv_inv_sub: "sub_rel s s' \<Longrightarrow> srv_inv s rs rd \<Longrightarrow> srv_inv s' rs rd"
  unfolding srv_inv_def using sub_rel_dir sub_rel_calm calm_req_inv dir_frame_inv by blast

lemma srv_inv_load: "load_rel s s' \<Longrightarrow> req_inv s' rs' \<Longrightarrow> srv_inv s rs rd \<Longrightarrow> srv_inv s' rs' rd"
  unfolding srv_inv_def using load_rel_dir dir_frame_inv by blast

text \<open>What a new endpoint changes of the directory: nothing but that its publication has one.\<close>

lemma publish_endpoint_dir:
  assumes "runtime_ok rt" and "joining s p key settings" and "hold_inv s rs" and "wait_inv s rs"
    and "publish_endpoint rt p key settings s = Some (e, s')"
  shows "\<exists>s1. s' = notify_changed rt p s1 \<and> req_inv s' rs \<and>
    sv_pubByTarget s1 = sv_pubByTarget s \<and> sv_pubsByName s1 = sv_pubsByName s \<and> sv_cs s1 = sv_cs s \<and> sv_pubWatchers s1 = sv_pubWatchers s \<and>
    sv_fresh s \<le> sv_fresh s1 \<and>
    (\<forall>q. (live s1 q \<longleftrightarrow> q = p \<or> live s q) \<and> pub_targetID (sv_pub s1 q) = pub_targetID (sv_pub s q) \<and> service_entry (sv_pub s1 q) = service_entry (sv_pub s q))"
proof -
  from publish_endpoint_ok [OF assms(1-4)] assms(5) obtain s1 where
    s1: "s' = notify_changed rt p s1" "load_rel (joined p key settings s) s1" "req_inv s' rs" by auto
  have "AList.update key (sv_fresh s) m \<noteq> []" for m by (cases m) auto
  then have "live (joined p key settings s) q \<longleftrightarrow> q = p \<or> live s q" for q by (simp add: live_def joined_def Let_def)
  moreover have "pub_targetID (sv_pub (joined p key settings s) q) = pub_targetID (sv_pub s q)"
    "service_entry (sv_pub (joined p key settings s) q) = service_entry (sv_pub s q)" for q
    by (simp_all add: joined_def Let_def service_entry_def)
  moreover have "sv_pubByTarget (joined p key settings s) = sv_pubByTarget s" "sv_pubsByName (joined p key settings s) = sv_pubsByName s"
    "sv_cs (joined p key settings s) = sv_cs s" "sv_pubWatchers (joined p key settings s) = sv_pubWatchers s"
    "sv_fresh s \<le> sv_fresh (joined p key settings s)" by (simp_all add: joined_def Let_def)
  ultimately show ?thesis
    using load_rel_dir [OF s1(2)] s1(1,3) unfolding dir_frame_def by (intro exI [of _ s1]) auto
qed

text \<open>The publication that \<^verbatim>\<open>publishLocked\<close> creates.\<close>

definition created :: "go_string \<Rightarrow> PublishSettings \<Rightarrow> server \<Rightarrow> server" where
  "created name settings s =
     (let p = sv_fresh s; t = sv_lastTargetID s + 1
      in s\<lparr>sv_lastTargetID := t, sv_fresh := Suc p,
           sv_pub := (sv_pub s)(p := \<lparr>pub_name = name, pub_targetID = t, pub_endpoints = [], pub_settings = settings,
               pub_maxDistanceCounts = [], pub_ready = {}, pub_queue = [], pub_subscriptions = {}\<rparr>),
           sv_pubsByName := (sv_pubsByName s)(name \<mapsto> AList.update (ps_Priority settings) p (pubs_named s name)),
           sv_pubByTarget := AList.update t p (sv_pubByTarget s)\<rparr>)"

lemma publish_new_created:
  assumes "publish_new rt name settings s = Some (p, s')"
  shows "sub_rel (created name settings s) s'"
proof -
  from assms have "range_loop (\<lambda>u. sub_addPublication rt u (sv_fresh s)) (rt_refs rt (subs_named (created name settings s) name)) (created name settings s) = Some s'"
    unfolding publish_new_def allocateTargetID_def fresh_def Let_def created_def
    by (auto simp: pubs_named_def split: Option.bind_splits)
  then show ?thesis by (rule range_loop_sub_rel) (rule sub_rels)
qed

lemma publish_new_srv:
  assumes rt: "runtime_ok rt" and inv: "srv_inv s rs rd" and conc: "ps_Concurrency settings \<noteq> 0"
    and s0: "calm s s0" "sv_pubsByName s0 = (sv_pubsByName s)(name \<mapsto> pubs_named s name)" "sv_fresh s0 = sv_fresh s" "sv_lastTargetID s0 = sv_lastTargetID s"
      "sv_pubByTarget s0 = sv_pubByTarget s" "sv_cs s0 = sv_cs s" "sv_pubWatchers s0 = sv_pubWatchers s" "sv_pub s0 = sv_pub s"
    and new: "map_of (pubs_named s name) (ps_Priority settings) = None" "map_of (sv_pubByTarget s) (sv_lastTargetID s + 1) = None"
    and n: "publish_new rt name settings s0 = Some (p, s1)" "publish_endpoint rt p key settings s1 = Some (e, s')"
  shows "srv_inv s' rs rd"
proof -
  let ?t = "sv_lastTargetID s + 1"
  have r0: "req_inv s0 rs" using inv calm_req_inv [OF s0(1)] by (simp add: srv_inv_def)
  then have p0: "pubs_inv s0" by (simp add: req_inv_def)
  have new_ok: "p = sv_fresh s0 \<and> joining s1 p key settings \<and> hold_inv s1 rs \<and> wait_inv s1 rs"
    using publish_new_ok [OF p0 conc n(1), where rs = rs and key = key] r0 unfolding req_inv_def by blast
  then have p: "p = sv_fresh s" and j: "joining s1 p key settings" "hold_inv s1 rs" "wait_inv s1 rs" unfolding s0(3) by blast+
  have dead: "\<not> live s p" using live_old [of s p] inv by (auto simp: p srv_inv_def req_inv_def)
  from publish_endpoint_dir [OF rt j n(2)] obtain s2 where s2: "s' = notify_changed rt p s2" "req_inv s' rs"
    "sv_pubByTarget s2 = sv_pubByTarget s1" "sv_pubsByName s2 = sv_pubsByName s1" "sv_cs s2 = sv_cs s1" "sv_pubWatchers s2 = sv_pubWatchers s1"
    "sv_fresh s1 \<le> sv_fresh s2" "\<And>q. live s2 q \<longleftrightarrow> q = p \<or> live s1 q" "\<And>q. pub_targetID (sv_pub s2 q) = pub_targetID (sv_pub s1 q)"
    "\<And>q. service_entry (sv_pub s2 q) = service_entry (sv_pub s1 q)" by blast
  have c: "dir_frame (created name settings s0) s1" using publish_new_created [OF n(1)] by (rule sub_rel_dir)
  have named: "pubs_named s0 name = pubs_named s name" by (simp add: pubs_named_def s0(2))
  have f: "sv_pubByTarget s2 = AList.update ?t p (sv_pubByTarget s)"
    "sv_pubsByName s2 = (sv_pubsByName s)(name \<mapsto> AList.update (ps_Priority settings) p (pubs_named s name))"
    "sv_cs s2 = sv_cs s" "sv_pubWatchers s2 = sv_pubWatchers s" "sv_fresh s \<le> sv_fresh s2"
    "\<And>q. live s2 q \<longleftrightarrow> q = p \<or> live s q"
    "\<And>q. pub_targetID (sv_pub s2 q) = (if q = p then ?t else pub_targetID (sv_pub s q))"
    "\<And>q. service_entry (sv_pub s2 q) = (if q = p then (name, settings) else service_entry (sv_pub s q))"
    using c s2(3-10) unfolding dir_frame_def
    by (auto simp: created_def Let_def s0(2-8) p named live_def service_entry_def)
  have dir: "dir_inv s2"
    by (rule dir_inv_enter [OF _ new(2,1) dead f(1,2)])
      (use inv f(6-8) in \<open>auto simp: srv_inv_def pub_label_entry\<close>)
  have tp: "pub_targetID (sv_pub s2 p) = ?t" using f(7) by simp
  have "watch_inv (notify_changed rt p s2) rd"
  proof (rule watch_changed [OF rt _ f(3-5)])
    show "watch_inv s rd" using inv by (simp add: srv_inv_def)
    have "q \<noteq> p" if "map_of (sv_pubByTarget s) u = Some q" for u q
      using that inv dead dir_inv_target [of s u q] by (auto simp: srv_inv_def)
    then show "same_services (pub_targetID (sv_pub s2 p)) (map_of (sv_pubByTarget s)) (sv_pub s) (map_of (sv_pubByTarget s2)) (sv_pub s2)"
      unfolding same_services_def tp by (auto simp: f(1,8) gomap_simps)
    show "map_of (sv_pubByTarget s2) (pub_targetID (sv_pub s2 p)) = Some p" unfolding tp by (simp add: f(1) gomap_simps)
  qed
  moreover have "dir_inv (notify_changed rt p s2)"
  proof -
    have "finite (sv_pubWatchers s2)" using inv f(4) by (simp add: srv_inv_def watch_inv_def)
    then show ?thesis unfolding notify_cs(1) [OF rt \<open>finite (sv_pubWatchers s2)\<close>]
      by (intro dir_inv_keep [OF dir]) (simp_all add: live_def)
  qed
  ultimately show ?thesis using s2(1,2) by (simp add: srv_inv_def)
qed


lemma notify_dir: "runtime_ok rt \<Longrightarrow> finite (sv_pubWatchers s) \<Longrightarrow> dir_inv s \<Longrightarrow> dir_inv (notify_changed rt p s)"
  "runtime_ok rt \<Longrightarrow> finite (sv_pubWatchers s) \<Longrightarrow> dir_inv s \<Longrightarrow> dir_inv (notify_removed rt p s)"
  unfolding notify_cs by (rule dir_inv_keep [where s = s]; simp add: live_def)+

lemma publish_merge_srv:
  assumes rt: "runtime_ok rt" and inv: "srv_inv s rs rd" and conc: "ps_Concurrency settings \<noteq> 0"
    and p: "map_of (pubs_named s name) (ps_Priority settings) = Some p"
    and n: "publish_merge ref key settings (sv_pub s p) = Inr pub" "publish_endpoint rt p key settings (upd_pub p (\<lambda>_. pub) s) = Some (e, s')"
  shows "srv_inv s' rs rd"
proof -
  let ?s = "upd_pub p (\<lambda>_. pub) s"
  have ri: "req_inv s rs" and di: "dir_inv s" and wi: "watch_inv s rd" using inv by (simp_all add: srv_inv_def)
  then have pi: "pubs_inv s" by (simp add: req_inv_def)
  have lp: "live s p" using p dir_inv_name [OF di] by blast
  have j: "joining ?s p key settings" using merged_joining [OF pi conc live_old [OF pi lp] n(1)] .
  from n(1) have pub: "pub_queue pub = pub_queue (sv_pub s p)" "pub_endpoints pub = pub_endpoints (sv_pub s p)" "pub_targetID pub = pub_targetID (sv_pub s p)"
    "pub_label pub = pub_label (sv_pub s p)"
    by (auto simp: publish_merge_def Let_def pub_label_def split: if_splits)
  have q: "pub_queue (sv_pub ?s r) = pub_queue (sv_pub s r)" for r using pub(1) by simp
  have "dealt [] p s ?s" unfolding dealt_def q by simp
  with pubs_inv_unanswered [OF pi] ri have "hold_inv ?s rs" "wait_inv ?s rs" unfolding req_inv_def by (blast intro: dealt_hold dealt_wait)+
  from publish_endpoint_dir [OF rt j this n(2)] obtain s2 where s2: "s' = notify_changed rt p s2" "req_inv s' rs"
    "sv_pubByTarget s2 = sv_pubByTarget ?s" "sv_pubsByName s2 = sv_pubsByName ?s" "sv_cs s2 = sv_cs ?s" "sv_pubWatchers s2 = sv_pubWatchers ?s"
    "sv_fresh ?s \<le> sv_fresh s2" "\<And>q. live s2 q \<longleftrightarrow> q = p \<or> live ?s q" "\<And>q. pub_targetID (sv_pub s2 q) = pub_targetID (sv_pub ?s q)"
    "\<And>q. service_entry (sv_pub s2 q) = service_entry (sv_pub ?s q)" by blast
  have label: "pub_label (sv_pub s2 q) = pub_label (sv_pub s q)" for q using s2(9,10) [of q] pub(4) by (simp add: pub_label_entry)
  have live: "live s2 q \<longleftrightarrow> live s q" for q using s2(8) lp pub(2) by (auto simp: live_def)
  have dir: "dir_inv s2" by (rule dir_inv_keep [OF di]) (simp_all add: s2(3,4) label live)
  have tp: "pub_targetID (sv_pub s2 q) = pub_targetID (sv_pub s q)" for q using s2(9) pub(3) by simp
  have at: "map_of (sv_pubByTarget s) (pub_targetID (sv_pub s p)) = Some p" using dir_inv_target [OF di] lp by (simp add: pub_label_def)
  have "watch_inv (notify_changed rt p s2) rd"
  proof (rule watch_changed [OF rt wi])
    have "q \<noteq> p" if "u \<noteq> pub_targetID (sv_pub s p)" "map_of (sv_pubByTarget s) u = Some q" for u q
      using that dir_inv_target [OF di, of u q] by (auto simp: pub_label_def)
    then show "same_services (pub_targetID (sv_pub s2 p)) (map_of (sv_pubByTarget s)) (sv_pub s) (map_of (sv_pubByTarget s2)) (sv_pub s2)"
      unfolding same_services_def tp by (auto simp: s2(3,10))
  qed (use s2 at in \<open>simp_all add: tp\<close>)
  moreover have "dir_inv (notify_changed rt p s2)"
    using wi s2(6) dir by (intro notify_dir(1) [OF rt]) (simp_all add: watch_inv_def)
  ultimately show ?thesis using s2(1,2) by (simp add: srv_inv_def)
qed

text \<open>
  The id of a new publication must not be one that is still in use: the counter has 64 bits and would
  have to come round.
\<close>

lemma publishLocked_srv:
  assumes rt: "runtime_ok rt" and inv: "srv_inv s rs rd" and conc: "ps_Concurrency settings \<noteq> 0"
    and new: "map_of (sv_pubByTarget s) (sv_lastTargetID s + 1) = None"
    and pub: "publishLocked rt ref name key settings s = Some (r, s')"
  shows "srv_inv s' rs rd"
proof -
  define s0 where "s0 = (case sv_pubsByName s name of None \<Rightarrow> s\<lparr>sv_pubsByName := (sv_pubsByName s)(name \<mapsto> [])\<rparr> | Some _ \<Rightarrow> s)"
  have named: "pubs_named s0 name = pubs_named s name" by (simp add: s0_def pubs_named_def split: option.split)
  note unf = publishLocked_def s0_def [symmetric] Let_def named
  show ?thesis
  proof (cases "map_of (pubs_named s name) (ps_Priority settings)")
    case None
    with pub obtain p s1 e where n: "publish_new rt name settings s0 = Some (p, s1)" "publish_endpoint rt p key settings s1 = Some (e, s')"
      unfolding unf by (auto split: Option.bind_splits)
    show ?thesis
    proof (rule publish_new_srv [OF rt inv conc _ _ _ _ _ _ _ _ None new n])
      show "calm s s0" by (simp add: s0_def calm_def split: option.split)
      show "sv_pubsByName s0 = (sv_pubsByName s)(name \<mapsto> pubs_named s name)"
        by (auto simp: s0_def pubs_named_def split: option.split)
    qed (simp_all add: s0_def split: option.split)
  next
    case (Some p)
    then have "sv_pubsByName s name \<noteq> None" by (auto simp: pubs_named_def split: option.splits)
    then have s0: "s0 = s" by (auto simp: s0_def)
    show ?thesis
    proof (cases "publish_merge ref key settings (sv_pub s p)")
      case (Inl err)
      with Some pub inv show ?thesis unfolding unf s0 by simp
    next
      case (Inr merged)
      with Some pub obtain e where "publish_endpoint rt p key settings (upd_pub p (\<lambda>_. merged) s) = Some (e, s')"
        unfolding unf s0 by (auto split: Option.bind_splits)
      with publish_merge_srv [OF rt inv conc Some Inr] show ?thesis by blast
    qed
  qed
qed


text \<open>What withdrawing an endpoint leaves of a publication.\<close>

lemma withdrawn_label:
  "pub_label (sv_pub (withdrawn p e s) q) = pub_label (sv_pub s q)" "pub_targetID (sv_pub (withdrawn p e s) q) = pub_targetID (sv_pub s q)"
  "q \<noteq> p \<Longrightarrow> service_entry (sv_pub (withdrawn p e s) q) = service_entry (sv_pub s q)"
  by (simp_all add: withdrawn_def withdraw_endpoint_def Let_def pub_label_def split: prod.splits)

lemma withdrawn_rest:
  "sv_pubByTarget (withdrawn p e s) = sv_pubByTarget s" "sv_pubsByName (withdrawn p e s) = sv_pubsByName s"
  "sv_cs (withdrawn p e s) = sv_cs s" "sv_pubWatchers (withdrawn p e s) = sv_pubWatchers s" "sv_fresh (withdrawn p e s) = sv_fresh s"
  "pubs_named (withdrawn p e s) = pubs_named s"
  by (simp_all add: withdrawn_def Let_def pubs_named_def fun_eq_iff)

lemma cut_queue_rest:
  "pub_label (sv_pub (cut_queue p n s) q) = pub_label (sv_pub s q)" "pub_targetID (sv_pub (cut_queue p n s) q) = pub_targetID (sv_pub s q)"
  "service_entry (sv_pub (cut_queue p n s) q) = service_entry (sv_pub s q)" "live (cut_queue p n s) q \<longleftrightarrow> live s q"
  "sv_fresh (cut_queue p n s) = sv_fresh s"
  by (simp_all add: cut_queue_def pub_label_def service_entry_def live_def)

lemma calm_rest:
  assumes "calm s s'"
  shows "pub_label (sv_pub s' q) = pub_label (sv_pub s q)" "service_entry (sv_pub s' q) = service_entry (sv_pub s q)" "live s' q \<longleftrightarrow> live s q"
  by (simp_all add: pub_label_def service_entry_def live_def calm_pub [OF assms])

lemma withdrawn_live: "q \<noteq> p \<Longrightarrow> live (withdrawn p e s) q \<longleftrightarrow> live s q"
  by (simp add: live_def withdrawn_other)

lemma unpublish_last_srv:
  assumes rt: "runtime_ok rt" and inv: "srv_inv s rs rd" and e: "ep_pub (sv_ep s e) = Some p"
    and last: "\<not> live (withdrawn p e s) p" and u: "unpublish_last rt p (withdrawn p e s) = Some s'" and ri: "req_inv s' rs"
  shows "srv_inv s' rs rd"
proof -
  let ?w = "withdrawn p e s" let ?t = "pub_targetID (sv_pub s p)"
  have pi: "pubs_inv s" and di: "dir_inv s" and wi: "watch_inv s rd" using inv by (simp_all add: srv_inv_def req_inv_def)
  have "pub_eps s p \<noteq> {}" using e members_eps [OF pubs_inv_pub(2) [OF pi]] by blast
  then have lp: "live s p" by (auto simp: live_def pub_eps_def)
  from unpublish_last_eq [OF pi u] obtain s1 where s1: "calm (cut_queue p 0 ?w) s1" "sv_cs s1 = sv_cs s" "sv_pubWatchers s1 = sv_pubWatchers s"
    "sv_pubByTarget s1 = sv_pubByTarget (forget_pub p ?w)" "sv_pubsByName s1 = sv_pubsByName (forget_pub p ?w)" "sub_rel (notify_removed rt p s1) s'" by blast
  note rest = calm_rest [OF s1(1)] cut_queue_rest withdrawn_label withdrawn_rest
  obtain name prio where label: "pub_label (sv_pub s p) = (name, prio, ?t)" by (simp add: pub_label_def)
  then have wl: "pub_name (sv_pub ?w p) = name" "ps_Priority (pub_settings (sv_pub ?w p)) = prio" "pub_targetID (sv_pub ?w p) = ?t"
    using withdrawn_label(1) [of p e s p] by (simp_all add: pub_label_def)
  have "map_of (pubs_named s name) prio = Some p" using dir_inv_name [OF di] lp label by blast
  then obtain pubs where pubs: "sv_pubsByName s name = Some pubs" by (auto simp: pubs_named_def split: option.splits)
  have byTarget: "sv_pubByTarget s1 = AList.delete ?t (sv_pubByTarget s)"
    by (simp add: s1(4) forget_pub_def Let_def wl withdrawn_rest pubs)
  have byName: "sv_pubsByName s1 = (sv_pubsByName s)(name := (let pubs = AList.delete prio (pubs_named s name) in if pubs = [] then None else Some pubs))"
    by (simp add: s1(5) forget_pub_def Let_def wl withdrawn_rest pubs_named_def pubs)
  have live: "live s1 q \<longleftrightarrow> q \<noteq> p \<and> live s q" for q
    using last by (cases "q = p") (simp_all add: rest withdrawn_live)
  have dir: "dir_inv s1" by (rule dir_inv_leave [OF di lp label byTarget byName live]) (simp add: rest)
  have t1: "pub_targetID (sv_pub s1 p) = ?t" by (simp add: calm_pub [OF s1(1)] rest)
  have "watch_inv (notify_removed rt p s1) rd"
  proof (rule watch_removed [OF rt wi s1(2,3)])
    show "sv_fresh s \<le> sv_fresh s1" using calm_fresh [OF s1(1)] by (simp add: rest)
    have "q \<noteq> p" if "u \<noteq> ?t" "map_of (sv_pubByTarget s) u = Some q" for u q
      using that dir_inv_target [OF di, of u q] by (auto simp: pub_label_def)
    then show "same_services (pub_targetID (sv_pub s1 p)) (map_of (sv_pubByTarget s)) (sv_pub s) (map_of (sv_pubByTarget s1)) (sv_pub s1)"
      unfolding same_services_def t1 by (auto simp: byTarget gomap_simps rest)
    show "map_of (sv_pubByTarget s1) (pub_targetID (sv_pub s1 p)) = None" unfolding t1 by (simp add: byTarget gomap_simps)
  qed
  moreover have "dir_inv (notify_removed rt p s1)"
    using wi s1(3) dir by (intro notify_dir(2) [OF rt]) (simp_all add: watch_inv_def)
  ultimately show ?thesis using ri dir_frame_inv [OF sub_rel_dir [OF s1(6)]] by (simp add: srv_inv_def)
qed

lemma unpublish_some_srv:
  assumes rt: "runtime_ok rt" and inv: "srv_inv s rs rd" and e: "ep_pub (sv_ep s e) = Some p"
    and more: "live (withdrawn p e s) p" and u: "unpublish_some rt p (withdrawn p e s) = Some s'" and ri: "req_inv s' rs"
  shows "srv_inv s' rs rd"
proof -
  let ?w = "withdrawn p e s" let ?t = "pub_targetID (sv_pub s p)"
  have pi: "pubs_inv s" and di: "dir_inv s" and wi: "watch_inv s rd" using inv by (simp_all add: srv_inv_def req_inv_def)
  have "pub_eps s p \<noteq> {}" using e members_eps [OF pubs_inv_pub(2) [OF pi]] by blast
  then have lp: "live s p" by (auto simp: live_def pub_eps_def)
  from unpublish_some_eq [OF pi, of rt p e] u obtain s1 where s1: "s' = notify_changed rt p s1"
    "calm (cut_queue p (unat (ps_QueueSize (pub_settings (sv_pub ?w p)))) ?w) s1"
    and same: "sv_pubByTarget s1 = sv_pubByTarget s" "sv_pubsByName s1 = sv_pubsByName s" "sv_cs s1 = sv_cs s" "sv_pubWatchers s1 = sv_pubWatchers s"
    by (metis option.inject)
  note rest = calm_rest [OF s1(2)] cut_queue_rest withdrawn_label withdrawn_rest
  have live: "live s1 q \<longleftrightarrow> live s q" for q using more lp by (cases "q = p") (simp_all add: rest withdrawn_live)
  have dir: "dir_inv s1" by (rule dir_inv_keep [OF di]) (simp_all add: same live rest)
  have t1: "pub_targetID (sv_pub s1 p) = ?t" by (simp add: calm_pub [OF s1(2)] rest)
  have "watch_inv (notify_changed rt p s1) rd"
  proof (rule watch_changed [OF rt wi same(3,4)])
    show "sv_fresh s \<le> sv_fresh s1" using calm_fresh [OF s1(2)] by (simp add: rest)
    have "q \<noteq> p" if "u \<noteq> ?t" "map_of (sv_pubByTarget s) u = Some q" for u q
      using that dir_inv_target [OF di, of u q] by (auto simp: pub_label_def)
    then show "same_services (pub_targetID (sv_pub s1 p)) (map_of (sv_pubByTarget s)) (sv_pub s) (map_of (sv_pubByTarget s1)) (sv_pub s1)"
      unfolding same_services_def t1 by (auto simp: same rest)
    show "map_of (sv_pubByTarget s1) (pub_targetID (sv_pub s1 p)) = Some p"
      unfolding t1 same using dir_inv_target [OF di] lp by (simp add: pub_label_def)
  qed
  moreover have "dir_inv (notify_changed rt p s1)"
    using wi same(4) dir by (intro notify_dir(1) [OF rt]) (simp_all add: watch_inv_def)
  ultimately show ?thesis using ri s1(1) by (simp add: srv_inv_def)
qed

lemma unpublishLocked_srv:
  assumes "runtime_ok rt" and "srv_inv s rs rd" and "unpublishLocked rt ref e s = Some (r, s')"
  shows "srv_inv s' rs rd"
proof (cases "ep_pub (sv_ep s e)")
  case None
  with assms show ?thesis by (simp add: unpublishLocked_def)
next
  case (Some p)
  have ri: "req_inv s' rs" using assms(2) unpublishLocked_ok [OF _ assms(3)] by (simp add: srv_inv_def)
  show ?thesis
  proof (cases "live (withdrawn p e s) p")
    case True
    with Some assms(3) have "unpublish_some rt p (withdrawn p e s) = Some s'" by (auto simp: unpublishLocked_eq live_def)
    with True show ?thesis using unpublish_some_srv [OF assms(1,2) Some] ri by blast
  next
    case False
    with Some assms(3) have "unpublish_last rt p (withdrawn p e s) = Some s'" by (auto simp: unpublishLocked_eq live_def)
    with False show ?thesis using unpublish_last_srv [OF assms(1,2) Some] ri by blast
  qed
qed

end
