(* ===== verification/Server_System.thy ===== *)
theory Server_System
  imports Server_Directory "HOL-Library.List_Lexorder"
begin

text \<open>
  The server as a transition system: operations of clients and peers under the write lock, requests
  in any number and at any of the points where they can be interrupted, and readers of streams of
  changes with what they have learnt. The invariant of the publications, of the directory and of
  the readers holds in every reachable state.
\<close>

section \<open>Watchers\<close>

lemma fold_collect:
  fixes live' :: "pubref \<Rightarrow> bool"
  shows "\<lbrakk>gm_wf m; m' = fold (\<lambda>p m. if live' p then AList.update (t p) p m else m) ps m\<rbrakk> \<Longrightarrow>
    gm_wf m' \<and> (\<forall>u p. map_of m' u = Some p \<longrightarrow> map_of m u = Some p \<or> p \<in> set ps \<and> live' p \<and> t p = u) \<and>
    (\<forall>u. map_of m u \<noteq> None \<longrightarrow> map_of m' u \<noteq> None) \<and> (\<forall>p \<in> set ps. live' p \<longrightarrow> map_of m' (t p) \<noteq> None)"
proof (induction ps arbitrary: m)
  case (Cons p ps)
  let ?m = "if live' p then AList.update (t p) p m else m"
  have "gm_wf ?m" using Cons.prems(1) by simp
  from Cons.IH [OF this] Cons.prems(2)
  have IH: "gm_wf m'" "\<And>u q. map_of m' u = Some q \<Longrightarrow> map_of ?m u = Some q \<or> q \<in> set ps \<and> live' q \<and> t q = u"
    "\<And>u. map_of ?m u \<noteq> None \<Longrightarrow> map_of m' u \<noteq> None" "\<And>q. q \<in> set ps \<Longrightarrow> live' q \<Longrightarrow> map_of m' (t q) \<noteq> None" by auto
  have "map_of m u = Some q \<or> q \<in> set (p # ps) \<and> live' q \<and> t q = u" if "map_of m' u = Some q" for u q
    using IH(2) [OF that] by (auto simp: gomap_simps split: if_splits)
  moreover have "map_of m' u \<noteq> None" if "map_of m u \<noteq> None" for u
    using that by (intro IH(3)) (simp add: gomap_simps)
  moreover have "map_of m' (t q) \<noteq> None" if "q \<in> set (p # ps)" "live' q" for q
  proof (cases "q = p")
    case True
    with that(2) show ?thesis by (intro IH(3)) (simp add: gomap_simps)
  next
    case False
    with that IH(4) show ?thesis by simp
  qed
  ultimately show ?case using IH(1) by blast
qed simp

lemma watch_new:
  assumes rt: "runtime_ok rt" and inv: "srv_inv s rs rd" and new: "newServerServiceChangesStream rt c s = (cs, s')"
  shows "srv_inv s' rs (rd(cs := Map.empty))"
proof -
  have di: "dir_inv s" and wi: "watch_inv s rd" and ri: "req_inv s rs" using inv by (simp_all add: srv_inv_def)
  define ps where "ps = rt_refs rt (gm_values (sv_pubByTarget s))"
  define changed where "changed = fold (\<lambda>p m. if 0 < length (pub_endpoints (sv_pub s p)) then AList.update (pub_targetID (sv_pub s p)) p m else m) ps []"
  have ps: "set ps = gm_values (sv_pubByTarget s)" unfolding ps_def by (rule runtime_refs [OF rt]) simp
  define s1 where "s1 = (upd_cs cs (\<lambda>_. \<lparr>cs_client = c, cs_closed = False, cs_wakeup = 0, cs_sent = {}, cs_removed = {}, cs_changed = changed\<rparr>)
       (s\<lparr>sv_fresh := Suc (sv_fresh s)\<rparr>))\<lparr>sv_pubWatchers := insert cs (sv_pubWatchers s)\<rparr>"
  have cs: "cs = sv_fresh s" using new by (simp add: newServerServiceChangesStream_def fresh_def Let_def)
  have s': "s' = (case c of None \<Rightarrow> s1 | Some c \<Rightarrow> upd_client c (\<lambda>k. k\<lparr>cl_pubWatchers := insert cs (cl_pubWatchers k)\<rparr>) s1)"
    using new by (cases c) (auto simp: newServerServiceChangesStream_def fresh_def Let_def s1_def changed_def ps_def cong: if_cong)
  have sub: "sub_rel s1 s'" unfolding s' by (cases c) (simp_all add: sub_rel_updates)
  have nil: "gm_wf ([] :: (i64, pubref) gomap)" by simp
  note fc = fold_collect [OF nil changed_def]
  have at: "map_of (sv_pubByTarget s) (pub_targetID (sv_pub s p)) = Some p" if "0 < length (pub_endpoints (sv_pub s p))" for p
    using that dir_inv_target [OF di] by (simp add: live_def pub_label_def)
  have changed: "gm_wf changed" "map_of changed u = Some p \<longrightarrow> map_of (sv_pubByTarget s) u = Some p" for u p
  proof -
    show "gm_wf changed" using fc by blast
    have "map_of changed u = Some p \<longrightarrow> map_of [] u = Some p \<or> p \<in> set ps \<and> 0 < length (pub_endpoints (sv_pub s p)) \<and> pub_targetID (sv_pub s p) = u"
      using fc by blast
    with at [of p] show "map_of changed u = Some p \<longrightarrow> map_of (sv_pubByTarget s) u = Some p" by auto
  qed
  have rest: "map_of (sv_pubByTarget s) u = None" if "map_of changed u = None" for u
  proof (rule ccontr)
    assume "map_of (sv_pubByTarget s) u \<noteq> None"
    then obtain p where p: "map_of (sv_pubByTarget s) u = Some p" by blast
    then have "p \<in> set ps" unfolding ps by (auto dest: map_of_SomeD intro: rev_image_eqI)
    moreover from p have "0 < length (pub_endpoints (sv_pub s p))" "pub_targetID (sv_pub s p) = u"
      using dir_inv_target [OF di, of u p] by (auto simp: live_def pub_label_def)
    moreover have "\<forall>p \<in> set ps. 0 < length (pub_endpoints (sv_pub s p)) \<longrightarrow> map_of changed (pub_targetID (sv_pub s p)) \<noteq> None"
      using fc by blast
    ultimately show False using that by metis
  qed
  have old: "cs \<notin> sv_pubWatchers s" using wi by (auto simp: cs watch_inv_def)
  have "watch_inv s1 (rd(cs := Map.empty))"
    unfolding watch_inv_def
  proof (intro conjI ballI)
    show "finite (sv_pubWatchers s1)" using wi by (simp add: s1_def watch_inv_def)
    fix d assume d: "d \<in> sv_pubWatchers s1"
    show "d < sv_fresh s1" "\<not> cs_closed (sv_cs s1 d)" using d wi old by (auto simp: s1_def cs watch_inv_def)
    show "cs_view (sv_cs s1 d) ((rd(cs := Map.empty)) d) (map_of (sv_pubByTarget s1)) (sv_pub s1)"
    proof (cases "d = cs")
      case True
      with changed rest show ?thesis by (simp add: s1_def cs_view_def)
    next
      case False
      with d wi show ?thesis by (simp add: s1_def watch_inv_def)
    qed
  qed
  moreover have "dir_inv s1" by (rule dir_inv_keep [OF di]) (simp_all add: s1_def live_def)
  moreover have "req_inv s1 rs" using ri by (rule calm_req_inv [rotated]) (simp add: s1_def calm_def)
  ultimately show ?thesis using srv_inv_sub [OF sub] by (simp add: srv_inv_def)
qed

lemma read_changed_closed: "cs_closed (snd (read_changed pubs ts changes cs)) = cs_closed cs"
  by (induction pubs ts changes cs rule: read_changed.induct) (auto simp: Let_def split: option.split)

lemma cs_Read_closed: "cs_Read rt pubs cs = (res, cs') \<Longrightarrow> cs_closed cs' = cs_closed cs"
proof -
  have "cs_closed (snd (cs_Read rt pubs cs)) = cs_closed cs"
    unfolding cs_Read_def Let_def by (simp add: case_prod_beta read_changed_closed)
  then show "cs_Read rt pubs cs = (res, cs') \<Longrightarrow> cs_closed cs' = cs_closed cs" by simp
qed

definition learnt :: "(go_error + ServiceChanges) option \<Rightarrow> directory \<Rightarrow> directory" where
  "learnt res d = (case res of Some (Inr ch) \<Rightarrow> apply_changes ch d | _ \<Rightarrow> d)"

lemma watch_read:
  assumes rt: "runtime_ok rt" and inv: "srv_inv s rs rd" and read: "cs_Read rt (sv_pub s) (sv_cs s c) = (res, cs')"
  shows "srv_inv (upd_cs c (\<lambda>_. cs') s) rs (rd(c := learnt res (rd c)))"
proof -
  let ?s = "upd_cs c (\<lambda>_. cs') s"
  have di: "dir_inv s" and wi: "watch_inv s rd" and ri: "req_inv s rs" using inv by (simp_all add: srv_inv_def)
  have "cs_view cs' (learnt res (rd c)) (map_of (sv_pubByTarget s)) (sv_pub s) \<and> \<not> cs_closed cs'" if "c \<in> sv_pubWatchers s"
  proof -
    have v: "cs_view (sv_cs s c) (rd c) (map_of (sv_pubByTarget s)) (sv_pub s)" "\<not> cs_closed (sv_cs s c)"
      using wi that by (simp_all add: watch_inv_def)
    from cs_Read_view [OF rt v(1) read v(2)] cs_Read_closed [OF read] v(2) show ?thesis
      by (auto simp: learnt_def split: option.splits sum.splits)
  qed
  with wi have "watch_inv ?s (rd(c := learnt res (rd c)))" by (auto simp: watch_inv_def)
  moreover have "dir_inv ?s" by (rule dir_inv_keep [OF di]) (simp_all add: live_def)
  moreover have "req_inv ?s rs" using ri by (rule calm_req_inv [rotated]) (simp add: calm_def)
  ultimately show ?thesis by (simp add: srv_inv_def)
qed

lemma watch_stop:
  assumes "srv_inv s rs rd"
  shows "srv_inv (cs_stopLocked c s) rs rd"
proof (cases "cs_closed (sv_cs s c)")
  case True
  with assms show ?thesis by (simp add: cs_stopLocked_def)
next
  case False
  define s1 where "s1 = (upd_cs c (\<lambda>cs. cs_broadcast (cs\<lparr>cs_closed := True\<rparr>)) s)\<lparr>sv_pubWatchers := sv_pubWatchers s - {c}\<rparr>"
  have di: "dir_inv s" and wi: "watch_inv s rd" and ri: "req_inv s rs" using assms by (simp_all add: srv_inv_def)
  have "watch_inv s1 rd" using wi by (auto simp: watch_inv_def s1_def)
  moreover have "dir_inv s1" by (rule dir_inv_keep [OF di]) (simp_all add: s1_def live_def)
  moreover have "req_inv s1 rs" using ri by (rule calm_req_inv [rotated]) (simp add: s1_def calm_def)
  moreover have "sub_rel s1 (cs_stopLocked c s)"
    using False by (simp add: cs_stopLocked_def s1_def sub_rel_def Let_def split: option.split)
  ultimately show ?thesis using srv_inv_sub by (simp add: srv_inv_def)
qed


section \<open>Operations under the write lock\<close>

lemma srv_loop:
  "range_loop f xs s = Some s' \<Longrightarrow> srv_inv s rs rd \<Longrightarrow> (\<And>x t t'. srv_inv t rs rd \<Longrightarrow> f x t = Some t' \<Longrightarrow> srv_inv t' rs rd) \<Longrightarrow> srv_inv s' rs rd"
  by (rule range_loop_rel [where R = "\<lambda>_ t. srv_inv t rs rd"])

lemma srv_fold: "srv_inv s rs rd \<Longrightarrow> (\<And>x t. srv_inv t rs rd \<Longrightarrow> srv_inv (f x t) rs rd) \<Longrightarrow> srv_inv (fold f xs s) rs rd"
  by (induction xs arbitrary: s) simp_all

lemma client_close_srv:
  assumes "runtime_ok rt" and "srv_inv s rs rd" and "client_closeWithErrorLocked rt ref c err s = Some s'"
  shows "srv_inv s' rs rd"
proof (cases "cl_failure (sv_client s c) = None")
  case True
  define s1 where "s1 = upd_client c (\<lambda>k. k\<lparr>cl_failure := Some err, cl_connClosed := True\<rparr>) s"
  define s2 where "s2 = fold (unsubscribeLocked rt) (rt_refs rt (gm_values (cl_subscriptions (sv_client s1 c)))) (upd_client c (\<lambda>k. k\<lparr>cl_subscriptions := []\<rparr>) s1)"
  from True assms(3) obtain s3 where
    l: "range_loop (\<lambda>e s. map_option snd (unpublishLocked rt ref e s)) (rt_refs rt (gm_values (cl_published (sv_client s2 c)))) (upd_client c (\<lambda>k. k\<lparr>cl_published := []\<rparr>) s2) = Some s3"
    and s': "s' = fold cs_stopLocked (rt_refs rt (cl_pubWatchers (sv_client s3 c))) s3"
    unfolding client_closeWithErrorLocked_def Let_def s1_def [symmetric] s2_def [symmetric] by (auto split: Option.bind_splits)
  have "sub_rel s s1" unfolding s1_def by (rule sub_rels)
  moreover have "sub_rel s1 s2" unfolding s2_def
    by (rule sub_rel_trans [OF sub_rel_updates(8) fold_sub_rel]) (rule sub_rels)
  moreover have "sub_rel s2 (upd_client c (\<lambda>k. k\<lparr>cl_published := []\<rparr>) s2)" by (rule sub_rels)
  ultimately have "srv_inv (upd_client c (\<lambda>k. k\<lparr>cl_published := []\<rparr>) s2) rs rd"
    using assms(2) by (blast intro: srv_inv_sub)
  with l have "srv_inv s3 rs rd" by (rule srv_loop) (auto intro: unpublishLocked_srv [OF assms(1)])
  then show ?thesis unfolding s' by (rule srv_fold) (rule watch_stop)
next
  case False
  with assms show ?thesis by (simp add: client_closeWithErrorLocked_def)
qed

datatype server_op =
    AddClient bool
  | AddPeer go_string go_string u32
  | AddListener nat
  | CloseWith "go_error option"
  | ClientEnd clientref go_error
  | Subscribe clientref SubscribeSettings
  | Unsubscribe clientref i64
  | Publish clientref i64 go_string PublishSettings
  | Unpublish clientref i64
  | SetRoute clientref go_string "Route list"
  | StopWatch csref
  | Attach peerref connref
  | Detach peerref connref
  | Changes peerref connref ServiceChanges

fun server_do :: "runtime \<Rightarrow> eref \<Rightarrow> server_op \<Rightarrow> server \<Rightarrow> server option" where
  "server_do rt ref (AddClient allow) s = Some (snd (server_addClient allow s))"
| "server_do rt ref (AddPeer network address distance) s = Some (snd (server_AddPeer ref network address distance s))"
| "server_do rt ref (AddListener l) s = Some (snd (server_AddListener l s))"
| "server_do rt ref (CloseWith err) s = map_option snd (server_closeWithError rt ref err s)"
| "server_do rt ref (ClientEnd c err) s = client_serve_end rt ref c err s"
| "server_do rt ref (Subscribe c settings) s = map_option snd (client_subscribe rt ref c settings s)"
| "server_do rt ref (Unsubscribe c t) s = Some (snd (client_unsubscribe rt ref c t s))"
| "server_do rt ref (Publish c t name settings) s = map_option snd (client_publish rt ref c t name settings s)"
| "server_do rt ref (Unpublish c t) s = map_option snd (client_unpublish rt ref c t s)"
| "server_do rt ref (SetRoute c name routes) s = map_option snd (client_setRoute rt ref c name routes s)"
| "server_do rt ref (StopWatch cs) s = Some (cs_stopLocked cs s)"
| "server_do rt ref (Attach pe conn) s = Some (attachClient pe conn s)"
| "server_do rt ref (Detach pe conn) s = detachClient rt pe conn s"
| "server_do rt ref (Changes pe conn ch) s = map_option snd (processChanges rt pe conn ch s)"

text \<open>The 64-bit counter of target ids has not come round to an id that is still published.\<close>

definition target_free :: "server \<Rightarrow> bool" where
  "target_free s \<longleftrightarrow> map_of (sv_pubByTarget s) (sv_lastTargetID s + 1) = None"

lemma client_publish_srv:
  assumes "runtime_ok rt" and "srv_inv s rs rd" and "target_free s" and "client_publish rt ref c t name settings s = Some (r, s')"
  shows "srv_inv s' rs rd"
proof (cases "s' = s")
  case False
  with assms(4) obtain x s1 where p: "publishLocked rt ref name (c, t) settings s = Some (x, s1)" "ps_Concurrency settings \<noteq> 0"
    and s': "sub_rel s1 s'"
    by (auto simp: client_publish_def sub_rel_updates split: option.splits if_splits sum.splits)
  have "srv_inv s1 rs rd" using publishLocked_srv [OF assms(1,2) p(2) _ p(1)] assms(3) by (simp add: target_free_def)
  with s' show ?thesis by (rule srv_inv_sub)
qed (use assms in simp)

lemma client_unpublish_srv:
  assumes "runtime_ok rt" and "srv_inv s rs rd" and "client_unpublish rt ref c t s = Some (r, s')"
  shows "srv_inv s' rs rd"
proof (cases "s' = s")
  case False
  let ?f = "\<lambda>k. k\<lparr>cl_published := AList.delete t (cl_published k)\<rparr>"
  from False assms(3) obtain x e s1 where u: "unpublishLocked rt ref e (upd_client c ?f s) = Some (x, s1)"
    and s': "sub_rel s1 s'"
    by (auto simp: client_unpublish_def Let_def sub_rel_updates split: option.splits Option.bind_splits)
  have "srv_inv (upd_client c ?f s) rs rd" using assms(2) by (rule srv_inv_sub [OF sub_rel_updates(8)])
  from s' unpublishLocked_srv [OF assms(1) this u] show ?thesis by (rule srv_inv_sub)
qed (use assms in simp)

lemma server_close_srv:
  assumes "runtime_ok rt" and "srv_inv s rs rd" and "server_closeWithError rt ref err s = Some (r, s')"
  shows "srv_inv s' rs rd"
proof (cases "sv_failure s = None")
  case True
  define e where "e = (case err of None \<Rightarrow> ErrCode ECONNCLOSED | Some e \<Rightarrow> e)"
  define s1 where "s1 = s\<lparr>sv_failure := Some e, sv_listeners := [], sv_listenersClosed := sv_listenersClosed s \<union> set (sv_listeners s)\<rparr>"
  from True assms(3) obtain s2 s3 where
    p: "range_loop (\<lambda>pe s. map_option (\<lambda>peer. upd_peer pe (\<lambda>_. peer) s) (peer_closeWithErrorLocked e (sv_peer s pe))) (rt_refs rt (gm_values (sv_peers s1))) s1 = Some s2"
    and c: "range_loop (\<lambda>c. client_closeWithErrorLocked rt ref c e) (rt_refs rt (sv_clients s2)) s2 = Some s3"
    and s': "s' = fold cs_stopLocked (rt_refs rt (sv_pubWatchers s3)) s3"
    unfolding server_closeWithError_def Let_def e_def [symmetric] by (auto simp: s1_def split: Option.bind_splits)
  have "sub_rel s s1" by (simp add: s1_def sub_rel_def)
  then have "srv_inv s1 rs rd" using assms(2) by (rule srv_inv_sub)
  with p have "srv_inv s2 rs rd" by (rule srv_loop) (auto intro: srv_inv_sub [OF sub_rel_updates(4)])
  with c have "srv_inv s3 rs rd" by (rule srv_loop) (rule client_close_srv [OF assms(1)])
  then show ?thesis unfolding s' by (rule srv_fold) (rule watch_stop)
next
  case False
  with assms show ?thesis by (simp add: server_closeWithError_def)
qed


lemma client_ops_rel:
  "client_subscribe rt ref c settings s = Some (r, s') \<Longrightarrow> sub_rel s s'"
  "sub_rel s (snd (client_unsubscribe rt ref c t s))"
  "client_setRoute rt ref c name routes s = Some (r', s') \<Longrightarrow> sub_rel s s'"
  "sub_rel s (snd (server_addClient allow s))" "sub_rel s (snd (server_AddPeer ref network address distance s))"
  "sub_rel s (snd (server_AddListener l s))"
proof -
  show "client_subscribe rt ref c settings s = Some (r, s') \<Longrightarrow> sub_rel s s'"
    by (auto simp: client_subscribe_def Let_def split: option.splits sum.splits
        intro: subscribeLocked_rel sub_rel_trans [OF subscribeLocked_rel sub_rel_updates(8)])
  show "sub_rel s (snd (client_unsubscribe rt ref c t s))"
    by (auto simp: client_unsubscribe_def split: option.split intro: sub_rel_trans [OF sub_rel_updates(8) unsubscribeLocked_rel])
  show "client_setRoute rt ref c name routes s = Some (r', s') \<Longrightarrow> sub_rel s s'"
    by (auto simp: client_setRoute_def split: option.splits if_splits intro: setRouteLocked_rel)
  show "sub_rel s (snd (server_addClient allow s))"
    by (auto simp: server_addClient_def newServerClient_def fresh_def Let_def sub_rel_def split: option.split)
  show "sub_rel s (snd (server_AddPeer ref network address distance s))"
    by (cases "addPeerLocked ref network address distance s")
      (auto simp: server_AddPeer_def split: option.split dest: addPeerLocked_rel)
  show "sub_rel s (snd (server_AddListener l s))"
    by (auto simp: server_AddListener_def sub_rel_def split: option.split)
qed

lemma server_do_srv:
  assumes rt: "runtime_ok rt" and inv: "srv_inv s rs rd" and "target_free s" and "server_do rt ref op s = Some s'"
  shows "srv_inv s' rs rd"
proof (cases op)
  case (ClientEnd c err)
  have "srv_inv (s\<lparr>sv_clients := sv_clients s - {c}\<rparr>) rs rd" using inv by (rule srv_inv_sub [OF sub_rel_updates(9)])
  with ClientEnd assms(4) show ?thesis by (auto simp: client_serve_end_def intro: client_close_srv [OF rt])
qed (use assms in \<open>auto intro: server_close_srv client_publish_srv client_unpublish_srv watch_stop client_ops_rel
      srv_inv_sub [OF client_ops_rel(1)] srv_inv_sub [OF client_ops_rel(2)] srv_inv_sub [OF client_ops_rel(3)]
      srv_inv_sub [OF client_ops_rel(4)] srv_inv_sub [OF client_ops_rel(5)] srv_inv_sub [OF client_ops_rel(6)]
      srv_inv_sub [OF attachClient_rel] srv_inv_sub [OF detachClient_rel] srv_inv_sub [OF processChanges_rel]\<close>)

section \<open>The transition system\<close>

type_synonym system = "server \<times> request list \<times> (csref \<Rightarrow> directory)"

text \<open>
  The write lock is free when no request holds the lock for reading. Every step may make its own
  choices of the runtime. A panic ends the process, so operations that panic have no step.
\<close>

definition unlocked :: "request list \<Rightarrow> bool" where
  "unlocked rs \<longleftrightarrow> (\<forall>r \<in> set rs. \<not> holds_lock r)"

inductive sv_step :: "system \<Rightarrow> system \<Rightarrow> bool" where
  Op: "\<lbrakk>runtime_ok rt; unlocked rs; target_free s; server_do rt ref op s = Some s'\<rbrakk> \<Longrightarrow> sv_step (s, rs, rd) (s', rs, rd)"
| Watch: "\<lbrakk>runtime_ok rt; unlocked rs; client_streamServices rt c s = (Inr cs, s')\<rbrakk> \<Longrightarrow> sv_step (s, rs, rd) (s', rs, rd(cs := Map.empty))"
| Read: "\<lbrakk>runtime_ok rt; unlocked rs; cs_Read rt (sv_pub s) (sv_cs s c) = (res, cs')\<rbrakk> \<Longrightarrow>
    sv_step (s, rs, rd) (upd_cs c (\<lambda>_. cs') s, rs, rd(c := learnt res (rd c)))"
| Start: "\<lbrakk>runtime_ok rt; req_start rt cancelled p s = (r, s')\<rbrakk> \<Longrightarrow> sv_step (s, rs, rd) (s', rs @ [r], rd)"
| Queue: "\<lbrakk>i < length rs; rs ! i = R_queue p; req_queue p s = (r, s')\<rbrakk> \<Longrightarrow> sv_step (s, rs, rd) (s', rs[i := r], rd)"
| Recv: "\<lbrakk>i < length rs; rs ! i = R_wait p w; recv_waiter w s = Some (e, s')\<rbrakk> \<Longrightarrow> sv_step (s, rs, rd) (s', rs[i := R_woken p e], rd)"
| Woken: "\<lbrakk>i < length rs; rs ! i = R_woken p e\<rbrakk> \<Longrightarrow> sv_step (s, rs, rd) (s, rs[i := req_woken p e s], rd)"
| Cancel: "\<lbrakk>i < length rs; rs ! i = R_wait p w\<rbrakk> \<Longrightarrow> sv_step (s, rs, rd) (s, rs[i := R_cancel p w], rd)"
| Search: "\<lbrakk>i < length rs; rs ! i = R_cancel p w; req_cancel p w s = (r, s')\<rbrakk> \<Longrightarrow> sv_step (s, rs, rd) (s', rs[i := r], rd)"
| Receive: "\<lbrakk>i < length rs; rs ! i = R_receive p w; req_receive p w s = Some (r, s')\<rbrakk> \<Longrightarrow> sv_step (s, rs, rd) (s', rs[i := r], rd)"
| Served: "\<lbrakk>i < length rs; rs ! i = R_serve p e\<rbrakk> \<Longrightarrow> sv_step (s, rs, rd) (s, rs[i := R_release p e st], rd)"
| Failed: "\<lbrakk>runtime_ok rt; unlocked rs; i < length rs; rs ! i = R_serve p e; req_failed rt ref p e s = Some (r, s')\<rbrakk> \<Longrightarrow>
    sv_step (s, rs, rd) (s', rs[i := r], rd)"
| Release: "\<lbrakk>i < length rs; rs ! i = R_release p e st; req_release p e st s = Some (r, s')\<rbrakk> \<Longrightarrow> sv_step (s, rs, rd) (s', rs[i := r], rd)"

definition sv_init :: system where
  "sv_init = (NewServer, [], \<lambda>_. Map.empty)"

definition sv_reach :: "system \<Rightarrow> bool" where
  "sv_reach sys \<longleftrightarrow> sv_step\<^sup>*\<^sup>* sv_init sys"

lemma init_srv: "srv_inv NewServer [] (\<lambda>_. Map.empty)"
proof -
  have "pubs_inv NewServer"
    by (simp add: pubs_inv_def pub_inv_def pub_inv_defs lines_apart_def unused_pubs_def NewServer_def pub_eps_def ps_zero_def gomap_simps)
  moreover have "hold_inv NewServer []" "wait_inv NewServer []"
    by (simp_all add: hold_inv_def wait_inv_def NewServer_def)
  moreover have "dir_inv NewServer" "watch_inv NewServer (\<lambda>_. Map.empty)"
    by (simp_all add: dir_inv_def watch_inv_def NewServer_def live_def pubs_named_def)
  ultimately show ?thesis by (simp add: srv_inv_def req_inv_def)
qed


text \<open>The steps of requests change loads, queues and channels only.\<close>

lemma req_loads:
  "runtime_ok rt \<Longrightarrow> pubs_inv s \<Longrightarrow> req_start rt cancelled p s = (r, s') \<Longrightarrow> load_rel s s'"
  "pubs_inv s \<Longrightarrow> req_queue p s = (r, s') \<Longrightarrow> load_rel s s'"
  "recv_waiter w s = Some (eo, s') \<Longrightarrow> load_rel s s'"
  "req_cancel p w s = (r, s') \<Longrightarrow> load_rel s s'"
  "req_receive p w s = Some (r, s') \<Longrightarrow> load_rel s s'"
  "req_release p e st s = Some (r, s') \<Longrightarrow> load_rel s s'"
proof -
  assume rt: "runtime_ok rt" and pi: "pubs_inv s" and start: "req_start rt cancelled p s = (r, s')"
  obtain eo s1 where t: "takeEndpointRLocked rt p s = (eo, s1)" by (meson surj_pair)
  from take_ok [OF rt pi t] have "load_rel s s1" by (cases eo) (simp_all add: set_load_rel)
  with start t show "load_rel s s'" by (cases eo) (auto simp: req_start_def split: if_splits)
next
  assume pi: "pubs_inv s" and q: "req_queue p s = (r, s')"
  obtain w s1 where w: "queueWaiterRLocked p s = (w, s1)" by (meson surj_pair)
  from queueWaiter_ok [OF pi, of p] w have "load_rel s s1" by (cases w) simp_all
  with q w show "load_rel s s'" by (cases w) (auto simp: req_queue_def)
next
  show recv: "recv_waiter w s = Some (eo, s') \<Longrightarrow> load_rel s s'" for eo by (auto simp: recv_waiter_Some load_rel_chan)
  show "req_receive p w s = Some (r, s') \<Longrightarrow> load_rel s s'"
    by (auto simp: req_receive_def split: option.splits intro: recv)
next
  show "req_cancel p w s = (r, s') \<Longrightarrow> load_rel s s'"
    by (auto simp: req_cancel_def cancelWaiter_search_def load_rel_def split: option.splits)
  show "req_release p e st s = Some (r, s') \<Longrightarrow> load_rel s s'"
    by (auto simp: req_release_def releaseEndpointRLocked_def deliver_def Let_def load_rel_def split: option.splits list.splits Option.bind_splits)
qed

lemma srv_parts:
  assumes "srv_inv (fst (s, rs, rd)) (fst (snd (s, rs, rd))) (snd (snd (s, rs, rd)))"
  shows "srv_inv s rs rd" "req_inv s rs" "pubs_inv s"
  using assms by (simp_all add: srv_inv_def req_inv_def)

lemma srv_steps:
  assumes "srv_inv s rs rd"
  shows "req_inv s rs' \<Longrightarrow> srv_inv s rs' rd"
  using assms by (simp add: srv_inv_def)

lemma sv_step_inv:
  assumes "sv_step sys sys'" and "srv_inv (fst sys) (fst (snd sys)) (snd (snd sys))"
  shows "srv_inv (fst sys') (fst (snd sys')) (snd (snd sys'))"
  using assms
proof (induction rule: sv_step.induct)
  case (Op rt rs s ref op s' rd)
  from server_do_srv [OF Op.hyps(1) srv_parts(1) [OF Op.prems] Op.hyps(3,4)] show ?case by simp
next
  case (Watch rt rs c s cs s' rd)
  then have "newServerServiceChangesStream rt (Some c) s = (cs, s')"
    by (auto simp: client_streamServices_def split: option.splits prod.splits)
  from watch_new [OF Watch.hyps(1) srv_parts(1) [OF Watch.prems] this] show ?case by (simp add: fun_upd_def)
next
  case (Read rt rs s c res cs' rd)
  from watch_read [OF Read.hyps(1) srv_parts(1) [OF Read.prems] Read.hyps(3)] show ?case by (simp add: fun_upd_def)
next
  case (Start rt cancelled p s r s' rs rd)
  note inv = srv_parts [OF Start.prems]
  from srv_inv_load [OF req_loads(1) [OF Start.hyps(1) inv(3) Start.hyps(2)] req_start_ok [OF Start.hyps(1) inv(2) Start.hyps(2)] inv(1)]
  show ?case by simp
next
  case (Queue i rs p s r s' rd)
  note inv = srv_parts [OF Queue.prems]
  from srv_inv_load [OF req_loads(2) [OF inv(3) Queue.hyps(3)] req_queue_ok [OF inv(2) Queue.hyps] inv(1)] show ?case by simp
next
  case (Recv i rs p w s e s' rd)
  note inv = srv_parts [OF Recv.prems]
  from srv_inv_load [OF req_loads(3) [OF Recv.hyps(3)] req_recv_ok [OF inv(2) Recv.hyps] inv(1)] show ?case by simp
next
  case (Woken i rs p e s rd)
  note inv = srv_parts [OF Woken.prems]
  from srv_steps [OF inv(1) req_woken_ok [OF inv(2) Woken.hyps]] show ?case by simp
next
  case (Cancel i rs p w s rd)
  note inv = srv_parts [OF Cancel.prems]
  from srv_steps [OF inv(1) req_wait_cancel_ok [OF inv(2) Cancel.hyps]] show ?case by simp
next
  case (Search i rs p w s r s' rd)
  note inv = srv_parts [OF Search.prems]
  from srv_inv_load [OF req_loads(4) [OF Search.hyps(3)] req_cancel_ok [OF inv(2) Search.hyps] inv(1)] show ?case by simp
next
  case (Receive i rs p w s r s' rd)
  note inv = srv_parts [OF Receive.prems]
  from srv_inv_load [OF req_loads(5) [OF Receive.hyps(3)] req_receive_ok [OF inv(2) Receive.hyps] inv(1)] show ?case by simp
next
  case (Served i rs p e s rd st)
  note inv = srv_parts [OF Served.prems]
  have "req_inv s (rs[i := R_release p e st])" by (rule req_inv_move [OF inv(2) Served.hyps(1)]) (simp_all add: Served.hyps(2))
  from srv_steps [OF inv(1) this] show ?case by simp
next
  case (Failed rt rs i p e ref s r s' rd)
  note inv = srv_parts [OF Failed.prems]
  from Failed.hyps(5) obtain x where u: "unpublishLocked rt ref e s = Some (x, s')" and r: "r = R_release p e StatusRetry"
    by (auto simp: req_failed_def)
  have inv': "srv_inv s' rs rd" using unpublishLocked_srv [OF Failed.hyps(1) inv(1) u] .
  then have "req_inv s' rs" by (simp add: srv_inv_def)
  then have "req_inv s' (rs[i := r])" by (rule req_inv_move [OF _ Failed.hyps(3)]) (simp_all add: Failed.hyps(4) r)
  from srv_steps [OF inv' this] show ?case by simp
next
  case (Release i rs p e st s r s' rd)
  note inv = srv_parts [OF Release.prems]
  from req_release_ok [OF inv(2) Release.hyps(1,2)] Release.hyps(3) have "req_inv s' (rs[i := r])" by auto
  from srv_inv_load [OF req_loads(6) [OF Release.hyps(3)] this inv(1)] show ?case by simp
qed

lemma sv_reach_inv: "sv_reach (s, rs, rd) \<Longrightarrow> srv_inv s rs rd"
proof -
  assume "sv_reach (s, rs, rd)"
  then have "sv_step\<^sup>*\<^sup>* sv_init (s, rs, rd)" by (simp add: sv_reach_def)
  then have "srv_inv (fst (s, rs, rd)) (fst (snd (s, rs, rd))) (snd (snd (s, rs, rd)))"
    by (induction rule: rtranclp_induct) (use init_srv sv_step_inv in \<open>auto simp: sv_init_def\<close>)
  then show ?thesis by simp
qed


section \<open>A runtime\<close>

text \<open>One way to make the choices of the runtime: visit maps in ascending order and sort stably.\<close>

definition ordered_runtime :: runtime where
  "ordered_runtime = \<lparr>rt_refs = sorted_list_of_set, rt_take = (\<lambda>_. sorted_list_of_set), rt_ids = sorted_list_of_set,
     rt_names = sorted_list_of_set, rt_sort = sort_key\<rparr>"

lemma ordered_runtime_ok: "runtime_ok ordered_runtime"
  by (simp add: runtime_ok_def enumerates_def ordered_runtime_def)

end
