(* ===== verification/Server_Props.thy ===== *)
theory Server_Props
  imports Server_System
begin

text \<open>
  The properties of the server: what holds in every state that operations, requests and readers of
  change streams can reach together, and what the operations on routes and endpoints do.
\<close>

section \<open>A run of the server\<close>

text \<open>
  A client publishes one endpoint with room for one request and one waiter; two requests arrive.
  The states of this run differ in the load of the endpoint, the queue and the requests only.
\<close>

definition demo_settings :: PublishSettings where
  "demo_settings = \<lparr>ps_Priority = 0, ps_MaxDistance = 2, ps_Concurrency = 1, ps_QueueSize = 1\<rparr>"

definition demo_client :: server where
  "demo_client = NewServer\<lparr>sv_fresh := 1, sv_clients := {0},
     sv_client := (sv_client NewServer)(0 := \<lparr>cl_failure = None, cl_connClosed = False, cl_allowChanges = True,
            cl_subscriptions = [], cl_published = [], cl_pubWatchers = {}\<rparr>)\<rparr>"

definition demo_at :: "epref set \<Rightarrow> waiter list \<Rightarrow> u32 \<Rightarrow> server" where
  "demo_at ready queue active = demo_client\<lparr>
     sv_fresh := 3 + length queue,
     sv_pub := (sv_pub NewServer)(1 := \<lparr>pub_name = str ''echo'', pub_targetID = 1, pub_endpoints = [((0, 7), 2)], pub_settings = demo_settings,
       pub_maxDistanceCounts = [(2, 1)], pub_ready = ready, pub_queue = queue, pub_subscriptions = {}\<rparr>),
     sv_ep := (sv_ep NewServer)(2 := \<lparr>ep_pub = Some 1, ep_key = (0, 7), ep_active = active, ep_settings = demo_settings\<rparr>),
     sv_client := (sv_client NewServer)(0 := \<lparr>cl_failure = None, cl_connClosed = False, cl_allowChanges = True,
            cl_subscriptions = [], cl_published = [(7, 2)], cl_pubWatchers = {}\<rparr>),
     sv_lastTargetID := 1, sv_pubByTarget := [(1, 1)], sv_pubsByName := [str ''echo'' \<mapsto> [(0, 1)]]\<rparr>"

lemma demo_run:
  "server_do ordered_runtime 0 (AddClient True) NewServer = Some demo_client"
  "server_do ordered_runtime 0 (Publish 0 7 (str ''echo'') demo_settings) demo_client = Some (demo_at {2} [] 0)"
  "req_start ordered_runtime False 1 (demo_at {2} [] 0) = (R_serve 1 2, demo_at {} [] 1)"
  "req_start ordered_runtime False 1 (demo_at {} [] 1) = (R_queue 1, demo_at {} [] 1)"
  "req_release 1 2 StatusDone (demo_at {} [] 1) = Some (R_done StatusDone, demo_at {2} [] 0)"
  "req_queue 1 (demo_at {2} [] 0) = (R_wait 1 3, demo_at {2} [3] 0)"
  "req_queue 1 (demo_at {} [] 1) = (R_wait 1 3, demo_at {} [3] 1)"
proof -
  show "server_do ordered_runtime 0 (AddClient True) NewServer = Some demo_client"
    by (simp add: server_addClient_def newServerClient_def fresh_def demo_client_def NewServer_def)
  show "server_do ordered_runtime 0 (Publish 0 7 (str ''echo'') demo_settings) demo_client = Some (demo_at {2} [] 0)"
    unfolding server_do.simps client_publish_def demo_client_def NewServer_def demo_settings_def publishLocked_def demo_at_def
      publish_new_def publish_endpoint_def wakeupWaitersLocked_def pubs_named_def subs_named_def allocateTargetID_def fresh_def
      Let_def notify_changed_def ordered_runtime_def count_of_def
    by (simp add: numeral_2_eq_2 cong: if_cong)
  show "req_start ordered_runtime False 1 (demo_at {2} [] 0) = (R_serve 1 2, demo_at {} [] 1)"
    "req_start ordered_runtime False 1 (demo_at {} [] 1) = (R_queue 1, demo_at {} [] 1)"
    by (simp_all add: req_start_def takeEndpointRLocked_def takeEndpointLocked_def demo_at_def ordered_runtime_def demo_settings_def
        demo_client_def NewServer_def)
  show "req_release 1 2 StatusDone (demo_at {} [] 1) = Some (R_done StatusDone, demo_at {2} [] 0)"
    by (simp add: req_release_def releaseEndpointRLocked_def demo_at_def demo_client_def NewServer_def)
  show "req_queue 1 (demo_at {2} [] 0) = (R_wait 1 3, demo_at {2} [3] 0)" "req_queue 1 (demo_at {} [] 1) = (R_wait 1 3, demo_at {} [3] 1)"
    by (simp_all add: req_queue_def queueWaiterRLocked_def demo_at_def demo_client_def NewServer_def demo_settings_def fresh_def fun_upd_idem)
qed


abbreviation (input) no_readers :: "csref \<Rightarrow> directory" where
  "no_readers \<equiv> \<lambda>_. Map.empty"

lemma sv_reach_step: "sv_reach sys \<Longrightarrow> sv_step sys sys' \<Longrightarrow> sv_reach sys'"
  unfolding sv_reach_def by (rule rtranclp.rtrancl_into_rtrancl)

lemma demo_published: "sv_reach (demo_at {2} [] 0, [], no_readers)"
proof -
  have "sv_reach (NewServer, [], no_readers)" by (simp add: sv_reach_def sv_init_def)
  then have "sv_reach (demo_client, [], no_readers)"
    by (rule sv_reach_step) (rule sv_step.Op [OF ordered_runtime_ok _ _ demo_run(1)], simp_all add: unlocked_def target_free_def NewServer_def)
  then show ?thesis
    by (rule sv_reach_step) (rule sv_step.Op [OF ordered_runtime_ok _ _ demo_run(2)], simp_all add: unlocked_def target_free_def demo_client_def NewServer_def)
qed

lemma demo_missed: "sv_reach (demo_at {} [] 1, [R_serve 1 2, R_queue 1], no_readers)"
proof -
  have "sv_reach (demo_at {} [] 1, [] @ [R_serve 1 2], no_readers)"
    using demo_published sv_step.Start [OF ordered_runtime_ok demo_run(3)] by (rule sv_reach_step)
  then have "sv_reach (demo_at {} [] 1, [R_serve 1 2], no_readers)" by simp
  then have "sv_reach (demo_at {} [] 1, [R_serve 1 2] @ [R_queue 1], no_readers)"
    using sv_step.Start [OF ordered_runtime_ok demo_run(4)] by (rule sv_reach_step)
  then show ?thesis by simp
qed

lemma demo_queued: "sv_reach (demo_at {} [3] 1, [R_serve 1 2, R_wait 1 3], no_readers)"
proof -
  have "sv_reach (demo_at {} [3] 1, [R_serve 1 2, R_queue 1][1 := R_wait 1 3], no_readers)"
    by (rule sv_reach_step [OF demo_missed]) (rule sv_step.Queue [OF _ _ demo_run(7)], simp_all)
  then show ?thesis by simp
qed

text \<open>The same two requests, but the first one releases its endpoint before the second one has joined the queue.\<close>

lemma demo_lost: "sv_reach (demo_at {2} [3] 0, [R_done StatusDone, R_wait 1 3], no_readers)"
proof -
  have "sv_reach (demo_at {} [] 1, [R_serve 1 2, R_queue 1][0 := R_release 1 2 StatusDone], no_readers)"
    by (rule sv_reach_step [OF demo_missed]) (rule sv_step.Served, simp_all)
  then have "sv_reach (demo_at {} [] 1, [R_release 1 2 StatusDone, R_queue 1], no_readers)" by simp
  then have "sv_reach (demo_at {2} [] 0, [R_release 1 2 StatusDone, R_queue 1][0 := R_done StatusDone], no_readers)"
    by (rule sv_reach_step) (rule sv_step.Release [OF _ _ demo_run(5)], simp_all)
  then have "sv_reach (demo_at {2} [] 0, [R_done StatusDone, R_queue 1], no_readers)" by simp
  then have "sv_reach (demo_at {2} [3] 0, [R_done StatusDone, R_queue 1][1 := R_wait 1 3], no_readers)"
    by (rule sv_reach_step) (rule sv_step.Queue [OF _ _ demo_run(6)], simp_all)
  then show ?thesis by simp
qed

text \<open>A client that watches the directory of this server, and reads until nothing is left.\<close>

definition demo_watch :: "i64 set \<Rightarrow> (i64, pubref) gomap \<Rightarrow> server" where
  "demo_watch sent changed = (demo_at {2} [] 0)\<lparr>sv_fresh := 4,
     sv_cs := (sv_cs NewServer)(3 := \<lparr>cs_client = Some 0, cs_closed = False, cs_wakeup = 0, cs_sent = sent, cs_removed = {}, cs_changed = changed\<rparr>),
     sv_pubWatchers := {3},
     sv_client := (sv_client NewServer)(0 := \<lparr>cl_failure = None, cl_connClosed = False, cl_allowChanges = True,
            cl_subscriptions = [], cl_published = [(7, 2)], cl_pubWatchers = {3}\<rparr>)\<rparr>"

definition demo_changes :: ServiceChanges where
  "demo_changes = \<lparr>scs_Removed = [], scs_Changed = [\<lparr>sc_TargetID = 1, sc_Name = str ''echo'', sc_Settings = demo_settings\<rparr>]\<rparr>"

lemma demo_reads:
  "client_streamServices ordered_runtime 0 (demo_at {2} [] 0) = (Inr 3, demo_watch {} [(1, 1)])"
  "cs_Read ordered_runtime (sv_pub (demo_watch {} [(1, 1)])) (sv_cs (demo_watch {} [(1, 1)]) 3) =
     (Some (Inr demo_changes), sv_cs (demo_watch {1} []) 3)"
  "cs_Read ordered_runtime (sv_pub (demo_watch {1} [])) (sv_cs (demo_watch {1} []) 3) = (None, sv_cs (demo_watch {1} []) 3)"
  by (simp_all add: client_streamServices_def newServerServiceChangesStream_def fresh_def demo_watch_def demo_at_def demo_client_def NewServer_def demo_changes_def
      ordered_runtime_def cs_Read_def numeral_2_eq_2 numeral_3_eq_3)

lemma demo_watched:
  "\<exists>rd. sv_reach (demo_watch {1} [], [], rd) \<and> rd 3 = apply_changes demo_changes Map.empty"
proof -
  let ?rd = "no_readers(3 := Map.empty)"
  let ?res = "Some (Inr demo_changes) :: (go_error + ServiceChanges) option"
  have "sv_reach (demo_watch {} [(1, 1)], [], ?rd)"
    by (rule sv_reach_step [OF demo_published]) (rule sv_step.Watch [OF ordered_runtime_ok _ demo_reads(1)], simp add: unlocked_def)
  then have "sv_reach (upd_cs 3 (\<lambda>_. sv_cs (demo_watch {1} []) 3) (demo_watch {} [(1, 1)]), [], ?rd(3 := learnt ?res (?rd 3)))"
    by (rule sv_reach_step) (rule sv_step.Read [OF ordered_runtime_ok _ demo_reads(2)], simp add: unlocked_def)
  moreover have "upd_cs 3 (\<lambda>_. sv_cs (demo_watch {1} []) 3) (demo_watch {} [(1, 1)]) = demo_watch {1} []" by (simp add: demo_watch_def)
  moreover have "(?rd(3 := learnt ?res (?rd 3))) 3 = apply_changes demo_changes Map.empty" by (simp add: learnt_def)
  ultimately show ?thesis by metis
qed

section \<open>Capacity\<close>

text \<open>
  C3. In every reachable state an endpoint serves exactly as many requests as its counter says, never
  more than the concurrency it was published with, and it is offered to new requests exactly while it
  is below that limit; and the queue of a publication is never longer than its queue size. The
  capacity of a publication, its queue size and its distance are the sums and the maximum over its
  endpoints, without overflow.
\<close>

theorem server_capacity:
  assumes "sv_reach (s, rs, rd)" and "ep_pub (sv_ep s e) = Some p"
  shows "unat (ep_active (sv_ep s e)) = card {i. i < length rs \<and> holding (sv_chan s) (rs ! i) = Some e} \<and>
    card {i. i < length rs \<and> holding (sv_chan s) (rs ! i) = Some e} \<le> unat (ps_Concurrency (ep_settings (sv_ep s e))) \<and>
    (e \<in> pub_ready (sv_pub s p) \<longleftrightarrow> ep_active (sv_ep s e) < ps_Concurrency (ep_settings (sv_ep s e))) \<and>
    length (pub_queue (sv_pub s p)) \<le> unat (ps_QueueSize (pub_settings (sv_pub s p))) \<and>
    unat (ps_Concurrency (pub_settings (sv_pub s p))) = (\<Sum>e \<in> gm_values (pub_endpoints (sv_pub s p)). unat (ps_Concurrency (ep_settings (sv_ep s e)))) \<and>
    unat (ps_QueueSize (pub_settings (sv_pub s p))) = (\<Sum>e \<in> gm_values (pub_endpoints (sv_pub s p)). unat (ps_QueueSize (ep_settings (sv_ep s e)))) \<and>
    ps_MaxDistance (pub_settings (sv_pub s p)) = Max (insert 0 ((\<lambda>e. ps_MaxDistance (ep_settings (sv_ep s e))) ` gm_values (pub_endpoints (sv_pub s p))))"
proof -
  have inv: "pubs_inv s" "hold_inv s rs" using sv_reach_inv [OF assms(1)] by (simp_all add: srv_inv_def req_inv_def)
  have p: "members_inv s p" "pool_inv s p" "totals_inv [] s p" "line_inv s p" using inv(1) by (simp_all add: pubs_inv_def pub_inv_def)
  have e: "e \<in> pub_eps s p" using members_eps [OF p(1)] assms(2) by simp
  have act: "unat (ep_active (sv_ep s e)) = card {i. i < length rs \<and> holding (sv_chan s) (rs ! i) = Some e}"
    using inv(2) assms(2) unfolding hold_inv_def holders_def by blast
  have "unat (ep_active (sv_ep s e)) \<le> ep_limit (sv_ep s e)" "e \<in> pub_ready (sv_pub s p) \<longleftrightarrow> unat (ep_active (sv_ep s e)) < ep_limit (sv_ep s e)"
    using p(2) e unfolding pool_inv_def by auto
  with act p(3,4) show ?thesis
    unfolding totals_inv_def Let_def pub_eps_def line_inv_def ep_limit_def ep_queue_def ep_distance_def
    by (simp add: image_image word_less_nat_alt)
qed

theorem server_capacity_witness:
  "card {i. i < length [R_serve 1 2, R_wait 1 3] \<and> holding (sv_chan (demo_at {} [3] 1)) ([R_serve 1 2, R_wait 1 3] ! i) = Some 2} \<le> 1 \<and>
   length (pub_queue (sv_pub (demo_at {} [3] 1) 1)) \<le> 1"
  using server_capacity [OF demo_queued, of 2 1] by (simp add: demo_at_def demo_settings_def)

text \<open>
  C15. A request in the select is in the queue of its publication, or its channel is ready: it is
  never forgotten. A cancelled request that is no longer in the queue does not block on its channel,
  although it holds the lock of the server there, and the release of an endpoint never panics (no
  send on a closed or full channel).
\<close>

theorem requests_are_answered:
  assumes "sv_reach (s, rs, rd)" and "i < length rs"
  shows "case rs ! i of
      R_wait p w \<Rightarrow> w \<in> set (pub_queue (sv_pub s p)) \<or> (\<exists>e s'. recv_waiter w s = Some (e, s'))
    | R_receive p w \<Rightarrow> (\<exists>r s'. req_receive p w s = Some (r, s'))
    | R_release p e st \<Rightarrow> (\<exists>s'. req_release p e st s = Some (R_done st, s'))
    | _ \<Rightarrow> True"
proof -
  have inv: "req_inv s rs" using sv_reach_inv [OF assms(1)] by (simp add: srv_inv_def)
  then have wi: "wait_inv s rs" by (simp add: req_inv_def)
  show ?thesis
  proof (cases "rs ! i")
    case (R_wait p w)
    with wait_chan [OF wi assms(2), of w] show ?thesis by (auto simp: recv_waiter_Some)
  next
    case (R_receive p w)
    with req_receive_some [OF inv assms(2)] show ?thesis by simp
  next
    case (R_release p e st)
    with req_release_ok [OF inv assms(2) this] show ?thesis by auto
  qed simp_all
qed

theorem requests_are_answered_witness:
  "3 \<in> set (pub_queue (sv_pub (demo_at {} [3] 1) 1)) \<or> (\<exists>e s'. recv_waiter 3 (demo_at {} [3] 1) = Some (e, s'))"
  using requests_are_answered [OF demo_queued, of 1] by simp

text \<open>
  C33. But a request can be left waiting for an endpoint that is free: \<^verbatim>\<open>handleRequestRLocked\<close> looks for
  an endpoint and joins the queue under the lock of the publication, but gives it up in between, and
  \<^verbatim>\<open>releaseEndpointRLocked\<close> serves the queue only. In this reachable state the only other request
  is done, the endpoint is ready and serves nothing, and the second request waits on an empty channel.
\<close>

theorem waiter_beside_free_endpoint:
  "\<exists>s rs rd. sv_reach (s, rs, rd) \<and> rs = [R_done StatusDone, R_wait 1 3] \<and>
     3 \<in> set (pub_queue (sv_pub s 1)) \<and> recv_waiter 3 s = None \<and>
     2 \<in> pub_ready (sv_pub s 1) \<and> ep_pub (sv_ep s 2) = Some 1 \<and> ep_active (sv_ep s 2) = 0"
  using demo_lost
  by (intro exI [of _ "demo_at {2} [3] 0"] exI [of _ "[R_done StatusDone, R_wait 1 3]"] exI [of _ no_readers])
    (simp add: demo_at_def demo_client_def NewServer_def recv_waiter_def chan_recv_def)

section \<open>The directory\<close>

text \<open>
  C16. In every reachable state the directory by name and priority and the directory by target id
  both hold exactly the publications that have an endpoint, each under its own name, priority and id.
\<close>

theorem server_directory:
  assumes "sv_reach (s, rs, rd)"
  shows "(map_of (pubs_named s name) priority = Some p \<longleftrightarrow>
      pub_endpoints (sv_pub s p) \<noteq> [] \<and> pub_name (sv_pub s p) = name \<and> ps_Priority (pub_settings (sv_pub s p)) = priority) \<and>
    (map_of (sv_pubByTarget s) t = Some p \<longleftrightarrow> pub_endpoints (sv_pub s p) \<noteq> [] \<and> pub_targetID (sv_pub s p) = t)"
proof -
  have "dir_inv s" using sv_reach_inv [OF assms] by (simp add: srv_inv_def)
  from dir_inv_name [OF this, of name priority p] dir_inv_target [OF this, of t p] show ?thesis
    by (auto simp: live_def pub_label_def)
qed

theorem server_directory_witness:
  "map_of (pubs_named (demo_at {} [3] 1) (str ''echo'')) 0 = Some 1 \<and> map_of (sv_pubByTarget (demo_at {} [3] 1)) 1 = Some 1"
  using server_directory [OF demo_queued, of "str ''echo''" 0 1 1]
  by (simp add: demo_at_def demo_settings_def)

lemma reader_waits:
  assumes "sv_reach (s, rs, rd)" and "runtime_ok rt" and "c \<in> sv_pubWatchers s" and "cs_Read rt (sv_pub s) (sv_cs s c) = (None, cs')"
  shows "rd c t = map_option (\<lambda>p. (pub_name (sv_pub s p), pub_settings (sv_pub s p))) (map_of (sv_pubByTarget s) t)"
proof -
  have "watch_inv s rd" using sv_reach_inv [OF assms(1)] by (simp add: srv_inv_def)
  then have v: "cs_view (sv_cs s c) (rd c) (map_of (sv_pubByTarget s)) (sv_pub s)" "\<not> cs_closed (sv_cs s c)"
    using assms(3) by (simp_all add: watch_inv_def)
  from cs_Read_view [OF assms(2) v(1) assms(4) v(2)] v(1) show ?thesis by (simp add: cs_view_def service_entry_def)
qed

text \<open>
  C14. When \<^verbatim>\<open>Read\<close> of a stream of service changes has nothing to return and waits, its reader,
  who has applied all changes it was ever given, knows the directory of the server exactly: every
  published id with its name and settings, and nothing else. And no answer has more than 256 changed services.
\<close>

theorem reader_knows_directory:
  assumes "sv_reach (s, rs, rd)" and "runtime_ok rt" and "c \<in> sv_pubWatchers s" and "cs_Read rt (sv_pub s) (sv_cs s c) = (res, cs')"
  shows "case res of
      None \<Rightarrow> \<forall>t. rd c t = map_option (\<lambda>p. (pub_name (sv_pub s p), pub_settings (sv_pub s p))) (map_of (sv_pubByTarget s) t)
    | Some (Inl err) \<Rightarrow> False
    | Some (Inr ch) \<Rightarrow> length (scs_Changed ch) \<le> 256"
proof -
  have wi: "watch_inv s rd" using sv_reach_inv [OF assms(1)] by (simp add: srv_inv_def)
  then have v: "cs_view (sv_cs s c) (rd c) (map_of (sv_pubByTarget s)) (sv_pub s)" "\<not> cs_closed (sv_cs s c)"
    using assms(3) by (simp_all add: watch_inv_def)
  note r = cs_Read_view [OF assms(2) v(1) assms(4) v(2)]
  show ?thesis
  proof (cases res)
    case None
    with reader_waits [OF assms(1-3)] assms(4) show ?thesis by simp
  next
    case (Some x)
    show ?thesis
    proof (cases x)
      case (Inl err)
      with Some r show ?thesis by simp
    next
      case (Inr ch)
      with Some assms(4) v(2) have "\<exists>ts cs1. scs_Changed ch = fst (read_changed (sv_pub s) ts [] cs1)"
        unfolding cs_Read_def Let_def case_prod_beta by (auto split: if_splits) blast+
      then obtain ts cs1 where "scs_Changed ch = fst (read_changed (sv_pub s) ts [] cs1)" by blast
      with read_changed_bound [of "[]" "sv_pub s" ts cs1] Some Inr show ?thesis by simp
    qed
  qed
qed


theorem reader_knows_directory_witness:
  "\<exists>rd. sv_reach (demo_watch {1} [], [], rd) \<and>
     rd 3 1 = map_option (\<lambda>p. (pub_name (sv_pub (demo_watch {1} []) p), pub_settings (sv_pub (demo_watch {1} []) p))) (map_of (sv_pubByTarget (demo_watch {1} [])) 1)"
proof -
  from demo_watched obtain rd where rd: "sv_reach (demo_watch {1} [], [], rd)" by blast
  have "3 \<in> sv_pubWatchers (demo_watch {1} [])" by (simp add: demo_watch_def)
  from reader_knows_directory [OF rd ordered_runtime_ok this demo_reads(3)] rd show ?thesis by auto
qed


section \<open>Endpoints and routes\<close>

text \<open>
  C17. Without a route for the name, \<^verbatim>\<open>findEndpointRLocked\<close> finds an endpoint exactly if there is a
  candidate within the distances asked for, and then one that no other candidate beats: least
  priority value first, then distance, where distances 0 and 1 count the same, whatever the order in
  which maps are visited.
\<close>

theorem findEndpoint_is_best:
  assumes "runtime_ok rt" and "map_of (sv_routeByName s) name = None"
  shows "case findEndpointRLocked rt s name minDistance maxDistance of
      None \<Rightarrow> \<forall>ref p d. \<not> candidate s name minDistance maxDistance ref p d
    | Some ref \<Rightarrow> \<exists>p d. candidate s name minDistance maxDistance ref p d \<and>
        (\<forall>ref' p' d'. candidate s name minDistance maxDistance ref' p' d' \<longrightarrow>
           p < p' \<or> p = p' \<and> distance_class d \<le> distance_class d')"
  using find_best [OF assms, of minDistance maxDistance] unfolding no_worse_def
  by (cases "findEndpointRLocked rt s name minDistance maxDistance") auto

theorem findEndpoint_is_best_witness:
  "findEndpointRLocked ordered_runtime (demo_at {2} [] 0) (str ''echo'') 0 2 = Some (RefPub 1) \<and>
   (\<exists>p d. candidate (demo_at {2} [] 0) (str ''echo'') 0 2 (RefPub 1) p d)"
proof -
  have f: "findEndpointRLocked ordered_runtime (demo_at {2} [] 0) (str ''echo'') 0 2 = Some (RefPub 1)"
    by (simp add: findEndpointRLocked_def demo_at_def demo_client_def NewServer_def pubs_named_def ordered_runtime_def
        pub_priority_def demo_settings_def)
  have "map_of (sv_routeByName (demo_at {2} [] 0)) (str ''echo'') = None" by (simp add: demo_at_def demo_client_def NewServer_def)
  from findEndpoint_is_best [OF ordered_runtime_ok this, of 0 2] f show ?thesis by auto
qed

lemma weight_sum_Cons: "weight_sum s (c # cases) = (if case_counts s c then uint (rc_weight c) else 0) + weight_sum s cases"
proof -
  have "fold (\<lambda>c sum. if case_counts s c then sum + uint (rc_weight c) else sum) cs k =
      k + fold (\<lambda>c sum. if case_counts s c then sum + uint (rc_weight c) else sum) cs 0" for cs k
  proof (induction cs arbitrary: k)
    case (Cons c cs)
    show ?case using Cons [of "uint (rc_weight c)"] Cons [of "k + uint (rc_weight c)"] Cons [of k] by simp
  qed simp
  from this [of cases "if case_counts s c then uint (rc_weight c) else 0"] show ?thesis by (cases "case_counts s c") (simp_all add: weight_sum_def)
qed

lemma weight_sum_nonneg: "0 \<le> weight_sum s cases"
proof (induction cases)
  case (Cons c cases)
  then show ?case using uint_ge_0 [of "rc_weight c"] by (simp only: weight_sum_Cons split: if_split) arith
qed (simp add: weight_sum_def)

definition case_bins :: "server \<Rightarrow> serverRouteCase list \<Rightarrow> subref \<Rightarrow> int set" where
  "case_bins s cases u = {b. 0 \<le> b \<and> b < weight_sum s cases \<and> choose_case s b cases = Some u}"

lemma case_bins_Cons:
  assumes "case_counts s c"
  shows "case_bins s (c # cases) u = (if rc_sub c = u then {0..<uint (rc_weight c)} else {}) \<union> (\<lambda>b. b + uint (rc_weight c)) ` case_bins s cases u"
proof (rule set_eqI)
  fix b :: int
  let ?w = "uint (rc_weight c)"
  have "b \<in> (\<lambda>b. b + ?w) ` case_bins s cases u \<longleftrightarrow> b - ?w \<in> case_bins s cases u"
    by (auto intro: rev_image_eqI)
  then show "b \<in> case_bins s (c # cases) u \<longleftrightarrow> b \<in> (if rc_sub c = u then {0..<?w} else {}) \<union> (\<lambda>b. b + ?w) ` case_bins s cases u"
    using assms weight_sum_nonneg [of s cases] uint_ge_0 [of "rc_weight c"]
    by (cases "b < ?w") (auto simp: case_bins_def weight_sum_Cons)
qed

lemma case_bins_finite: "finite (case_bins s cases u)"
  by (rule finite_subset [of _ "{0..<weight_sum s cases}"]) (auto simp: case_bins_def)

lemma case_bins_card:
  "card (case_bins s cases u) = (\<Sum>c \<leftarrow> filter (\<lambda>c. case_counts s c \<and> rc_sub c = u) cases. unat (rc_weight c))"
proof (induction cases)
  case Nil
  show ?case by (simp add: case_bins_def weight_sum_def)
next
  case (Cons c cases)
  show ?case
  proof (cases "case_counts s c")
    case True
    let ?w = "uint (rc_weight c)"
    have "(\<lambda>b. b + ?w) ` case_bins s cases u \<subseteq> {?w..}" by (auto simp: case_bins_def)
    then have "card (case_bins s (c # cases) u) = card (if rc_sub c = u then {0..<?w} else {}) + card ((\<lambda>b. b + ?w) ` case_bins s cases u)"
      unfolding case_bins_Cons [OF True] by (intro card_Un_disjoint) (auto simp: case_bins_finite)
    moreover have "card ((\<lambda>b. b + ?w) ` case_bins s cases u) = card (case_bins s cases u)" by (rule card_image) simp
    ultimately show ?thesis using True Cons.IH by simp
  next
    case False
    then have "case_bins s (c # cases) u = case_bins s cases u" by (simp add: case_bins_def weight_sum_Cons)
    with False Cons.IH show ?thesis by simp
  qed
qed

lemma choose_case_some: "0 \<le> b \<Longrightarrow> b < weight_sum s cases \<Longrightarrow> choose_case s b cases \<noteq> None"
proof (induction cases arbitrary: b)
  case (Cons c cases)
  from Cons.IH [of b] Cons.IH [of "b - uint (rc_weight c)"] Cons.prems show ?case by (auto simp: weight_sum_Cons)
qed (simp add: weight_sum_def)

text \<open>
  C18. A route shares out requests in proportion to weights: of the values the random generator can
  return, exactly as many lead to a subscription as the weights of its active cases add up to, and none
  of them leads to the panic at the end of \<^verbatim>\<open>handleRequestRLocked\<close>; the request has no route only if no case counts.
\<close>

theorem route_choice_is_weighted:
  "card {b. 0 \<le> b \<and> b < weight_sum s (ro_cases ro) \<and> route_choose s (\<lambda>_. b) ro = Some (Some u)} =
     (\<Sum>c \<leftarrow> filter (\<lambda>c. case_counts s c \<and> rc_sub c = u) (ro_cases ro). unat (rc_weight c)) \<and>
   {b. 0 \<le> b \<and> b < weight_sum s (ro_cases ro) \<and> (route_choose s (\<lambda>_. b) ro = None \<or> route_choose s (\<lambda>_. b) ro = Some None)} = {} \<and>
   (weight_sum s (ro_cases ro) = 0 \<longleftrightarrow> filter (case_counts s) (ro_cases ro) = [])"
proof (intro conjI)
  have "{b. 0 \<le> b \<and> b < weight_sum s (ro_cases ro) \<and> route_choose s (\<lambda>_. b) ro = Some (Some u)} = case_bins s (ro_cases ro) u"
    by (auto simp: case_bins_def route_choose_def Let_def split: option.splits)
  then show "card {b. 0 \<le> b \<and> b < weight_sum s (ro_cases ro) \<and> route_choose s (\<lambda>_. b) ro = Some (Some u)} =
     (\<Sum>c \<leftarrow> filter (\<lambda>c. case_counts s c \<and> rc_sub c = u) (ro_cases ro). unat (rc_weight c))" by (simp add: case_bins_card)
  show "{b. 0 \<le> b \<and> b < weight_sum s (ro_cases ro) \<and> (route_choose s (\<lambda>_. b) ro = None \<or> route_choose s (\<lambda>_. b) ro = Some None)} = {}"
  proof (rule equals0I)
    fix b assume b: "b \<in> {b. 0 \<le> b \<and> b < weight_sum s (ro_cases ro) \<and> (route_choose s (\<lambda>_. b) ro = None \<or> route_choose s (\<lambda>_. b) ro = Some None)}"
    then have "choose_case s b (ro_cases ro) \<noteq> None" by (intro choose_case_some) simp_all
    with b show False by (auto simp: route_choose_def Let_def split: option.splits if_splits)
  qed
  show "weight_sum s (ro_cases ro) = 0 \<longleftrightarrow> filter (case_counts s) (ro_cases ro) = []"
  proof (induction "ro_cases ro" arbitrary: ro)
    case Nil
    then show ?case by (simp add: weight_sum_def)
  next
    case (Cons c cases)
    have "weight_sum s cases = 0 \<longleftrightarrow> filter (case_counts s) cases = []" using Cons.hyps(1) [of "ro\<lparr>ro_cases := cases\<rparr>"] by simp
    moreover have "0 < uint (rc_weight c)" if "case_counts s c" using that by (simp add: case_counts_def word_less_def)
    ultimately show ?case using weight_sum_nonneg [of s cases] unfolding Cons.hyps(2) [symmetric] weight_sum_Cons by auto
  qed
qed

lemma build_cases_panics:
  "\<exists>route \<in> set routes. route_Options route = [] \<Longrightarrow> build_cases rt ref routes s = None"
proof (induction routes arbitrary: s)
  case (Cons route routes)
  show ?case
  proof (cases "route_Options route = []")
    case True
    then show ?thesis by (simp add: subscribeLocked_def)
  next
    case False
    with Cons.prems have "build_cases rt ref routes s1 = None" for s1 by (intro Cons.IH) auto
    then show ?thesis by (simp split: option.split sum.split)
  qed
qed simp

text \<open>
  C34. A client that may change the server can make it panic: setting a route one of whose cases has no
  options is not refused, \<^verbatim>\<open>subscribeLocked\<close> returns an error for that case, and \<^verbatim>\<open>setRouteLocked\<close>
  panics on it while it holds the lock of the server.
\<close>

theorem setRoute_without_options_panics:
  assumes "cl_failure (sv_client s c) = None" and "cl_allowChanges (sv_client s c)" and "map_of (sv_routeByName s) name = None"
    and "route \<in> set routes" and "route_Options route = []"
  shows "client_setRoute rt ref c name routes s = None"
proof -
  have "build_cases rt ref routes t = None" for t by (rule build_cases_panics) (use assms(4,5) in blast)
  then have "set_cases rt ref r s' = None" if "ro_routes (sv_route s' r) = routes" for r s' using that by (simp add: set_cases_def)
  moreover have "ro_routes (sv_route s' r) = ro_routes (sv_route t r)" if "range_loop (\<lambda>u. sub_addRoute u r) us t = Some s'" for us t s' r
    using that by (rule range_loop_rel [where R = "\<lambda>t s'. ro_routes (sv_route s' r) = ro_routes (sv_route t r)"])
      (auto simp: sub_addRoute_def Let_def split: Option.bind_splits if_splits option.splits)
  moreover have "0 < length routes" using assms(4) by (cases routes) simp_all
  ultimately show ?thesis using assms(1-3)
    unfolding client_setRoute_def setRouteLocked_def fresh_def Let_def by (auto split: Option.bind_splits)
qed

theorem setRoute_without_options_panics_witness:
  "client_setRoute ordered_runtime 0 0 (str ''x'') [\<lparr>route_Options = [], route_Weight = 1\<rparr>] demo_client = None"
  by (rule setRoute_without_options_panics [where route = "\<lparr>route_Options = [], route_Weight = 1\<rparr>"])
    (simp_all add: demo_client_def NewServer_def)

end
