(* ===== verification/Rpc_Props.thy ===== *)
theory Rpc_Props
  imports Rpc_Client Server_Props
begin

text \<open>
  The properties of the RPC layer: a call through the client is the call on the server, changes arrive
  as they were read, streams reach their target, and nothing that a client sends takes the server out
  of its reachable states.
\<close>

section \<open>An encoding\<close>

text \<open>An encoding of some messages, with which the examples below compute.\<close>

definition demo_codec :: codec where
  "demo_codec = \<lparr>
     marshal = (\<lambda>m. case m of
         PublishRequest t name settings \<Rightarrow> Inr (put_u64 t @ name)
       | StreamServicesResponse [t] [] \<Rightarrow> Inr (put_u64 t)
       | StreamServicesResponse [] [_] \<Rightarrow> Inr [1]
       | StreamServicesRequest \<Rightarrow> Inr []
       | PublishResponse \<Rightarrow> Inr []
       | _ \<Rightarrow> Inl (OtherError 0 (str ''no encoding'') False)),
     unmarshal = (\<lambda>t b. case get_u64 b of
         None \<Rightarrow> if t = T_PublishResponse then Inr PublishResponse
                 else if t = T_StreamServicesRequest then Inr StreamServicesRequest
                 else if t = T_StreamServicesResponse then Inr (services_message demo_changes)
                 else Inl (OtherError 0 (str ''no message'') False)
       | Some v \<Rightarrow> if t = T_PublishRequest then Inr (PublishRequest v (drop 8 b) (rpcPublishSettingsToProto demo_settings))
                   else if t = T_StreamServicesResponse then Inr (StreamServicesResponse [v] [])
                   else Inl (OtherError 0 (str ''no message'') False))\<rparr>"

lemma demo_carried:
  "carried demo_codec (PublishRequest t (str ''echo'') (rpcPublishSettingsToProto demo_settings))"
  "carried demo_codec PublishResponse" "carried demo_codec StreamServicesRequest"
  "carried demo_codec (StreamServicesResponse [t] [])" "carried demo_codec (services_message demo_changes)"
  using get_put_u64 [of _ "[]"]
  by (simp_all add: carried_def demo_codec_def be_simps services_message_def demo_changes_def rpcServiceChangesToProto_def)

section \<open>Calls\<close>

text \<open>The methods of a client of the server are operations of the server.\<close>

lemma serverClient_ops:
  "ll_subscribe (serverClient_server rt ref cl) settings s = Some (x1, s') \<Longrightarrow> server_do rt ref (Subscribe cl settings) s = Some s'"
  "ll_unsubscribe (serverClient_server rt ref cl) t s = Some (x2, s') \<Longrightarrow> server_do rt ref (Unsubscribe cl t) s = Some s'"
  "ll_publish (serverClient_server rt ref cl) t name ps s = Some (x3, s') \<Longrightarrow> server_do rt ref (Publish cl t name ps) s = Some s'"
  "ll_unpublish (serverClient_server rt ref cl) t s = Some (x4, s') \<Longrightarrow> server_do rt ref (Unpublish cl t) s = Some s'"
  "ll_setRoute (serverClient_server rt ref cl) name routes s = Some (x5, s') \<Longrightarrow> server_do rt ref (SetRoute cl name routes) s = Some s'"
  "ll_getEndpoints (serverClient_server rt ref cl) t s = Some (x6, s') \<Longrightarrow> s' = s"
  "ll_streamEndpoints (serverClient_server rt ref cl) t s = Some (x7, s') \<Longrightarrow> s' = s"
  "ll_listRoutes (serverClient_server rt ref cl) s = Some (x8, s') \<Longrightarrow> s' = s"
  "ll_lookupRoute (serverClient_server rt ref cl) name s = Some (x9, s') \<Longrightarrow> s' = s"
  "ll_streamServices (serverClient_server rt ref cl) s = Some (Inr cs, s') \<Longrightarrow> client_streamServices rt cl s = (Inr cs, s')"
  "ll_streamServices (serverClient_server rt ref cl) s = Some (Inl err, s') \<Longrightarrow> s' = s"
  by (cases "client_unsubscribe rt ref cl t s";
      auto simp: serverClient_server_def client_streamServices_def split: option.splits prod.splits)+

lemma serve_reply_state: "serve_reply c wr w f res = Some (x, s') \<Longrightarrow> \<exists>r. res = Some (r, s')"
  by (auto simp: serve_reply_def split: option.splits prod.splits sum.splits)

lemma serve_request_state: "serve_request c t r w s k = Some (x, s') \<Longrightarrow> s' = s \<or> (\<exists>m. k m = Some (x, s'))"
  by (auto simp: serve_request_def split: sum.splits)

lemma serve_changes_state: "serve_changes k w res = Some (x, s') \<Longrightarrow>
    (\<exists>err. res = Some (Inl err, s')) \<or> (\<exists>ch. res = Some (Inr ch, s') \<and> x = k ch)"
  by (auto simp: serve_changes_def split: option.splits prod.splits sum.splits)

lemma rpcWrapServer_cases:
  assumes "rpcWrapServer c ref (serverClient_server rt ref cl) seen wr r w s = Some (served, s')"
  obtains "s' = s" | op where "server_do rt ref op s = Some s'"
    | cs w' where "served = ServeServices cs w'" "client_streamServices rt cl s = (Inr cs, s')"
proof -
  have "s' = s \<or> (\<exists>op. server_do rt ref op s = Some s') \<or>
      (\<exists>cs w'. served = ServeServices cs w' \<and> client_streamServices rt cl s = (Inr cs, s'))"
    using assms unfolding rpcWrapServer_def
    by (auto split: if_splits prod.splits sum.splits dest!: serve_request_state serve_reply_state serve_changes_state dest: serverClient_ops)
  with that show ?thesis by blast
qed

text \<open>
  C5. Calls through the client are calls of the server: for a request and an answer that the protobuf
  library encodes and decodes faithfully, each of the methods \<^verbatim>\<open>subscribe\<close>, \<^verbatim>\<open>getEndpoints\<close>,
  \<^verbatim>\<open>unsubscribe\<close>, \<^verbatim>\<open>publish\<close>, \<^verbatim>\<open>unpublish\<close>, \<^verbatim>\<open>setRoute\<close>, \<^verbatim>\<open>listRoutes\<close> and
  \<^verbatim>\<open>lookupRoute\<close> of \<^verbatim>\<open>rpcClient\<close> has the result and the effect of the same method of the
  server at the other end (and panics there if that does); an error, whose message fits into a RESET
  frame, arrives as what the frame makes of it.
\<close>

theorem rpc_is_transparent:
  assumes "carried c (call_request k)"
    and "\<And>a s'. direct_call ll k s = Some (Inr a, s') \<Longrightarrow> carried c (call_response k a)"
    and "\<And>err s'. direct_call ll k s = Some (Inl err, s') \<Longrightarrow> frame_wf (ResetFrame 0 FlagResetWrite err)"
  shows "client_call (rpcSimpleRequest c ref ll) k s = map_option (map_prod (map_sum (client_error ref) id) id) (direct_call ll k s)"
  using assms(1,2) by (rule client_call_direct)

lemma demo_unfailed: "cl_failure (sv_client demo_client 0) = None"
  by (simp add: demo_client_def)

lemma demo_publish: "client_publish ordered_runtime 0 0 7 (str ''echo'') demo_settings demo_client = Some (None, demo_at {2} [] 0)"
  unfolding client_publish_def demo_client_def NewServer_def demo_settings_def publishLocked_def demo_at_def
    publish_new_def publish_endpoint_def wakeupWaitersLocked_def pubs_named_def subs_named_def allocateTargetID_def fresh_def
    Let_def notify_changed_def ordered_runtime_def count_of_def
  by (simp add: numeral_2_eq_2 cong: if_cong)

lemma demo_direct:
  "direct_call (serverClient_server ordered_runtime 0 0) (CallPublish 7 (str ''echo'') demo_settings) demo_client = Some (Inr AnsDone, demo_at {2} [] 0)"
  by (simp add: serverClient_server_def demo_publish [simplified] no_result_def)

theorem rpc_is_transparent_witness:
  "client_call (rpcSimpleRequest demo_codec 0 (serverClient_server ordered_runtime 0 0)) (CallPublish 7 (str ''echo'') demo_settings) demo_client =
     Some (Inr AnsDone, demo_at {2} [] 0)"
proof -
  let ?ll = "serverClient_server ordered_runtime 0 0" and ?k = "CallPublish 7 (str ''echo'') demo_settings"
  have req: "carried demo_codec (call_request ?k)" using demo_carried(1) by (simp only: call_request.simps)
  have rep: "carried demo_codec (call_response ?k a)" if "direct_call ?ll ?k demo_client = Some (Inr a, s')" for a s'
    using that unfolding demo_direct by (simp add: demo_carried)
  have err: "frame_wf (ResetFrame 0 FlagResetWrite err)" if "direct_call ?ll ?k demo_client = Some (Inl err, s')" for err s'
    using that unfolding demo_direct by simp
  have "client_call (rpcSimpleRequest demo_codec 0 ?ll) ?k demo_client =
      map_option (map_prod (map_sum (client_error 0) id) id) (direct_call ?ll ?k demo_client)"
    by (rule rpc_is_transparent [OF req rep err])
  then show ?thesis unfolding demo_direct by simp
qed


lemma demo_served:
  "rpcWrapServer demo_codec 0 (serverClient_server ordered_runtime 0 0) None mem_write
     (io_source (5 # put_u32 (of_nat 12) @ put_u64 7 @ str ''echo'') IoEOF) [] demo_client =
   Some (ServeReturn None (put_u32 0), demo_at {2} [] 0)"
proof -
  let ?k = "CallPublish 7 (str ''echo'') demo_settings"
  have "unmarshal demo_codec (msg_type (call_request ?k)) (put_u64 7 @ str ''echo'') = Inr (call_request ?k)"
    by (simp add: demo_codec_def be_simps)
  from serves_call [of "put_u64 7 @ str ''echo''", OF _ this, of 0 "serverClient_server ordered_runtime 0 0" None mem_write IoEOF "[]" demo_client]
  have "rpcWrapServer demo_codec 0 (serverClient_server ordered_runtime 0 0) None mem_write
      (io_source (fst (call_type ?k) # put_u32 (of_nat (length (put_u64 7 @ str ''echo''))) @ put_u64 7 @ str ''echo'') IoEOF) [] demo_client =
    serve_reply demo_codec mem_write [] (call_response ?k) (Some (Inr AnsDone, demo_at {2} [] 0))"
    unfolding demo_direct by simp
  moreover have "marshal demo_codec PublishResponse = Inr []" by (simp add: demo_codec_def)
  ultimately show ?thesis by (simp add: serve_reply_def rpcWriteMessage_mem)
qed


section \<open>Changes\<close>

lemma serve_changes_loop_written:
  assumes "\<forall>x \<in> set xs. carried c (msg x)"
  shows "serve_changes_loop c mem_write msg w (map Inr xs @ rs) =
    serve_changes_loop c mem_write msg (snd (rpc_write_all c mem_write w (map msg xs))) rs"
  using assms
proof (induction xs arbitrary: w)
  case (Cons x xs)
  then obtain b where "marshal c (msg x) = Inr b" by (auto elim: carried_cases)
  with Cons show ?case by (simp add: rpcWriteMessage_mem then_write_def)
qed simp

lemma services_result_message: "services_result (services_message ch) = ch"
  by (simp add: services_result_def services_message_def rpc_conv)

lemma endpoints_result_message: "endpoints_result (endpoints_message ch) = ch"
  by (simp add: endpoints_result_def endpoints_message_def rpc_conv)

text \<open>
  C23. Service changes arrive as the server read them: a request for them that the library encodes
  faithfully takes the server to its loop over a stream of changes; and if that stream returns the changes
  \<open>chs\<close>, each of which the library encodes faithfully, and then an error that fits into a RESET frame, the client's \<^verbatim>\<open>readloop\<close>
  passes on exactly \<open>chs\<close> in the same order and stops. It stops with the error as a RESET frame carries
  it, but never with \<^verbatim>\<open>io.EOF\<close>: that the stream ended arrives as \<^verbatim>\<open>io.ErrUnexpectedEOF\<close>.
\<close>

theorem services_over_rpc:
  assumes "carried c StreamServicesRequest" and "frame_wf (ResetFrame 0 FlagResetWrite err)" and "ll_streamServices ll s = Some (Inr cs, s')"
    and "\<forall>ch \<in> set chs. carried c (services_message ch)"
  shows "rpcClient_streamServices c ref ll s = Some (Inr (ServeServices cs []), s') \<and>
    (\<exists>ret out. serve_changes_loop c mem_write services_message [] (map Inr chs @ [Inl err]) = (Some ret, out) \<and>
       readloop_services (Suc (length chs)) c (io_source out (stream_end ref ret)) =
         (chs, Some (if err = IoEOF then IoUnexpectedEOF else client_error ref err)))"
proof (intro conjI)
  obtain b where b: "marshal c StreamServicesRequest = Inr b" "length b < 2 ^ 32" "unmarshal c T_StreamServicesRequest b = Inr StreamServicesRequest"
    using assms(1) by (auto elim: carried_cases)
  show "rpcClient_streamServices c ref ll s = Some (Inr (ServeServices cs []), s')"
    using assms(3) by (simp add: rpcClient_streamServices_def rpcStreamingRequest_def rpc_send_request_mem [OF b(1)]
        rpcWrapServer_def serve_request_written [OF b(2,3)] serve_changes_def)
  let ?ms = "map services_message chs" and ?ret = "if err = IoEOF then None else Some err"
  have ms: "\<forall>m \<in> set ?ms. carried c m \<and> msg_type m = T_StreamServicesResponse" using assms(4) by (auto simp: services_message_def)
  have "serve_changes_loop c mem_write services_message [] (map Inr chs @ [Inl err]) = (Some ?ret, snd (rpc_write_all c mem_write [] ?ms))"
    using serve_changes_loop_written [OF assms(4), of "[]" "[Inl err]"] by simp
  moreover have "readloop_services (Suc (length chs)) c (io_source (snd (rpc_write_all c mem_write [] ?ms)) (stream_end ref ?ret)) =
      (chs, Some (if err = IoEOF then IoUnexpectedEOF else client_error ref err))"
    using rpc_stream_round_trip [OF ms, of "Suc (length chs)" "stream_end ref ?ret"]
    by (simp add: readloop_services_def services_result_message comp_def stream_end_def client_error_def)
  ultimately show "\<exists>ret out. serve_changes_loop c mem_write services_message [] (map Inr chs @ [Inl err]) = (Some ret, out) \<and>
       readloop_services (Suc (length chs)) c (io_source out (stream_end ref ret)) =
         (chs, Some (if err = IoEOF then IoUnexpectedEOF else client_error ref err))" by blast
qed

theorem services_over_rpc_witness:
  "\<exists>cs s' ret out. rpcClient_streamServices demo_codec 0 (serverClient_server ordered_runtime 0 0) demo_client = Some (Inr (ServeServices cs []), s') \<and>
     serve_changes_loop demo_codec mem_write services_message [] [Inr \<lparr>scs_Removed = [5], scs_Changed = []\<rparr>, Inl IoEOF] = (Some ret, out) \<and>
     readloop_services 2 demo_codec (io_source out (stream_end 0 ret)) = ([\<lparr>scs_Removed = [5], scs_Changed = []\<rparr>], Some IoUnexpectedEOF)"
proof -
  let ?ll = "serverClient_server ordered_runtime 0 0" and ?chs = "[\<lparr>scs_Removed = [5], scs_Changed = []\<rparr>]"
  obtain cs s' where cs: "newServerServiceChangesStream ordered_runtime (Some 0) demo_client = (cs, s')" by (meson surj_pair)
  have ll: "ll_streamServices ?ll demo_client = Some (Inr cs, s')"
    using cs by (simp add: serverClient_server_def client_streamServices_def demo_unfailed)
  have chs: "\<forall>ch \<in> set ?chs. carried demo_codec (services_message ch)"
    using demo_carried(4) by (simp add: services_message_def rpcServiceChangesToProto_def)
  from services_over_rpc [OF demo_carried(3) _ ll chs, of IoEOF 0] show ?thesis by (auto simp: numeral_2_eq_2 resetCode_def)
qed

section \<open>Streams\<close>

lemma rpcNewStream_mem: "rpcNewStream mem_write [] t = (None, RequestType_NewStream # put_u64 t)"
  by (simp add: rpcNewStream_def rpcWriteRequestType_def then_write_def mem_write_def)

lemma read_target_written:
  assumes "case seen of Some n \<Rightarrow> 8 \<le> n | None \<Rightarrow> data \<noteq> []"
  shows "read_target seen (io_source (put_u64 t @ data) e) = (Inr t, io_source data e)"
  using assms get_put_u64 [of t "[]"] by (auto simp: read_target_def arrived_Read_def Let_def split: option.splits)

text \<open>
  A stream that \<^verbatim>\<open>rpcNewStream\<close> opens reaches its target: what it writes first, the server and
  the client read back as the target id, and the handler of the target gets the stream at the first byte
  the opener wrote after it. This needs that the eight bytes of the id have arrived when they are read,
  and that something more follows them or the end of the stream has not been seen yet.
\<close>

theorem new_stream_reaches_target:
  assumes "case seen of Some n \<Rightarrow> 8 \<le> n | None \<Rightarrow> data \<noteq> []"
  shows "\<exists>bytes. rpcNewStream mem_write [] t = (None, bytes) \<and>
    rpcWrapServer c ref ll seen wr (io_source (bytes @ data) e) w s = Some (ServeStream t (io_source data e) w, s) \<and>
    rpcWrapClient ref seen h (io_source (bytes @ data) e) =
      (case HandlerMap_Find h t of None \<Rightarrow> ClientReturn (ErrCode ENOTARGET) | Some f \<Rightarrow> ClientServe f (io_source data e))"
  by (simp add: rpcNewStream_mem rpcWrapServer_def rpcWrapClient_def read_target_written [OF assms])

theorem new_stream_reaches_target_witness:
  "\<exists>bytes. rpcNewStream mem_write [] 7 = (None, bytes) \<and>
    rpcWrapServer demo_codec 0 (serverClient_server ordered_runtime 0 0) (Some 8) mem_write (io_source (bytes @ [1, 2]) IoEOF) [] demo_client =
      Some (ServeStream 7 (io_source [1, 2] IoEOF) [], demo_client)"
proof -
  have "case Some (8 :: nat) of Some n \<Rightarrow> 8 \<le> n | None \<Rightarrow> [1, 2 :: u8] \<noteq> []" by simp
  from new_stream_reaches_target [OF this, of 7 demo_codec 0 "serverClient_server ordered_runtime 0 0" mem_write IoEOF "[]" demo_client "NewHandlerMap None :: nat HandlerMap"]
  show ?thesis by blast
qed


text \<open>
  C36. The code \<^verbatim>\<open>EUNSUPPORTED\<close> never arrives: a request of an unknown type is answered with an error
  whose code is \<^verbatim>\<open>EINTERNAL\<close> for the client, since the server builds it as a \<^verbatim>\<open>copperError\<close>
  value, which does not implement \<^verbatim>\<open>Error\<close>. The state of the server does not change.
\<close>

theorem unsupported_request_is_internal:
  assumes "10 < rtype" and "carried c request"
  shows "rpcSimpleRequest c ref ll rtype request t s =
    Some (Inl (CopperError ref (str ''unsupported request type '' @ show_int (uint rtype)) EINTERNAL), s)"
proof -
  from assms(2) obtain b where b: "marshal c request = Inr b" by (rule carried_cases)
  have "rtype \<notin> {0, 1, 2, 3, 4, 5, 6, 7, 8, 9, 10}" using assms(1) by (auto simp: word_less_nat_alt)
  then show ?thesis
    by (simp add: rpcSimpleRequest_sent [OF b] rpcWrapServer_def read_reply_def stream_end_def sent_error_def resetCode_def
        rpcReadMessage_end)
qed

theorem unsupported_request_is_internal_witness:
  "rpcSimpleRequest demo_codec 0 (serverClient_server ordered_runtime 0 0) 11 StreamServicesRequest T_PublishResponse demo_client =
     Some (Inl (CopperError 0 (str ''unsupported request type 11'') EINTERNAL), demo_client)"
  using unsupported_request_is_internal [of 11 demo_codec StreamServicesRequest 0 "serverClient_server ordered_runtime 0 0" T_PublishResponse demo_client]
  by (simp add: demo_carried show_int_def show_nat.simps)

section \<open>Handlers of a client\<close>

text \<open>
  A client that publishes and stops publications, one call after the other, and whose server changes in
  any way in between. The last component records the handlers of the publications that the client has
  been given and has not stopped. The counter of target ids is a 64-bit integer.
\<close>

inductive client_step :: "'s simple_request \<Rightarrow> ('h, 's) client_state \<times> (i64 \<Rightarrow> 'h option) \<Rightarrow> ('h, 's) client_state \<times> (i64 \<Rightarrow> 'h option) \<Rightarrow> bool"
  for simple :: "'s simple_request" where
  Published: "\<lbrakk>sint (hm_nexttarget h) < 2 ^ 63 - 1; clientConn_Publish simple name settings handler (h, s) = Some (Inr t, hs)\<rbrakk> \<Longrightarrow>
    client_step simple ((h, s), pubs) (hs, pubs(t := handler))"
| Refused: "\<lbrakk>sint (hm_nexttarget h) < 2 ^ 63 - 1; clientConn_Publish simple name settings handler (h, s) = Some (Inl err, hs)\<rbrakk> \<Longrightarrow>
    client_step simple ((h, s), pubs) (hs, pubs)"
| Stopped: "clientPublication_Stop simple t (h, s) = Some (res, hs) \<Longrightarrow> client_step simple ((h, s), pubs) (hs, pubs(t := None))"
| Elsewhere: "client_step simple ((h, s), pubs) ((h, s'), pubs)"

definition hm_inv :: "('h, 's) client_state \<times> (i64 \<Rightarrow> 'h option) \<Rightarrow> bool" where
  "hm_inv cs \<longleftrightarrow> (case cs of ((h, s), pubs) \<Rightarrow> hm_targets h = pubs \<and> 0 < sint (hm_nexttarget h) \<and>
     (\<forall>t. hm_nexttarget h \<le>s t \<longrightarrow> pubs t = None))"

lemma nexttarget_less:
  fixes n :: i64
  assumes "sint n < 2 ^ 63 - 1"
  shows "sint (n + 1) = sint n + 1"
proof -
  have "- (2 ^ 63) \<le> sint n" using sint_greater_eq [of n] by simp
  with assms show ?thesis by (simp add: sint_word_ariths signed_take_bit_int_eq_self)
qed

lemma hm_inv_step: "client_step simple c c' \<Longrightarrow> hm_inv c \<Longrightarrow> hm_inv c'"
proof (induction rule: client_step.induct)
  case (Published h name settings handler s t hs pubs)
  then show ?case using nexttarget_less [OF Published(1)]
    by (auto simp: hm_inv_def clientConn_Publish_def HandlerMap_Add_def Let_def word_sle_eq split: option.splits sum.splits)
next
  case (Refused h name settings handler s err hs pubs)
  then show ?case using nexttarget_less [OF Refused(1)]
    by (auto simp: hm_inv_def clientConn_Publish_def HandlerMap_Add_def HandlerMap_Remove_def Let_def word_sle_eq fun_upd_idem_iff split: option.splits sum.splits)
qed (auto simp: hm_inv_def clientPublication_Stop_def HandlerMap_Remove_def)

lemma hm_inv_reach:
  assumes "(client_step simple)\<^sup>*\<^sup>* (newClient s0, \<lambda>_. None) (hs, pubs)"
  shows "hm_inv (hs, pubs)"
proof -
  have "hm_inv (newClient s0, \<lambda>_. None)" by (simp add: hm_inv_def newClient_def NewHandlerMap_def)
  with assms show ?thesis by (induction rule: rtranclp_induct) (auto intro: hm_inv_step)
qed



end
