(* ===== verification/Server_Discovery.thy ===== *)
theory Server_Discovery
  imports Server_Props
begin

text \<open>
  What a server learns from a peer: \<^verbatim>\<open>listenChanges\<close> of \<^verbatim>\<open>server_peers.go\<close> reads the service
  changes of the peer and passes them to \<^verbatim>\<open>processChanges\<close>. The remotes of the peer are then the
  part of the peer's directory that is meant for the distance between the two servers.
\<close>

section \<open>Listening to a peer\<close>

text \<open>
  The loop of \<^verbatim>\<open>listenChanges\<close>, on what \<^verbatim>\<open>Read\<close> of the stream returns one after the other. It
  returns false on an error and when the changes are not wanted any more; \<open>Some\<close> is that it still waits
  for the next result, and the outer \<^term>\<open>None\<close> a panic.
\<close>

fun listenChanges :: "runtime \<Rightarrow> peerref \<Rightarrow> connref \<Rightarrow> (go_error + ServiceChanges) list \<Rightarrow> server \<Rightarrow> (bool option \<times> server) option" where
  "listenChanges rt pe client [] s = Some (None, s)"
| "listenChanges rt pe client (Inl err # rs) s = Some (Some False, s)"
| "listenChanges rt pe client (Inr ch # rs) s =
     (case processChanges rt pe client ch s of
        None \<Rightarrow> None
      | Some (False, s) \<Rightarrow> Some (Some False, s)
      | Some (True, s) \<Rightarrow> listenChanges rt pe client rs s)"

section \<open>The remotes of a peer\<close>

text \<open>
  Both maps of a peer hold the same remotes; each of them belongs to the peer and to its present
  connection, and is entered under its own target id and name.
\<close>

definition names_wf :: "serverPeer \<Rightarrow> bool" where
  "names_wf peer \<longleftrightarrow> (\<forall>name remotes. pe_remotesByName peer name = Some remotes \<longrightarrow> gm_wf remotes \<and> remotes \<noteq> [])"

definition peer_inv :: "server \<Rightarrow> peerref \<Rightarrow> bool" where
  "peer_inv s pe \<longleftrightarrow> gm_wf (pe_remotesByTarget (sv_peer s pe)) \<and>
     (\<forall>t m. map_of (pe_remotesByTarget (sv_peer s pe)) t = Some m \<longrightarrow> m < sv_fresh s \<and> rm_peer (sv_remote s m) = Some pe \<and>
        rm_targetID (sv_remote s m) = t \<and> rm_client (sv_remote s m) = pe_client (sv_peer s pe)) \<and>
     names_wf (sv_peer s pe) \<and>
     (\<forall>name t m. map_of (remotes_named (sv_peer s pe) name) t = Some m \<longleftrightarrow>
        map_of (pe_remotesByTarget (sv_peer s pe)) t = Some m \<and> rm_name (sv_remote s m) = name)"

definition peer_view :: "server \<Rightarrow> peerref \<Rightarrow> directory" where
  "peer_view s pe t = map_option (\<lambda>m. (rm_name (sv_remote s m), rm_settings (sv_remote s m))) (map_of (pe_remotesByTarget (sv_peer s pe)) t)"

text \<open>The services that may be used over a distance.\<close>

definition within :: "u32 \<Rightarrow> directory \<Rightarrow> directory" where
  "within distance d t = (case d t of Some (name, settings) \<Rightarrow> if ps_MaxDistance settings < distance then None else d t | None \<Rightarrow> None)"

text \<open>Notifying subscriptions changes of the remotes only who is to be notified.\<close>

definition remote_rel :: "server \<Rightarrow> server \<Rightarrow> bool" where
  "remote_rel s s' \<longleftrightarrow> sv_peer s' = sv_peer s \<and> sv_fresh s' = sv_fresh s \<and>
     (\<forall>m. rm_peer (sv_remote s' m) = rm_peer (sv_remote s m) \<and> rm_client (sv_remote s' m) = rm_client (sv_remote s m) \<and>
        rm_targetID (sv_remote s' m) = rm_targetID (sv_remote s m) \<and> rm_name (sv_remote s' m) = rm_name (sv_remote s m) \<and>
        rm_settings (sv_remote s' m) = rm_settings (sv_remote s m))"

lemma remote_rel_loop:
  assumes "range_loop f xs s = Some s'" and "\<And>x t t'. f x t = Some t' \<Longrightarrow> remote_rel t t'"
  shows "remote_rel s s'"
  by (rule range_loop_rel [OF assms(1)]) (use assms(2) in \<open>auto simp: remote_rel_def\<close>)

lemma remote_rel_subs:
  "sub_addRemote rt u m s = Some s' \<Longrightarrow> remote_rel s s'" "sub_removeRemote u m s = Some s' \<Longrightarrow> remote_rel s s'"
  by (auto simp: sub_addRemote_def sub_removeRemote_def remote_rel_def Let_def split: Option.bind_splits if_splits prod.splits)

lemma peer_inv_cong:
  assumes "peer_inv s pe" and "sv_peer s' = sv_peer s" and "sv_fresh s' = sv_fresh s"
    and "\<And>k. rm_peer (sv_remote s' k) = rm_peer (sv_remote s k) \<and> rm_targetID (sv_remote s' k) = rm_targetID (sv_remote s k) \<and>
      rm_client (sv_remote s' k) = rm_client (sv_remote s k) \<and> rm_name (sv_remote s' k) = rm_name (sv_remote s k)"
  shows "peer_inv s' pe"
  using assms(1) by (simp add: peer_inv_def assms(2-))

lemma remote_rel_inv: "remote_rel s s' \<Longrightarrow> peer_inv s pe \<Longrightarrow> peer_inv s' pe"
  by (simp add: peer_inv_def remote_rel_def)

lemma remote_rel_view: "remote_rel s s' \<Longrightarrow> peer_view s' pe = peer_view s pe"
  by (simp add: peer_view_def remote_rel_def fun_eq_iff)

text \<open>What stays of a peer while its remotes change.\<close>

definition same_peer :: "peerref \<Rightarrow> server \<Rightarrow> server \<Rightarrow> bool" where
  "same_peer pe s s' \<longleftrightarrow> pe_distance (sv_peer s' pe) = pe_distance (sv_peer s pe) \<and> pe_client (sv_peer s' pe) = pe_client (sv_peer s pe) \<and>
     pe_failure (sv_peer s' pe) = pe_failure (sv_peer s pe)"

lemma peer_invD:
  assumes "peer_inv s pe" and "map_of (pe_remotesByTarget (sv_peer s pe)) t = Some m"
  shows "m < sv_fresh s" "rm_peer (sv_remote s m) = Some pe" "rm_targetID (sv_remote s m) = t"
    "rm_client (sv_remote s m) = pe_client (sv_peer s pe)"
  using assms unfolding peer_inv_def by blast+

lemma peer_inv_named:
  "peer_inv s pe \<Longrightarrow> map_of (remotes_named (sv_peer s pe) name) t = Some m \<longleftrightarrow>
     map_of (pe_remotesByTarget (sv_peer s pe)) t = Some m \<and> rm_name (sv_remote s m) = name"
  unfolding peer_inv_def by blast

lemma peer_inv_wf:
  "peer_inv s pe \<Longrightarrow> gm_wf (pe_remotesByTarget (sv_peer s pe))"
  "peer_inv s pe \<Longrightarrow> names_wf (sv_peer s pe)"
  unfolding peer_inv_def by blast+

lemma peer_forget_simps [simp]:
  "pe_remotesByTarget (peer_forget m rm peer) = AList.delete (rm_targetID rm) (pe_remotesByTarget peer)"
  "pe_distance (peer_forget m rm peer) = pe_distance peer" "pe_client (peer_forget m rm peer) = pe_client peer"
  "pe_failure (peer_forget m rm peer) = pe_failure peer"
  by (simp_all add: peer_forget_def Let_def split: option.split)

lemma peer_forget_named:
  "map_of (remotes_named (peer_forget m rm peer) name) t =
     (if name = rm_name rm \<and> t = rm_targetID rm then None else map_of (remotes_named peer name) t)"
proof (cases "pe_remotesByName peer (rm_name rm)")
  case (Some l)
  have "map_of (AList.delete (rm_targetID rm) l) = (map_of l)(rm_targetID rm := None)" by (rule AList.delete_conv')
  with Some show ?thesis by (auto simp: peer_forget_def Let_def remotes_named_def fun_eq_iff split: option.splits if_splits)
qed (simp add: peer_forget_def Let_def remotes_named_def)

lemma peer_forget_wf [simp]: "names_wf peer \<Longrightarrow> names_wf (peer_forget m rm peer)"
  by (auto simp: names_wf_def peer_forget_def Let_def split: option.splits if_splits)

lemma peer_enter_simps [simp]:
  "pe_remotesByTarget (peer_enter m rm peer) = AList.update (rm_targetID rm) m (pe_remotesByTarget peer)"
  "pe_distance (peer_enter m rm peer) = pe_distance peer" "pe_client (peer_enter m rm peer) = pe_client peer"
  "pe_failure (peer_enter m rm peer) = pe_failure peer"
  by (simp_all add: peer_enter_def Let_def)

lemma peer_enter_named:
  "map_of (remotes_named (peer_enter m rm peer) name) t =
     (if name = rm_name rm \<and> t = rm_targetID rm then Some m else map_of (remotes_named peer name) t)"
  by (auto simp: peer_enter_def Let_def remotes_named_def AList.update_conv' split: option.splits)

lemma peer_enter_wf [simp]: "names_wf peer \<Longrightarrow> names_wf (peer_enter m rm peer)"
  by (auto simp: names_wf_def peer_enter_def Let_def split: option.splits if_splits)

text \<open>Removing a remote of the peer.\<close>

lemma remote_removeLocked_peer:
  assumes inv: "peer_inv s pe" and m: "map_of (pe_remotesByTarget (sv_peer s pe)) t = Some m"
    and rm: "remote_removeLocked rt m s = Some s'"
  shows "peer_inv s' pe \<and> peer_view s' pe = (peer_view s pe)(t := None) \<and> same_peer pe s s' \<and>
    pe_remotesByTarget (sv_peer s' pe) = AList.delete t (pe_remotesByTarget (sv_peer s pe))"
proof -
  note d = peer_invD [OF inv m]
  define s1 where "s1 = upd_remote m (\<lambda>rm. rm\<lparr>rm_peer := None\<rparr>) s"
  from rm d(2,4) obtain s2 where
    l: "range_loop (\<lambda>u. sub_removeRemote u m) (rt_refs rt (rm_subscriptions (sv_remote s1 m))) s1 = Some s2"
    and s': "s' = upd_peer pe (peer_forget m (sv_remote s2 m)) s2"
    by (auto simp: remote_removeLocked_def s1_def Let_def split: Option.bind_splits)
  have rel: "remote_rel s1 s2" by (rule remote_rel_loop [OF l]) (rule remote_rel_subs(2))
  then have p2: "sv_peer s2 = sv_peer s" "sv_fresh s2 = sv_fresh s"
    and rm2: "rm_targetID (sv_remote s2 m) = t" "rm_name (sv_remote s2 m) = rm_name (sv_remote s m)"
    and other: "\<And>k. k \<noteq> m \<Longrightarrow> rm_peer (sv_remote s2 k) = rm_peer (sv_remote s k)"
    and same: "\<And>k. rm_client (sv_remote s2 k) = rm_client (sv_remote s k) \<and> rm_targetID (sv_remote s2 k) = rm_targetID (sv_remote s k) \<and>
        rm_name (sv_remote s2 k) = rm_name (sv_remote s k) \<and> rm_settings (sv_remote s2 k) = rm_settings (sv_remote s k)"
    using d(3) by (auto simp: remote_rel_def s1_def)
  have dom: "map_of (AList.delete t (pe_remotesByTarget (sv_peer s pe))) k = (if k = t then None else map_of (pe_remotesByTarget (sv_peer s pe)) k)" for k
    by (simp add: AList.delete_conv')
  have ne: "k \<noteq> m" if "map_of (pe_remotesByTarget (sv_peer s pe)) u = Some k" "u \<noteq> t" for u k
    using peer_invD(3) [OF inv that(1)] d(3) that(2) by auto
  have "peer_inv s' pe" unfolding peer_inv_def
  proof (intro conjI allI impI)
    fix name u k
    show "(map_of (remotes_named (sv_peer s' pe) name) u = Some k) =
        (map_of (pe_remotesByTarget (sv_peer s' pe)) u = Some k \<and> rm_name (sv_remote s' k) = name)"
      using peer_inv_named [OF inv, of name u k] m by (auto simp: s' p2 peer_forget_named d(3) dom same)
  next
    fix u k assume "map_of (pe_remotesByTarget (sv_peer s' pe)) u = Some k"
    then have k: "map_of (pe_remotesByTarget (sv_peer s pe)) u = Some k" and u: "u \<noteq> t"
      by (simp_all add: s' p2 d(3) dom same split: if_splits)
    show "k < sv_fresh s'" "rm_peer (sv_remote s' k) = Some pe" "rm_targetID (sv_remote s' k) = u" "rm_client (sv_remote s' k) = pe_client (sv_peer s' pe)"
      using peer_invD [OF inv k] other [OF ne [OF k u]] by (simp_all add: s' p2 same)
  qed (use peer_inv_wf [OF inv] in \<open>simp_all add: s' p2 d(3) same\<close>)
  moreover have "peer_view s' pe = (peer_view s pe)(t := None)"
    by (auto simp: fun_eq_iff peer_view_def s' p2 d(3) dom same)
  ultimately show ?thesis by (simp add: same_peer_def s' p2 d(3) same)
qed

text \<open>Adding a remote to a peer that has none with this target id.\<close>

lemma add_new_remote_peer:
  assumes inv: "peer_inv s pe" and new: "map_of (pe_remotesByTarget (sv_peer s pe)) (sc_TargetID change) = None"
    and add: "add_new_remote rt pe change s = Some s'"
  shows "peer_inv s' pe \<and> peer_view s' pe = (peer_view s pe)(sc_TargetID change \<mapsto> (sc_Name change, sc_Settings change)) \<and> same_peer pe s s'"
proof -
  let ?m = "sv_fresh s" and ?t = "sc_TargetID change"
  let ?rm = "\<lparr>rm_peer = Some pe, rm_client = pe_client (sv_peer s pe), rm_targetID = ?t,
               rm_name = sc_Name change, rm_distance = pe_distance (sv_peer s pe), rm_settings = sc_Settings change,
               rm_subscriptions = {}\<rparr>"
  define s1 where "s1 = upd_peer pe (peer_enter ?m ?rm) (upd_remote ?m (\<lambda>_. ?rm) (s\<lparr>sv_fresh := Suc ?m\<rparr>))"
  from add have l: "range_loop (\<lambda>u. sub_addRemote rt u ?m) (rt_refs rt (subs_named s1 (sc_Name change))) s1 = Some s'"
    by (simp add: add_new_remote_def fresh_def Let_def s1_def)
  have rel: "remote_rel s1 s'" by (rule remote_rel_loop [OF l]) (rule remote_rel_subs(1))
  have dom: "map_of (AList.update ?t ?m (pe_remotesByTarget (sv_peer s pe))) k = (if k = ?t then Some ?m else map_of (pe_remotesByTarget (sv_peer s pe)) k)" for k
    by (simp add: AList.update_conv')
  have old: "k \<noteq> ?m" if "map_of (pe_remotesByTarget (sv_peer s pe)) u = Some k" for u k
    using peer_invD(1) [OF inv that] by simp
  have targets: "map_of (pe_remotesByTarget (sv_peer s1 pe)) k = (if k = ?t then Some ?m else map_of (pe_remotesByTarget (sv_peer s pe)) k)" for k
    by (simp add: s1_def dom)
  have "peer_inv s1 pe" unfolding peer_inv_def
  proof (intro conjI allI impI)
    fix name u k
    show "(map_of (remotes_named (sv_peer s1 pe) name) u = Some k) =
        (map_of (pe_remotesByTarget (sv_peer s1 pe)) u = Some k \<and> rm_name (sv_remote s1 k) = name)"
    proof (cases "u = ?t")
      case True
      have "map_of (remotes_named (sv_peer s pe) name) ?t \<noteq> Some k" using peer_inv_named [OF inv, of name ?t k] new by simp
      with True show ?thesis by (auto simp: s1_def peer_enter_named dom)
    next
      case False
      have "map_of (pe_remotesByTarget (sv_peer s pe)) u \<noteq> Some ?m" using old by blast
      with False peer_inv_named [OF inv, of name u k] show ?thesis by (cases "k = ?m") (simp_all add: s1_def peer_enter_named dom)
    qed
  next
    fix u k assume "map_of (pe_remotesByTarget (sv_peer s1 pe)) u = Some k"
    then consider "u = ?t" "k = ?m" | "map_of (pe_remotesByTarget (sv_peer s pe)) u = Some k" unfolding targets by (cases "u = ?t") simp_all
    then have "k < Suc ?m \<and> rm_peer (sv_remote s1 k) = Some pe \<and> rm_targetID (sv_remote s1 k) = u \<and>
        rm_client (sv_remote s1 k) = pe_client (sv_peer s pe)"
    proof cases
      case 2
      from peer_invD [OF inv 2] old [OF 2] show ?thesis by (simp add: s1_def)
    qed (simp add: s1_def)
    then show "k < sv_fresh s1" "rm_peer (sv_remote s1 k) = Some pe" "rm_targetID (sv_remote s1 k) = u"
      "rm_client (sv_remote s1 k) = pe_client (sv_peer s1 pe)" by (simp_all add: s1_def)
  qed (use peer_inv_wf [OF inv] in \<open>simp_all add: s1_def\<close>)
  then have "peer_inv s' pe" by (rule remote_rel_inv [OF rel])
  moreover have "peer_view s1 pe = (peer_view s pe)(?t \<mapsto> (sc_Name change, sc_Settings change))"
  proof
    fix u
    show "peer_view s1 pe u = ((peer_view s pe)(?t \<mapsto> (sc_Name change, sc_Settings change))) u"
      using old [of u] by (cases "map_of (pe_remotesByTarget (sv_peer s pe)) u") (simp_all add: peer_view_def s1_def dom)
  qed
  moreover have "same_peer pe s s1" by (simp add: same_peer_def s1_def)
  ultimately show ?thesis using rel remote_rel_view [OF rel, of pe] by (simp add: same_peer_def remote_rel_def)
qed

lemma remote_settings_peer:
  assumes inv: "peer_inv s pe" and m: "map_of (pe_remotesByTarget (sv_peer s pe)) t = Some m"
  shows "peer_inv (upd_remote m (\<lambda>rm. rm\<lparr>rm_settings := ps\<rparr>) s) pe \<and>
    peer_view (upd_remote m (\<lambda>rm. rm\<lparr>rm_settings := ps\<rparr>) s) pe = (peer_view s pe)(t \<mapsto> (rm_name (sv_remote s m), ps)) \<and>
    same_peer pe s (upd_remote m (\<lambda>rm. rm\<lparr>rm_settings := ps\<rparr>) s)"
proof (intro conjI)
  let ?s = "upd_remote m (\<lambda>rm. rm\<lparr>rm_settings := ps\<rparr>) s"
  show "peer_inv ?s pe" by (intro peer_inv_cong [OF inv]) simp_all
  show "peer_view ?s pe = (peer_view s pe)(t \<mapsto> (rm_name (sv_remote s m), ps))"
  proof
    fix u
    show "peer_view ?s pe u = ((peer_view s pe)(t \<mapsto> (rm_name (sv_remote s m), ps))) u"
    proof (cases "u = t")
      case False
      have "k \<noteq> m" if "map_of (pe_remotesByTarget (sv_peer s pe)) u = Some k" for k
        using peer_invD(3) [OF inv that] peer_invD(3) [OF inv m] False by auto
      then show ?thesis using False by (cases "map_of (pe_remotesByTarget (sv_peer s pe)) u") (simp_all add: peer_view_def)
    qed (simp add: peer_view_def m)
  qed
qed (simp add: same_peer_def)

section \<open>Following the directory of a peer\<close>

lemma within_removed: "within dist (d(t := None)) = (within dist d)(t := None)"
  by (auto simp: within_def fun_eq_iff split: option.split)

lemma within_changed:
  "within dist (d(t \<mapsto> (name, ps))) = (if ps_MaxDistance ps < dist then (within dist d)(t := None) else (within dist d)(t \<mapsto> (name, ps)))"
  by (auto simp: within_def fun_eq_iff split: option.split)

text \<open>The remotes of the peer, at distance \<open>dist\<close> and connected through \<open>client\<close>, are what may be used of \<open>d\<close>.\<close>

definition follows :: "peerref \<Rightarrow> connref \<Rightarrow> u32 \<Rightarrow> directory \<Rightarrow> server \<Rightarrow> bool" where
  "follows pe client dist d s \<longleftrightarrow> peer_inv s pe \<and> pe_distance (sv_peer s pe) = dist \<and> pe_client (sv_peer s pe) = Some client \<and>
     pe_failure (sv_peer s pe) = None \<and> peer_view s pe = within dist d"

lemma follows_same:
  assumes "follows pe client dist d s" and "same_peer pe s s'" and "peer_inv s' pe" and "peer_view s' pe = within dist d'"
  shows "follows pe client dist d' s'"
  using assms by (simp add: follows_def same_peer_def)

lemma peer_view_None: "map_of (pe_remotesByTarget (sv_peer s pe)) t = None \<Longrightarrow> (peer_view s pe)(t := None) = peer_view s pe"
  by (simp add: fun_upd_idem_iff peer_view_def)

lemma follows_removed:
  assumes "follows pe client dist d s"
    and "(case map_of (pe_remotesByTarget (sv_peer s pe)) t of None \<Rightarrow> Some s | Some m \<Rightarrow> remote_removeLocked rt m s) = Some s'"
  shows "follows pe client dist (d(t := None)) s'"
proof (cases "map_of (pe_remotesByTarget (sv_peer s pe)) t")
  case None
  with assms show ?thesis using peer_view_None [OF None] by (simp add: follows_def within_removed)
next
  case (Some m)
  with assms(2) have rm: "remote_removeLocked rt m s = Some s'" by simp
  have "peer_inv s pe" "peer_view s pe = within dist d" using assms(1) by (simp_all add: follows_def)
  with remote_removeLocked_peer [OF _ Some rm] show ?thesis
    by (intro follows_same [OF assms(1)]) (simp_all add: within_removed)
qed

lemma follows_changed:
  assumes f: "follows pe client dist d s" and a: "peer_addRemoteLocked rt pe change s = Some s'"
  shows "follows pe client dist (d(sc_TargetID change \<mapsto> (sc_Name change, sc_Settings change))) s'"
proof -
  let ?t = "sc_TargetID change" and ?e = "(sc_Name change, sc_Settings change)"
  have inv: "peer_inv s pe" and view: "peer_view s pe = within dist d" and dist: "pe_distance (sv_peer s pe) = dist"
    using f by (simp_all add: follows_def)
  show ?thesis
  proof (cases "ps_MaxDistance (sc_Settings change) < dist")
    case True
    with a have "(case map_of (pe_remotesByTarget (sv_peer s pe)) ?t of None \<Rightarrow> Some s | Some m \<Rightarrow> remote_removeLocked rt m s) = Some s'"
      by (simp add: peer_addRemoteLocked_def dist)
    from follows_removed [OF f this] True show ?thesis by (simp add: follows_def within_removed within_changed)
  next
    case False
    have new: ?thesis if s1: "peer_inv s1 pe" "peer_view s1 pe = (within dist d)(?t := None)" "same_peer pe s s1"
      "map_of (pe_remotesByTarget (sv_peer s1 pe)) ?t = None" "add_new_remote rt pe change s1 = Some s'" for s1
      using add_new_remote_peer [OF s1(1,4,5)] s1(2,3) False
      by (intro follows_same [OF f]) (simp_all add: same_peer_def within_changed)
    show ?thesis
    proof (cases "map_of (pe_remotesByTarget (sv_peer s pe)) ?t")
      case None
      with a False have "add_new_remote rt pe change s = Some s'" by (simp add: peer_addRemoteLocked_def dist)
      then show ?thesis using inv None view peer_view_None [OF None] by (intro new [of s]) (simp_all add: same_peer_def)
    next
      case (Some m)
      show ?thesis
      proof (cases "rm_name (sv_remote s m) = sc_Name change \<and> ps_Priority (sc_Settings change) = ps_Priority (rm_settings (sv_remote s m))")
        case True
        with a False Some have "s' = upd_remote m (\<lambda>rm. rm\<lparr>rm_settings := sc_Settings change\<rparr>) s"
          by (simp add: peer_addRemoteLocked_def dist)
        with remote_settings_peer [OF inv Some] True False view show ?thesis
          by (intro follows_same [OF f]) (simp_all add: within_changed)
      next
        case diff: False
        with a False Some obtain s1 where rm: "remote_removeLocked rt m s = Some s1" and "add_new_remote rt pe change s1 = Some s'"
          by (auto simp: peer_addRemoteLocked_def dist split: Option.bind_splits)
        with remote_removeLocked_peer [OF inv Some rm] view show ?thesis
          by (intro new [of s1]) (simp_all add: AList.delete_conv')
      qed
    qed
  qed
qed

lemma range_loop_fold:
  assumes "range_loop f xs s = Some s'" and "P d s" and "\<And>x d s s'. P d s \<Longrightarrow> f x s = Some s' \<Longrightarrow> P (g x d) s'"
  shows "P (fold g xs d) s'"
  using assms(1,2)
proof (induction xs arbitrary: d s)
  case (Cons x xs)
  then show ?case by (auto split: option.splits intro: assms(3))
qed simp

lemma processChanges_follows:
  assumes f: "follows pe client dist d s" and p: "processChanges rt pe client ch s = Some (r, s')"
  shows "r \<and> follows pe client dist (apply_changes ch d) s'"
proof -
  from f p obtain s1 where
    rem: "range_loop (\<lambda>t s. case map_of (pe_remotesByTarget (sv_peer s pe)) t of
        None \<Rightarrow> Some s | Some m \<Rightarrow> remote_removeLocked rt m s) (scs_Removed ch) s = Some s1"
    and add: "range_loop (peer_addRemoteLocked rt pe) (scs_Changed ch) s1 = Some s'" and r
    by (auto simp: processChanges_def follows_def split: Option.bind_splits if_splits)
  have "follows pe client dist (fold (\<lambda>t d. d(t := None)) (scs_Removed ch) d) s1"
    by (rule range_loop_fold [where P = "follows pe client dist", OF rem f]) (rule follows_removed)
  from range_loop_fold [where P = "follows pe client dist" and g = "\<lambda>c d. d(sc_TargetID c \<mapsto> (sc_Name c, sc_Settings c))", OF add this]
  show ?thesis using \<open>r\<close> follows_changed by (simp add: apply_changes_def)
qed

lemma listenChanges_follows:
  assumes "follows pe client dist d s" and "listenChanges rt pe client (map Inr chs) s = Some (r, s')"
  shows "r = None \<and> follows pe client dist (fold apply_changes chs d) s'"
  using assms
proof (induction chs arbitrary: d s)
  case (Cons ch chs)
  from Cons.prems(2) obtain b s1 where p: "processChanges rt pe client ch s = Some (b, s1)" by (auto split: option.splits)
  from processChanges_follows [OF Cons.prems(1) p] have "b" "follows pe client dist (apply_changes ch d) s1" by simp_all
  with Cons.IH [of "apply_changes ch d" s1] Cons.prems(2) p show ?case by simp
qed simp

text \<open>Removing all remotes of a peer, in whatever order the map is visited.\<close>

lemma remove_all_remotes:
  assumes "peer_inv s pe" and "set ms = gm_values (pe_remotesByTarget (sv_peer s pe))" and "distinct ms"
    and "range_loop (remote_removeLocked rt) ms s = Some s'"
  shows "peer_inv s' pe \<and> pe_remotesByTarget (sv_peer s' pe) = [] \<and> same_peer pe s s'"
  using assms
proof (induction ms arbitrary: s)
  case Nil
  then show ?case by (simp add: same_peer_def)
next
  case (Cons m ms)
  let ?l = "pe_remotesByTarget (sv_peer s pe)"
  have "m \<in> gm_values ?l" using Cons.prems(2) by (metis list.set_intros(1))
  then obtain t where "(t, m) \<in> set ?l" by auto
  with peer_inv_wf(1) [OF Cons.prems(1)] have m: "map_of ?l t = Some m" by simp
  from Cons.prems(4) obtain s1 where s1: "remote_removeLocked rt m s = Some s1" "range_loop (remote_removeLocked rt) ms s1 = Some s'"
    by (auto split: option.splits)
  note r = remote_removeLocked_peer [OF Cons.prems(1) m s1(1)]
  have own: "u = t" if "(u, m) \<in> set ?l" for u
    using peer_invD(3) [OF Cons.prems(1)] m that peer_inv_wf(1) [OF Cons.prems(1)] by (metis map_of_is_SomeI)
  have "gm_values (AList.delete t ?l) = gm_values ?l - {m}"
  proof (intro equalityI subsetI)
    fix k assume "k \<in> gm_values (AList.delete t ?l)"
    then obtain u where u: "(u, k) \<in> set ?l" "u \<noteq> t" by (auto simp: gomap_simps)
    with own show "k \<in> gm_values ?l - {m}" by (force simp: image_iff)
  next
    fix k assume "k \<in> gm_values ?l - {m}"
    then obtain u where u: "(u, k) \<in> set ?l" "k \<noteq> m" by auto
    moreover have "u \<noteq> t" using u m peer_inv_wf(1) [OF Cons.prems(1)] by (metis map_of_is_SomeI option.inject)
    ultimately show "k \<in> gm_values (AList.delete t ?l)" by (force simp: gomap_simps image_iff)
  qed
  then have "set ms = gm_values (pe_remotesByTarget (sv_peer s1 pe))" using Cons.prems(2,3) r by auto
  with Cons.IH [of s1] r Cons.prems(3) s1(2) show ?case by (simp add: same_peer_def)
qed

lemma detachClient_forgets:
  assumes "runtime_ok rt" and "peer_inv s pe" and "pe_client (sv_peer s pe) = Some client" and "detachClient rt pe client s = Some s'"
  shows "pe_client (sv_peer s' pe) = None \<and> pe_remotesByTarget (sv_peer s' pe) = [] \<and> peer_inv s' pe"
proof -
  let ?ms = "rt_refs rt (gm_values (pe_remotesByTarget (sv_peer s pe)))"
  from assms(3,4) obtain s1 where l: "range_loop (remote_removeLocked rt) ?ms s = Some s1"
    and s': "s' = upd_peer pe (\<lambda>peer. peer\<lparr>pe_client := None\<rparr>) s1"
    by (auto simp: detachClient_def split: Option.bind_splits)
  have "set ?ms = gm_values (pe_remotesByTarget (sv_peer s pe))" "distinct ?ms"
    using assms(1) by (simp_all add: runtime_refs runtime_refs_distinct)
  from remove_all_remotes [OF assms(2) this l] have "peer_inv s1 pe" "pe_remotesByTarget (sv_peer s1 pe) = []" by simp_all
  then show ?thesis by (simp add: s' peer_inv_def remotes_named_def names_wf_def)
qed

lemma attachClient_follows:
  assumes "peer_inv s pe" and "pe_remotesByTarget (sv_peer s pe) = []" and "pe_failure (sv_peer s pe) = None"
  shows "follows pe client (pe_distance (sv_peer s pe)) Map.empty (attachClient pe client s)"
  using assms
  by (simp add: follows_def attachClient_def peer_inv_def remotes_named_def names_wf_def peer_view_def within_def fun_eq_iff)

lemma addPeerLocked_inv:
  assumes "addPeerLocked ref network address distance s = (None, s')"
  shows "peer_inv s' (sv_fresh s) \<and> pe_remotesByTarget (sv_peer s' (sv_fresh s)) = [] \<and> pe_failure (sv_peer s' (sv_fresh s)) = None \<and>
    pe_distance (sv_peer s' (sv_fresh s)) = distance"
  using assms by (auto simp: addPeerLocked_def fresh_def Let_def peer_inv_def remotes_named_def names_wf_def split: option.splits)

end
