(* ===== verification/Peer_Frame.thy ===== *)
theory Peer_Frame
  imports Server_Discovery
begin

text \<open>
  What the operations of a server leave alone of its peers: those of clients change nothing but who is
  notified of a remote, closing the server marks the peers as failed, and the operations on one peer
  leave the other peers as they are.
\<close>

section \<open>Operations of clients\<close>

lemma same_remotesI: "sv_peer s' = sv_peer s \<Longrightarrow> sv_remote s' = sv_remote s \<Longrightarrow> sv_fresh s \<le> sv_fresh s' \<Longrightarrow> same_remotes s s'"
  by (simp add: same_remotes_def)

lemma range_loop_same_remotes:
  assumes "range_loop f xs s = Some s'" and "\<And>x t t'. f x t = Some t' \<Longrightarrow> same_remotes t t'"
  shows "same_remotes s s'"
  by (rule range_loop_rel [OF assms(1) same_remotes_refl]) (blast intro: same_remotes_trans assms(2))

lemma fold_same_remotes:
  assumes "\<And>x t. same_remotes t (f x t)"
  shows "same_remotes s (fold f xs s)"
proof (induction xs arbitrary: s)
  case (Cons x xs)
  show ?case using same_remotes_trans [OF assms Cons.IH] by simp
qed simp

lemma takeEndpoint_same: "takeEndpointLocked rt n p s = (e, s') \<Longrightarrow> same_remotes s s'"
  by (auto simp: takeEndpointLocked_def Let_def split: option.splits if_splits intro!: same_remotesI)

lemma waiter_same: "deliver w e s = Some s' \<Longrightarrow> same_remotes s s'" "close_waiter w s = Some s' \<Longrightarrow> same_remotes s s'"
  by (auto simp: deliver_def close_waiter_def split: Option.bind_splits intro!: same_remotesI)

lemma wakeup_loop_same: "wakeup_loop rt p i ws s = Some (n, s') \<Longrightarrow> same_remotes s s'"
proof (induction ws arbitrary: i s)
  case (Cons w ws)
  obtain e s1 where t: "takeEndpointLocked rt i p s = (e, s1)" by (cases "takeEndpointLocked rt i p s")
  show ?case
  proof (cases e)
    case None
    with t Cons.prems takeEndpoint_same [OF t] show ?thesis by simp
  next
    case (Some e')
    with t Cons.prems obtain s2 where "deliver w e' s1 = Some s2" "wakeup_loop rt p (Suc i) ws s2 = Some (n, s')"
      by (auto split: option.splits)
    with Cons.IH waiter_same(1) takeEndpoint_same [OF t] show ?thesis by (blast intro: same_remotes_trans)
  qed
qed simp

lemma wakeupWaiters_same:
  assumes "wakeupWaitersLocked rt p n s = Some (k, s')"
  shows "same_remotes s s'"
proof -
  have "same_remotes t (upd_pub p f t)" for t f by (simp add: same_remotesI)
  with assms show ?thesis unfolding wakeupWaitersLocked_def Let_def
    by (auto split: if_splits Option.bind_splits dest!: wakeup_loop_same intro: same_remotes_trans)
qed

lemma notify_same: "same_remotes s (notify_changed rt p s)" "same_remotes s (notify_removed rt p s)"
  unfolding notify_changed_def notify_removed_def by (rule fold_same_remotes, simp add: same_remotesI)+

lemma same_remotes_from:
  "same_remotes t s' \<Longrightarrow> sv_peer t = sv_peer s \<Longrightarrow> sv_remote t = sv_remote s \<Longrightarrow> sv_fresh s \<le> sv_fresh t \<Longrightarrow> same_remotes s s'"
  by (simp add: same_remotes_def)

lemma publish_endpoint_same: "publish_endpoint rt p key settings s = Some (e, s') \<Longrightarrow> same_remotes s s'"
  unfolding publish_endpoint_def fresh_def Let_def
  by (auto split: Option.bind_splits intro: same_remotes_from [OF same_remotes_trans [OF wakeupWaiters_same notify_same(1)]])

lemma publish_new_same: "publish_new rt name settings s = Some (p, s') \<Longrightarrow> same_remotes s s'"
  unfolding publish_new_def allocateTargetID_def fresh_def Let_def
  by (auto split: Option.bind_splits
      intro: same_remotes_from [OF range_loop_same_remotes [OF _ quiet_same_remotes [OF sub_ops_quiet(3)]]])

lemma publishLocked_same:
  assumes "publishLocked rt ref name key settings s = Some (r, s')"
  shows "same_remotes s s'"
proof -
  define s0 where "s0 = (case sv_pubsByName s name of None \<Rightarrow> s\<lparr>sv_pubsByName := (sv_pubsByName s)(name \<mapsto> [])\<rparr> | Some _ \<Rightarrow> s)"
  have 0: "same_remotes s s0" unfolding s0_def by (cases "sv_pubsByName s name") (simp_all add: same_remotesI)
  have 1: "same_remotes t (upd_pub p f t)" for t f p by (simp add: same_remotesI)
  from assms have "same_remotes s0 s'"
    unfolding publishLocked_def Let_def s0_def [symmetric]
    by (auto split: option.splits sum.splits Option.bind_splits
        intro: same_remotes_trans [OF publish_new_same publish_endpoint_same] same_remotes_trans [OF 1 publish_endpoint_same])
  with 0 show ?thesis by (rule same_remotes_trans)
qed

lemma forget_pub_same: "same_remotes s (forget_pub p s)"
  by (auto simp: forget_pub_def Let_def split: option.split intro!: same_remotesI)

lemma unpublish_last_same:
  assumes "unpublish_last rt p s = Some s'"
  shows "same_remotes s s'"
proof -
  have close: "same_remotes t t'" if "range_loop close_waiter ws t = Some t'" for ws t t'
    using that by (rule range_loop_same_remotes) (rule waiter_same(2))
  have subs: "same_remotes t t'" if "range_loop (\<lambda>u. sub_removePublication u p) us t = Some t'" for us t t'
    using that by (rule range_loop_same_remotes) (rule quiet_same_remotes [OF sub_ops_quiet(4)])
  have u: "same_remotes t (upd_pub p f t)" for t f by (simp add: same_remotesI)
  from assms obtain s1 where l: "range_loop close_waiter (pub_queue (sv_pub (forget_pub p s) p)) (forget_pub p s) = Some s1"
    and "same_remotes (notify_removed rt p (upd_pub p (\<lambda>pub. pub\<lparr>pub_queue := []\<rparr>) s1)) s'"
    unfolding unpublish_last_def Let_def by (auto split: Option.bind_splits dest: subs)
  from same_remotes_trans [OF same_remotes_trans [OF u [of s1 "\<lambda>pub. pub\<lparr>pub_queue := []\<rparr>"] notify_same(2)] this(2)]
  show ?thesis by (rule same_remotes_trans [OF same_remotes_trans [OF forget_pub_same close [OF l]]])
qed

lemma unpublish_some_same:
  assumes "unpublish_some rt p s = Some s'"
  shows "same_remotes s s'"
proof -
  have l: "same_remotes t t'" if "range_loop close_waiter ws t = Some t'" for ws t t'
    using that by (rule range_loop_same_remotes) (rule waiter_same(2))
  have u: "same_remotes t (upd_pub p f t)" for t f by (simp add: same_remotesI)
  from assms show ?thesis unfolding unpublish_some_def Let_def
    by (auto split: if_splits Option.bind_splits intro: notify_same(1) same_remotes_trans [OF l same_remotes_trans [OF u notify_same(1)]])
qed

lemma unpublishLocked_same: "unpublishLocked rt ref e s = Some (r, s') \<Longrightarrow> same_remotes s s'"
  unfolding unpublishLocked_def Let_def
  by (auto split: option.splits if_splits Option.bind_splits
      intro: same_remotes_from [OF unpublish_last_same] same_remotes_from [OF unpublish_some_same])

lemma cs_stopLocked_same: "same_remotes s (cs_stopLocked c s)"
  by (auto simp: cs_stopLocked_def Let_def split: option.split intro!: same_remotesI)

lemma client_close_same:
  assumes "client_closeWithErrorLocked rt ref c err s = Some s'"
  shows "same_remotes s s'"
proof -
  have u: "same_remotes t (upd_client c f t)" for t f by (simp add: same_remotesI)
  have subs: "same_remotes t (fold (unsubscribeLocked rt) us t)" for us t
    by (rule fold_same_remotes) (rule quiet_same_remotes [OF unsubscribeLocked_quiet])
  have eps: "same_remotes t t'" if "range_loop (\<lambda>e s. map_option snd (unpublishLocked rt ref e s)) es t = Some t'" for es t t'
    using that by (rule range_loop_same_remotes) (auto intro: unpublishLocked_same)
  have watch: "same_remotes t (fold cs_stopLocked cs t)" for cs t by (rule fold_same_remotes) (rule cs_stopLocked_same)
  from assms show ?thesis unfolding client_closeWithErrorLocked_def Let_def
    by (auto split: if_splits Option.bind_splits simp del: fun_upd_apply
        intro: same_remotes_trans [OF same_remotes_trans [OF u same_remotes_trans [OF u same_remotes_trans [OF subs u]]] same_remotes_trans [OF eps watch]])
qed

text \<open>All operations that are not about peers or the end of the server.\<close>

fun client_op :: "server_op \<Rightarrow> bool" where
  "client_op (AddPeer _ _ _) = False"
| "client_op (CloseWith _) = False"
| "client_op (Attach _ _) = False"
| "client_op (Detach _ _) = False"
| "client_op (Changes _ _ _) = False"
| "client_op _ = True"

lemma client_op_same:
  assumes "client_op op" and "server_do rt ref op s = Some s'"
  shows "same_remotes s s'"
proof -
  have u: "same_remotes t (upd_client c f t)" for c t f by (simp add: same_remotesI)
  show ?thesis
  proof (cases op)
    case (AddClient a)
    with assms show ?thesis
      by (auto simp: server_addClient_def newServerClient_def fresh_def Let_def split: option.split intro!: same_remotesI)
  next
    case (ClientEnd c err)
    with assms have "same_remotes (s\<lparr>sv_clients := sv_clients s - {c}\<rparr>) s'"
      by (auto simp: client_serve_end_def intro: client_close_same)
    then show ?thesis by (auto simp: same_remotes_def)
  next
    case (Subscribe c x)
    with assms show ?thesis
      by (auto simp: client_subscribe_def Let_def split: option.splits sum.splits
          intro: quiet_same_remotes [OF subscribeLocked_quiet] same_remotes_trans [OF quiet_same_remotes [OF subscribeLocked_quiet] u])
  next
    case (Unsubscribe c t)
    with assms show ?thesis
      by (auto simp: client_unsubscribe_def split: option.splits intro: same_remotes_trans [OF u quiet_same_remotes [OF unsubscribeLocked_quiet]])
  next
    case (Publish c t name x)
    with assms show ?thesis
      by (auto simp: client_publish_def split: option.splits if_splits sum.splits intro: publishLocked_same same_remotes_trans [OF publishLocked_same u])
  next
    case (Unpublish c t)
    with assms show ?thesis
      by (auto simp: client_unpublish_def Let_def split: option.splits Option.bind_splits
          intro: same_remotes_trans [OF u unpublishLocked_same] same_remotes_trans [OF u same_remotes_trans [OF unpublishLocked_same u]])
  next
    case (SetRoute c name rs)
    with assms show ?thesis
      by (auto simp: client_setRoute_def split: option.splits if_splits intro: quiet_same_remotes [OF setRouteLocked_quiet])
  qed (use assms in \<open>auto simp: server_AddListener_def split: option.splits intro!: same_remotesI cs_stopLocked_same\<close>)
qed

section \<open>All peers\<close>

text \<open>
  The invariant of all peers: the maps of each peer agree, and a remote that belongs to a peer is in its
  maps. (A remote that has been removed belongs to none.)
\<close>

definition peers_inv :: "server \<Rightarrow> bool" where
  "peers_inv s \<longleftrightarrow> (\<forall>pe. peer_inv s pe) \<and>
     (\<forall>m pe. rm_peer (sv_remote s m) = Some pe \<longrightarrow> map_of (pe_remotesByTarget (sv_peer s pe)) (rm_targetID (sv_remote s m)) = Some m)"

text \<open>What is the same of a peer before and after the operations of others.\<close>

definition kept_peer :: "peerref \<Rightarrow> server \<Rightarrow> server \<Rightarrow> bool" where
  "kept_peer pe s s' \<longleftrightarrow> pe_client (sv_peer s' pe) = pe_client (sv_peer s pe) \<and> pe_distance (sv_peer s' pe) = pe_distance (sv_peer s pe) \<and>
     pe_remotesByTarget (sv_peer s' pe) = pe_remotesByTarget (sv_peer s pe) \<and> peer_view s' pe = peer_view s pe \<and>
     (pe_failed (sv_peer s pe) \<longrightarrow> pe_failed (sv_peer s' pe))"

lemma kept_peer_refl [simp]: "kept_peer pe s s"
  by (simp add: kept_peer_def)

lemma kept_peer_trans: "kept_peer pe s s' \<Longrightarrow> kept_peer pe s' s'' \<Longrightarrow> kept_peer pe s s''"
  by (simp add: kept_peer_def)

text \<open>What a peer sees of a remote.\<close>

definition same_remote :: "server \<Rightarrow> server \<Rightarrow> remoteref \<Rightarrow> bool" where
  "same_remote s s' m \<longleftrightarrow> rm_peer (sv_remote s' m) = rm_peer (sv_remote s m) \<and> rm_targetID (sv_remote s' m) = rm_targetID (sv_remote s m) \<and>
     rm_client (sv_remote s' m) = rm_client (sv_remote s m) \<and> rm_name (sv_remote s' m) = rm_name (sv_remote s m) \<and>
     rm_settings (sv_remote s' m) = rm_settings (sv_remote s m)"

lemma same_remote_fields: "same_remotes s s' \<Longrightarrow> same_remote s s' m"
proof -
  assume "same_remotes s s'"
  then have "sv_remote s' m = (sv_remote s m)\<lparr>rm_subscriptions := rm_subscriptions (sv_remote s' m)\<rparr>"
    unfolding same_remotes_def by blast
  then show ?thesis unfolding same_remote_def by (cases "sv_remote s m"; cases "sv_remote s' m") simp
qed

lemma remote_rel_fields: "remote_rel s s' \<Longrightarrow> same_remote s s' m"
  by (simp add: remote_rel_def same_remote_def)

lemma untouched_peer:
  assumes inv: "peer_inv s pe" and p: "sv_peer s' pe = sv_peer s pe" and "sv_fresh s \<le> sv_fresh s'"
    and same: "\<forall>k. rm_peer (sv_remote s k) = Some pe \<longrightarrow> same_remote s s' k"
  shows "peer_inv s' pe" and "kept_peer pe s s'"
proof -
  have own: "same_remote s s' k" if "map_of (pe_remotesByTarget (sv_peer s pe)) t = Some k" for t k
    using peer_invD(2) [OF inv that] same by blast
  show "peer_inv s' pe" unfolding peer_inv_def
  proof (intro conjI allI impI)
    fix t k assume k: "map_of (pe_remotesByTarget (sv_peer s' pe)) t = Some k"
    note k' = k [unfolded p]
    show "k < sv_fresh s'" "rm_peer (sv_remote s' k) = Some pe" "rm_targetID (sv_remote s' k) = t" "rm_client (sv_remote s' k) = pe_client (sv_peer s' pe)"
      using peer_invD [OF inv k'] own [OF k'] assms(3) by (simp_all add: same_remote_def p)
  next
    fix name t k
    show "(map_of (remotes_named (sv_peer s' pe) name) t = Some k) =
        (map_of (pe_remotesByTarget (sv_peer s' pe)) t = Some k \<and> rm_name (sv_remote s' k) = name)"
      using own [of t k] unfolding p peer_inv_named [OF inv] same_remote_def by auto
  qed (use peer_inv_wf [OF inv] in \<open>simp_all add: p\<close>)
  have "peer_view s' pe t = peer_view s pe t" for t
    using own [of t] by (cases "map_of (pe_remotesByTarget (sv_peer s pe)) t") (simp_all add: peer_view_def p same_remote_def)
  then show "kept_peer pe s s'" by (simp add: kept_peer_def p fun_eq_iff)
qed

lemma peers_invD:
  assumes "peers_inv s"
  shows "peer_inv s pe" "rm_peer (sv_remote s m) = Some pe \<Longrightarrow> map_of (pe_remotesByTarget (sv_peer s pe)) (rm_targetID (sv_remote s m)) = Some m"
  using assms unfolding peers_inv_def by blast+

lemma same_remotes_peers:
  assumes "same_remotes s s'" and "peers_inv s"
  shows "peers_inv s'" and "kept_peer pe s s'"
proof -
  note f = same_remote_fields [OF assms(1)]
  have p: "sv_peer s' = sv_peer s" "sv_fresh s \<le> sv_fresh s'" using assms(1) by (simp_all add: same_remotes_def)
  have "peer_inv s' pe'" for pe' using p f by (intro untouched_peer(1) [OF peers_invD(1) [OF assms(2)]]) simp_all
  then show "peers_inv s'" using peers_invD(2) [OF assms(2)] f unfolding peers_inv_def same_remote_def p by metis
  show "kept_peer pe s s'" using p f by (intro untouched_peer(2) [OF peers_invD(1) [OF assms(2)]]) simp_all
qed

section \<open>Operations on a peer\<close>

text \<open>The other peers do not notice, and no remote is left in the maps of a peer it does not belong to.\<close>

definition apart :: "peerref \<Rightarrow> server \<Rightarrow> server \<Rightarrow> bool" where
  "apart pe s s' \<longleftrightarrow> peers_inv s' \<and> (\<forall>pe'. pe' \<noteq> pe \<longrightarrow> kept_peer pe' s s')"

lemma apart_trans: "apart pe s s' \<Longrightarrow> apart pe s' s'' \<Longrightarrow> apart pe s s''"
  unfolding apart_def by (blast intro: kept_peer_trans)

lemma remote_removeLocked_apart:
  assumes inv: "peers_inv s" and rm: "remote_removeLocked rt m s = Some s'" and own: "rm_peer (sv_remote s m) = Some pe"
  shows "apart pe s s'" and "rm_peer (sv_remote s' k) = (if k = m then None else rm_peer (sv_remote s k))"
proof -
  let ?t = "rm_targetID (sv_remote s m)"
  note m = peers_invD(2) [OF inv own]
  define s1 where "s1 = upd_remote m (\<lambda>rm. rm\<lparr>rm_peer := None\<rparr>) s"
  from rm own peer_invD(4) [OF peers_invD(1) [OF inv] m] obtain s2 where
    l: "range_loop (\<lambda>u. sub_removeRemote u m) (rt_refs rt (rm_subscriptions (sv_remote s1 m))) s1 = Some s2"
    and s': "s' = upd_peer pe (peer_forget m (sv_remote s2 m)) s2"
    by (auto simp: remote_removeLocked_def s1_def Let_def split: Option.bind_splits)
  have rel: "remote_rel s1 s2" by (rule remote_rel_loop [OF l]) (rule remote_rel_subs(2))
  have p2: "sv_peer s2 = sv_peer s" "sv_fresh s2 = sv_fresh s" using rel by (simp_all add: remote_rel_def s1_def)
  have gone: "rm_peer (sv_remote s' k) = (if k = m then None else rm_peer (sv_remote s k))" for k
    using remote_rel_fields [OF rel, of k] by (simp add: s' same_remote_def s1_def)
  have other: "same_remote s s' k" if "k \<noteq> m" for k
    using remote_rel_fields [OF rel, of k] that by (simp add: s' same_remote_def s1_def)
  note at = remote_removeLocked_peer [OF peers_invD(1) [OF inv] m rm]
  have un: "peer_inv s' pe'" "kept_peer pe' s s'" if "pe' \<noteq> pe" for pe'
    using that own other by (intro untouched_peer [OF peers_invD(1) [OF inv]]; force simp: s' p2)+
  have "map_of (pe_remotesByTarget (sv_peer s' q)) (rm_targetID (sv_remote s' k)) = Some k" if k: "rm_peer (sv_remote s' k) = Some q" for k q
  proof -
    from k gone have ne: "k \<noteq> m" and "rm_peer (sv_remote s k) = Some q" by (auto split: if_splits)
    note k' = peers_invD(2) [OF inv this(2)]
    have t: "rm_targetID (sv_remote s' k) = rm_targetID (sv_remote s k)" using other [OF ne] by (simp add: same_remote_def)
    show ?thesis
    proof (cases "q = pe")
      case True
      have "rm_targetID (sv_remote s k) \<noteq> ?t" using k' m ne True by auto
      with at k' True show ?thesis by (simp add: t AList.delete_conv')
    next
      case False
      with k' show ?thesis unfolding t by (simp add: s' p2)
    qed
  qed
  then show "apart pe s s'" unfolding apart_def peers_inv_def using un at by metis
  show "rm_peer (sv_remote s' k) = (if k = m then None else rm_peer (sv_remote s k))" by (rule gone)
qed

lemma add_new_remote_apart:
  assumes inv: "peers_inv s" and new: "map_of (pe_remotesByTarget (sv_peer s pe)) (sc_TargetID change) = None"
    and add: "add_new_remote rt pe change s = Some s'"
  shows "apart pe s s'"
proof -
  let ?m = "sv_fresh s" and ?t = "sc_TargetID change"
  let ?rm = "\<lparr>rm_peer = Some pe, rm_client = pe_client (sv_peer s pe), rm_targetID = ?t,
               rm_name = sc_Name change, rm_distance = pe_distance (sv_peer s pe), rm_settings = sc_Settings change,
               rm_subscriptions = {}\<rparr>"
  define s1 where "s1 = upd_peer pe (peer_enter ?m ?rm) (upd_remote ?m (\<lambda>_. ?rm) (s\<lparr>sv_fresh := Suc ?m\<rparr>))"
  from add have l: "range_loop (\<lambda>u. sub_addRemote rt u ?m) (rt_refs rt (subs_named s1 (sc_Name change))) s1 = Some s'"
    by (simp add: add_new_remote_def fresh_def Let_def s1_def)
  have rel: "remote_rel s1 s'" by (rule remote_rel_loop [OF l]) (rule remote_rel_subs(1))
  have p': "sv_peer s' = sv_peer s1" "sv_fresh s' = Suc ?m" using rel by (simp_all add: remote_rel_def s1_def)
  have old: "k \<noteq> ?m" if "rm_peer (sv_remote s k) = Some q" for k q
    using peer_invD(1) [OF peers_invD(1) [OF inv] peers_invD(2) [OF inv that]] by simp
  have same: "same_remote s s' k" if "k \<noteq> ?m" for k
    using remote_rel_fields [OF rel, of k] that by (simp add: same_remote_def s1_def)
  have mine: "rm_peer (sv_remote s' ?m) = Some pe" "rm_targetID (sv_remote s' ?m) = ?t"
    using remote_rel_fields [OF rel, of ?m] by (simp_all add: same_remote_def s1_def)
  have un: "peer_inv s' pe'" "kept_peer pe' s s'" if "pe' \<noteq> pe" for pe'
    using that old same by (intro untouched_peer [OF peers_invD(1) [OF inv]]; force simp: p' s1_def)+
  have "map_of (pe_remotesByTarget (sv_peer s' q)) (rm_targetID (sv_remote s' k)) = Some k" if k: "rm_peer (sv_remote s' k) = Some q" for k q
  proof (cases "k = ?m")
    case True
    with k mine show ?thesis unfolding p' by (simp add: s1_def AList.update_conv')
  next
    case False
    with same [OF this] k have o: "rm_peer (sv_remote s k) = Some q" and t: "rm_targetID (sv_remote s' k) = rm_targetID (sv_remote s k)"
      by (simp_all add: same_remote_def)
    note k' = peers_invD(2) [OF inv o]
    with new have "q = pe \<longrightarrow> rm_targetID (sv_remote s k) \<noteq> ?t" by auto
    with k' show ?thesis unfolding t p' by (cases "q = pe") (simp_all add: s1_def AList.update_conv')
  qed
  then show "apart pe s s'" unfolding apart_def peers_inv_def
    using un add_new_remote_peer [OF peers_invD(1) [OF inv] new add] by metis
qed

lemma remote_settings_apart:
  assumes inv: "peers_inv s" and m: "map_of (pe_remotesByTarget (sv_peer s pe)) t = Some m"
  shows "apart pe s (upd_remote m (\<lambda>rm. rm\<lparr>rm_settings := ps\<rparr>) s)"
proof -
  let ?s = "upd_remote m (\<lambda>rm. rm\<lparr>rm_settings := ps\<rparr>) s"
  have own: "rm_peer (sv_remote s m) = Some pe" by (rule peer_invD(2) [OF peers_invD(1) [OF inv] m])
  have "kept_peer pe' s ?s" if "pe' \<noteq> pe" for pe'
    using that own by (intro untouched_peer(2) [OF peers_invD(1) [OF inv]]) (auto simp: same_remote_def)
  moreover have "peer_inv ?s pe'" for pe' by (rule peer_inv_cong [OF peers_invD(1) [OF inv]]) simp_all
  moreover have "map_of (pe_remotesByTarget (sv_peer ?s q)) (rm_targetID (sv_remote ?s k)) = Some k" if "rm_peer (sv_remote ?s k) = Some q" for k q
    using peers_invD(2) [OF inv, of k q] that by (cases "k = m") simp_all
  ultimately show ?thesis unfolding apart_def peers_inv_def by blast
qed

lemma remove_known_apart:
  assumes inv: "peers_inv s" and m: "map_of (pe_remotesByTarget (sv_peer s pe)) t = Some m" and rm: "remote_removeLocked rt m s = Some s'"
  shows "apart pe s s'"
  by (rule remote_removeLocked_apart(1) [OF inv rm peer_invD(2) [OF peers_invD(1) [OF inv] m]])

lemma apart_refl: "peers_inv s \<Longrightarrow> apart pe s s"
  by (simp add: apart_def)

lemma peer_addRemoteLocked_apart:
  assumes inv: "peers_inv s" and add: "peer_addRemoteLocked rt pe change s = Some s'"
  shows "apart pe s s'"
proof (cases "map_of (pe_remotesByTarget (sv_peer s pe)) (sc_TargetID change)")
  case None
  with add inv show ?thesis
    by (auto simp: peer_addRemoteLocked_def Let_def split: if_splits intro: apart_refl add_new_remote_apart)
next
  case (Some m)
  have again: "apart pe s s'" if "remote_removeLocked rt m s = Some s1" "add_new_remote rt pe change s1 = Some s'" for s1
  proof -
    note a = remove_known_apart [OF inv Some that(1)]
    then have "peers_inv s1" by (simp add: apart_def)
    moreover have "map_of (pe_remotesByTarget (sv_peer s1 pe)) (sc_TargetID change) = None"
      using remote_removeLocked_peer [OF peers_invD(1) [OF inv] Some that(1)] by (simp add: AList.delete_conv')
    ultimately show ?thesis by (rule apart_trans [OF a add_new_remote_apart [OF _ _ that(2)]])
  qed
  from add Some show ?thesis
    by (auto simp: peer_addRemoteLocked_def Let_def split: if_splits Option.bind_splits
        intro: remove_known_apart [OF inv Some] remote_settings_apart [OF inv Some] again)
qed

lemma range_loop_apart:
  assumes "range_loop f xs s = Some s'" and "peers_inv s" and "\<And>x t t'. peers_inv t \<Longrightarrow> f x t = Some t' \<Longrightarrow> apart pe t t'"
  shows "apart pe s s'"
  by (rule range_loop_rel [where R = "apart pe", OF assms(1) apart_refl [OF assms(2)]]) (metis apart_def apart_trans assms(3))

lemma processChanges_apart:
  assumes inv: "peers_inv s" and p: "processChanges rt pe client ch s = Some (b, s')"
  shows "apart pe s s'"
proof (cases "pe_client (sv_peer s pe) \<noteq> Some client \<or> pe_failure (sv_peer s pe) \<noteq> None")
  case True
  with p show ?thesis using apart_refl [OF inv] by (auto simp: processChanges_def)
next
  case False
  with p obtain s1 where
    rem: "range_loop (\<lambda>t s. case map_of (pe_remotesByTarget (sv_peer s pe)) t of
        None \<Rightarrow> Some s | Some m \<Rightarrow> remote_removeLocked rt m s) (scs_Removed ch) s = Some s1"
    and add: "range_loop (peer_addRemoteLocked rt pe) (scs_Changed ch) s1 = Some s'"
    by (auto simp: processChanges_def split: Option.bind_splits)
  have 1: "apart pe s s1" using rem inv
    by (rule range_loop_apart) (auto split: option.splits intro: apart_refl remove_known_apart)
  then have "peers_inv s1" by (simp add: apart_def)
  with add have "apart pe s1 s'" by (rule range_loop_apart) (rule peer_addRemoteLocked_apart)
  with 1 show ?thesis by (rule apart_trans)
qed

lemma remove_all_apart:
  assumes "peers_inv s" and "range_loop (remote_removeLocked rt) ms s = Some s'"
    and "\<forall>m \<in> set ms. rm_peer (sv_remote s m) = None \<or> rm_peer (sv_remote s m) = Some pe"
  shows "apart pe s s'"
  using assms
proof (induction ms arbitrary: s)
  case (Cons m ms)
  from Cons.prems(2) obtain s1 where s1: "remote_removeLocked rt m s = Some s1" "range_loop (remote_removeLocked rt) ms s1 = Some s'"
    by (auto split: option.splits)
  show ?case
  proof (cases "rm_peer (sv_remote s m)")
    case None
    with s1(1) have "s1 = s" by (simp add: remote_removeLocked_def)
    with Cons.IH [OF Cons.prems(1)] s1(2) Cons.prems(3) show ?thesis by simp
  next
    case (Some q)
    with Cons.prems(3) have q: "rm_peer (sv_remote s m) = Some pe" by auto
    note a = remote_removeLocked_apart [OF Cons.prems(1) s1(1) q]
    then have "apart pe s1 s'" using Cons.prems(3) by (intro Cons.IH [OF _ s1(2)]) (auto simp: apart_def)
    with a(1) show ?thesis by (rule apart_trans)
  qed
qed (simp add: apart_refl)

lemma client_change_apart:
  assumes "peers_inv s" and "pe_remotesByTarget (sv_peer s pe) = []"
  shows "apart pe s (upd_peer pe (\<lambda>peer. peer\<lparr>pe_client := c\<rparr>) s)"
proof -
  let ?s = "upd_peer pe (\<lambda>peer. peer\<lparr>pe_client := c\<rparr>) s"
  have un: "peer_inv ?s pe'" "kept_peer pe' s ?s" if "pe' \<noteq> pe" for pe'
    using that by (intro untouched_peer [OF peers_invD(1) [OF assms(1)]]; simp add: same_remote_def)+
  have "peer_inv ?s pe" using peers_invD(1) [OF assms(1), of pe] assms(2)
    by (simp add: peer_inv_def remotes_named_def names_wf_def)
  moreover have "map_of (pe_remotesByTarget (sv_peer ?s q)) (rm_targetID (sv_remote ?s k)) = Some k" if "rm_peer (sv_remote ?s k) = Some q" for k q
    using peers_invD(2) [OF assms(1), of k q] that by (cases "q = pe") simp_all
  ultimately show ?thesis unfolding apart_def peers_inv_def using un by metis
qed

lemma attachClient_apart:
  "peers_inv s \<Longrightarrow> pe_remotesByTarget (sv_peer s pe) = [] \<Longrightarrow> apart pe s (attachClient pe c s)"
  unfolding attachClient_def by (rule client_change_apart)

lemma detachClient_apart:
  assumes inv: "peers_inv s" and "runtime_ok rt" and d: "detachClient rt pe c s = Some s'"
  shows "apart pe s s'"
proof (cases "pe_client (sv_peer s pe) = Some c")
  case False
  with d show ?thesis using apart_refl [OF inv] by (simp add: detachClient_def)
next
  case True
  let ?l = "pe_remotesByTarget (sv_peer s pe)" let ?ms = "rt_refs rt (gm_values ?l)"
  from True d obtain s1 where l: "range_loop (remote_removeLocked rt) ?ms s = Some s1"
    and s': "s' = upd_peer pe (\<lambda>peer. peer\<lparr>pe_client := None\<rparr>) s1"
    by (auto simp: detachClient_def split: Option.bind_splits)
  have ms: "set ?ms = gm_values ?l" "distinct ?ms" using assms(2) by (simp_all add: runtime_refs runtime_refs_distinct)
  have "rm_peer (sv_remote s m) = Some pe" if "m \<in> set ?ms" for m
    using that ms(1) peer_inv_wf(1) [OF peers_invD(1) [OF inv]] peer_invD(2) [OF peers_invD(1) [OF inv]] by (auto simp: image_iff)
  then have a: "apart pe s s1" by (intro remove_all_apart [OF inv l]) blast
  have "pe_remotesByTarget (sv_peer s1 pe) = []" using remove_all_remotes [OF peers_invD(1) [OF inv] ms l] by simp
  with a have "apart pe s1 s'" unfolding s' by (intro client_change_apart) (simp_all add: apart_def)
  with a show ?thesis by (rule apart_trans)
qed

lemma AddPeer_apart:
  assumes inv: "peers_inv s" and "pe_remotesByTarget (sv_peer s (sv_fresh s)) = []"
    and add: "server_AddPeer ref network address distance s = (None, s')"
  shows "apart (sv_fresh s) s s'" and "sv_fresh s' = Suc (sv_fresh s)"
    and "pe_client (sv_peer s' (sv_fresh s)) = None" and "pe_remotesByTarget (sv_peer s' (sv_fresh s)) = []"
    and "pe_distance (sv_peer s' (sv_fresh s)) = distance"
proof -
  let ?pe = "sv_fresh s"
  let ?p = "\<lparr>pe_key = (network, address), pe_distance = distance, pe_failure = None, pe_failed = False,
                       pe_client = None, pe_remotesByTarget = [], pe_remotesByName = Map.empty\<rparr>"
  from add obtain ps where s': "s' = s\<lparr>sv_fresh := Suc ?pe, sv_peer := (sv_peer s)(?pe := ?p), sv_peers := ps\<rparr>"
    by (auto simp: server_AddPeer_def addPeerLocked_def fresh_def Let_def split: option.splits)
  have un: "peer_inv s' pe'" "kept_peer pe' s s'" if "pe' \<noteq> ?pe" for pe'
    using that by (intro untouched_peer [OF peers_invD(1) [OF inv]]; simp add: same_remote_def s')+
  have "peer_inv s' ?pe" by (simp add: s' peer_inv_def remotes_named_def names_wf_def)
  moreover have "map_of (pe_remotesByTarget (sv_peer s' q)) (rm_targetID (sv_remote s' k)) = Some k" if "rm_peer (sv_remote s' k) = Some q" for k q
    using peers_invD(2) [OF inv, of k q] that assms(2) by (cases "q = ?pe") (simp_all add: s')
  ultimately show "apart ?pe s s'" unfolding apart_def peers_inv_def using un by metis
  show "sv_fresh s' = Suc ?pe" "pe_client (sv_peer s' ?pe) = None" "pe_remotesByTarget (sv_peer s' ?pe) = []"
    "pe_distance (sv_peer s' ?pe) = distance" by (simp_all add: s')
qed

text \<open>Closing the server marks its peers as failed.\<close>

lemma close_peer:
  assumes inv: "peers_inv s" and c: "peer_closeWithErrorLocked err (sv_peer s pe) = Some p"
  shows "peers_inv (upd_peer pe (\<lambda>_. p) s)" and "kept_peer q s (upd_peer pe (\<lambda>_. p) s)"
proof -
  let ?s = "upd_peer pe (\<lambda>_. p) s"
  from c have p: "pe_client p = pe_client (sv_peer s pe)" "pe_distance p = pe_distance (sv_peer s pe)"
    "pe_remotesByTarget p = pe_remotesByTarget (sv_peer s pe)" "pe_remotesByName p = pe_remotesByName (sv_peer s pe)"
    "pe_failed (sv_peer s pe) \<longrightarrow> pe_failed p"
    by (auto simp: peer_closeWithErrorLocked_def close_chan_def split: if_splits Option.bind_splits)
  have f: "pe_client (sv_peer ?s r) = pe_client (sv_peer s r)" "pe_distance (sv_peer ?s r) = pe_distance (sv_peer s r)"
    "pe_remotesByTarget (sv_peer ?s r) = pe_remotesByTarget (sv_peer s r)" "pe_remotesByName (sv_peer ?s r) = pe_remotesByName (sv_peer s r)"
    "pe_failed (sv_peer s r) \<longrightarrow> pe_failed (sv_peer ?s r)" "sv_remote ?s = sv_remote s" "sv_fresh ?s = sv_fresh s" for r
    using p by simp_all
  show "peers_inv ?s" using inv unfolding peers_inv_def peer_inv_def names_wf_def remotes_named_def f by assumption
  show "kept_peer q s ?s" using f(5) unfolding kept_peer_def peer_view_def f by simp
qed

lemma closeWith_kept:
  assumes inv: "peers_inv s" and c: "server_closeWithError rt ref err s = Some (r, s')"
  shows "peers_inv s' \<and> (\<forall>pe. kept_peer pe s s') \<and> sv_fresh s \<le> sv_fresh s'"
proof (cases "sv_failure s")
  case (Some e)
  with c inv show ?thesis by (auto simp: server_closeWithError_def Let_def)
next
  case None
  let ?e = "case err of None \<Rightarrow> ErrCode ECONNCLOSED | Some e \<Rightarrow> e"
  define s0 where "s0 = s\<lparr>sv_failure := Some ?e, sv_listeners := [], sv_listenersClosed := sv_listenersClosed s \<union> set (sv_listeners s)\<rparr>"
  from c None obtain s1 s2 where
    p: "range_loop (\<lambda>pe s. map_option (\<lambda>peer. upd_peer pe (\<lambda>_. peer) s) (peer_closeWithErrorLocked ?e (sv_peer s pe)))
        (rt_refs rt (gm_values (sv_peers s0))) s0 = Some s1"
    and k: "range_loop (\<lambda>c. client_closeWithErrorLocked rt ref c ?e) (rt_refs rt (sv_clients s1)) s1 = Some s2"
    and s': "s' = fold cs_stopLocked (rt_refs rt (sv_pubWatchers s2)) s2"
    by (auto simp: server_closeWithError_def s0_def Let_def split: Option.bind_splits)
  have s0: "same_remotes s s0" by (simp add: s0_def same_remotesI)
  have "peers_inv s1 \<and> (\<forall>pe. kept_peer pe s0 s1) \<and> sv_fresh s0 \<le> sv_fresh s1"
  proof (rule range_loop_rel [where R = "\<lambda>s t. peers_inv t \<and> (\<forall>pe. kept_peer pe s t) \<and> sv_fresh s \<le> sv_fresh t", OF p])
    show "peers_inv s0 \<and> (\<forall>pe. kept_peer pe s0 s0) \<and> sv_fresh s0 \<le> sv_fresh s0" using same_remotes_peers(1) [OF s0 inv] by simp
  next
    fix pe t t'
    assume t: "peers_inv t \<and> (\<forall>pe. kept_peer pe s0 t) \<and> sv_fresh s0 \<le> sv_fresh t"
      and "map_option (\<lambda>peer. upd_peer pe (\<lambda>_. peer) t) (peer_closeWithErrorLocked ?e (sv_peer t pe)) = Some t'"
    then obtain q where q: "peer_closeWithErrorLocked ?e (sv_peer t pe) = Some q" "t' = upd_peer pe (\<lambda>_. q) t" by blast
    have "peers_inv t'" "kept_peer r t t'" "sv_fresh t' = sv_fresh t" for r
      using close_peer [OF conjunct1 [OF t] q(1)] unfolding q(2) by simp_all
    with t show "peers_inv t' \<and> (\<forall>pe. kept_peer pe s0 t') \<and> sv_fresh s0 \<le> sv_fresh t'" by (metis kept_peer_trans)
  qed
  moreover have "same_remotes s1 s2" using k by (rule range_loop_same_remotes) (rule client_close_same)
  moreover have "same_remotes s2 s'" unfolding s' by (rule fold_same_remotes) (rule cs_stopLocked_same)
  ultimately show ?thesis using same_remotes_peers [OF s0 inv] s0 same_remotes_peers same_remotes_trans
    unfolding same_remotes_def [of s s0]
    by (metis kept_peer_trans le_trans same_remotes_def)
qed

end
