(* ===== verification/Peer_Run.thy ===== *)
theory Peer_Run
  imports Peer_Frame
begin

text \<open>
  The goroutines of the peers of a server at work, \<^verbatim>\<open>server_peers.go\<close>: for each peer one that keeps
  connecting (\<^verbatim>\<open>connectloop\<close>), for each connection one that listens to its service changes
  (\<^verbatim>\<open>serveClient\<close>), and requests that use the remotes (\<^verbatim>\<open>handleRequestRLocked\<close> of a remote). They
  run beside each other and beside the operations of clients; what one of them does under the lock of
  the server is one step.
\<close>

section \<open>Connecting\<close>

text \<open>
  Where \<^verbatim>\<open>connectloop\<close> is: not started, at the top of its loop, dialling, in \<^verbatim>\<open>sleep\<close>, waiting for a
  connection to be done, or at its end.
\<close>

datatype connectloop_at = C_none | C_top | C_dial | C_sleep | C_wait connref | C_end

definition connectloop_top :: "peerref \<Rightarrow> server \<Rightarrow> connectloop_at" where
  "connectloop_top pe s = (if pe_failed (sv_peer s pe) then C_end else C_dial)"

definition connectloop_dialled :: "peerref \<Rightarrow> connref option \<Rightarrow> server \<Rightarrow> connectloop_at \<times> server" where
  "connectloop_dialled pe conn s = (case conn of None \<Rightarrow> (C_sleep, s) | Some client \<Rightarrow> (C_wait client, attachClient pe client s))"

text \<open>What \<^verbatim>\<open>sleep\<close> returns: whether the timer has fired. Without it, only a failed peer wakes it up.\<close>

definition peer_sleep :: "bool \<Rightarrow> peerref \<Rightarrow> server \<Rightarrow> bool option" where
  "peer_sleep fired pe s = (if fired then Some True else if pe_failed (sv_peer s pe) then Some False else None)"

definition connectloop_slept :: "bool \<Rightarrow> connectloop_at" where
  "connectloop_slept fired = (if fired then C_top else C_end)"

text \<open>Once the connection is done.\<close>

definition connectloop_done :: "runtime \<Rightarrow> peerref \<Rightarrow> connref \<Rightarrow> server \<Rightarrow> (connectloop_at \<times> server) option" where
  "connectloop_done rt pe client s = map_option (\<lambda>s. (C_top, s)) (detachClient rt pe client s)"

section \<open>Serving a connection\<close>

text \<open>
  Where \<^verbatim>\<open>serveClient\<close> is: not running, in \<^verbatim>\<open>listenChanges\<close>, or about to return. \<^verbatim>\<open>None\<close> for
  \<^verbatim>\<open>listenChanges\<close> is that it goes on reading.
\<close>

datatype serveClient_at = S_none | S_listen | S_leave

definition serveClient_next :: "bool option \<Rightarrow> peerref \<Rightarrow> connref \<Rightarrow> server \<Rightarrow> serveClient_at" where
  "serveClient_next res pe client s =
     (case res of
        None \<Rightarrow> S_listen
      | Some False \<Rightarrow> S_leave
      | Some True \<Rightarrow> if pe_client (sv_peer s pe) = Some client \<and> pe_failure (sv_peer s pe) = None then S_listen else S_leave)"

section \<open>Requests to a remote\<close>

text \<open>
  \<^verbatim>\<open>handleRequestRLocked\<close> of a remote up to the point where it gives up the lock (\<^term>\<open>None\<close> is that it
  goes on), and from there: whether the request is cancelled, whether a stream could be opened, and
  the status of the callback on it are arguments.
\<close>

definition remote_handleRequest_start :: "remoteref \<Rightarrow> server \<Rightarrow> handleRequestStatus option" where
  "remote_handleRequest_start m s = (case rm_peer (sv_remote s m) of None \<Rightarrow> Some StatusNoRoute | Some _ \<Rightarrow> None)"

definition remote_handleRequest_open :: "runtime \<Rightarrow> remoteref \<Rightarrow> bool \<Rightarrow> bool \<Rightarrow> handleRequestStatus \<Rightarrow> server \<Rightarrow>
    (handleRequestStatus \<times> server) option" where
  "remote_handleRequest_open rt m cancelled opened status s =
     (if cancelled then Some (StatusDone, s)
      else if \<not> opened then map_option (\<lambda>s. (StatusRetry, s)) (remote_removeLocked rt m s)
      else Some (status, s))"

section \<open>All together\<close>

text \<open>
  A state has the server, where the goroutines are, and what each peer has been told since its
  connection was attached, less the services whose requests could not be sent.
\<close>

type_synonym peers_state = "server \<times> (peerref \<Rightarrow> connectloop_at) \<times> (peerref \<Rightarrow> connref \<Rightarrow> serveClient_at) \<times> (peerref \<Rightarrow> directory)"

definition told :: "peerref \<Rightarrow> connref \<Rightarrow> go_error + ServiceChanges \<Rightarrow> server \<Rightarrow> directory \<Rightarrow> directory" where
  "told pe client r s d =
     (case r of
        Inl err \<Rightarrow> d
      | Inr ch \<Rightarrow> if pe_client (sv_peer s pe) = Some client \<and> pe_failure (sv_peer s pe) = None then apply_changes ch d else d)"

definition unreachable :: "remoteref \<Rightarrow> server \<Rightarrow> (peerref \<Rightarrow> directory) \<Rightarrow> peerref \<Rightarrow> directory" where
  "unreachable m s kn =
     (case rm_peer (sv_remote s m) of None \<Rightarrow> kn | Some pe \<Rightarrow> kn(pe := (kn pe)(rm_targetID (sv_remote s m) := None)))"

inductive peers_step :: "peers_state \<Rightarrow> peers_state \<Rightarrow> bool" where
  op: "client_op op \<Longrightarrow> server_do rt ref op s = Some s' \<Longrightarrow> peers_step (s, at, sv, kn) (s', at, sv, kn)"
| add: "server_AddPeer ref network address distance s = (None, s') \<Longrightarrow>
    peers_step (s, at, sv, kn) (s', at(sv_fresh s := C_top), sv, kn)"
| closed: "server_closeWithError rt ref err s = Some (r, s') \<Longrightarrow> peers_step (s, at, sv, kn) (s', at, sv, kn)"
| top: "at pe = C_top \<Longrightarrow> peers_step (s, at, sv, kn) (s, at(pe := connectloop_top pe s), sv, kn)"
| dial_failed: "at pe = C_dial \<Longrightarrow> connectloop_dialled pe None s = (a, s') \<Longrightarrow> peers_step (s, at, sv, kn) (s', at(pe := a), sv, kn)"
| dialled: "at pe = C_dial \<Longrightarrow> connectloop_dialled pe (Some c) s = (a, s') \<Longrightarrow>
    peers_step (s, at, sv, kn) (s', at(pe := a), sv(pe := (sv pe)(c := S_listen)), kn(pe := Map.empty))"
| slept: "at pe = C_sleep \<Longrightarrow> peer_sleep fired pe s = Some b \<Longrightarrow> peers_step (s, at, sv, kn) (s, at(pe := connectloop_slept b), sv, kn)"
| gone: "at pe = C_wait c \<Longrightarrow> runtime_ok rt \<Longrightarrow> connectloop_done rt pe c s = Some (a, s') \<Longrightarrow>
    peers_step (s, at, sv, kn) (s', at(pe := a), sv, kn)"
| read: "sv pe c = S_listen \<Longrightarrow> listenChanges rt pe c [r] s = Some (res, s') \<Longrightarrow>
    peers_step (s, at, sv, kn) (s', at, sv(pe := (sv pe)(c := serveClient_next res pe c s')), kn(pe := told pe c r s (kn pe)))"
| leave: "sv pe c = S_leave \<Longrightarrow> runtime_ok rt \<Longrightarrow> detachClient rt pe c s = Some s' \<Longrightarrow>
    peers_step (s, at, sv, kn) (s', at, sv(pe := (sv pe)(c := S_none)), kn)"
| request: "remote_handleRequest_open rt m cancelled opened status s = Some (status', s') \<Longrightarrow>
    peers_step (s, at, sv, kn) (s', at, sv, if \<not> cancelled \<and> \<not> opened then unreachable m s kn else kn)"

inductive peers_reach :: "peers_state \<Rightarrow> bool" where
  start: "peers_reach (NewServer, \<lambda>_. C_none, \<lambda>_ _. S_none, \<lambda>_. Map.empty)"
| step: "peers_reach x \<Longrightarrow> peers_step x y \<Longrightarrow> peers_reach y"

section \<open>The invariant\<close>

text \<open>One peer: without a connection it has no remotes, and with one they are what it has been told.\<close>

definition peer_ok :: "server \<Rightarrow> connectloop_at \<Rightarrow> (connref \<Rightarrow> serveClient_at) \<Rightarrow> directory \<Rightarrow> peerref \<Rightarrow> bool" where
  "peer_ok s a sv d pe \<longleftrightarrow>
     (case pe_client (sv_peer s pe) of
        None \<Rightarrow> pe_remotesByTarget (sv_peer s pe) = []
      | Some c \<Rightarrow> a = C_wait c \<and> sv c \<noteq> S_none \<and> peer_view s pe = within (pe_distance (sv_peer s pe)) d) \<and>
     (a = C_end \<longrightarrow> pe_failed (sv_peer s pe)) \<and> (sv_fresh s \<le> pe \<longrightarrow> a = C_none)"

fun peers_run :: "peers_state \<Rightarrow> bool" where
  "peers_run (s, at, sv, kn) \<longleftrightarrow> peers_inv s \<and> (\<forall>pe. peer_ok s (at pe) (sv pe) (kn pe) pe)"

lemma peer_ok_kept:
  assumes "peer_ok s a sv d pe" and "kept_peer pe s s'" and "sv_fresh s \<le> sv_fresh s'"
  shows "peer_ok s' a sv d pe"
  using assms by (auto simp: peer_ok_def kept_peer_def split: option.splits)

text \<open>A step on one peer, given what it does to that peer.\<close>

lemma peers_run_step:
  assumes "peers_run (s, at, sv, kn)" and "apart pe s s'" and "sv_fresh s \<le> sv_fresh s'" and "peer_ok s' a v d pe"
  shows "peers_run (s', at(pe := a), sv(pe := v), kn(pe := d))"
  using assms peer_ok_kept [of s _ _ _ _ s'] by (auto simp: apart_def)

lemma peers_run_server:
  assumes "peers_run (s, at, sv, kn)" and "peers_inv s'" and "\<forall>pe. kept_peer pe s s'" and "sv_fresh s \<le> sv_fresh s'"
  shows "peers_run (s', at, sv, kn)"
  using assms by (auto intro: peer_ok_kept)

lemma peers_runD: "peers_run (s, at, sv, kn) \<Longrightarrow> peers_inv s" "peers_run (s, at, sv, kn) \<Longrightarrow> peer_ok s (at pe) (sv pe) (kn pe) pe"
  by simp_all

lemma idle_peer:
  "peer_ok s a sv d pe \<Longrightarrow> (\<forall>c. a \<noteq> C_wait c) \<Longrightarrow> pe_client (sv_peer s pe) = None \<and> pe_remotesByTarget (sv_peer s pe) = []"
  by (auto simp: peer_ok_def split: option.splits)

lemma started_peer: "peer_ok s a sv d pe \<Longrightarrow> a \<noteq> C_none \<Longrightarrow> pe < sv_fresh s"
  by (auto simp: peer_ok_def)

text \<open>A change of where the connecting goroutine is, for a peer without a connection.\<close>

lemma peers_run_move:
  assumes "peers_run (s, at, sv, kn)" and "\<forall>c. at pe \<noteq> C_wait c" and "at pe \<noteq> C_none" and "a = C_end \<longrightarrow> pe_failed (sv_peer s pe)"
  shows "peers_run (s, at(pe := a), sv, kn)"
proof -
  note ok = peers_runD(2) [OF assms(1), of pe]
  have "peer_ok s a (sv pe) (kn pe) pe"
    using idle_peer [OF ok assms(2)] started_peer [OF ok assms(3)] assms(4) by (simp add: peer_ok_def)
  from peers_run_step [OF assms(1) apart_refl [OF peers_runD(1) [OF assms(1)]] order_refl this] show ?thesis by simp
qed

lemma detached_peer:
  assumes inv: "peers_run (s, at, sv, kn)" and "runtime_ok rt" and d: "detachClient rt pe c s = Some s'" and wait: "\<forall>x. at pe = C_wait x \<longrightarrow> x = c \<or> a = at pe"
    and "at pe = C_none \<longrightarrow> a = C_none" and "a = C_top \<or> a = at pe" and v: "\<forall>x. x \<noteq> c \<longrightarrow> v x = sv pe x"
  shows "peers_run (s', at(pe := a), sv(pe := v), kn)"
proof -
  note ok = peers_runD(2) [OF inv, of pe] and ps = peers_runD(1) [OF inv]
  have le: "sv_fresh s \<le> sv_fresh s'" using detachClient_rel [OF d] by (simp add: sub_rel_def)
  have st: "sv_fresh s' \<le> pe \<longrightarrow> a = C_none" using started_peer [OF ok] assms(5) le by (meson le_trans leD)
  have "peer_ok s' a v (kn pe) pe"
  proof (cases "pe_client (sv_peer s pe) = Some c")
    case True
    with ok have "at pe = C_wait c" by (simp add: peer_ok_def)
    with detachClient_forgets [OF assms(2) peers_invD(1) [OF ps] True d] assms(6) st show ?thesis by (auto simp: peer_ok_def)
  next
    case False
    with d have s': "s' = s" by (simp add: detachClient_def)
    show ?thesis
    proof (cases "pe_client (sv_peer s pe)")
      case None
      with ok assms(6) st show ?thesis by (auto simp: peer_ok_def s')
    next
      case (Some x)
      with False have "x \<noteq> c" by blast
      with ok Some wait v have "at pe = C_wait x" "a = at pe" "v x = sv pe x" by (auto simp: peer_ok_def)
      with ok Some show ?thesis by (simp add: peer_ok_def s')
    qed
  qed
  from peers_run_step [OF inv detachClient_apart [OF ps assms(2) d] le this] show ?thesis by simp
qed

lemma read_peer:
  assumes inv: "peers_run (s, at, sv, kn)" and l: "listenChanges rt pe c [r] s = Some (res, s')" and "sv pe c = S_listen"
  shows "peers_run (s', at, sv(pe := (sv pe)(c := serveClient_next res pe c s')), kn(pe := told pe c r s (kn pe)))"
proof -
  note ok = peers_runD(2) [OF inv, of pe] and ps = peers_runD(1) [OF inv]
  have run: "serveClient_next x pe c y \<noteq> S_none" for x y by (simp add: serveClient_next_def split: option.split bool.split)
  have same: "peer_ok s (at pe) ((sv pe)(c := serveClient_next res pe c s')) (kn pe) pe"
    using ok run by (auto simp: peer_ok_def split: option.splits)
  show ?thesis
  proof (cases r)
    case (Inl err)
    with l have s': "s' = s" by simp
    from peers_run_step [OF inv apart_refl [OF ps] order_refl same] show ?thesis by (simp add: s' Inl told_def)
  next
    case (Inr ch)
    obtain b s1 where p1: "processChanges rt pe c ch s = Some (b, s1)"
      using l Inr by (cases "processChanges rt pe c ch s") auto
    moreover have "s1 = s'" using l unfolding Inr listenChanges.simps p1 by (cases b) simp_all
    ultimately have p: "processChanges rt pe c ch s = Some (b, s')" by simp
    have le: "sv_fresh s \<le> sv_fresh s'" using processChanges_rel [OF p] by (simp add: sub_rel_def)
    have "peer_ok s' (at pe) ((sv pe)(c := serveClient_next res pe c s')) (told pe c r s (kn pe)) pe"
    proof (cases "pe_client (sv_peer s pe) = Some c \<and> pe_failure (sv_peer s pe) = None")
      case True
      let ?dist = "pe_distance (sv_peer s pe)"
      from True ok have a: "at pe = C_wait c" and "peer_view s pe = within ?dist (kn pe)" by (simp_all add: peer_ok_def)
      then have "follows pe c ?dist (kn pe) s" using True peers_invD(1) [OF ps] by (simp add: follows_def)
      from processChanges_follows [OF this p] have "follows pe c ?dist (apply_changes ch (kn pe)) s'" by simp
      moreover have "pe < sv_fresh s'" using started_peer [OF ok] a le by simp
      ultimately show ?thesis using True run by (simp add: peer_ok_def follows_def told_def Inr a)
    next
      case False
      then have "told pe c r s (kn pe) = kn pe" by (auto simp: told_def Inr)
      moreover from False p have "s' = s" by (auto simp: processChanges_def)
      ultimately show ?thesis using same by (simp only:)
    qed
    from peers_run_step [OF inv processChanges_apart [OF ps p] le this] show ?thesis by simp
  qed
qed

lemma failed_request_peer:
  assumes inv: "peers_run (s, at, sv, kn)" and rm: "remote_removeLocked rt m s = Some s'"
  shows "peers_run (s', at, sv, unreachable m s kn)"
proof (cases "rm_peer (sv_remote s m)")
  case None
  with inv rm show ?thesis by (simp add: remote_removeLocked_def unreachable_def)
next
  case (Some pe)
  let ?t = "rm_targetID (sv_remote s m)"
  note ok = peers_runD(2) [OF inv, of pe] and ps = peers_runD(1) [OF inv]
  note m = peers_invD(2) [OF ps Some]
  have le: "sv_fresh s \<le> sv_fresh s'" using remote_removeLocked_rel [OF rm] by (simp add: sub_rel_def)
  have "peer_ok s' (at pe) (sv pe) ((kn pe)(?t := None)) pe"
  proof (cases "pe_client (sv_peer s pe)")
    case None
    with ok have "pe_remotesByTarget (sv_peer s pe) = []" by (simp add: peer_ok_def)
    with m show ?thesis by simp
  next
    case (Some c)
    with ok have "at pe = C_wait c" "sv pe c \<noteq> S_none" "peer_view s pe = within (pe_distance (sv_peer s pe)) (kn pe)" "pe < sv_fresh s"
      by (auto simp: peer_ok_def)
    with remote_removeLocked_peer [OF peers_invD(1) [OF ps] m rm] Some le show ?thesis
      by (simp add: peer_ok_def same_peer_def within_removed)
  qed
  from peers_run_step [OF inv remote_removeLocked_apart(1) [OF ps rm Some] le this] Some show ?thesis
    by (simp add: unreachable_def)
qed

lemma peers_step_inv:
  assumes "peers_step x y" and "peers_run x"
  shows "peers_run y"
  using assms
proof (induction rule: peers_step.induct)
  case (op op rt ref s s' at sv kn)
  note same = client_op_same [OF op(1,2)]
  with same_remotes_peers [OF same peers_runD(1) [OF op(3)]] show ?case
    by (intro peers_run_server [OF op(3)]) (simp_all add: same_remotes_def)
next
  case (add ref network address distance s s' at sv kn)
  let ?pe = "sv_fresh s"
  note ok = peers_runD(2) [OF add(2), of ?pe]
  have "at ?pe = C_none" using started_peer [OF ok] by blast
  then have e: "pe_remotesByTarget (sv_peer s ?pe) = []" using idle_peer [OF ok] by simp
  note n = AddPeer_apart [OF peers_runD(1) [OF add(2)] e add(1)]
  have "peer_ok s' C_top (sv ?pe) (kn ?pe) ?pe" using n by (simp add: peer_ok_def)
  from peers_run_step [OF add(2) n(1) _ this] n(2) show ?case by simp
next
  case (closed rt ref err s r s' at sv kn)
  from closeWith_kept [OF peers_runD(1) [OF closed(2)] closed(1)] show ?case by (intro peers_run_server [OF closed(2)]) simp_all
next
  case (top at pe s sv kn)
  then show ?case by (intro peers_run_move) (simp_all add: connectloop_top_def)
next
  case (dial_failed at pe s a s' sv kn)
  then show ?case by (auto simp: connectloop_dialled_def intro!: peers_run_move simp del: peers_run.simps)
next
  case (dialled at pe c s a s' sv kn)
  note inv = dialled(3) and ok = peers_runD(2) [OF dialled(3), of pe]
  from dialled(2) have s': "s' = attachClient pe c s" "a = C_wait c" by (simp_all add: connectloop_dialled_def)
  have e: "pe_remotesByTarget (sv_peer s pe) = []" using idle_peer [OF ok] dialled(1) by simp
  have "peer_ok s' a ((sv pe)(c := S_listen)) Map.empty pe"
    using started_peer [OF ok] dialled(1) e
    by (simp add: peer_ok_def s' attachClient_def peer_view_def within_def fun_eq_iff)
  from peers_run_step [OF inv attachClient_apart [OF peers_runD(1) [OF inv] e, of c] _ this [unfolded s']] show ?case
    by (simp add: s' attachClient_def)
next
  case (slept at pe fired s b sv kn)
  then show ?case
    by (intro peers_run_move) (auto simp: connectloop_slept_def peer_sleep_def split: if_splits)
next
  case (gone at pe c rt s a s' sv kn)
  from gone(3) have d: "detachClient rt pe c s = Some s'" "a = C_top" by (auto simp: connectloop_done_def)
  from detached_peer [OF gone(4,2) d(1), of a "sv pe"] d(2) gone(1) show ?case by simp
next
  case (read sv pe c rt r s res s' at kn)
  from read_peer [OF read(3,2,1)] show ?case .
next
  case (leave sv pe c rt s s' at kn)
  from detached_peer [OF leave(4,2,3), of "at pe" "(sv pe)(c := S_none)"] show ?case by simp
next
  case (request rt m cancelled opened status s status' s' at sv kn)
  then show ?case
    by (auto simp: remote_handleRequest_open_def split: if_splits intro: failed_request_peer simp del: peers_run.simps)
qed

lemma peers_reach_inv: "peers_reach x \<Longrightarrow> peers_run x"
proof (induction rule: peers_reach.induct)
  case start
  show ?case by (simp add: peers_inv_def peer_inv_def peer_ok_def NewServer_def remotes_named_def names_wf_def)
qed (rule peers_step_inv)

end
