(* ===== verification/Discovery_Props.thy ===== *)
theory Discovery_Props
  imports Rpc_Props Peer_Run
begin

text \<open>
  How servers discover each other's services: the stream of service changes of one server
  (\<^verbatim>\<open>server_changes.go\<close>), the messages that carry it (\<^verbatim>\<open>rpc_server.go\<close>, \<^verbatim>\<open>rpc_client.go\<close>), and
  the peers of another server that listen to it (\<^verbatim>\<open>server_peers.go\<close>), put together.
\<close>

section \<open>Peers\<close>

text \<open>A server with one peer, at distance 1, that is told of the service of the other examples.\<close>

definition demo_peer :: server where
  "demo_peer = NewServer\<lparr>sv_fresh := 1, sv_peer := (sv_peer NewServer)(0 := \<lparr>pe_key = (str ''tcp'', str ''b''), pe_distance = 1,
     pe_failure = None, pe_failed = False, pe_client = None, pe_remotesByTarget = [], pe_remotesByName = Map.empty\<rparr>),
     sv_peers := [((str ''tcp'', str ''b''), 0)]\<rparr>"

definition demo_discovered :: server where
  "demo_discovered = demo_peer\<lparr>sv_fresh := 2,
     sv_remote := (sv_remote NewServer)(1 := \<lparr>rm_peer = Some 0, rm_client = Some 9, rm_targetID = 1, rm_name = str ''echo'', rm_distance = 1,
       rm_settings = demo_settings, rm_subscriptions = {}\<rparr>),
     sv_peer := (sv_peer NewServer)(0 := \<lparr>pe_key = (str ''tcp'', str ''b''), pe_distance = 1,
     pe_failure = None, pe_failed = False, pe_client = Some 9, pe_remotesByTarget = [(1, 1)], pe_remotesByName = [str ''echo'' \<mapsto> [(1, 1)]]\<rparr>)\<rparr>"

lemma demo_peer_inv: "peer_inv demo_peer 0" "pe_remotesByTarget (sv_peer demo_peer 0) = []" "pe_failure (sv_peer demo_peer 0) = None"
  by (simp_all add: demo_peer_def peer_inv_def remotes_named_def names_wf_def)

lemma demo_listens: "listenChanges ordered_runtime 0 9 [Inr demo_changes] (attachClient 0 9 demo_peer) = Some (None, demo_discovered)"
  unfolding listenChanges.simps processChanges_def demo_changes_def attachClient_def demo_peer_def demo_discovered_def NewServer_def
    peer_addRemoteLocked_def add_new_remote_def fresh_def Let_def peer_enter_def ordered_runtime_def subs_named_def demo_settings_def
  by simp

lemma demo_reach:
  "peers_reach (demo_discovered, (\<lambda>_. C_none)(0 := C_wait 9), (\<lambda>_ _. S_none)(0 := (\<lambda>_. S_none)(9 := S_listen)),
     (\<lambda>_. Map.empty)(0 := fold apply_changes [demo_changes] Map.empty))"
proof -
  let ?a = "\<lambda>_. C_none" and ?v = "\<lambda>_ _. S_none" and ?k = "\<lambda>_. Map.empty"
  have a: "server_AddPeer 0 (str ''tcp'') (str ''b'') 1 NewServer = (None, demo_peer)"
    unfolding server_AddPeer_def addPeerLocked_def fresh_def demo_peer_def NewServer_def Let_def by simp
  have "peers_reach (demo_peer, ?a(0 := C_top), ?v, ?k)"
    using peers_step.add [OF a, of ?a ?v ?k] peers_reach.step [OF peers_reach.start] by (simp add: NewServer_def)
  then have "peers_reach (demo_peer, ?a(0 := C_dial), ?v, ?k)"
    using peers_step.top [of "?a(0 := C_top)" 0 demo_peer ?v ?k] peers_reach.step by (simp add: connectloop_top_def demo_peer_def)
  then have "peers_reach (attachClient 0 9 demo_peer, ?a(0 := C_wait 9), ?v(0 := (\<lambda>_. S_none)(9 := S_listen)), ?k(0 := Map.empty))"
    using peers_step.dialled [of "?a(0 := C_dial)" 0 9 demo_peer _ _ ?v ?k] peers_reach.step by (simp add: connectloop_dialled_def)
  then show ?thesis
    using peers_step.read [OF _ demo_listens, of "?v(0 := (\<lambda>_. S_none)(9 := S_listen))" "?a(0 := C_wait 9)" "?k(0 := Map.empty)"] peers_reach.step
    by (simp add: serveClient_next_def told_def attachClient_def demo_peer_def)
qed

text \<open>
  C19. A peer knows what it has been told: however the goroutines of the peers, the operations of clients,
  closing the server and requests to remotes interleave, a peer without a connection has no remotes,
  and one with a connection is being served and has as remotes, with their names and settings, exactly
  the services of the changes read from this connection, applied one after the other, less those not
  published for the distance and those that could not be reached; remotes are found by target id and by
  name alike. A peer stops connecting only after it has been closed.
\<close>

theorem peers_in_sync:
  assumes "peers_reach (s, at, sv, kn)"
  shows "(case pe_client (sv_peer s pe) of
        None \<Rightarrow> pe_remotesByTarget (sv_peer s pe) = []
      | Some c \<Rightarrow> at pe = C_wait c \<and> sv pe c \<noteq> S_none \<and> peer_view s pe = within (pe_distance (sv_peer s pe)) (kn pe)) \<and>
    (map_of (remotes_named (sv_peer s pe) name) t = Some m \<longleftrightarrow>
       map_of (pe_remotesByTarget (sv_peer s pe)) t = Some m \<and> rm_name (sv_remote s m) = name) \<and>
    (at pe = C_end \<longrightarrow> pe_failed (sv_peer s pe))"
proof -
  have "peer_ok s (at pe) (sv pe) (kn pe) pe" "peer_inv s pe"
    using peers_reach_inv [OF assms] by (simp_all add: peers_inv_def)
  then show ?thesis unfolding peer_ok_def peer_inv_def by blast
qed

theorem peers_in_sync_witness:
  "peer_view demo_discovered 0 1 = Some (str ''echo'', demo_settings)"
proof -
  have "pe_client (sv_peer demo_discovered 0) = Some 9" "pe_distance (sv_peer demo_discovered 0) = 1" by (simp_all add: demo_discovered_def)
  with peers_in_sync [OF demo_reach, of 0]
  have "peer_view demo_discovered 0 = within 1 (fold apply_changes [demo_changes] Map.empty)" by simp
  then show ?thesis by (simp add: within_def apply_changes_def demo_changes_def demo_settings_def)
qed

text \<open>
  C20. Requests to remotes are not retried for ever: if no stream can be opened to a remote, the request is
  retried, but the remote is gone: it is in no map of any peer, another attempt at it finds no route,
  its peer has fewer remotes than before and the other peers are as they were.
\<close>

theorem unreachable_remote_is_gone:
  assumes "peers_reach (s, at, sv, kn)" and "rm_peer (sv_remote s m) = Some pe"
    and "remote_handleRequest_open rt m False False status s = Some (status', s')"
  shows "status' = StatusRetry \<and> remote_handleRequest_start m s' = Some StatusNoRoute \<and>
    (\<forall>q name t. map_of (remotes_named (sv_peer s' q) name) t \<noteq> Some m) \<and>
    length (pe_remotesByTarget (sv_peer s' pe)) < length (pe_remotesByTarget (sv_peer s pe)) \<and>
    (\<forall>q. q \<noteq> pe \<longrightarrow> peer_view s' q = peer_view s q)"
proof -
  from assms(3) have st: "status' = StatusRetry" and rm: "remote_removeLocked rt m s = Some s'"
    by (auto simp: remote_handleRequest_open_def)
  have inv: "peers_inv s" using peers_reach_inv [OF assms(1)] by simp
  note m = peers_invD(2) [OF inv assms(2)]
  note a = remote_removeLocked_apart [OF inv rm assms(2)]
  have gone: "rm_peer (sv_remote s' m) = None" by (simp add: a(2))
  have inv': "peers_inv s'" and views: "\<And>q. q \<noteq> pe \<Longrightarrow> peer_view s' q = peer_view s q" using a(1) by (simp_all add: apart_def kept_peer_def)
  have "map_of (remotes_named (sv_peer s' q) name) t \<noteq> Some m" for q name t
    using peer_inv_named [OF peers_invD(1) [OF inv'], of q name t m] peer_invD(2) [OF peers_invD(1) [OF inv'], of q t m] gone by auto
  moreover have "pe_remotesByTarget (sv_peer s' pe) = AList.delete (rm_targetID (sv_remote s m)) (pe_remotesByTarget (sv_peer s pe))"
    using remote_removeLocked_peer [OF peers_invD(1) [OF inv] m rm] by blast
  moreover have "length (AList.delete t l) < length l" if "map_of l t = Some x" for t x and l :: "(i64, remoteref) gomap"
    using that by (induction l) (auto simp: AList.length_delete_le le_imp_less_Suc split: if_splits)
  ultimately show ?thesis using st gone views m by (simp add: remote_handleRequest_start_def)
qed

theorem unreachable_remote_is_gone_witness:
  "\<exists>s'. remote_handleRequest_open ordered_runtime 1 False False StatusDone demo_discovered = Some (StatusRetry, s') \<and>
     remote_handleRequest_start 1 s' = Some StatusNoRoute"
proof -
  obtain s' where s': "remote_handleRequest_open ordered_runtime 1 False False StatusDone demo_discovered = Some (StatusRetry, s')"
    unfolding remote_handleRequest_open_def remote_removeLocked_def demo_discovered_def demo_peer_def NewServer_def ordered_runtime_def Let_def
    by simp
  have own: "rm_peer (sv_remote demo_discovered 1) = Some 0" by (simp add: demo_discovered_def)
  from unreachable_remote_is_gone [OF demo_reach own s'] s' show ?thesis by blast
qed

section \<open>Two servers\<close>

lemma services_arrive:
  assumes "\<forall>ch \<in> set chs. carried c (services_message ch)"
    and "serve_changes_loop c mem_write services_message [] (map Inr chs) = (None, out)"
  shows "fst (readloop_services (length chs) c (io_source out err)) = chs"
proof -
  have ms: "\<forall>m \<in> set (map services_message chs). carried c m \<and> msg_type m = T_StreamServicesResponse"
    using assms(1) by (auto simp: services_message_def)
  have "out = snd (rpc_write_all c mem_write [] (map services_message chs))"
    using assms(2) serve_changes_loop_written [OF assms(1), of "[]" "[]"] by simp
  with rpc_stream_so_far [OF ms, of err] show ?thesis
    by (simp add: readloop_services_def services_result_message comp_def)
qed

text \<open>
  C4. Servers discover each other's services: if all that the stream of service changes of one server has
  returned goes over a connection to a peer of another one, and the first server has nothing more to
  say, then the remotes of the peer are exactly the publications of the first server, with their names
  and settings, that are published for the distance between the two.
\<close>

theorem servers_discover_services:
  assumes "sv_reach (a, rs, rd)" and "runtime_ok rt" and "cs \<in> sv_pubWatchers a" and "cs_Read rt (sv_pub a) (sv_cs a cs) = (None, x)"
    and "rd cs = fold apply_changes chs Map.empty"
    and "\<forall>ch \<in> set chs. carried c (services_message ch)"
    and "serve_changes_loop c mem_write services_message [] (map Inr chs) = (None, out)"
    and "peer_inv b pe" and "pe_remotesByTarget (sv_peer b pe) = []" and "pe_failure (sv_peer b pe) = None"
    and "listenChanges rt' pe client (map Inr (fst (readloop_services (length chs) c (io_source out err)))) (attachClient pe client b) = Some (r, b')"
  shows "peer_view b' pe t =
    (case map_of (sv_pubByTarget a) t of
       None \<Rightarrow> None
     | Some p \<Rightarrow> if ps_MaxDistance (pub_settings (sv_pub a p)) < pe_distance (sv_peer b pe) then None
                 else Some (pub_name (sv_pub a p), pub_settings (sv_pub a p)))"
proof -
  have "listenChanges rt' pe client (map Inr chs) (attachClient pe client b) = Some (r, b')"
    using assms(11) services_arrive [OF assms(6,7)] by simp
  from listenChanges_follows [OF attachClient_follows [OF assms(8-10)] this]
  have "peer_view b' pe t = within (pe_distance (sv_peer b pe)) (rd cs) t" by (simp add: follows_def assms(5))
  also have "\<dots> = (case map_of (sv_pubByTarget a) t of
       None \<Rightarrow> None
     | Some p \<Rightarrow> if ps_MaxDistance (pub_settings (sv_pub a p)) < pe_distance (sv_peer b pe) then None
                 else Some (pub_name (sv_pub a p), pub_settings (sv_pub a p)))"
    unfolding within_def reader_waits [OF assms(1-4)] by (cases "map_of (sv_pubByTarget a) t") simp_all
  finally show ?thesis .
qed

theorem servers_discover_services_witness:
  "\<exists>b'. peer_view b' 0 1 = Some (str ''echo'', demo_settings) \<and> peer_view b' 0 2 = None"
proof -
  from demo_watched obtain rd where rd: "sv_reach (demo_watch {1} [], [], rd)" "rd 3 = fold apply_changes [demo_changes] Map.empty" by auto
  have w: "3 \<in> sv_pubWatchers (demo_watch {1} [])" by (simp add: demo_watch_def)
  have cs: "\<forall>ch \<in> set [demo_changes]. carried demo_codec (services_message ch)" using demo_carried(5) by simp
  obtain out where out: "serve_changes_loop demo_codec mem_write services_message [] (map Inr [demo_changes]) = (None, out)"
    using serve_changes_loop_written [OF cs, of "[]" "[]"] by simp
  have l: "listenChanges ordered_runtime 0 9 (map Inr (fst (readloop_services (length [demo_changes]) demo_codec (io_source out IoEOF))))
      (attachClient 0 9 demo_peer) = Some (None, demo_discovered)"
    unfolding services_arrive [OF cs out] using demo_listens by simp
  have "peer_view demo_discovered 0 t =
    (case map_of (sv_pubByTarget (demo_watch {1} [])) t of
       None \<Rightarrow> None
     | Some p \<Rightarrow> if ps_MaxDistance (pub_settings (sv_pub (demo_watch {1} []) p)) < pe_distance (sv_peer demo_peer 0) then None
                 else Some (pub_name (sv_pub (demo_watch {1} []) p), pub_settings (sv_pub (demo_watch {1} []) p)))" for t
    by (rule servers_discover_services [OF rd(1) ordered_runtime_ok w demo_reads(3) rd(2) cs out demo_peer_inv l])
  then show ?thesis by (intro exI [of _ demo_discovered]) (simp add: demo_watch_def demo_at_def demo_peer_def demo_settings_def)
qed

end
