(* ===== verification/Relay.thy ===== *)
theory Relay
  imports Copper_Errors "HOL-Library.Sublist"
begin

text \<open>
  Copying one stream into another, \<^verbatim>\<open>passthru.go\<close>: how the server connects the stream of a client
  with the stream of an endpoint. The streams are those of the transport; what their methods return is
  an argument here, and the result is the calls that change them.
\<close>

section \<open>The loop\<close>

text \<open>
  What one turn of the loop gets: the results of \<^verbatim>\<open>src.Peek\<close> and \<^verbatim>\<open>dst.Write\<close>, of
  \<^verbatim>\<open>dst.WriteErr\<close> and \<^verbatim>\<open>dst.IsAcknowledged\<close> after the wait for an acknowledgement, and of
  \<^verbatim>\<open>src.IsAcknowledged\<close> at the end.
\<close>

record relay_turn =
  tu_buf :: "u8 list"
  tu_err :: "go_error option"
  tu_n :: nat
  tu_werr :: "go_error option"
  tu_recheck :: "go_error option"
  tu_dstAcked :: bool
  tu_srcAcked :: bool

datatype relay_call =
    DstWrite "u8 list" nat
  | SrcDiscard nat
  | SrcCloseRead go_error
  | DstAcknowledge
  | DstCloseWrite go_error

text \<open>The part under the lock \<^verbatim>\<open>write\<close>: the calls, the error of the write, and \<^verbatim>\<open>waitack\<close> afterwards.\<close>

definition passthru_write :: "bool \<Rightarrow> relay_turn \<Rightarrow> relay_call list \<times> go_error option \<times> bool" where
  "passthru_write waitack t =
     (if 0 < tu_n t then
        if waitack then
          let werr = (if tu_werr t = None then tu_recheck t else tu_werr t)
          in ((if tu_dstAcked t \<or> werr = None then [SrcDiscard (tu_n t)] else []), werr, False)
        else ([SrcDiscard (tu_n t)], tu_werr t, waitack)
      else ([], tu_werr t, waitack))"

text \<open>Whether the loop has returned, and what it has called.\<close>

fun passthru :: "bool \<Rightarrow> relay_turn list \<Rightarrow> bool \<times> relay_call list" where
  "passthru waitack [] = (False, [])"
| "passthru waitack (t # ts) =
     (let (calls, werr, waitack) =
            (if 0 < length (tu_buf t)
             then case passthru_write waitack t of (calls, werr, waitack) \<Rightarrow> (DstWrite (tu_buf t) (tu_n t) # calls, werr, waitack)
             else ([], None, waitack))
      in case werr of
           Some e \<Rightarrow> (True, calls @ [SrcCloseRead e])
         | None \<Rightarrow>
             (case tu_err t of
                Some e \<Rightarrow> (True, calls @ (if tu_srcAcked t then [DstAcknowledge] else []) @ [DstCloseWrite e])
              | None \<Rightarrow> (case passthru waitack ts of (done', calls') \<Rightarrow> (done', calls @ calls'))))"

text \<open>
  The two goroutines beside the loop: once \<^verbatim>\<open>src\<close> is acknowledged or closed, and once the write side
  of \<^verbatim>\<open>dst\<close> is closed with an error.
\<close>

definition passthru_acknowledged :: "bool \<Rightarrow> relay_call list" where
  "passthru_acknowledged srcAcked = (if srcAcked then [DstAcknowledge] else [])"

definition passthru_writeClosed :: "go_error \<Rightarrow> relay_call list" where
  "passthru_writeClosed werr = [SrcCloseRead werr]"

text \<open>\<^verbatim>\<open>passthruBoth\<close> copies in both directions and never waits for acknowledgements.\<close>

definition passthruBoth :: "relay_turn list \<Rightarrow> relay_turn list \<Rightarrow> (bool \<times> relay_call list) \<times> (bool \<times> relay_call list)" where
  "passthruBoth toRemote toLocal = (passthru False toRemote, passthru False toLocal)"

section \<open>What is copied\<close>

text \<open>The bytes that \<^verbatim>\<open>dst\<close> has accepted, and the number of bytes taken out of \<^verbatim>\<open>src\<close>.\<close>

fun accepted :: "relay_call list \<Rightarrow> u8 list" where
  "accepted [] = []"
| "accepted (DstWrite buf n # cs) = take n buf @ accepted cs"
| "accepted (_ # cs) = accepted cs"

fun discarded :: "relay_call list \<Rightarrow> nat" where
  "discarded [] = 0"
| "discarded (SrcDiscard n # cs) = n + discarded cs"
| "discarded (_ # cs) = discarded cs"

lemma accepted_append [simp]: "accepted (xs @ ys) = accepted xs @ accepted ys"
  by (induction xs rule: accepted.induct) simp_all

lemma discarded_append [simp]: "discarded (xs @ ys) = discarded xs + discarded ys"
  by (induction xs rule: discarded.induct) simp_all

text \<open>
  The behaviour of the streams, for a source that holds \<open>data\<close> in all and ends with \<open>e\<close>: \<^verbatim>\<open>Peek\<close>
  returns bytes that follow those discarded, at least one or the error, and with the error \<open>e\<close> all that
  are left; \<^verbatim>\<open>Write\<close> accepts all bytes unless it returns an error. (\<open>stream_Peek_ok\<close> and \<open>stream_Write_ok\<close>
  in the theory of the invariant of streams show both for the streams of a connection.) If the
  write side of \<^verbatim>\<open>dst\<close> is closed with \<open>w\<close> meanwhile, the goroutine closes the read side of \<^verbatim>\<open>src\<close>, and
  \<^verbatim>\<open>Peek\<close> may return that error (\<open>c = Some w\<close>).
\<close>

fun streams_ok :: "u8 list \<Rightarrow> go_error \<Rightarrow> go_error option \<Rightarrow> relay_turn list \<Rightarrow> bool" where
  "streams_ok data e c [] \<longleftrightarrow> True"
| "streams_ok data e c (t # ts) \<longleftrightarrow>
     prefix (tu_buf t) data \<and> (tu_buf t = [] \<longrightarrow> tu_err t \<noteq> None) \<and>
     (case tu_err t of None \<Rightarrow> True | Some x \<Rightarrow> x = e \<and> tu_buf t = data \<or> c = Some x) \<and>
     tu_n t \<le> length (tu_buf t) \<and> (tu_werr t = None \<longrightarrow> tu_n t = length (tu_buf t)) \<and>
     streams_ok (drop (tu_n t) data) e c ts"

text \<open>How the loop ends, if \<open>calls\<close> are what it has done: \<open>src\<close> has ended, or \<open>dst\<close> no longer takes data.\<close>

definition relay_end :: "u8 list \<Rightarrow> go_error \<Rightarrow> go_error option \<Rightarrow> relay_turn list \<Rightarrow> relay_call list \<Rightarrow> bool" where
  "relay_end data e c ts calls \<longleftrightarrow>
     last calls = DstCloseWrite e \<and> accepted calls = data \<or>
     (\<exists>w. c = Some w \<and> last calls = DstCloseWrite w) \<or>
     (\<exists>t \<in> set ts. \<exists>w. tu_werr t = Some w \<and> last calls = SrcCloseRead w)"

definition relayed :: "u8 list \<Rightarrow> go_error \<Rightarrow> go_error option \<Rightarrow> relay_turn list \<Rightarrow> bool \<times> relay_call list \<Rightarrow> bool" where
  "relayed data e c ts r \<longleftrightarrow>
     prefix (accepted (snd r)) data \<and> discarded (snd r) = length (accepted (snd r)) \<and>
     (fst r \<longrightarrow> snd r \<noteq> [] \<and> relay_end data e c ts (snd r)) \<and>
     (fst r \<longleftrightarrow> (\<exists>x. DstCloseWrite x \<in> set (snd r) \<or> SrcCloseRead x \<in> set (snd r)))"

text \<open>What one turn does: the write and the discarding of what was written, then the loop ends or goes on.\<close>

definition turn_calls :: "relay_turn \<Rightarrow> relay_call list" where
  "turn_calls t = (if tu_buf t = [] then [] else DstWrite (tu_buf t) (tu_n t) # (if 0 < tu_n t then [SrcDiscard (tu_n t)] else []))"

lemma passthru_turn:
  "passthru False (t # ts) =
     (if tu_buf t \<noteq> [] \<and> tu_werr t \<noteq> None then (True, turn_calls t @ [SrcCloseRead (the (tu_werr t))])
      else case tu_err t of
             Some x \<Rightarrow> (True, turn_calls t @ (if tu_srcAcked t then [DstAcknowledge] else []) @ [DstCloseWrite x])
           | None \<Rightarrow> (case passthru False ts of (ret, cs) \<Rightarrow> (ret, turn_calls t @ cs)))"
  by (auto simp: turn_calls_def passthru_write_def split: option.splits)

lemma turn_calls_copy:
  assumes "prefix (tu_buf t) data" and "tu_n t \<le> length (tu_buf t)"
  shows "accepted (turn_calls t) = take (tu_n t) data" and "discarded (turn_calls t) = tu_n t"
    and "length (take (tu_n t) data) = tu_n t"
proof -
  from assms(1) obtain z where z: "data = tu_buf t @ z" by (rule prefixE)
  have some: "0 < tu_n t \<longrightarrow> tu_buf t \<noteq> []" using assms(2) by force
  show "accepted (turn_calls t) = take (tu_n t) data" "discarded (turn_calls t) = tu_n t"
    "length (take (tu_n t) data) = tu_n t"
    using assms(2) some by (simp_all add: turn_calls_def z)
qed

lemma turn_calls_open [simp]: "DstCloseWrite x \<notin> set (turn_calls t)" "SrcCloseRead x \<notin> set (turn_calls t)"
  by (simp_all add: turn_calls_def)

lemma passthru_copies:
  assumes "streams_ok data e c ts"
  shows "relayed data e c ts (passthru False ts)"
  using assms
proof (induction ts arbitrary: data)
  case (Cons t ts)
  have ok: "prefix (tu_buf t) data" "tu_buf t = [] \<Longrightarrow> tu_err t \<noteq> None"
    and err: "case tu_err t of None \<Rightarrow> True | Some x \<Rightarrow> x = e \<and> tu_buf t = data \<or> c = Some x"
    and n: "tu_n t \<le> length (tu_buf t)" and all: "tu_werr t = None \<Longrightarrow> tu_n t = length (tu_buf t)"
    and rest: "streams_ok (drop (tu_n t) data) e c ts"
    using Cons.prems unfolding streams_ok.simps by blast+
  note w = turn_calls_copy [OF ok(1) n]
  show ?case
  proof (cases "tu_buf t \<noteq> [] \<and> tu_werr t \<noteq> None")
    case True
    then show ?thesis using w by (auto simp: passthru_turn relayed_def relay_end_def take_is_prefix simp del: passthru.simps)
  next
    case False
    show ?thesis
    proof (cases "tu_err t")
      case (Some x)
      have "tu_n t = length (tu_buf t)" using all n False by (cases "tu_buf t") simp_all
      with err Some False w show ?thesis
        by (auto simp: passthru_turn relayed_def relay_end_def take_is_prefix simp del: passthru.simps)
    next
      case None
      obtain ret cs where p: "passthru False ts = (ret, cs)" by (cases "passthru False ts")
      have IH: "prefix (accepted cs) (drop (tu_n t) data)" "discarded cs = length (accepted cs)"
        "ret \<longrightarrow> cs \<noteq> [] \<and> relay_end (drop (tu_n t) data) e c ts cs"
        "ret \<longleftrightarrow> (\<exists>x. DstCloseWrite x \<in> set cs \<or> SrcCloseRead x \<in> set cs)"
        using Cons.IH [OF rest] unfolding relayed_def p by auto
      have now: "passthru False (t # ts) = (ret, turn_calls t @ cs)" using None False p by (auto simp: passthru_turn simp del: passthru.simps)
      have a: "accepted (turn_calls t @ cs) = take (tu_n t) data @ accepted cs" using w(1) by simp
      have "prefix (accepted (turn_calls t @ cs)) data"
        unfolding a using IH(1) by (metis append_take_drop_id same_prefix_prefix)
      moreover have "ret \<longrightarrow> turn_calls t @ cs \<noteq> [] \<and> relay_end data e c (t # ts) (turn_calls t @ cs)"
        using IH(3) w(1) unfolding relay_end_def by auto
      moreover have "discarded (turn_calls t @ cs) = length (accepted (turn_calls t @ cs))" using IH(2) w by simp
      moreover have "ret \<longleftrightarrow> (\<exists>x. DstCloseWrite x \<in> set (turn_calls t @ cs) \<or> SrcCloseRead x \<in> set (turn_calls t @ cs))"
        using IH(4) by simp
      ultimately show ?thesis unfolding relayed_def now fst_conv snd_conv by blast
    qed
  qed
qed (simp add: relayed_def)

lemma passthru_ends: "(\<exists>t \<in> set ts. tu_err t \<noteq> None) \<Longrightarrow> fst (passthru False ts)"
  by (induction ts) (force simp: passthru_turn simp del: passthru.simps split: option.splits prod.splits)+

section \<open>Requests are relayed\<close>

text \<open>
  C21. Relaying a request copies both ways without loss: for streams that behave like streams, the
  bytes accepted by each side are a prefix of those of the other, exactly the accepted bytes are taken
  out of the source, the loop for a direction ends if and only if it closes one of the streams, and it
  ends once its source has ended: then the other side has all the bytes and gets the same error, unless
  it had closed its own write side or refused a write, whose error closes the source.
\<close>

theorem relay_copies:
  assumes "streams_ok data e c ts" and "streams_ok data' e' c' ts'" and "passthruBoth ts ts' = (r, r')"
  shows "relayed data e c ts r \<and> relayed data' e' c' ts' r' \<and>
    ((\<exists>t \<in> set ts. tu_err t \<noteq> None) \<longrightarrow> fst r) \<and> ((\<exists>t \<in> set ts'. tu_err t \<noteq> None) \<longrightarrow> fst r')"
  using passthru_copies [OF assms(1)] passthru_copies [OF assms(2)] passthru_ends assms(3)
  unfolding passthruBoth_def by blast

definition demo_turn :: "u8 list \<Rightarrow> go_error option \<Rightarrow> relay_turn" where
  "demo_turn buf err = \<lparr>tu_buf = buf, tu_err = err, tu_n = length buf, tu_werr = None, tu_recheck = None, tu_dstAcked = False, tu_srcAcked = True\<rparr>"

theorem relay_copies_witness:
  "relayed [1, 2, 3] IoEOF None [demo_turn [1, 2] None, demo_turn [3] (Some IoEOF)]
     (True, [DstWrite [1, 2] 2, SrcDiscard 2, DstWrite [3] 1, SrcDiscard 1, DstAcknowledge, DstCloseWrite IoEOF]) \<and>
   relayed [4, 5] IoEOF (Some (ErrCode ECLOSED)) [demo_turn [4] None, demo_turn [] (Some (ErrCode ECLOSED))]
     (True, [DstWrite [4] 1, SrcDiscard 1, DstAcknowledge, DstCloseWrite (ErrCode ECLOSED)])"
  using relay_copies [of "[1, 2, 3]" IoEOF None "[demo_turn [1, 2] None, demo_turn [3] (Some IoEOF)]"
      "[4, 5]" IoEOF "Some (ErrCode ECLOSED)" "[demo_turn [4] None, demo_turn [] (Some (ErrCode ECLOSED))]"]
  by (simp add: demo_turn_def passthruBoth_def passthru_write_def numeral_2_eq_2)

end
