(* ===== verification/Conn_Pings.thy ===== *)
theory Conn_Pings
  imports Outgoing
begin

text \<open>
  Pings, \<^verbatim>\<open>rawconn_pings.go\<close>: the callbacks that wait for the replies to outgoing pings.
  A callback is an address; a call of it is an entry of the returned list, with the error it is
  called with. The nil map that \<^verbatim>\<open>fail\<close> leaves behind is \<^term>\<open>None\<close>: reading it gives the
  empty slice, assigning to it is a panic. Go iterates over a map in an unspecified order, which is
  an argument here.
\<close>

type_synonym cbref = nat

record rawConnPings =
  p_err :: "go_error option"
  p_pings :: "(PingData \<rightharpoonup> cbref list) option"

definition pings_init :: rawConnPings where
  "pings_init = \<lparr>p_err = None, p_pings = Some Map.empty\<rparr>"

definition callbacks_of :: "rawConnPings \<Rightarrow> PingData \<Rightarrow> cbref list" where
  "callbacks_of p data = (case p_pings p of None \<Rightarrow> [] | Some m \<Rightarrow> (case m data of None \<Rightarrow> [] | Some l \<Rightarrow> l))"

definition map_order :: "('k \<rightharpoonup> 'v) option \<Rightarrow> 'k list \<Rightarrow> bool" where
  "map_order m order \<longleftrightarrow> distinct order \<and> set order = (case m of None \<Rightarrow> {} | Some m \<Rightarrow> dom m)"

definition pings_fail :: "PingData list \<Rightarrow> go_error option \<Rightarrow> rawConnPings \<Rightarrow> rawConnOutgoing \<Rightarrow>
    (PingData \<times> cbref \<times> go_error option) list \<times> rawConnPings \<times> rawConnOutgoing" where
  "pings_fail order err p out =
     (let p1 = (if p_err p = None then p\<lparr>p_err := err\<rparr> else p);
          out = clearPingQueue out
      in (concat (map (\<lambda>data. map (\<lambda>cb. (data, cb, err)) (callbacks_of p1 data)) order), p1\<lparr>p_pings := None\<rparr>, out))"

definition addPing :: "PingData \<Rightarrow> cbref \<Rightarrow> rawConnPings \<Rightarrow> rawConnOutgoing \<Rightarrow>
    (go_error option \<times> rawConnPings \<times> rawConnOutgoing) option" where
  "addPing data cb p out =
     (let err = p_err p
      in if err = None then do {
           m \<leftarrow> p_pings p;
           Some (err, p\<lparr>p_pings := Some (m(data \<mapsto> callbacks_of p data @ [cb]))\<rparr>, addPingQueue out data)
         } else Some (err, p, out))"

definition handlePing :: "PingData \<Rightarrow> rawConnOutgoing \<Rightarrow> rawConnOutgoing" where
  "handlePing data out = addPingAck out data"

text \<open>The callbacks of one ping value are a queue: the first is called, the others move up in place.\<close>

definition pings_handleAck :: "PingData \<Rightarrow> rawConnPings \<Rightarrow> ((PingData \<times> cbref \<times> go_error option) list \<times> rawConnPings) option" where
  "pings_handleAck data p =
     (let callbacks = callbacks_of p data
      in if 0 < length callbacks then do {
           m \<leftarrow> p_pings p;
           let p' = (if 1 < length callbacks then p\<lparr>p_pings := Some (m(data \<mapsto> drop 1 callbacks))\<rparr>
                     else p\<lparr>p_pings := Some (m(data := None))\<rparr>);
           Some ([(data, callbacks ! 0, None)], p')
         } else Some ([], p))"

text \<open>
  \<^verbatim>\<open>rawConn.ping\<close>: a callback that cannot be registered is called at once.
\<close>

definition conn_ping :: "PingData \<Rightarrow> cbref \<Rightarrow> rawConnPings \<Rightarrow> rawConnOutgoing \<Rightarrow>
    ((PingData \<times> cbref \<times> go_error option) list \<times> rawConnPings \<times> rawConnOutgoing) option" where
  "conn_ping data cb p out = do {
     (err, p, out) \<leftarrow> addPing data cb p out;
     Some (if err \<noteq> None then [(data, cb, err)] else [], p, out)
   }"

section \<open>Every callback is called exactly once\<close>

record ping_run =
  g_pings :: rawConnPings
  g_out :: rawConnOutgoing
  g_asked :: "(PingData \<times> cbref) list"
  g_called :: "(PingData \<times> cbref \<times> go_error option) list"

definition ping_start :: "rawConnOutgoing \<Rightarrow> ping_run" where
  "ping_start out = \<lparr>g_pings = pings_init, g_out = out, g_asked = [], g_called = []\<rparr>"

text \<open>
  The life of the pings of a connection: the user asks for pings, replies arrive (expected or not),
  the connection fails (with a real error), and meanwhile the rest of the connection changes the
  outgoing state.
\<close>

inductive ping_step :: "ping_run \<Rightarrow> ping_run \<Rightarrow> bool" where
  ask: "conn_ping data cb (g_pings g) (g_out g) = Some (calls, p, out) \<Longrightarrow>
    ping_step g (g\<lparr>g_pings := p, g_out := out, g_asked := g_asked g @ [(data, cb)], g_called := g_called g @ calls\<rparr>)"
| reply: "pings_handleAck data (g_pings g) = Some (calls, p) \<Longrightarrow>
    ping_step g (g\<lparr>g_pings := p, g_called := g_called g @ calls\<rparr>)"
| failure: "map_order (p_pings (g_pings g)) order \<Longrightarrow> pings_fail order (Some err) (g_pings g) (g_out g) = (calls, p, out) \<Longrightarrow>
    ping_step g (g\<lparr>g_pings := p, g_out := out, g_called := g_called g @ calls\<rparr>)"
| outside: "ping_step g (g\<lparr>g_out := out\<rparr>)"

inductive ping_reachable :: "rawConnOutgoing \<Rightarrow> ping_run \<Rightarrow> bool" for out where
  start: "ping_reachable out (ping_start out)"
| step: "ping_reachable out g \<Longrightarrow> ping_step g g' \<Longrightarrow> ping_reachable out g'"

definition asked_for :: "PingData \<Rightarrow> ping_run \<Rightarrow> cbref list" where
  "asked_for data g = map snd (filter (\<lambda>(d, _). d = data) (g_asked g))"

definition called_for :: "PingData \<Rightarrow> ping_run \<Rightarrow> cbref list" where
  "called_for data g = map (\<lambda>(_, cb, _). cb) (filter (\<lambda>(d, _). d = data) (g_called g))"

definition pings_inv :: "ping_run \<Rightarrow> bool" where
  "pings_inv g \<longleftrightarrow> (p_err (g_pings g) = None \<longleftrightarrow> p_pings (g_pings g) \<noteq> None) \<and>
     (\<forall>data. asked_for data g = called_for data g @ callbacks_of (g_pings g) data)"

lemma addPing_cases:
  assumes "p_err p = None \<longleftrightarrow> p_pings p \<noteq> None"
  shows "\<exists>calls p' out'. conn_ping data cb p out = Some (calls, p', out') \<and>
    (p_err p' = None \<longleftrightarrow> p_pings p' \<noteq> None) \<and>
    (\<forall>d. map (\<lambda>(_, cb, _). cb) (filter (\<lambda>(d', _). d' = d) calls) @ callbacks_of p' d
       = callbacks_of p d @ (if d = data then [cb] else []))"
proof (cases "p_err p")
  case None
  then obtain m where "p_pings p = Some m" using assms by auto
  with None show ?thesis by (auto simp: conn_ping_def addPing_def Let_def callbacks_of_def split: option.splits)
next
  case (Some e)
  then have "p_pings p = None" using assms by auto
  with Some show ?thesis by (auto simp: conn_ping_def addPing_def callbacks_of_def)
qed

lemma handleAck_cases:
  "\<exists>calls p'. pings_handleAck data p = Some (calls, p') \<and> p_err p' = p_err p \<and> (p_pings p' = None \<longleftrightarrow> p_pings p = None) \<and>
    (\<forall>d. map (\<lambda>(_, cb, _). cb) (filter (\<lambda>(d', _). d' = d) calls) @ callbacks_of p' d = callbacks_of p d)"
proof (cases "callbacks_of p data")
  case Nil
  then show ?thesis by (simp add: pings_handleAck_def)
next
  case (Cons c cs)
  then obtain m where m: "p_pings p = Some m" "m data = Some (c # cs)"
    by (auto simp: callbacks_of_def split: option.splits)
  with Cons show ?thesis by (cases cs) (auto simp: pings_handleAck_def callbacks_of_def)
qed

lemma fail_calls:
  assumes "map_order (p_pings p) order" "pings_fail order err p out = (calls, p', out')"
  shows "map (\<lambda>(_, cb, _). cb) (filter (\<lambda>(d', _). d' = d) calls) = callbacks_of p d"
proof -
  have f: "filter (\<lambda>(d', _). d' = d) (concat (map (\<lambda>data. map (\<lambda>cb. (data, cb, err)) (l data)) xs))
     = (if d \<in> set xs then map (\<lambda>cb. (d, cb, err)) (l d) else [])" if "distinct xs" for xs and l :: "PingData \<Rightarrow> cbref list"
    using that by (induction xs) (auto simp: filter_map o_def filter_empty_conv)
  have "callbacks_of p1 d = callbacks_of p d" if "p1 = (if p_err p = None then p\<lparr>p_err := err\<rparr> else p)" for p1
    using that by (simp add: callbacks_of_def)
  moreover have "d \<notin> set order \<Longrightarrow> callbacks_of p d = []"
    using assms(1) by (auto simp: map_order_def callbacks_of_def split: option.splits)
  ultimately show ?thesis using assms f [of order "callbacks_of (if p_err p = None then p\<lparr>p_err := err\<rparr> else p)"]
    by (auto simp: pings_fail_def Let_def map_order_def o_def)
qed

lemma ping_step_inv: "ping_step g g' \<Longrightarrow> pings_inv g \<Longrightarrow> pings_inv g'"
proof (induction rule: ping_step.induct)
  case (ask data cb g calls p out)
  then have e: "p_err (g_pings g) = None \<longleftrightarrow> p_pings (g_pings g) \<noteq> None" by (simp add: pings_inv_def)
  from addPing_cases [OF e, of data cb "g_out g"] ask(1)
  have "p_err p = None \<longleftrightarrow> p_pings p \<noteq> None"
    "\<forall>d. map (\<lambda>(_, cb, _). cb) (filter (\<lambda>(d', _). d' = d) calls) @ callbacks_of p d
       = callbacks_of (g_pings g) d @ (if d = data then [cb] else [])" by auto
  with ask(2) show ?case by (simp add: pings_inv_def asked_for_def called_for_def)
next
  case (reply data g calls p)
  from handleAck_cases [of data "g_pings g"] reply(1)
  have "p_err p = p_err (g_pings g)" "p_pings p = None \<longleftrightarrow> p_pings (g_pings g) = None"
    "\<forall>d. map (\<lambda>(_, cb, _). cb) (filter (\<lambda>(d', _). d' = d) calls) @ callbacks_of p d = callbacks_of (g_pings g) d" by auto
  with reply(2) show ?case by (simp add: pings_inv_def asked_for_def called_for_def)
next
  case (failure g order err calls p out)
  have "p_err p \<noteq> None" "p_pings p = None" using failure(2) by (auto simp: pings_fail_def Let_def)
  with failure(3) fail_calls [OF failure(1,2)] show ?case
    by (simp add: pings_inv_def asked_for_def called_for_def callbacks_of_def)
next
  case (outside g out)
  then show ?case by (simp add: pings_inv_def asked_for_def called_for_def)
qed

lemma ping_reachable_inv: "ping_reachable out g \<Longrightarrow> pings_inv g"
proof (induction rule: ping_reachable.induct)
  case start
  then show ?case by (simp add: ping_start_def pings_inv_def pings_init_def asked_for_def called_for_def callbacks_of_def)
qed (rule ping_step_inv)


text \<open>Two pings with the same value: one is answered, then the connection fails.\<close>

lemma ping_demo:
  "\<exists>g. ping_reachable outgoing_init g \<and> g_asked g = [([1], 10), ([1], 11)] \<and>
     g_called g = [([1], 10, None), ([1], 11, Some (ErrCode ECONNCLOSED))] \<and> p_err (g_pings g) \<noteq> None"
proof -
  let ?o = outgoing_init
  let ?p1 = "pings_init\<lparr>p_pings := Some [[1] \<mapsto> [10]]\<rparr>" and ?p2 = "pings_init\<lparr>p_pings := Some [[1] \<mapsto> [10, 11]]\<rparr>"
    and ?p3 = "pings_init\<lparr>p_pings := Some [[1] \<mapsto> [11]]\<rparr>"
  note d = conn_ping_def addPing_def pings_init_def callbacks_of_def
  let ?g1 = "\<lparr>g_pings = ?p1, g_out = addPingQueue ?o [1], g_asked = [([1], 10)], g_called = []\<rparr>"
  let ?g2 = "\<lparr>g_pings = ?p2, g_out = addPingQueue (addPingQueue ?o [1]) [1], g_asked = [([1], 10), ([1], 11)], g_called = []\<rparr>"
  let ?g3 = "?g2\<lparr>g_pings := ?p3, g_called := [([1], 10, None)]\<rparr>"
  have s1: "ping_step (ping_start ?o) ?g1"
    using ping_step.ask [of "[1]" 10 "ping_start ?o" "[]" ?p1 "addPingQueue ?o [1]"] by (simp add: ping_start_def d)
  have s2: "ping_step ?g1 ?g2"
    using ping_step.ask [of "[1]" 11 ?g1 "[]" ?p2 "addPingQueue (addPingQueue ?o [1]) [1]"] by (simp add: d)
  have s3: "ping_step ?g2 ?g3"
    using ping_step.reply [of "[1]" ?g2 "[([1], 10, None)]" ?p3] by (simp add: pings_handleAck_def d)
  let ?e = "Some (ErrCode ECONNCLOSED)"
  let ?g4 = "?g3\<lparr>g_pings := \<lparr>p_err = ?e, p_pings = None\<rparr>, g_out := clearPingQueue (g_out ?g3), g_called := g_called ?g3 @ [([1], 11, ?e)]\<rparr>"
  have f: "pings_fail [[1]] ?e (g_pings ?g3) (g_out ?g3) = ([([1], 11, ?e)], \<lparr>p_err = ?e, p_pings = None\<rparr>, clearPingQueue (g_out ?g3))"
    by (simp add: pings_fail_def d Let_def)
  have "ping_step ?g3 ?g4" by (rule ping_step.failure [OF _ f]) (simp add: map_order_def)
  from ping_reachable.step [OF ping_reachable.step [OF ping_reachable.step [OF ping_reachable.step [OF ping_reachable.start s1] s2] s3] this]
  show ?thesis by (intro exI [of _ ?g4]) simp
qed


end
