(* ===== verification/Raw_Conn.thy ===== *)
theory Raw_Conn
  imports Stream_Run Conn_Pings
begin

text \<open>
  The connection: \<^verbatim>\<open>rawconn.go\<close>, \<^verbatim>\<open>rawconn_settings.go\<close>, the parts of
  \<^verbatim>\<open>rawconn_streams.go\<close> that work on all streams, and the loop of
  \<^verbatim>\<open>rawconn_outgoing.go\<close> that chooses what to write next.

  The record \<open>rawConn\<close> has the parts of the Go struct and a heap of its streams: a stream is
  an address, and \<open>with_stream\<close> runs a section of a stream method on the stream together with the
  outgoing queues and the stream table it shares with the connection. Goroutines that are started
  and callbacks that are called are recorded in \<open>c_spawned\<close> and \<open>c_calls\<close>. Go leaves the order of
  an iteration over a map open; \<open>ord\<close> is that order for the table of live streams.
\<close>

unbundle bit_operations_syntax

section \<open>Settings\<close>

record rawConnSettings =
  z_callbacks :: "cbref option list"
  z_localStreamWindowSize :: int
  z_remoteStreamWindowSize :: int
  z_localInactivityTimeout :: int
  z_remoteInactivityTimeout :: int

definition settings_init :: rawConnSettings where
  "settings_init = \<lparr>z_callbacks = [], z_localStreamWindowSize = InitialStreamWindow, z_remoteStreamWindowSize = InitialStreamWindow,
     z_localInactivityTimeout = InitialInactivityTimeout, z_remoteInactivityTimeout = InitialInactivityTimeout\<rparr>"

definition settings_failLocked :: "go_error option \<Rightarrow> rawConnSettings \<Rightarrow> (cbref \<times> go_error option) list \<times> rawConnSettings" where
  "settings_failLocked err s =
     (map (\<lambda>cb. (the cb, err)) (filter (\<lambda>cb. cb \<noteq> None) (z_callbacks s)), s\<lparr>z_callbacks := []\<rparr>)"

definition settings_handleAck :: "rawConnSettings \<Rightarrow> (cbref \<times> go_error option) list \<times> rawConnSettings" where
  "settings_handleAck s =
     (case z_callbacks s of
        [] \<Rightarrow> ([], s)
      | cb # cbs \<Rightarrow> (case cb of None \<Rightarrow> [] | Some cb \<Rightarrow> [(cb, None)], s\<lparr>z_callbacks := cbs\<rparr>))"

section \<open>State\<close>

record rawConn =
  c_failure :: "go_error option"
  c_closedchan :: bool
  c_shutdownchan :: bool
  c_finishgroup :: int
  c_shutdowngroup :: int
  c_pings :: rawConnPings
  c_streams :: rawConnStreams
  c_settings :: rawConnSettings
  c_outgoing :: rawConnOutgoing
  c_heap :: "sref \<rightharpoonup> rawStream"
  c_nextref :: sref
  c_spawned :: "sref list"
  c_calls :: "(cbref \<times> go_error option) list"

text \<open>\<^verbatim>\<open>NewRawConn\<close> starts the read loop and the write loop, which the finish group counts.\<close>

definition NewRawConn :: "bool \<Rightarrow> rawConn" where
  "NewRawConn server = \<lparr>c_failure = None, c_closedchan = False, c_shutdownchan = False, c_finishgroup = 2, c_shutdowngroup = 0,
     c_pings = pings_init, c_streams = streams_init server, c_settings = settings_init, c_outgoing = outgoing_init,
     c_heap = Map.empty, c_nextref = 0, c_spawned = [], c_calls = []\<rparr>"

definition with_stream :: "sref \<Rightarrow> (sworld \<Rightarrow> ('a \<times> sworld) option) \<Rightarrow> rawConn \<Rightarrow> ('a \<times> rawConn) option" where
  "with_stream r f c = do {
     s \<leftarrow> c_heap c r;
     (x, w) \<leftarrow> f (in_world s (c_outgoing c) (c_streams c));
     Some (x, c\<lparr>c_heap := (c_heap c)(r \<mapsto> rawStream.truncate w), c_outgoing := w_out w, c_streams := w_streams w\<rparr>)
   }"

section \<open>Closing\<close>

fun close_streams :: "go_error option \<Rightarrow> sref list \<Rightarrow> rawConn \<Rightarrow> rawConn option" where
  "close_streams err [] c = Some c"
| "close_streams err (r # rs) c = do { (_, c) \<leftarrow> with_stream r (stream_CloseWithError err) c; close_streams err rs c }"

text \<open>The lock of the connection is released around each close; this is the run without interference.\<close>

definition streams_failLocked :: "((u32 \<rightharpoonup> sref) \<Rightarrow> sref list) \<Rightarrow> go_error \<Rightarrow> rawConn \<Rightarrow> rawConn option" where
  "streams_failLocked ord err c =
     (if st_err (c_streams c) = None
      then close_streams (Some err) (ord (st_live (c_streams c))) (c\<lparr>c_streams := (c_streams c)\<lparr>st_err := Some err\<rparr>\<rparr>)
      else Some c)"

fun change_windows :: "int \<Rightarrow> sref list \<Rightarrow> rawConn \<Rightarrow> rawConn option" where
  "change_windows diff [] c = Some c"
| "change_windows diff (r # rs) c = do {
     (_, c) \<leftarrow> with_stream r (\<lambda>w. do { w \<leftarrow> changeWriteWindow w diff; Some ((), w) }) c;
     change_windows diff rs c }"

definition changeWriteWindowLocked :: "((u32 \<rightharpoonup> sref) \<Rightarrow> sref list) \<Rightarrow> int \<Rightarrow> rawConn \<Rightarrow> rawConn option" where
  "changeWriteWindowLocked ord diff c = change_windows diff (ord (st_live (c_streams c))) c"

definition conn_error :: "eref \<Rightarrow> go_error option \<Rightarrow> go_error" where
  "conn_error ref err =
     (case err of
        None \<Rightarrow> ErrCode ECONNCLOSED
      | Some e \<Rightarrow> if isTimeout e then CopperError ref (err_text e) ECONNTIMEOUT else e)"

definition conn_closeWithError :: "((u32 \<rightharpoonup> sref) \<Rightarrow> sref list) \<Rightarrow> eref \<Rightarrow> go_error option \<Rightarrow> rawConn \<Rightarrow> (go_error option \<times> rawConn) option" where
  "conn_closeWithError ord ref err c =
     (let err = conn_error ref err; preverror = c_failure c
      in if c_failure c = None then do {
           ch \<leftarrow> close_chan (c_closedchan c);
           let c = c\<lparr>c_failure := Some err, c_closedchan := ch, c_outgoing := clearPingQueue (outgoing_fail (c_outgoing c) err)\<rparr>;
           c \<leftarrow> streams_failLocked ord err c;
           Some (preverror, c)
         } else Some (preverror, c))"

definition conn_Err :: "rawConn \<Rightarrow> go_error option" where
  "conn_Err c = c_failure c"

definition conn_Close :: "((u32 \<rightharpoonup> sref) \<Rightarrow> sref list) \<Rightarrow> eref \<Rightarrow> rawConn \<Rightarrow> (go_error option \<times> rawConn) option" where
  "conn_Close ord ref c = conn_closeWithError ord ref (Some (ErrCode ECONNCLOSED)) c"

definition conn_Shutdown :: "rawConn \<Rightarrow> rawConn" where
  "conn_Shutdown c = c\<lparr>c_shutdownchan := True\<rparr>"

section \<open>Streams\<close>

definition install :: "sworld \<Rightarrow> rawConn \<Rightarrow> rawConn" where
  "install w c = c\<lparr>c_heap := (c_heap c)(s_ref w \<mapsto> rawStream.truncate w), c_nextref := c_nextref c + 1,
     c_outgoing := w_out w, c_streams := w_streams w\<rparr>"

definition conn_NewStream :: "rawConn \<Rightarrow> ((go_error + sref) \<times> rawConn) option" where
  "conn_NewStream c =
     (let (res, st) = allocateLocked (c_streams c); c = c\<lparr>c_streams := st\<rparr>
      in case res of
           Inl err \<Rightarrow> Some (Inl err, c)
         | Inr streamID \<Rightarrow> do {
             w \<leftarrow> newOutgoingStream (c_outgoing c) (c_streams c) (z_localStreamWindowSize (c_settings c))
                    (z_remoteStreamWindowSize (c_settings c)) (c_nextref c) streamID;
             Some (Inr (c_nextref c), install w c)
           })"

text \<open>
  The goroutine of an incoming stream: \<open>served\<close> is what the handler returned, \<^term>\<open>None\<close> if the
  connection has no handler. The deferred calls end both groups and close the stream.
\<close>

definition handleStream :: "go_error option option \<Rightarrow> sref \<Rightarrow> rawConn \<Rightarrow> rawConn option" where
  "handleStream served r c = do {
     c \<leftarrow> (case served of
            None \<Rightarrow> do { (_, c) \<leftarrow> with_stream r (stream_CloseWithError (Some (ErrCode ENOTARGET))) c; Some c }
          | Some err \<Rightarrow> do {
              c \<leftarrow> (if err \<noteq> None then do { (_, c) \<leftarrow> with_stream r (stream_CloseWithError err) c; Some c } else Some c);
              (_, c) \<leftarrow> with_stream r stream_Close c;
              Some c
            });
     Some (c\<lparr>c_shutdowngroup := c_shutdowngroup c - 1, c_finishgroup := c_finishgroup c - 1\<rparr>)
   }"

section \<open>Incoming frames\<close>

definition conn_processPingFrame :: "u8 \<Rightarrow> PingData \<Rightarrow> rawConn \<Rightarrow> rawConn option" where
  "conn_processPingFrame flags data c =
     (if flags_Has flags FlagPingAck then do {
        (calls, p) \<leftarrow> pings_handleAck data (c_pings c);
        Some (c\<lparr>c_pings := p, c_calls := c_calls c @ map snd calls\<rparr>)
      } else Some (c\<lparr>c_outgoing := handlePing data (c_outgoing c)\<rparr>))"

definition invalidStream :: "eref \<Rightarrow> u32 \<Rightarrow> go_string \<Rightarrow> go_error" where
  "invalidStream ref sid what = CopperErrorVal ref (str ''stream 0x'' @ show_hex8 sid @ what) EINVALIDSTREAM"

text \<open>The result is the connection-level error, if any.\<close>

definition conn_processDataFrame :: "eref \<Rightarrow> u32 \<Rightarrow> u8 \<Rightarrow> u8 list \<Rightarrow> rawConn \<Rightarrow> (go_error option \<times> rawConn) option" where
  "conn_processDataFrame ref sid flags data c =
     (if sid = 0 then
        if flags \<noteq> 0 \<or> length data \<noteq> 0
        then Some (Some (CopperErrorVal ref (str ''stream 0 cannot be used for data'') EINVALIDSTREAM), c)
        else Some (None, c)
      else let stream = streams_find (c_streams c) sid
        in if flags_Has flags FlagDataOpen then
             if isOwnedID (c_streams c) sid
             then Some (Some (invalidStream ref sid (str '' cannot be used for opening streams'')), c)
             else if stream \<noteq> None
             then Some (Some (invalidStream ref sid (str '' cannot be reopened until fully closed'')), c)
             else let window = z_localStreamWindowSize (c_settings c)
               in if window < zlen data
                  then Some (Some (CopperErrorVal ref (str ''stream 0x'' @ show_hex8 sid @ str '' initial '' @ show_int (zlen data) @
                         str '' bytes, which is more than '' @ show_int window @ str '' bytes window'') EWINDOWOVERFLOW), c)
                  else let r = c_nextref c;
                           w = newIncomingStream (c_outgoing c) (c_streams c) (z_localStreamWindowSize (c_settings c))
                                 (z_remoteStreamWindowSize (c_settings c)) r sid;
                           c = install w c
                    in if c_failure c \<noteq> None then do {
                         (_, c) \<leftarrow> with_stream r (stream_CloseWithError (c_failure c)) c;
                         Some (None, c)
                       } else if c_shutdownchan c then do {
                         (_, c) \<leftarrow> with_stream r (stream_CloseWithError (Some (ErrCode ECONNSHUTDOWN))) c;
                         Some (None, c)
                       } else let c = c\<lparr>c_finishgroup := c_finishgroup c + 1, c_shutdowngroup := c_shutdowngroup c + 1,
                                       c_spawned := c_spawned c @ [r]\<rparr>
                         in with_stream r (\<lambda>w. stream_processDataFrame ref w data flags) c
           else (case stream of
               None \<Rightarrow> Some (Some (invalidStream ref sid (str '' cannot be found'')), c)
             | Some r \<Rightarrow> if c_failure c \<noteq> None then Some (None, c)
                else with_stream r (\<lambda>w. stream_processDataFrame ref w data flags) c))"

definition conn_processResetFrame :: "u32 \<Rightarrow> u8 \<Rightarrow> go_error \<Rightarrow> rawConn \<Rightarrow> (go_error option \<times> rawConn) option" where
  "conn_processResetFrame sid flags error c =
     (if sid = 0 then Some (Some error, c\<lparr>c_outgoing := outgoing_fail (c_outgoing c) (ErrCode ECONNSHUTDOWN)\<rparr>)
      else (case streams_find (c_streams c) sid of
          None \<Rightarrow> Some (None, c)
        | Some r \<Rightarrow> if c_failure c \<noteq> None then Some (None, c)
           else with_stream r (\<lambda>w. stream_processResetFrame w flags error) c))"

definition conn_processWindowFrame :: "eref \<Rightarrow> u32 \<Rightarrow> u32 \<Rightarrow> rawConn \<Rightarrow> (go_error option \<times> rawConn) option" where
  "conn_processWindowFrame ref sid increment c =
     (case streams_find (c_streams c) sid of
        None \<Rightarrow> Some (None, c)
      | Some r \<Rightarrow> with_stream r (\<lambda>w. stream_processWindowFrame ref w increment) c)"

definition handleSettings :: "((u32 \<rightharpoonup> sref) \<Rightarrow> sref list) \<Rightarrow> eref \<Rightarrow> Setting list \<Rightarrow> rawConn \<Rightarrow> (go_error option \<times> rawConn) option" where
  "handleSettings ord ref data c =
     (let (value, ok) = settings_Value data SettingStreamWindow
      in if ok \<and> (value < MinWindowSize \<or> MaxWindowSize < value)
         then Some (Some (CopperErrorVal ref (str ''cannot set stream window to '' @ show_nat (unat value) @ str '' bytes'') EINVALIDFRAME), c)
         else do {
           c \<leftarrow> (if ok then do {
                   c \<leftarrow> changeWriteWindowLocked ord (uint value - z_remoteStreamWindowSize (c_settings c)) c;
                   Some (c\<lparr>c_settings := (c_settings c)\<lparr>z_remoteStreamWindowSize := uint value\<rparr>\<rparr>)
                 } else Some c);
           let (value, ok) = settings_Value data SettingInactivityMilliseconds;
           if ok \<and> value < 1000
           then Some (Some (CopperErrorVal ref (str ''cannot set inactivity timeout to '' @ show_nat (unat value) @ str ''ms'') EINVALIDFRAME), c)
           else do {
             let c = (if ok then c\<lparr>c_settings := (c_settings c)\<lparr>z_remoteInactivityTimeout := uint value * 1000000\<rparr>\<rparr> else c);
             Some (None, c\<lparr>c_outgoing := addSettingsAck (c_outgoing c)\<rparr>)
           }
         })"

definition conn_processSettingsFrame :: "((u32 \<rightharpoonup> sref) \<Rightarrow> sref list) \<Rightarrow> eref \<Rightarrow> u8 \<Rightarrow> Setting list \<Rightarrow> rawConn \<Rightarrow> (go_error option \<times> rawConn) option" where
  "conn_processSettingsFrame ord ref flags data c =
     (if flags_Has flags FlagSettingsAck
      then let (calls, s) = settings_handleAck (c_settings c) in Some (None, c\<lparr>c_settings := s, c_calls := c_calls c @ calls\<rparr>)
      else handleSettings ord ref data c)"

fun conn_frame :: "((u32 \<rightharpoonup> sref) \<Rightarrow> sref list) \<Rightarrow> eref \<Rightarrow> Frame \<Rightarrow> rawConn \<Rightarrow> (go_error option \<times> rawConn) option" where
  "conn_frame ord ref (PingFrame flags data) c = do { c \<leftarrow> conn_processPingFrame flags data c; Some (None, c) }"
| "conn_frame ord ref (DataFrame sid flags data) c = conn_processDataFrame ref sid flags data c"
| "conn_frame ord ref (ResetFrame sid flags err) c = conn_processResetFrame sid flags err c"
| "conn_frame ord ref (WindowFrame sid _ increment) c = conn_processWindowFrame ref sid increment c"
| "conn_frame ord ref (SettingsFrame flags data) c = conn_processSettingsFrame ord ref flags data c"
| "conn_frame ord ref (UnknownFrame _ _ _ _) c = Some (Some (ErrCode EUNKNOWNFRAME), c)"

definition conn_processFrame :: "((u32 \<rightharpoonup> sref) \<Rightarrow> sref list) \<Rightarrow> eref \<Rightarrow> Frame \<Rightarrow> rawConn \<Rightarrow> (bool \<times> rawConn) option" where
  "conn_processFrame ord ref frame c = do {
     (err, c) \<leftarrow> conn_frame ord ref frame c;
     if err \<noteq> None then do { (_, c) \<leftarrow> conn_closeWithError ord (ref + 1) err c; Some (False, c) }
     else Some (True, c)
   }"

text \<open>
  The read loop over the frames that arrive and the error that ends the input; then every ping,
  stream and settings callback that is left is failed.
\<close>

fun readloop_frames :: "((u32 \<rightharpoonup> sref) \<Rightarrow> sref list) \<Rightarrow> eref \<Rightarrow> Frame list \<Rightarrow> go_error \<Rightarrow> rawConn \<Rightarrow> rawConn option" where
  "readloop_frames ord ref [] e c = do { (_, c) \<leftarrow> conn_closeWithError ord ref (Some e) c; Some c }"
| "readloop_frames ord ref (f # fs) e c = do {
     (ok, c) \<leftarrow> conn_processFrame ord ref f c;
     if ok then readloop_frames ord (ref + 2) fs e c else Some c
   }"

definition readloop_end :: "((u32 \<rightharpoonup> sref) \<Rightarrow> sref list) \<Rightarrow> PingData list \<Rightarrow> rawConn \<Rightarrow> rawConn option" where
  "readloop_end ord pord c = do {
     let err = conn_Err c;
     let (calls, p, out) = pings_fail pord err (c_pings c) (c_outgoing c);
     let c = c\<lparr>c_pings := p, c_outgoing := out, c_calls := c_calls c @ map snd calls\<rparr>;
     e \<leftarrow> err;
     c \<leftarrow> streams_failLocked ord e c;
     let (calls, s) = settings_failLocked err (c_settings c);
     Some (c\<lparr>c_settings := s, c_calls := c_calls c @ calls, c_finishgroup := c_finishgroup c - 1\<rparr>)
   }"

section \<open>The write loop\<close>

text \<open>
  One round of the loop of \<^verbatim>\<open>writeFrames\<close> while it holds the lock of the outgoing state: what it
  writes next. The streams taken out of a queue have their flag cleared in the heap.
\<close>

datatype job = Blocked_job | Fail_job go_error | PingAck_job "PingData list" | Ping_job "PingData list" | SettingsAck_job
  | Ctrl_job sref | Data_job sref | Done_job

definition writeFrames_next :: "rawConn \<Rightarrow> (job \<times> rawConn) option" where
  "writeFrames_next c =
     (let out = c_outgoing c
      in if 0 < o_blocked out then Some (Blocked_job, c)
         else case o_err out of
           Some err \<Rightarrow> Some (Fail_job err, c)
         | None \<Rightarrow>
             if 0 < length (o_pingAcks out) then Some (PingAck_job (o_pingAcks out), c\<lparr>c_outgoing := out\<lparr>o_pingAcks := []\<rparr>\<rparr>)
             else if 0 < length (o_pingQueue out) then Some (Ping_job (o_pingQueue out), c\<lparr>c_outgoing := out\<lparr>o_pingQueue := []\<rparr>\<rparr>)
             else if 0 < o_settingsAcks out then Some (SettingsAck_job, c\<lparr>c_outgoing := out\<lparr>o_settingsAcks := o_settingsAcks out - 1\<rparr>\<rparr>)
             else if 0 < q_size (o_ctrl out) then do {
               (r, q) \<leftarrow> queue_take (o_ctrl out);
               r \<leftarrow> r;
               s \<leftarrow> c_heap c r;
               Some (Ctrl_job r, c\<lparr>c_outgoing := out\<lparr>o_ctrl := q\<rparr>, c_heap := (c_heap c)(r \<mapsto> s\<lparr>s_inctrl := False\<rparr>)\<rparr>)
             }
             else if 0 < q_size (o_data out) then do {
               (r, q) \<leftarrow> queue_take (o_data out);
               r \<leftarrow> r;
               s \<leftarrow> c_heap c r;
               Some (Data_job r, c\<lparr>c_outgoing := out\<lparr>o_data := q\<rparr>, c_heap := (c_heap c)(r \<mapsto> s\<lparr>s_indata := False\<rparr>)\<rparr>)
             }
             else Some (Done_job, c\<lparr>c_outgoing := out\<lparr>o_writeready := False\<rparr>\<rparr>))"

text \<open>The frames of a job that is not a stream's.\<close>

fun job_frames :: "job \<Rightarrow> Frame list" where
  "job_frames (Fail_job err) = [ResetFrame 0 0 err]"
| "job_frames (PingAck_job ds) = map (PingFrame FlagPingAck) ds"
| "job_frames (Ping_job ds) = map (PingFrame 0) ds"
| "job_frames SettingsAck_job = [SettingsFrame FlagSettingsAck []]"
| "job_frames _ = []"

text \<open>
  \<^verbatim>\<open>writeloop\<close> around it: after \<^verbatim>\<open>writeFrames\<close> has returned true without anything written
  since the last time and nothing buffered, an empty DATA frame on stream 0 keeps the connection alive.
\<close>

definition keepalive :: "bool \<Rightarrow> time \<Rightarrow> time \<Rightarrow> int \<Rightarrow> Frame option" where
  "keepalive ok lastwrite newlastwrite buffered =
     (if ok \<and> lastwrite = newlastwrite \<and> buffered = 0 then Some (DataFrame 0 0 []) else None)"

definition write_deadline :: "time \<Rightarrow> rawConn \<Rightarrow> time" where
  "write_deadline lastwrite c = lastwrite + (z_remoteInactivityTimeout (c_settings c) * 2) div 3"

end
