(* ===== verification/Conn_Inv.thy ===== *)
theory Conn_Inv
  imports Raw_Conn
begin

text \<open>
  The invariant of a connection, kept by everything that happens to it: each stream in the heap
  satisfies its own invariant, it is in a queue exactly when its flag says so, and it is in the table
  of live streams exactly as long as it is not fully closed.
\<close>

unbundle bit_operations_syntax

section \<open>The invariant\<close>

abbreviation ctrls :: "rawConn \<Rightarrow> sref list" where "ctrls c \<equiv> queue_elems (o_ctrl (c_outgoing c))"
abbreviation datas :: "rawConn \<Rightarrow> sref list" where "datas c \<equiv> queue_elems (o_data (c_outgoing c))"
abbreviation local_window :: "rawConn \<Rightarrow> int" where "local_window c \<equiv> z_localStreamWindowSize (c_settings c)"

definition heap_inv :: "rawConn \<Rightarrow> bool" where
  "heap_inv c \<longleftrightarrow> (\<forall>r s. c_heap c r = Some s \<longrightarrow> s_ref s = r \<and> stream_inv (local_window c) s \<and>
     (s_inctrl s \<longleftrightarrow> r \<in> set (ctrls c)) \<and> (s_indata s \<longleftrightarrow> r \<in> set (datas c)) \<and>
     (st_live (c_streams c) (s_streamID s) = Some r \<longleftrightarrow> \<not> fully_closed s))"

definition table_inv :: "rawConn \<Rightarrow> bool" where
  "table_inv c \<longleftrightarrow> (\<forall>sid r. st_live (c_streams c) sid = Some r \<longrightarrow> (\<exists>s. c_heap c r = Some s \<and> s_streamID s = sid))"

definition refs_inv :: "rawConn \<Rightarrow> bool" where
  "refs_inv c \<longleftrightarrow> outgoing_inv (c_outgoing c) \<and> distinct (ctrls c) \<and> distinct (datas c) \<and>
     set (ctrls c) \<subseteq> dom (c_heap c) \<and> set (datas c) \<subseteq> dom (c_heap c) \<and>
     dom (c_heap c) \<subseteq> {..<c_nextref c} \<and> c_nextref c \<le> queue_cap"

definition misc_inv :: "rawConn \<Rightarrow> bool" where
  "misc_inv c \<longleftrightarrow> (c_closedchan c \<longleftrightarrow> c_failure c \<noteq> None) \<and> 0 \<le> local_window c \<and> local_window c < 2 ^ 31 \<and>
     0 \<le> z_remoteStreamWindowSize (c_settings c) \<and>
     (p_err (c_pings c) = None \<longleftrightarrow> p_pings (c_pings c) \<noteq> None)"

definition conn_inv :: "rawConn \<Rightarrow> bool" where
  "conn_inv c \<longleftrightarrow> heap_inv c \<and> table_inv c \<and> refs_inv c \<and> misc_inv c"

lemma NewRawConn_inv: "conn_inv (NewRawConn server)"
  by (simp add: conn_inv_def heap_inv_def table_inv_def refs_inv_def misc_inv_def NewRawConn_def settings_init_def pings_init_def
      outgoing_init_inv, simp add: outgoing_init_def streams_init_def)

section \<open>Streams in their connection\<close>

lemma in_world_simps [simp]:
  "rawStream.truncate (in_world s out st) = s" "w_out (in_world s out st) = out" "w_streams (in_world s out st) = st"
  "s_ref (in_world s out st) = s_ref s" "s_streamID (in_world s out st) = s_streamID s" "s_flags (in_world s out st) = s_flags s"
  "s_inctrl (in_world s out st) = s_inctrl s" "s_indata (in_world s out st) = s_indata s" "s_err (in_world s out st) = s_err s"
  "rd_err (in_world s out st) = rd_err s" "wr_err (in_world s out st) = wr_err s" "wr_wired (in_world s out st) = wr_wired s"
  by (cases s, simp add: in_world_def rawStream.defs sworld.defs)+

lemma truncate_simps [simp]:
  "s_ref (rawStream.truncate w) = s_ref w" "s_streamID (rawStream.truncate w) = s_streamID w" "s_flags (rawStream.truncate w) = s_flags w"
  "s_inctrl (rawStream.truncate w) = s_inctrl w" "s_indata (rawStream.truncate w) = s_indata w" "s_err (rawStream.truncate w) = s_err w"
  "rd_err (rawStream.truncate w) = rd_err w" "wr_err (rawStream.truncate w) = wr_err w"
  "wr_wired (rawStream.truncate w) = wr_wired w"
  by (simp_all add: rawStream.defs)

lemma stream_inv_world [simp]:
  "stream_inv W (in_world s out st) = stream_inv W s" "stream_inv W (rawStream.truncate w) = stream_inv W w"
  "fully_closed (in_world s out st) = fully_closed s" "fully_closed (rawStream.truncate w) = fully_closed w"
  by (cases s, simp add: stream_inv_defs in_world_def rawStream.defs sworld.defs)
    (simp_all add: stream_inv_defs rawStream.defs fully_closed_def)

lemma queue_room:
  assumes "distinct xs" "set xs \<subseteq> dom h" "dom h \<subseteq> {..<n}" "n \<le> queue_cap" "h r = Some s" "(b :: bool) \<longleftrightarrow> r \<in> set xs"
  shows "length xs < queue_cap + (if b then 1 else 0)"
proof -
  have fin: "finite (dom h)" using assms(3) finite_subset by blast
  have card: "card (dom h) \<le> n" using card_mono [OF _ assms(3)] by simp
  have len: "length xs = card (set xs)" using assms(1) by (simp add: distinct_card)
  show ?thesis
  proof (cases b)
    case True
    have "card (set xs) \<le> card (dom h)" by (rule card_mono [OF fin assms(2)])
    with True len card assms(4) show ?thesis by simp
  next
    case False
    then have "set xs \<subseteq> dom h - {r}" using assms(2,6) by auto
    then have "card (set xs) \<le> card (dom h - {r})" using fin by (intro card_mono) auto
    also have "\<dots> < card (dom h)" using assms(5) fin by (intro card_Diff1_less) auto
    finally show ?thesis using False len card assms(4) by simp
  qed
qed

lemma world_of_conn:
  assumes "conn_inv c" "c_heap c r = Some s"
  shows "world_inv (local_window c) (in_world s (c_outgoing c) (c_streams c))"
proof -
  have h: "s_ref s = r" "stream_inv (local_window c) s" "s_inctrl s \<longleftrightarrow> r \<in> set (ctrls c)" "s_indata s \<longleftrightarrow> r \<in> set (datas c)"
    "st_live (c_streams c) (s_streamID s) = Some r \<longleftrightarrow> \<not> fully_closed s"
    using assms by (auto simp: conn_inv_def heap_inv_def)
  have q: "outgoing_inv (c_outgoing c)" "distinct (ctrls c)" "distinct (datas c)" "set (ctrls c) \<subseteq> dom (c_heap c)"
    "set (datas c) \<subseteq> dom (c_heap c)" "dom (c_heap c) \<subseteq> {..<c_nextref c}" "c_nextref c \<le> queue_cap"
    using assms(1) by (simp_all add: conn_inv_def refs_inv_def)
  have "length (ctrls c) < queue_cap + (if s_inctrl s then 1 else 0)" "length (datas c) < queue_cap + (if s_indata s then 1 else 0)"
    using queue_room [OF q(2,4,6,7) assms(2) h(3)] queue_room [OF q(3,5,6,7) assms(2) h(4)] .
  with h q show ?thesis by (simp add: world_inv_def queues_inv_def gone_inv_def)
qed

text \<open>What a section of one stream leaves of the connection; the errors of a stream are final.\<close>

definition errors_kept :: "rawStream \<Rightarrow> rawStream \<Rightarrow> bool" where
  "errors_kept s s' \<longleftrightarrow> s_streamID s' = s_streamID s \<and> (s_err s \<noteq> None \<longrightarrow> s_err s' = s_err s) \<and> (rd_err s \<noteq> None \<longrightarrow> rd_err s' = rd_err s) \<and>
     (wr_err s \<noteq> None \<longrightarrow> wr_err s' = wr_err s) \<and> (wr_wired s' = wr_wired s \<or> wr_wired s' = 0)"

lemma errors_kept_trans: "errors_kept a b \<Longrightarrow> errors_kept b c \<Longrightarrow> errors_kept a c"
  by (auto simp: errors_kept_def)

definition streams_kept :: "rawConn \<Rightarrow> rawConn \<Rightarrow> bool" where
  "streams_kept c c' \<longleftrightarrow> (\<forall>r s. c_heap c r = Some s \<longrightarrow> (\<exists>s'. c_heap c' r = Some s' \<and> errors_kept s s'))"

lemma streams_kept_trans: "streams_kept a b \<Longrightarrow> streams_kept b c \<Longrightarrow> streams_kept a c"
  unfolding streams_kept_def by (meson errors_kept_trans)

definition conn_keeps :: "rawConn \<Rightarrow> rawConn \<Rightarrow> bool" where
  "conn_keeps c c' \<longleftrightarrow> c_failure c' = c_failure c \<and> c_closedchan c' = c_closedchan c \<and> c_shutdownchan c' = c_shutdownchan c \<and>
     c_pings c' = c_pings c \<and> c_settings c' = c_settings c \<and> c_nextref c' = c_nextref c \<and> c_spawned c' = c_spawned c \<and>
     c_calls c' = c_calls c \<and> dom (c_heap c') = dom (c_heap c) \<and> st_err (c_streams c') = st_err (c_streams c) \<and>
     st_live (c_streams c') \<subseteq>\<^sub>m st_live (c_streams c) \<and> o_err (c_outgoing c') = o_err (c_outgoing c) \<and>
     st_flag (c_streams c') = st_flag (c_streams c) \<and> st_next (c_streams c') = st_next (c_streams c) \<and>
     c_finishgroup c' = c_finishgroup c \<and> c_shutdowngroup c' = c_shutdowngroup c \<and>
     streams_kept c c'"

lemma conn_keeps_refl: "conn_keeps c c"
  by (simp add: conn_keeps_def streams_kept_def errors_kept_def)

lemma conn_keeps_trans: "conn_keeps a b \<Longrightarrow> conn_keeps b c \<Longrightarrow> conn_keeps a c"
  using map_le_trans [of "st_live (c_streams c)" "st_live (c_streams b)" "st_live (c_streams a)"] streams_kept_trans [of a b c]
  by (simp add: conn_keeps_def)

definition after_section :: "sref \<Rightarrow> sworld \<Rightarrow> rawConn \<Rightarrow> rawConn" where
  "after_section r w c = c\<lparr>c_heap := (c_heap c)(r \<mapsto> rawStream.truncate w), c_outgoing := w_out w, c_streams := w_streams w\<rparr>"

lemma with_stream_eq:
  "c_heap c r = Some s \<Longrightarrow> f (in_world s (c_outgoing c) (c_streams c)) = Some (x, w') \<Longrightarrow>
   with_stream r f c = Some (x, after_section r w' c)"
  by (simp add: with_stream_def after_section_def)

lemma after_section_inv:
  assumes inv: "conn_inv c" and r: "c_heap c r = Some s"
    and x: "section_ok (local_window c) (in_world s (c_outgoing c) (c_streams c)) w'"
  shows "conn_inv (after_section r w' c)" "st_live (w_streams w') \<subseteq>\<^sub>m st_live (c_streams c)"
    "st_err (w_streams w') = st_err (c_streams c)" "st_flag (w_streams w') = st_flag (c_streams c)"
    "st_next (w_streams w') = st_next (c_streams c)" "o_err (w_out w') = o_err (c_outgoing c)"
proof -
  let ?w = "in_world s (c_outgoing c) (c_streams c)" and ?c = "after_section r w' c"
  note cd [simp] = after_section_def
  note wi = world_of_conn [OF inv r]
  have wi': "world_inv (local_window c) w'" by (rule section_world_inv [OF wi x])
  have h: "s_ref s = r" "st_live (c_streams c) (s_streamID s) = Some r \<longleftrightarrow> \<not> fully_closed s"
    using inv r by (auto simp: conn_inv_def heap_inv_def)
  have st: "s_ref w' = r" "s_streamID w' = s_streamID s" using section_flags(3,4) [OF x] h(1) by simp_all
  have sc: "sched ?w (w_out w') (s_inctrl w') (s_indata w')" using x by (simp add: section_ok_def)
  have qe: "set (queue_elems (o_ctrl (w_out w'))) \<subseteq> insert r (set (ctrls c))" "set (ctrls c) \<subseteq> set (queue_elems (o_ctrl (w_out w')))"
    "set (queue_elems (o_data (w_out w'))) \<subseteq> insert r (set (datas c))" "set (datas c) \<subseteq> set (queue_elems (o_data (w_out w')))"
    using sc h(1) by (auto simp: sched_def added_def split: if_splits)
  have ts: "w_streams w' = (if fully_closed w' \<and> \<not> fully_closed s then streams_remove (c_streams c) (s_streamID s) r else c_streams c)"
    using x h(1) by (simp add: section_ok_def table_step_def)
  have live: "st_live (w_streams w') sid = (if sid = s_streamID s \<and> fully_closed w' then
       (if st_live (c_streams c) sid = Some r then None else st_live (c_streams c) sid) else st_live (c_streams c) sid)" for sid
    using ts h(2) section_flags(2) [OF x] by (auto simp: streams_remove_def)
  have "heap_inv ?c" unfolding heap_inv_def
  proof (intro allI impI)
    fix r2 s2
    assume r2: "c_heap ?c r2 = Some s2"
    show "s_ref s2 = r2 \<and> stream_inv (local_window ?c) s2 \<and> (s_inctrl s2 \<longleftrightarrow> r2 \<in> set (ctrls ?c)) \<and> (s_indata s2 \<longleftrightarrow> r2 \<in> set (datas ?c)) \<and>
        (st_live (c_streams ?c) (s_streamID s2) = Some r2 \<longleftrightarrow> \<not> fully_closed s2)"
    proof (cases "r2 = r")
      case True
      have "fully_closed s \<Longrightarrow> fully_closed w'" using section_flags(2) [OF x] by simp
      with True r2 wi' st live [of "s_streamID s"] h(2) show ?thesis
        by (auto simp: world_inv_def queues_inv_def)
    next
      case False
      then have "c_heap c r2 = Some s2" using r2 by simp
      then have o: "s_ref s2 = r2" "stream_inv (local_window c) s2" "s_inctrl s2 \<longleftrightarrow> r2 \<in> set (ctrls c)" "s_indata s2 \<longleftrightarrow> r2 \<in> set (datas c)"
        "st_live (c_streams c) (s_streamID s2) = Some r2 \<longleftrightarrow> \<not> fully_closed s2"
        using inv by (auto simp: conn_inv_def heap_inv_def)
      then show ?thesis using False qe live [of "s_streamID s2"] by auto
    qed
  qed
  moreover have "table_inv ?c" unfolding table_inv_def
  proof (intro allI impI)
    fix sid r2
    assume "st_live (c_streams ?c) sid = Some r2"
    then have "st_live (c_streams c) sid = Some r2" using live [of sid] by (auto split: if_splits)
    then obtain s2 where "c_heap c r2 = Some s2" "s_streamID s2 = sid" using inv by (auto simp: conn_inv_def table_inv_def)
    then show "\<exists>s. c_heap ?c r2 = Some s \<and> s_streamID s = sid" using r st(2) by (cases "r2 = r") auto
  qed
  moreover have "refs_inv ?c"
  proof -
    have "dom (c_heap ?c) = dom (c_heap c)" using r by auto
    then show ?thesis using inv qe wi' r by (auto simp: refs_inv_def conn_inv_def world_inv_def queues_inv_def)
  qed
  moreover have "misc_inv ?c" using inv by (simp add: misc_inv_def conn_inv_def)
  ultimately show "conn_inv ?c" by (simp add: conn_inv_def)
  show "st_live (w_streams w') \<subseteq>\<^sub>m st_live (c_streams c)" using live by (auto simp: map_le_def split: if_splits)
  show "st_err (w_streams w') = st_err (c_streams c)" "st_flag (w_streams w') = st_flag (c_streams c)" "st_next (w_streams w') = st_next (c_streams c)"
    using ts by (simp_all add: streams_remove_def)
  show "o_err (w_out w') = o_err (c_outgoing c)" using sc by (simp add: sched_def)
qed

lemma with_stream_ok:
  assumes inv: "conn_inv c" and r: "c_heap c r = Some s"
    and f: "\<And>w. world_inv (local_window c) w \<Longrightarrow> \<exists>x w'. f w = Some (x, w') \<and> section_ok (local_window c) w w' \<and>
      (wr_wired w' = wr_wired w \<or> wr_wired w' = 0) \<and> P x w'"
  shows "\<exists>x c'. with_stream r f c = Some (x, c') \<and> conn_inv c' \<and> conn_keeps c c' \<and>
    (\<exists>w'. P x w' \<and> c_heap c' r = Some (rawStream.truncate w'))"
proof -
  let ?w = "in_world s (c_outgoing c) (c_streams c)"
  obtain x w' where x: "f ?w = Some (x, w')" "section_ok (local_window c) ?w w'" "P x w'" "wr_wired w' = wr_wired ?w \<or> wr_wired w' = 0"
    using f [OF world_of_conn [OF inv r]] by blast
  note ai = after_section_inv [OF inv r x(2)]
  have "sticky ?w w'" using x(2) by (simp add: section_ok_def)
  then have "errors_kept s (rawStream.truncate w')" using x(4) by (auto simp: errors_kept_def sticky_def)
  then have "streams_kept c (after_section r w' c)" using r by (auto simp: streams_kept_def after_section_def errors_kept_def)
  then have "conn_keeps c (after_section r w' c)" using ai(2-6) r by (auto simp: conn_keeps_def after_section_def)
  moreover have "c_heap (after_section r w' c) r = Some (rawStream.truncate w')" by (simp add: after_section_def)
  ultimately show ?thesis using with_stream_eq [where f = f, OF r x(1)] ai(1) x(3) by blast
qed

section \<open>Closing\<close>

lemma close_stream_ok:
  assumes "conn_inv c" "c_heap c r = Some s"
  shows "\<exists>x c'. with_stream r (stream_CloseWithError err) c = Some (x, c') \<and> conn_inv c' \<and> conn_keeps c c' \<and>
    (\<exists>s'. c_heap c' r = Some s' \<and> s_err s' \<noteq> None)"
proof -
  have "\<exists>x w'. stream_CloseWithError err w = Some (x, w') \<and> section_ok (local_window c) w w' \<and>
      (wr_wired w' = wr_wired w \<or> wr_wired w' = 0) \<and> s_err w' \<noteq> None"
    if "world_inv (local_window c) w" for w
    using closeWithErrorLocked_ok [OF that, of err] closeWithErrorLocked_keeps [of w err]
    unfolding stream_CloseWithError_def keeps_def by blast
  from with_stream_ok [where P = "\<lambda>x w'. s_err w' \<noteq> None", OF assms this] show ?thesis by fastforce
qed

lemma close_streams_ok:
  assumes "conn_inv c" "set rs \<subseteq> dom (c_heap c)"
  shows "\<exists>c'. close_streams err rs c = Some c' \<and> conn_inv c' \<and> conn_keeps c c' \<and>
    (\<forall>r \<in> set rs. \<exists>s. c_heap c' r = Some s \<and> s_err s \<noteq> None)"
  using assms
proof (induction rs arbitrary: c)
  case Nil
  then show ?case by (simp add: conn_keeps_refl)
next
  case (Cons r rs)
  then obtain s where "c_heap c r = Some s" by auto
  from close_stream_ok [OF Cons.prems(1) this, of err] obtain x c1 s1 where
    c1: "with_stream r (stream_CloseWithError err) c = Some (x, c1)" "conn_inv c1" "conn_keeps c c1" "c_heap c1 r = Some s1" "s_err s1 \<noteq> None"
    by blast
  have "set rs \<subseteq> dom (c_heap c1)" using Cons.prems(2) c1(3) by (simp add: conn_keeps_def)
  from Cons.IH [OF c1(2) this] obtain c2 where
    c2: "close_streams err rs c1 = Some c2" "conn_inv c2" "conn_keeps c1 c2" "\<forall>r \<in> set rs. \<exists>s. c_heap c2 r = Some s \<and> s_err s \<noteq> None" by blast
  have "\<exists>s. c_heap c2 r = Some s \<and> s_err s \<noteq> None"
    using c2(3) c1(4,5) unfolding conn_keeps_def streams_kept_def errors_kept_def by metis
  then show ?case using c1(1) c2 conn_keeps_trans [OF c1(3) c2(3)] by auto
qed

text \<open>The order in which Go visits the table: each live stream exactly once.\<close>

definition visits_all :: "((u32 \<rightharpoonup> sref) \<Rightarrow> sref list) \<Rightarrow> bool" where
  "visits_all ord \<longleftrightarrow> (\<forall>m. set (ord m) = ran m)"

definition all_closed :: "rawConn \<Rightarrow> bool" where
  "all_closed c \<longleftrightarrow> (\<forall>sid r. st_live (c_streams c) sid = Some r \<longrightarrow> (\<exists>s. c_heap c r = Some s \<and> s_err s \<noteq> None))"

lemma live_in_heap: "conn_inv c \<Longrightarrow> ran (st_live (c_streams c)) \<subseteq> dom (c_heap c)"
  by (force simp: conn_inv_def table_inv_def ran_def)

lemma conn_inv_st_err: "conn_inv (c\<lparr>c_streams := (c_streams c)\<lparr>st_err := e\<rparr>\<rparr>) = conn_inv c"
  by (simp add: conn_inv_def heap_inv_def table_inv_def refs_inv_def misc_inv_def)

lemma streams_failLocked_ok:
  assumes ord: "visits_all ord" and inv: "conn_inv c" and closed: "st_err (c_streams c) \<noteq> None \<longrightarrow> all_closed c"
  shows "\<exists>c'. streams_failLocked ord err c = Some c' \<and> conn_inv c' \<and> st_err (c_streams c') \<noteq> None \<and> all_closed c' \<and>
    (\<exists>c0. conn_keeps c0 c' \<and> c0 = c\<lparr>c_streams := (c_streams c)\<lparr>st_err := st_err (c_streams c')\<rparr>\<rparr>)"
proof (cases "st_err (c_streams c)")
  case None
  let ?c = "c\<lparr>c_streams := (c_streams c)\<lparr>st_err := Some err\<rparr>\<rparr>"
  have i: "conn_inv ?c" using inv by (simp add: conn_inv_st_err)
  have o: "set (ord (st_live (c_streams c))) = ran (st_live (c_streams c))" using ord by (simp add: visits_all_def)
  then have "set (ord (st_live (c_streams c))) \<subseteq> dom (c_heap ?c)" using live_in_heap [OF inv] by simp
  from close_streams_ok [OF i this, of "Some err"] obtain c' where
    c': "close_streams (Some err) (ord (st_live (c_streams c))) ?c = Some c'" "conn_inv c'" "conn_keeps ?c c'"
      "\<forall>r \<in> ran (st_live (c_streams c)). \<exists>s. c_heap c' r = Some s \<and> s_err s \<noteq> None" using o by auto
  have "all_closed c'" unfolding all_closed_def
  proof (intro allI impI)
    fix sid r
    assume "st_live (c_streams c') sid = Some r"
    moreover have "st_live (c_streams c') \<subseteq>\<^sub>m st_live (c_streams c)" using c'(3) by (simp add: conn_keeps_def)
    ultimately have "st_live (c_streams c) sid = Some r" by (metis domI map_le_def)
    then have "r \<in> ran (st_live (c_streams c))" by (rule ranI)
    with c'(4) show "\<exists>s. c_heap c' r = Some s \<and> s_err s \<noteq> None" by blast
  qed
  moreover have e: "st_err (c_streams c') = Some err" using c'(3) by (simp add: conn_keeps_def)
  moreover have "streams_failLocked ord err c = Some c'" using None c'(1) by (simp add: streams_failLocked_def)
  ultimately show ?thesis using c'(2,3) by (intro exI [of _ c'] conjI exI [of _ ?c]) simp_all
next
  case (Some e)
  then show ?thesis using inv closed by (auto simp: streams_failLocked_def conn_keeps_def streams_kept_def errors_kept_def)
qed

lemma conn_inv_outgoing:
  assumes "conn_inv c" "outgoing_inv out" "o_ctrl out = o_ctrl (c_outgoing c)" "o_data out = o_data (c_outgoing c)"
  shows "conn_inv (c\<lparr>c_outgoing := out\<rparr>)"
  using assms by (simp add: conn_inv_def heap_inv_def table_inv_def refs_inv_def misc_inv_def)

lemma outgoing_ops_queues [simp]:
  "o_ctrl (outgoing_fail out err) = o_ctrl out" "o_data (outgoing_fail out err) = o_data out"
  "o_ctrl (addPingAck out v) = o_ctrl out" "o_data (addPingAck out v) = o_data out"
  "o_ctrl (addPingQueue out v) = o_ctrl out" "o_data (addPingQueue out v) = o_data out"
  "o_ctrl (clearPingQueue out) = o_ctrl out" "o_data (clearPingQueue out) = o_data out"
  "o_ctrl (addSettingsAck out) = o_ctrl out" "o_data (addSettingsAck out) = o_data out"
  by (simp_all add: outgoing_defs)

text \<open>Once the stream table has failed, or the connection, every live stream is closed.\<close>

definition failed_inv :: "rawConn \<Rightarrow> bool" where
  "failed_inv c \<longleftrightarrow> (st_err (c_streams c) \<noteq> None \<longleftrightarrow> c_failure c \<noteq> None) \<and> (c_failure c \<noteq> None \<longrightarrow> all_closed c \<and> o_err (c_outgoing c) \<noteq> None)"

lemma conn_closeWithError_ok:
  assumes ord: "visits_all ord" and inv: "conn_inv c" "failed_inv c"
  shows "\<exists>c'. conn_closeWithError ord ref err c = Some (c_failure c, c') \<and> conn_inv c' \<and> failed_inv c' \<and>
    c_failure c' = (if c_failure c = None then Some (conn_error ref err) else c_failure c) \<and> c_nextref c' = c_nextref c \<and>
    c_pings c' = c_pings c \<and> c_settings c' = c_settings c \<and> c_calls c' = c_calls c \<and> streams_kept c c' \<and> dom (c_heap c') = dom (c_heap c)"
proof (cases "c_failure c")
  case None
  let ?e = "conn_error ref err"
  let ?c = "c\<lparr>c_failure := Some ?e, c_closedchan := True, c_outgoing := clearPingQueue (outgoing_fail (c_outgoing c) ?e)\<rparr>"
  have cl: "\<not> c_closedchan c" using inv(1) None by (simp add: conn_inv_def misc_inv_def)
  have "outgoing_inv (c_outgoing c)" using inv(1) by (simp add: conn_inv_def refs_inv_def)
  then have "conn_inv (c\<lparr>c_outgoing := clearPingQueue (outgoing_fail (c_outgoing c) ?e)\<rparr>)"
    by (intro conn_inv_outgoing inv(1) outgoing_ops_inv) simp_all
  then have i: "conn_inv ?c" by (simp add: conn_inv_def heap_inv_def table_inv_def refs_inv_def misc_inv_def)
  have st: "st_err (c_streams ?c) = None" using inv(2) None by (simp add: failed_inv_def)
  have oe: "o_err (c_outgoing ?c) \<noteq> None" by (simp add: clearPingQueue_def outgoing_fail_def wakeupLocked_def)
  from streams_failLocked_ok [OF ord i, of ?e] st obtain c' where
    c': "streams_failLocked ord ?e ?c = Some c'" "conn_inv c'" "st_err (c_streams c') \<noteq> None" "all_closed c'"
    "conn_keeps (?c\<lparr>c_streams := (c_streams ?c)\<lparr>st_err := st_err (c_streams c')\<rparr>\<rparr>) c'" by auto
  have k: "c_failure c' = Some ?e" "c_nextref c' = c_nextref c" "c_pings c' = c_pings c" "c_settings c' = c_settings c" "c_calls c' = c_calls c"
    "o_err (c_outgoing c') = o_err (c_outgoing ?c)" using c'(5) by (simp_all add: conn_keeps_def)
  moreover have "streams_kept c c'" "dom (c_heap c') = dom (c_heap c)" using c'(5) by (simp_all add: conn_keeps_def streams_kept_def)
  moreover have "conn_closeWithError ord ref err c = Some (None, c')"
    using None c'(1) cl by (simp add: conn_closeWithError_def close_chan_def Let_def)
  ultimately show ?thesis using None c'(2-4) oe by (simp add: failed_inv_def)
next
  case (Some e)
  then show ?thesis using inv by (simp add: conn_closeWithError_def streams_kept_def errors_kept_def)
qed

section \<open>New streams\<close>

lemma conn_ready_fresh:
  assumes "conn_inv c" "c_nextref c < queue_cap"
  shows "conn_ready (c_outgoing c) (c_nextref c)" "c_heap c (c_nextref c) = None"
proof -
  have q: "outgoing_inv (c_outgoing c)" "distinct (ctrls c)" "distinct (datas c)" "set (ctrls c) \<subseteq> {..<c_nextref c}"
    "set (datas c) \<subseteq> {..<c_nextref c}" "dom (c_heap c) \<subseteq> {..<c_nextref c}"
    using assms(1) by (auto simp: conn_inv_def refs_inv_def)
  have "length xs \<le> c_nextref c" if "distinct xs" "set xs \<subseteq> {..<c_nextref c}" for xs
    using that card_mono [of "{..<c_nextref c}" "set xs"] by (simp add: distinct_card)
  then have "length (ctrls c) < queue_cap" "length (datas c) < queue_cap" using q assms(2) by (meson le_less_trans)+
  with q show "conn_ready (c_outgoing c) (c_nextref c)" by (auto simp: conn_ready_def)
  show "c_heap c (c_nextref c) = None" using q(6) by (meson domIff lessThan_iff less_irrefl subsetD)
qed

lemma install_inv:
  assumes inv: "conn_inv c" and nx: "c_nextref c < queue_cap" and sid: "st_live (c_streams c) sid = None"
    and w: "world_inv (local_window c) w" "s_ref w = c_nextref c" "s_streamID w = sid" "\<not> fully_closed w"
      "w_streams w = addLocked (c_streams c) sid (c_nextref c)"
    and q: "queue_elems (o_ctrl (w_out w)) = ctrls c @ (if s_inctrl w then [c_nextref c] else [])"
      "queue_elems (o_data (w_out w)) = datas c" "\<not> s_indata w"
  shows "conn_inv (install w c)"
proof -
  let ?r = "c_nextref c" and ?c = "install w c"
  note fresh = conn_ready_fresh [OF inv nx]
  have lv: "st_live (c_streams ?c) = (st_live (c_streams c))(sid \<mapsto> ?r)" using w(5) by (simp add: install_def addLocked_def)
  have sets: "set (ctrls ?c) = set (ctrls c) \<union> (if s_inctrl w then {?r} else {})" "set (datas ?c) = set (datas c)"
    using q by (auto simp: install_def)
  have "heap_inv ?c" unfolding heap_inv_def
  proof (intro allI impI)
    fix r s
    assume h: "c_heap ?c r = Some s"
    show "s_ref s = r \<and> stream_inv (local_window ?c) s \<and> (s_inctrl s \<longleftrightarrow> r \<in> set (ctrls ?c)) \<and> (s_indata s \<longleftrightarrow> r \<in> set (datas ?c)) \<and>
        (st_live (c_streams ?c) (s_streamID s) = Some r \<longleftrightarrow> \<not> fully_closed s)"
    proof (cases "r = ?r")
      case True
      then have "s = rawStream.truncate w" using h w(2) by (simp add: install_def)
      with True w q(3) lv sets fresh(1) show ?thesis by (auto simp: world_inv_def install_def conn_ready_def)
    next
      case False
      then have "c_heap c r = Some s" using h w(2) by (simp add: install_def)
      then have o: "s_ref s = r" "stream_inv (local_window c) s" "s_inctrl s \<longleftrightarrow> r \<in> set (ctrls c)" "s_indata s \<longleftrightarrow> r \<in> set (datas c)"
        "st_live (c_streams c) (s_streamID s) = Some r \<longleftrightarrow> \<not> fully_closed s"
        using inv by (auto simp: conn_inv_def heap_inv_def)
      have "local_window ?c = local_window c" by (simp add: install_def)
      moreover have "st_live (c_streams ?c) (s_streamID s) = Some r \<longleftrightarrow> st_live (c_streams c) (s_streamID s) = Some r"
        using lv sid False by auto
      ultimately show ?thesis using False o sets by auto
    qed
  qed
  moreover have "table_inv ?c" unfolding table_inv_def
  proof (intro allI impI)
    fix i r
    assume "st_live (c_streams ?c) i = Some r"
    then consider "i = sid" "r = ?r" | "i \<noteq> sid" "st_live (c_streams c) i = Some r" using lv by (auto split: if_splits)
    then show "\<exists>s. c_heap ?c r = Some s \<and> s_streamID s = i"
    proof cases
      case 1
      then show ?thesis using w(2,3) by (simp add: install_def)
    next
      case 2
      then obtain s where s: "c_heap c r = Some s" "s_streamID s = i" using inv by (auto simp: conn_inv_def table_inv_def)
      then have "r \<noteq> ?r" using fresh(2) by auto
      with s w(2) show ?thesis by (simp add: install_def)
    qed
  qed
  moreover have "refs_inv ?c"
  proof -
    have d: "dom (c_heap ?c) = insert ?r (dom (c_heap c))" using w(2) by (auto simp: install_def)
    have n: "c_nextref ?c = Suc ?r" by (simp add: install_def)
    have old: "set (ctrls c) \<subseteq> dom (c_heap c)" "set (datas c) \<subseteq> dom (c_heap c)" "dom (c_heap c) \<subseteq> {..<?r}"
      using inv by (auto simp: conn_inv_def refs_inv_def)
    have "dom (c_heap ?c) \<subseteq> {..<Suc ?r}" using d old(3) by auto
    moreover have "set (ctrls ?c) \<subseteq> dom (c_heap ?c)" "set (datas ?c) \<subseteq> dom (c_heap ?c)" using d sets old by auto
    moreover have "outgoing_inv (w_out w)" "distinct (queue_elems (o_ctrl (w_out w)))" "distinct (queue_elems (o_data (w_out w)))"
      using w(1) by (simp_all add: world_inv_def queues_inv_def)
    ultimately show ?thesis using n nx unfolding refs_inv_def by (simp add: install_def)
  qed
  moreover have "misc_inv ?c" using inv by (simp add: misc_inv_def conn_inv_def install_def)
  ultimately show ?thesis by (simp add: conn_inv_def)
qed

lemma newStream_simps [simp]:
  "w_streams (newStream out st W R ref sid) = addLocked st sid ref" "w_out (newStream out st W R ref sid) = out"
  "s_ref (newStream out st W R ref sid) = ref" "s_streamID (newStream out st W R ref sid) = sid" "s_flags (newStream out st W R ref sid) = 0"
  "s_inctrl (newStream out st W R ref sid) = False" "s_indata (newStream out st W R ref sid) = False"
  "wr_wired (newStream out st W R ref sid) = 0"
  by (simp_all add: newStream_def zero_stream_def read_init_def write_init_def in_world_def rawStream.defs sworld.defs)

lemma incoming_inv:
  assumes inv: "conn_inv c" and nx: "c_nextref c < queue_cap" and sid: "st_live (c_streams c) sid = None"
  shows "conn_inv (install (newIncomingStream (c_outgoing c) (c_streams c) (local_window c) R (c_nextref c) sid) c)"
proof -
  have w: "0 \<le> local_window c" "local_window c < 2 ^ 31" using inv by (simp_all add: conn_inv_def misc_inv_def)
  show ?thesis unfolding newIncomingStream_def
    by (rule install_inv [OF inv nx sid newStream_world_inv [OF conn_ready_fresh(1) [OF inv nx] w]]) (simp_all add: fully_closed_def)
qed

lemma outgoing_stream_inv:
  assumes inv: "conn_inv c" and nx: "c_nextref c < queue_cap" and sid: "st_live (c_streams c) sid = None"
  shows "\<exists>w. newOutgoingStream (c_outgoing c) (c_streams c) (local_window c) R (c_nextref c) sid = Some w \<and> conn_inv (install w c) \<and>
    w_streams w = addLocked (c_streams c) sid (c_nextref c) \<and> s_ref w = c_nextref c \<and> o_err (w_out w) = o_err (c_outgoing c) \<and>
    s_streamID w = sid \<and> wr_wired w = 0"
proof -
  have l: "0 \<le> local_window c" "local_window c < 2 ^ 31" using inv by (simp_all add: conn_inv_def misc_inv_def)
  let ?v = "newStream (c_outgoing c) (c_streams c) (local_window c) R (c_nextref c) sid"
  let ?u = "?v\<lparr>s_flags := s_flags ?v OR flagStreamNeedOpen\<rparr>"
  note vi = newStream_world_inv [OF conn_ready_fresh(1) [OF inv nx] l, of "c_streams c" R sid]
  have q: "queues_inv ?u" using vi by (simp add: world_inv_def)
  from scheduleCtrl_sched [OF q] obtain out where
    o: "scheduleCtrl ?u = Some (?u\<lparr>w_out := out, s_inctrl := True\<rparr>)" "sched ?u out True (s_indata ?u)" by blast
  let ?w = "?u\<lparr>w_out := out, s_inctrl := True\<rparr>"
  have v: "wr_err ?v = None" "rd_err ?v = None"
    by (simp_all add: newStream_def zero_stream_def read_init_def write_init_def in_world_def rawStream.defs sworld.defs)
  have wi: "world_inv (local_window c) ?w" unfolding world_inv_def
  proof (intro conjI)
    show "stream_inv (local_window c) ?w" using vi v by (simp add: world_inv_def stream_inv_defs)
    show "queues_inv ?w" using sched_queues_inv [OF q o(2)] by (simp add: queues_inv_def)
    show "gone_inv ?w" by (simp add: gone_inv_def fully_closed_def)
  qed
  have "conn_inv (install ?w c)"
    by (rule install_inv [OF inv nx sid wi]) (use o(2) in \<open>simp_all add: fully_closed_def sched_def added_def\<close>)
  then show ?thesis using o(1,2) by (simp add: newOutgoingStream_def Let_def sched_def)
qed

section \<open>Incoming frames\<close>

text \<open>An operation on one stream, and the facts about the connection that the frames rely on.\<close>

lemma failed_inv_keeps:
  assumes "failed_inv c" "conn_keeps c c'"
  shows "failed_inv c'"
proof -
  have k: "c_failure c' = c_failure c" "st_err (c_streams c') = st_err (c_streams c)" "o_err (c_outgoing c') = o_err (c_outgoing c)"
    "streams_kept c c'" "st_live (c_streams c') \<subseteq>\<^sub>m st_live (c_streams c)" using assms(2) by (simp_all add: conn_keeps_def)
  have "all_closed c'" if "all_closed c" unfolding all_closed_def
  proof (intro allI impI)
    fix sid r
    assume "st_live (c_streams c') sid = Some r"
    then have "st_live (c_streams c) sid = Some r" using k(5) by (metis domI map_le_def)
    with that obtain s where "c_heap c r = Some s" "s_err s \<noteq> None" unfolding all_closed_def by blast
    with k(4) show "\<exists>s. c_heap c' r = Some s \<and> s_err s \<noteq> None" unfolding streams_kept_def errors_kept_def by metis
  qed
  with assms(1) k show ?thesis by (simp add: failed_inv_def)
qed

lemma stream_section_ok:
  assumes inv: "conn_inv c" "failed_inv c" and r: "c_heap c r = Some s"
    and f: "\<And>w. world_inv (local_window c) w \<Longrightarrow> \<exists>x w'. f w = Some (x, w') \<and> section_ok (local_window c) w w' \<and>
      (wr_wired w' = wr_wired w \<or> wr_wired w' = 0)"
  shows "\<exists>x c'. with_stream r f c = Some (x, c') \<and> conn_inv c' \<and> failed_inv c' \<and> conn_keeps c c'"
  using with_stream_ok [where P = "\<lambda>_ _. True", OF inv(1) r] f failed_inv_keeps [OF inv(2)] by fastforce

lemma live_stream: "conn_inv c \<Longrightarrow> streams_find (c_streams c) sid = Some r \<Longrightarrow> \<exists>s. c_heap c r = Some s \<and> s_streamID s = sid"
  by (auto simp: streams_find_def conn_inv_def table_inv_def)

lemma install_failed:
  assumes "failed_inv c" "c_failure c = None" "st_err (w_streams w) = st_err (c_streams c)"
  shows "failed_inv (install w c)"
  using assms by (simp add: failed_inv_def install_def)

definition wires_kept :: "rawConn \<Rightarrow> rawConn \<Rightarrow> bool" where
  "wires_kept c c' \<longleftrightarrow> (\<forall>r s'. c_heap c' r = Some s' \<longrightarrow> wr_wired s' = 0 \<or> (\<exists>s. c_heap c r = Some s \<and> wr_wired s' = wr_wired s))"

lemma wires_kept_trans: "wires_kept a b \<Longrightarrow> wires_kept b c \<Longrightarrow> wires_kept a c"
  unfolding wires_kept_def by metis

lemma wires_kept_refl: "wires_kept c c"
  by (simp add: wires_kept_def)

lemma streams_kept_wires:
  assumes "streams_kept c c'" "dom (c_heap c') = dom (c_heap c)"
  shows "wires_kept c c'"
  unfolding wires_kept_def
proof (intro allI impI)
  fix r s'
  assume r: "c_heap c' r = Some s'"
  then have "r \<in> dom (c_heap c)" using assms(2) by auto
  then obtain s where s: "c_heap c r = Some s" by auto
  then have "errors_kept s s'" using assms(1) r by (fastforce simp: streams_kept_def)
  with s show "wr_wired s' = 0 \<or> (\<exists>s. c_heap c r = Some s \<and> wr_wired s' = wr_wired s)" by (auto simp: errors_kept_def)
qed

lemma conn_keeps_wires: "conn_keeps c c' \<Longrightarrow> wires_kept c c'"
  using streams_kept_wires [of c c'] by (simp add: conn_keeps_def)

lemma install_wires: "wr_wired w = 0 \<Longrightarrow> wires_kept c (install w c)"
  by (auto simp: wires_kept_def install_def)

definition frame_ok :: "rawConn \<Rightarrow> (go_error option \<times> rawConn) option \<Rightarrow> bool" where
  "frame_ok c res \<longleftrightarrow> (\<exists>err c'. res = Some (err, c') \<and> conn_inv c' \<and> failed_inv c' \<and> c_failure c' = c_failure c \<and>
     c_nextref c' \<le> c_nextref c + 1 \<and> wires_kept c c')"

lemma frame_ok_same: "conn_inv c \<Longrightarrow> failed_inv c \<Longrightarrow> frame_ok c (Some (err, c))"
  by (simp add: frame_ok_def wires_kept_refl)

lemma frame_ok_section:
  assumes "conn_inv c" "failed_inv c" "c_heap c r = Some s"
    and "\<And>w. world_inv (local_window c) w \<Longrightarrow> \<exists>x w'. f w = Some (x, w') \<and> section_ok (local_window c) w w' \<and>
      (wr_wired w' = wr_wired w \<or> wr_wired w' = 0)"
  shows "frame_ok c (with_stream r f c)"
proof -
  obtain x c' where c': "with_stream r f c = Some (x, c')" "conn_inv c'" "failed_inv c'" "conn_keeps c c'"
    using stream_section_ok [OF assms] by blast
  have "c_failure c' = c_failure c" "c_nextref c' \<le> c_nextref c + 1" using c'(4) by (simp_all add: conn_keeps_def)
  with conn_keeps_wires [OF c'(4)] c'(1-3) show ?thesis unfolding frame_ok_def by blast
qed

lemma processDataFrame_section:
  "world_inv W w \<Longrightarrow> \<exists>x w'. stream_processDataFrame ref w data flags = Some (x, w') \<and> section_ok W w w' \<and>
     (wr_wired w' = wr_wired w \<or> wr_wired w' = 0)"
  using processDataLocked_ok [of W w ref data flags] processDataLocked_keeps [of ref w data flags]
  unfolding stream_processDataFrame_def by blast

text \<open>A refused stream is created and closed at once.\<close>

lemma refuse_ok:
  assumes inv: "conn_inv c" "failed_inv c" and nx: "c_nextref c < queue_cap" and sid: "st_live (c_streams c) sid = None"
    and c1: "c1 = install (newIncomingStream (c_outgoing c) (c_streams c) (local_window c) R (c_nextref c) sid) c"
  shows "\<exists>x c'. with_stream (c_nextref c) (stream_CloseWithError err) c1 = Some (x, c') \<and> conn_inv c' \<and> failed_inv c' \<and>
    c_failure c' = c_failure c \<and> c_nextref c' = c_nextref c + 1 \<and> wires_kept c c'"
proof -
  have i: "conn_inv c1" using incoming_inv [OF inv(1) nx sid] c1 by simp
  have h: "\<exists>s. c_heap c1 (c_nextref c) = Some s" using c1 by (simp add: install_def newIncomingStream_def)
  then obtain s where s: "c_heap c1 (c_nextref c) = Some s" by blast
  obtain x c' where c': "with_stream (c_nextref c) (stream_CloseWithError err) c1 = Some (x, c')" "conn_inv c'" "conn_keeps c1 c'"
    "\<exists>s'. c_heap c' (c_nextref c) = Some s' \<and> s_err s' \<noteq> None" using close_stream_ok [OF i s, of err] by blast
  have lv: "st_live (c_streams c1) = (st_live (c_streams c))(sid \<mapsto> c_nextref c)"
    using c1 by (simp add: install_def newIncomingStream_def addLocked_def)
  have st: "st_err (c_streams c1) = st_err (c_streams c)" "c_failure c1 = c_failure c" "o_err (c_outgoing c1) = o_err (c_outgoing c)"
    "c_nextref c1 = c_nextref c + 1"
    using c1 by (simp_all add: install_def newIncomingStream_def addLocked_def)
  have k: "c_failure c' = c_failure c1" "st_err (c_streams c') = st_err (c_streams c1)" "o_err (c_outgoing c') = o_err (c_outgoing c1)"
    "streams_kept c1 c'" "st_live (c_streams c') \<subseteq>\<^sub>m st_live (c_streams c1)" "c_nextref c' = c_nextref c1"
    using c'(3) by (simp_all add: conn_keeps_def)
  have "all_closed c'" if a: "all_closed c" unfolding all_closed_def
  proof (intro allI impI)
    fix i r
    assume "st_live (c_streams c') i = Some r"
    then have "st_live (c_streams c1) i = Some r" using k(5) by (metis domI map_le_def)
    then have "((st_live (c_streams c))(sid \<mapsto> c_nextref c)) i = Some r" by (simp only: lv)
    then consider "r = c_nextref c" | "st_live (c_streams c) i = Some r" by (cases "i = sid") auto
    then show "\<exists>s. c_heap c' r = Some s \<and> s_err s \<noteq> None"
    proof cases
      case 1
      then show ?thesis using c'(4) by simp
    next
      case 2
      with a obtain s where s: "c_heap c r = Some s" "s_err s \<noteq> None" unfolding all_closed_def by blast
      have "r \<noteq> c_nextref c" using s(1) conn_ready_fresh(2) [OF inv(1) nx] by auto
      then have "c_heap c1 r = Some s" using s(1) c1 by (simp add: install_def newIncomingStream_def)
      with s(2) k(4) show ?thesis unfolding streams_kept_def errors_kept_def by metis
    qed
  qed
  then have "failed_inv c'" using inv(2) st k by (simp add: failed_inv_def)
  moreover have "wires_kept c c'" using install_wires wires_kept_trans conn_keeps_wires [OF c'(3)]
    unfolding c1 newIncomingStream_def by (metis newStream_simps(8))
  ultimately show ?thesis using c'(1,2) k(1,6) st(2,4) by (intro exI conjI) (assumption | simp)+
qed

lemma processDataFrame_ok:
  assumes inv: "conn_inv c" "failed_inv c" and nx: "c_nextref c < queue_cap"
  shows "frame_ok c (conn_processDataFrame ref sid flags data c)"
proof (cases "sid \<noteq> 0 \<and> flags_Has flags FlagDataOpen \<and> \<not> isOwnedID (c_streams c) sid \<and> streams_find (c_streams c) sid = None \<and> zlen data \<le> local_window c")
  case True
  then have sid: "st_live (c_streams c) sid = None" by (simp add: streams_find_def)
  let ?r = "c_nextref c"
  define c1 where "c1 = install (newIncomingStream (c_outgoing c) (c_streams c) (local_window c) (z_remoteStreamWindowSize (c_settings c)) ?r sid) c"
  have f1: "c_failure c1 = c_failure c" "c_shutdownchan c1 = c_shutdownchan c" "c_nextref c1 = c_nextref c + 1" "local_window c1 = local_window c"
    by (simp_all add: c1_def install_def)
  have e: "conn_processDataFrame ref sid flags data c =
     (if c_failure c1 \<noteq> None then do { (_, c) \<leftarrow> with_stream ?r (stream_CloseWithError (c_failure c1)) c1; Some (None, c) }
      else if c_shutdownchan c1 then do { (_, c) \<leftarrow> with_stream ?r (stream_CloseWithError (Some (ErrCode ECONNSHUTDOWN))) c1; Some (None, c) }
      else with_stream ?r (\<lambda>w. stream_processDataFrame ref w data flags)
         (c1\<lparr>c_finishgroup := c_finishgroup c1 + 1, c_shutdowngroup := c_shutdowngroup c1 + 1, c_spawned := c_spawned c1 @ [?r]\<rparr>))"
    using True unfolding conn_processDataFrame_def Let_def by (simp add: c1_def)
  note ref = refuse_ok [OF inv nx sid c1_def]
  show ?thesis
  proof (cases "c_failure c1 \<noteq> None \<or> c_shutdownchan c1")
    case True
    then show ?thesis using ref [of "c_failure c1"] ref [of "Some (ErrCode ECONNSHUTDOWN)"] unfolding e
      by (cases "c_failure c1 \<noteq> None") (auto simp: frame_ok_def)
  next
    case False
    let ?c = "c1\<lparr>c_finishgroup := c_finishgroup c1 + 1, c_shutdowngroup := c_shutdowngroup c1 + 1, c_spawned := c_spawned c1 @ [?r]\<rparr>"
    have i: "conn_inv c1" using incoming_inv [OF inv(1) nx sid] by (simp add: c1_def)
    then have i': "conn_inv ?c" by (simp add: conn_inv_def heap_inv_def table_inv_def refs_inv_def misc_inv_def)
    have "failed_inv c1" unfolding c1_def
      using False f1 by (intro install_failed [OF inv(2)]) (simp_all add: newIncomingStream_def addLocked_def)
    then have "failed_inv ?c" by (simp add: failed_inv_def all_closed_def)
    moreover obtain s where "c_heap ?c ?r = Some s" by (simp add: c1_def install_def newIncomingStream_def)
    ultimately obtain x c' where c': "with_stream ?r (\<lambda>w. stream_processDataFrame ref w data flags) ?c = Some (x, c')" "conn_inv c'" "failed_inv c'" "conn_keeps ?c c'"
      using stream_section_ok [OF i', of ?r s "\<lambda>w. stream_processDataFrame ref w data flags"] processDataFrame_section by blast
    have "wires_kept c c1" unfolding c1_def newIncomingStream_def by (rule install_wires) simp
    then have "wires_kept c ?c" by (simp add: wires_kept_def)
    with conn_keeps_wires [OF c'(4)] have "wires_kept c c'" using wires_kept_trans by blast
    with c' show ?thesis unfolding e using False f1 by (simp add: frame_ok_def conn_keeps_def)
  qed
next
  case False
  show ?thesis
  proof (cases "streams_find (c_streams c) sid")
    case None
    with False show ?thesis using inv
      by (auto simp: conn_processDataFrame_def Let_def intro!: frame_ok_same)
  next
    case (Some r)
    then obtain s where "c_heap c r = Some s" using live_stream [OF inv(1)] by blast
    then have "frame_ok c (with_stream r (\<lambda>w. stream_processDataFrame ref w data flags) c)"
      using inv processDataFrame_section by (intro frame_ok_section) auto
    with Some show ?thesis using inv
      by (auto simp: conn_processDataFrame_def Let_def intro!: frame_ok_same)
  qed
qed

end
