(* ===== verification/Conn_Run.thy ===== *)
theory Conn_Run
  imports Conn_Inv
begin

text \<open>
  A connection at work: the read loop delivers frames, users open streams and call their methods,
  timers fire, and the write loop takes one job after the other, section by section. All of this may
  interleave; the invariant of the connection holds throughout, and nothing panics.
\<close>

unbundle bit_operations_syntax

section \<open>The other frames\<close>

lemma conn_inv_others [simp]:
  "conn_inv (c\<lparr>c_calls := x\<rparr>) = conn_inv c" "failed_inv (c\<lparr>c_calls := x\<rparr>) = failed_inv c" "wires_kept c (c'\<lparr>c_calls := x\<rparr>) = wires_kept c c'"
  "conn_inv (c\<lparr>c_shutdownchan := b\<rparr>) = conn_inv c" "failed_inv (c\<lparr>c_shutdownchan := b\<rparr>) = failed_inv c"
  "conn_inv (c\<lparr>c_finishgroup := n\<rparr>) = conn_inv c" "failed_inv (c\<lparr>c_finishgroup := n\<rparr>) = failed_inv c"
  "conn_inv (c\<lparr>c_shutdowngroup := n\<rparr>) = conn_inv c" "failed_inv (c\<lparr>c_shutdowngroup := n\<rparr>) = failed_inv c"
  by (simp_all add: conn_inv_def heap_inv_def table_inv_def refs_inv_def misc_inv_def failed_inv_def all_closed_def wires_kept_def)

lemma frame_ok_outgoing:
  assumes "conn_inv c" "failed_inv c" "outgoing_inv out" "o_ctrl out = o_ctrl (c_outgoing c)" "o_data out = o_data (c_outgoing c)"
    "o_err (c_outgoing c) \<noteq> None \<longrightarrow> o_err out \<noteq> None"
  shows "frame_ok c (Some (err, c\<lparr>c_outgoing := out\<rparr>))"
  using conn_inv_outgoing [OF assms(1,3,4,5)] assms(2,6)
  by (auto simp: frame_ok_def failed_inv_def all_closed_def wires_kept_def)

lemma processPingFrame_ok:
  assumes inv: "conn_inv c" "failed_inv c"
  shows "frame_ok c (do { c \<leftarrow> conn_processPingFrame flags data c; Some (None, c) })"
proof (cases "flags_Has flags FlagPingAck")
  case True
  obtain calls p where p: "pings_handleAck data (c_pings c) = Some (calls, p)" "p_err p = p_err (c_pings c)" "p_pings p = None \<longleftrightarrow> p_pings (c_pings c) = None"
    using handleAck_cases [of data "c_pings c"] by fastforce
  have "conn_inv (c\<lparr>c_pings := p\<rparr>)" "failed_inv (c\<lparr>c_pings := p\<rparr>)" "wires_kept c (c\<lparr>c_pings := p\<rparr>)"
    using inv p by (auto simp: conn_inv_def heap_inv_def table_inv_def refs_inv_def misc_inv_def failed_inv_def all_closed_def wires_kept_def)
  then show ?thesis using True p(1) by (simp add: conn_processPingFrame_def frame_ok_def)
next
  case False
  have "outgoing_inv (c_outgoing c)" using inv(1) by (simp add: conn_inv_def refs_inv_def)
  then have "outgoing_inv (addPingAck (c_outgoing c) data)" by (rule outgoing_ops_inv)
  with inv have "frame_ok c (Some (None, c\<lparr>c_outgoing := addPingAck (c_outgoing c) data\<rparr>))"
    by (intro frame_ok_outgoing) (simp_all add: addPingAck_def wakeupLocked_def)
  with False show ?thesis by (simp add: conn_processPingFrame_def handlePing_def)
qed

lemma processResetFrame_ok:
  assumes inv: "conn_inv c" "failed_inv c"
  shows "frame_ok c (conn_processResetFrame sid flags err c)"
proof (cases "sid = 0")
  case True
  have "outgoing_inv (c_outgoing c)" using inv(1) by (simp add: conn_inv_def refs_inv_def)
  then have "outgoing_inv (outgoing_fail (c_outgoing c) (ErrCode ECONNSHUTDOWN))" by (rule outgoing_ops_inv)
  with inv have "frame_ok c (Some (Some err, c\<lparr>c_outgoing := outgoing_fail (c_outgoing c) (ErrCode ECONNSHUTDOWN)\<rparr>))"
    by (intro frame_ok_outgoing) (simp_all add: outgoing_fail_def wakeupLocked_def)
  with True show ?thesis by (simp add: conn_processResetFrame_def)
next
  case False
  show ?thesis
  proof (cases "streams_find (c_streams c) sid")
    case None
    with False show ?thesis using inv by (simp add: conn_processResetFrame_def frame_ok_same)
  next
    case (Some r)
    then obtain s where s: "c_heap c r = Some s" using live_stream [OF inv(1)] by blast
    have "frame_ok c (with_stream r (\<lambda>w. stream_processResetFrame w flags err) c)"
      using stream_processResetFrame_ok [of _ _ flags err] stream_processResetFrame_keeps [of _ flags err]
      by (intro frame_ok_section [OF inv s]) (metis (mono_tags, lifting))
    with False Some show ?thesis using inv by (simp add: conn_processResetFrame_def frame_ok_same)
  qed
qed

lemma processWindowFrame_ok:
  assumes inv: "conn_inv c" "failed_inv c"
  shows "frame_ok c (conn_processWindowFrame ref sid increment c)"
proof (cases "streams_find (c_streams c) sid")
  case None
  then show ?thesis using inv by (simp add: conn_processWindowFrame_def frame_ok_same)
next
  case (Some r)
  then obtain s where s: "c_heap c r = Some s" using live_stream [OF inv(1)] by blast
  have "frame_ok c (with_stream r (\<lambda>w. stream_processWindowFrame ref w increment) c)"
    using stream_processWindowFrame_ok [of _ _ ref increment] stream_processWindowFrame_keeps [of ref _ increment]
    by (intro frame_ok_section [OF inv s]) metis
  with Some show ?thesis by (simp add: conn_processWindowFrame_def)
qed

text \<open>Because no setting is ever found, a SETTINGS frame is only acknowledged.\<close>

lemma handleSettings_eq: "handleSettings ord ref data c = Some (None, c\<lparr>c_outgoing := addSettingsAck (c_outgoing c)\<rparr>)"
proof -
  have "\<exists>v. settings_Value data i = (v, False)" for i using settings_Value_not_ok [of data i] by (cases "settings_Value data i") simp
  then obtain v1 v2 where "settings_Value data SettingStreamWindow = (v1, False)" "settings_Value data SettingInactivityMilliseconds = (v2, False)"
    by blast
  then show ?thesis by (simp add: handleSettings_def)
qed

lemma processSettingsFrame_ok:
  assumes inv: "conn_inv c" "failed_inv c"
  shows "frame_ok c (conn_processSettingsFrame ord ref flags data c)"
proof (cases "flags_Has flags FlagSettingsAck")
  case True
  obtain calls s where s: "settings_handleAck (c_settings c) = (calls, s)" by fastforce
  then have "z_localStreamWindowSize s = local_window c" "z_remoteStreamWindowSize s = z_remoteStreamWindowSize (c_settings c)"
    by (auto simp: settings_handleAck_def split: list.splits)
  then have "conn_inv (c\<lparr>c_settings := s\<rparr>)" "failed_inv (c\<lparr>c_settings := s\<rparr>)" "wires_kept c (c\<lparr>c_settings := s\<rparr>)"
    using inv by (auto simp: conn_inv_def heap_inv_def table_inv_def refs_inv_def misc_inv_def failed_inv_def all_closed_def wires_kept_def)
  with True s show ?thesis by (simp add: conn_processSettingsFrame_def frame_ok_def)
next
  case False
  have "outgoing_inv (c_outgoing c)" using inv(1) by (simp add: conn_inv_def refs_inv_def)
  then have "outgoing_inv (addSettingsAck (c_outgoing c))" by (rule outgoing_ops_inv)
  with inv have "frame_ok c (Some (None, c\<lparr>c_outgoing := addSettingsAck (c_outgoing c)\<rparr>))"
    by (intro frame_ok_outgoing) (simp_all add: addSettingsAck_def wakeupLocked_def)
  with False show ?thesis by (simp add: conn_processSettingsFrame_def handleSettings_eq)
qed

lemma conn_frame_ok:
  assumes "conn_inv c" "failed_inv c" "c_nextref c < queue_cap"
  shows "frame_ok c (conn_frame ord ref f c)"
  using assms processPingFrame_ok processDataFrame_ok processResetFrame_ok processWindowFrame_ok processSettingsFrame_ok frame_ok_same
  by (cases f) simp_all

lemma processFrame_ok:
  assumes ord: "visits_all ord" and inv: "conn_inv c" "failed_inv c" and nx: "c_nextref c < queue_cap"
  shows "\<exists>ok c'. conn_processFrame ord ref f c = Some (ok, c') \<and> conn_inv c' \<and> failed_inv c' \<and> wires_kept c c' \<and>
    (c_failure c \<noteq> None \<longrightarrow> c_failure c' = c_failure c) \<and> c_nextref c' \<le> c_nextref c + 1 \<and> (if ok then c_failure c' = c_failure c else c_failure c' \<noteq> None)"
proof -
  obtain err c1 where c1: "conn_frame ord ref f c = Some (err, c1)" "conn_inv c1" "failed_inv c1" "c_failure c1 = c_failure c"
    "c_nextref c1 \<le> c_nextref c + 1" "wires_kept c c1" using conn_frame_ok [OF inv nx, of ord ref f] unfolding frame_ok_def by blast
  show ?thesis
  proof (cases err)
    case None
    with c1 show ?thesis by (intro exI [of _ True] exI [of _ c1]) (simp add: conn_processFrame_def)
  next
    case (Some e)
    obtain c2 where c2: "conn_closeWithError ord (ref + 1) err c1 = Some (c_failure c1, c2)" "conn_inv c2" "failed_inv c2"
      "c_failure c2 = (if c_failure c1 = None then Some (conn_error (ref + 1) err) else c_failure c1)" "c_nextref c2 = c_nextref c1"
      "streams_kept c1 c2" "dom (c_heap c2) = dom (c_heap c1)"
      using conn_closeWithError_ok [OF ord c1(2,3)] by blast
    have "wires_kept c c2" using wires_kept_trans [OF c1(6) streams_kept_wires [OF c2(6,7)]] .
    with Some c1 c2 show ?thesis by (auto simp: conn_processFrame_def)
  qed
qed

section \<open>Opening streams\<close>

lemma allocate_loop_free: "allocate_loop live wrapped n = (Inr sid, nxt) \<Longrightarrow> live sid = None"
  by (induction live wrapped n rule: allocate_loop.induct)
    (subst (asm) allocate_loop.simps, auto simp: Let_def split: if_splits)

lemma NewStream_ok:
  assumes inv: "conn_inv c" "failed_inv c" and nx: "c_nextref c < queue_cap"
  shows "\<exists>res c'. conn_NewStream c = Some (res, c') \<and> conn_inv c' \<and> failed_inv c' \<and> wires_kept c c' \<and> c_failure c' = c_failure c \<and>
    c_nextref c' \<le> c_nextref c + 1 \<and> (c_failure c \<noteq> None \<longrightarrow> res = Inl (the (st_err (c_streams c)))) \<and>
    (\<forall>r. res = Inr r \<longrightarrow> (\<exists>s. c_heap c' r = Some s \<and> st_live (c_streams c) (s_streamID s) = None \<and> st_live (c_streams c') (s_streamID s) = Some r))"
proof -
  obtain res st where a: "allocateLocked (c_streams c) = (res, st)" by fastforce
  have st: "st_live st = st_live (c_streams c)" "st_err st = st_err (c_streams c)"
    using a by (auto simp: allocateLocked_def split: option.splits prod.splits)
  let ?c = "c\<lparr>c_streams := st\<rparr>"
  have i: "conn_inv ?c" "failed_inv ?c" "wires_kept c ?c"
    using inv st by (simp_all add: conn_inv_def heap_inv_def table_inv_def refs_inv_def misc_inv_def failed_inv_def all_closed_def wires_kept_def)
  show ?thesis
  proof (cases res)
    case (Inl e)
    have "c_failure c \<noteq> None \<longrightarrow> e = the (st_err (c_streams c))"
      using a Inl inv(2) by (auto simp: allocateLocked_def failed_inv_def split: option.splits prod.splits)
    with Inl a i show ?thesis by (simp add: conn_NewStream_def)
  next
    case (Inr sid)
    have free: "st_live (c_streams c) sid = None" "st_err (c_streams c) = None"
      using a Inr by (auto simp: allocateLocked_def split: option.splits prod.splits dest: allocate_loop_free)
    have nf: "c_failure c = None" using inv(2) free(2) by (simp add: failed_inv_def)
    obtain w where w: "newOutgoingStream (c_outgoing ?c) (c_streams ?c) (local_window ?c) (z_remoteStreamWindowSize (c_settings ?c)) (c_nextref ?c) sid = Some w"
      "conn_inv (install w ?c)" "w_streams w = addLocked (c_streams ?c) sid (c_nextref ?c)" "s_ref w = c_nextref ?c"
      "o_err (w_out w) = o_err (c_outgoing ?c)" "s_streamID w = sid" "wr_wired w = 0"
      using outgoing_stream_inv [OF i(1), of sid "z_remoteStreamWindowSize (c_settings ?c)"] nx free(1) st(1) by auto
    have "failed_inv (install w ?c)" using i(2) nf w(3) by (intro install_failed) (simp_all add: addLocked_def)
    moreover have "wires_kept c (install w ?c)" using wires_kept_trans [OF i(3) install_wires [OF w(7)]] .
    moreover have "conn_NewStream c = Some (Inr (c_nextref c), install w ?c)" using a Inr w(1) by (simp add: conn_NewStream_def)
    ultimately show ?thesis using w nf free by (simp add: install_def addLocked_def)
  qed
qed

section \<open>The write loop takes a job\<close>

text \<open>Taking a stream out of a queue clears its flag; nothing else changes.\<close>

lemma requeue_inv:
  assumes inv: "conn_inv c" and r: "c_heap c r = Some s" and out: "outgoing_inv out"
    and s': "s' = s\<lparr>s_inctrl := a, s_indata := b\<rparr>"
    and a: "a \<longleftrightarrow> r \<in> set (queue_elems (o_ctrl out))" and b: "b \<longleftrightarrow> r \<in> set (queue_elems (o_data out))"
    and ctrl: "set (queue_elems (o_ctrl out)) - {r} = set (ctrls c) - {r}" "distinct (queue_elems (o_ctrl out))"
    and data: "set (queue_elems (o_data out)) - {r} = set (datas c) - {r}" "distinct (queue_elems (o_data out))"
  shows "conn_inv (c\<lparr>c_outgoing := out, c_heap := (c_heap c)(r \<mapsto> s')\<rparr>)"
proof -
  let ?c = "c\<lparr>c_outgoing := out, c_heap := (c_heap c)(r \<mapsto> s')\<rparr>"
  have d: "dom (c_heap ?c) = dom (c_heap c)" using r by auto
  have sub: "set (queue_elems (o_ctrl out)) \<subseteq> insert r (set (ctrls c))" "set (queue_elems (o_data out)) \<subseteq> insert r (set (datas c))"
    using ctrl(1) data(1) by blast+
  have "heap_inv ?c" unfolding heap_inv_def
  proof (intro allI impI)
    fix r2 s2
    assume r2: "c_heap ?c r2 = Some s2"
    show "s_ref s2 = r2 \<and> stream_inv (local_window ?c) s2 \<and> (s_inctrl s2 \<longleftrightarrow> r2 \<in> set (ctrls ?c)) \<and> (s_indata s2 \<longleftrightarrow> r2 \<in> set (datas ?c)) \<and>
        (st_live (c_streams ?c) (s_streamID s2) = Some r2 \<longleftrightarrow> \<not> fully_closed s2)"
    proof (cases "r2 = r")
      case True
      have "stream_inv (local_window c) s'" "fully_closed s' = fully_closed s"
        using inv r s' by (auto simp: conn_inv_def heap_inv_def stream_inv_defs fully_closed_def)
      with True r2 r inv s' a b show ?thesis by (auto simp: conn_inv_def heap_inv_def)
    next
      case False
      then have "c_heap c r2 = Some s2" using r2 by simp
      moreover have "r2 \<in> set (queue_elems (o_ctrl out)) \<longleftrightarrow> r2 \<in> set (ctrls c)" "r2 \<in> set (queue_elems (o_data out)) \<longleftrightarrow> r2 \<in> set (datas c)"
        using ctrl(1) data(1) False by blast+
      ultimately show ?thesis using inv by (simp add: conn_inv_def heap_inv_def)
    qed
  qed
  moreover have "table_inv ?c" unfolding table_inv_def
  proof (intro allI impI)
    fix sid r2
    assume "st_live (c_streams ?c) sid = Some r2"
    then obtain s2 where "c_heap c r2 = Some s2" "s_streamID s2 = sid" using inv by (auto simp: conn_inv_def table_inv_def)
    then show "\<exists>s. c_heap ?c r2 = Some s \<and> s_streamID s = sid" using r s' by (cases "r2 = r") auto
  qed
  moreover have "refs_inv ?c" using inv sub ctrl(2) data(2) out r unfolding refs_inv_def conn_inv_def d by auto
  moreover have "misc_inv ?c" using inv by (simp add: misc_inv_def conn_inv_def)
  ultimately show ?thesis by (simp add: conn_inv_def)
qed

lemma take_ctrl_inv:
  assumes inv: "conn_inv c" and ne: "0 < q_size (o_ctrl (c_outgoing c))"
  shows "\<exists>r q s. queue_take (o_ctrl (c_outgoing c)) = Some (Some r, q) \<and> ctrls c = r # queue_elems q \<and> c_heap c r = Some s \<and>
    conn_inv (c\<lparr>c_outgoing := (c_outgoing c)\<lparr>o_ctrl := q\<rparr>, c_heap := (c_heap c)(r \<mapsto> s\<lparr>s_inctrl := False\<rparr>)\<rparr>)"
proof -
  have refs: "queue_inv (o_ctrl (c_outgoing c))" "set (ctrls c) \<subseteq> dom (c_heap c)" "distinct (ctrls c)" "outgoing_inv (c_outgoing c)" "distinct (datas c)"
    using inv by (simp_all add: conn_inv_def refs_inv_def outgoing_inv_def)
  have "ctrls c \<noteq> []" using queue_size_elems [OF refs(1)] ne by auto
  then obtain r q where q: "queue_take (o_ctrl (c_outgoing c)) = Some (Some r, q)" "queue_inv q" "ctrls c = r # queue_elems q"
    using queue_take_spec [OF refs(1)] by (cases "ctrls c") auto
  then obtain s where s: "c_heap c r = Some s" using refs(2) by auto
  have f: "s_indata s \<longleftrightarrow> r \<in> set (datas c)" using inv s by (simp add: conn_inv_def heap_inv_def)
  have "conn_inv (c\<lparr>c_outgoing := (c_outgoing c)\<lparr>o_ctrl := q\<rparr>, c_heap := (c_heap c)(r \<mapsto> s\<lparr>s_inctrl := False\<rparr>)\<rparr>)"
    by (rule requeue_inv [OF inv s, where a = False and b = "s_indata s"])
      (use q refs f in \<open>auto simp: outgoing_inv_def outgoing_busy_def\<close>)
  with q(1,3) s show ?thesis by blast
qed

lemma take_data_inv:
  assumes inv: "conn_inv c" and ne: "0 < q_size (o_data (c_outgoing c))"
  shows "\<exists>r q s. queue_take (o_data (c_outgoing c)) = Some (Some r, q) \<and> datas c = r # queue_elems q \<and> c_heap c r = Some s \<and>
    conn_inv (c\<lparr>c_outgoing := (c_outgoing c)\<lparr>o_data := q\<rparr>, c_heap := (c_heap c)(r \<mapsto> s\<lparr>s_indata := False\<rparr>)\<rparr>)"
proof -
  have refs: "queue_inv (o_data (c_outgoing c))" "set (datas c) \<subseteq> dom (c_heap c)" "distinct (datas c)" "outgoing_inv (c_outgoing c)" "distinct (ctrls c)"
    using inv by (simp_all add: conn_inv_def refs_inv_def outgoing_inv_def)
  have "datas c \<noteq> []" using queue_size_elems [OF refs(1)] ne by auto
  then obtain r q where q: "queue_take (o_data (c_outgoing c)) = Some (Some r, q)" "queue_inv q" "datas c = r # queue_elems q"
    using queue_take_spec [OF refs(1)] by (cases "datas c") auto
  then obtain s where s: "c_heap c r = Some s" using refs(2) by auto
  have f: "s_inctrl s \<longleftrightarrow> r \<in> set (ctrls c)" using inv s by (simp add: conn_inv_def heap_inv_def)
  have "conn_inv (c\<lparr>c_outgoing := (c_outgoing c)\<lparr>o_data := q\<rparr>, c_heap := (c_heap c)(r \<mapsto> s\<lparr>s_indata := False\<rparr>)\<rparr>)"
    by (rule requeue_inv [OF inv s, where b = False and a = "s_inctrl s"])
      (use q refs f in \<open>auto simp: outgoing_inv_def outgoing_busy_def\<close>)
  with q(1,3) s show ?thesis by blast
qed

end
