(* ===== verification/Conn_System.thy ===== *)
theory Conn_System
  imports Conn_Run
begin

text \<open>
  The connection as a system: the read loop delivers frames, users open streams and call their
  methods, timers fire, handlers return, and the write loop takes one job after the other, section by
  section. Each stream of the heap goes through a run of the theory of streams while all of this
  interleaves, so what holds for the runs of a stream holds for every stream of a connection.
\<close>

unbundle bit_operations_syntax

section \<open>What happens to the heap\<close>

text \<open>
  The operations of the connection are made of few kinds of changes: a section of a method of one
  stream, a new stream, the start of its handler, and changes beside the heap.
\<close>

definition same_groups :: "rawConn \<Rightarrow> rawConn \<Rightarrow> bool" where
  "same_groups c c' \<longleftrightarrow> c_finishgroup c' = c_finishgroup c \<and> c_shutdowngroup c' = c_shutdowngroup c \<and> c_spawned c' = c_spawned c"

inductive evolve :: "rawConn \<Rightarrow> rawConn \<Rightarrow> bool" where
  stream_op: "sop_wf op \<Longrightarrow> with_stream r (sop_exec op) c = Some (e, c') \<Longrightarrow> evolve c c'"
| incoming: "st_live (c_streams c) sid = None \<Longrightarrow> c_nextref c < queue_cap \<Longrightarrow>
    evolve c (install (newIncomingStream (c_outgoing c) (c_streams c) (local_window c) (z_remoteStreamWindowSize (c_settings c)) (c_nextref c) sid) c)"
| outgoing: "st_live (c_streams c) sid = None \<Longrightarrow> c_nextref c < queue_cap \<Longrightarrow>
    newOutgoingStream (c_outgoing c) (c_streams c) (local_window c) (z_remoteStreamWindowSize (c_settings c)) (c_nextref c) sid = Some w \<Longrightarrow>
    evolve c (install w c)"
| spawn: "r \<in> dom (c_heap c) \<Longrightarrow> r \<notin> set (c_spawned c) \<Longrightarrow>
    evolve c (c\<lparr>c_finishgroup := c_finishgroup c + 1, c_shutdowngroup := c_shutdowngroup c + 1, c_spawned := c_spawned c @ [r]\<rparr>)"
| aside: "c_heap c' = c_heap c \<Longrightarrow> conn_inv c' \<Longrightarrow> same_groups c c' \<Longrightarrow> evolve c c'"

abbreviation evolves :: "rawConn \<Rightarrow> rawConn \<Rightarrow> bool" where "evolves \<equiv> evolve\<^sup>*\<^sup>*"

lemma section_moves:
  assumes "sop_wf op" "world_inv W w"
  shows "\<exists>e w'. sop_exec op w = Some (e, w') \<and> section_ok W w w' \<and> (wr_wired w' = wr_wired w \<or> wr_wired w' = 0)"
  using sop_ok [OF assms(2,1)] by (force simp: moves_def)

lemma with_stream_some:
  assumes "with_stream r f c = Some (x, c')"
  obtains s w' where "c_heap c r = Some s" "f (in_world s (c_outgoing c) (c_streams c)) = Some (x, w')" "c' = after_section r w' c"
  using assms by (auto simp: with_stream_def after_section_def split: bind_splits)

lemma section_conn_inv:
  assumes "conn_inv c" "sop_wf op" "with_stream r (sop_exec op) c = Some (e, c')"
  shows "conn_inv c'"
proof -
  obtain s w' where s: "c_heap c r = Some s" "sop_exec op (in_world s (c_outgoing c) (c_streams c)) = Some (e, w')" "c' = after_section r w' c"
    using assms(3) by (rule with_stream_some)
  then have "section_ok (local_window c) (in_world s (c_outgoing c) (c_streams c)) w'"
    using section_moves [OF assms(2) world_of_conn [OF assms(1) s(1)]] by auto
  from after_section_inv(1) [OF assms(1) s(1) this] s(3) show ?thesis by simp
qed

lemma evolve_inv:
  assumes "evolve c c'" "conn_inv c"
  shows "conn_inv c'"
  using assms
proof cases
  case (stream_op op r e)
  then show ?thesis using section_conn_inv assms(2) by blast
next
  case (incoming sid)
  then show ?thesis using incoming_inv [OF assms(2)] by simp
next
  case (outgoing sid w)
  then show ?thesis using outgoing_stream_inv [OF assms(2), of sid "z_remoteStreamWindowSize (c_settings c)"] by auto
next
  case (spawn r)
  then show ?thesis using assms(2) by (simp add: conn_inv_def heap_inv_def table_inv_def refs_inv_def misc_inv_def)
qed

lemma evolve_heap: "evolve c c' \<Longrightarrow> dom (c_heap c) \<subseteq> dom (c_heap c')"
  by (induction rule: evolve.induct) (auto elim!: with_stream_some simp: after_section_def install_def)

lemma evolves_inv: "evolves c c' \<Longrightarrow> conn_inv c \<Longrightarrow> conn_inv c'"
  by (induction rule: rtranclp_induct) (auto intro: evolve_inv)

subsection \<open>The operations of the connection\<close>

lemma closing_inv:
  assumes "conn_inv c" "c_failure c = None"
  shows "conn_inv (c\<lparr>c_failure := Some e, c_closedchan := True, c_outgoing := clearPingQueue (outgoing_fail (c_outgoing c) e)\<rparr>)"
proof -
  have "outgoing_inv (c_outgoing c)" using assms(1) by (simp add: conn_inv_def refs_inv_def)
  then have "conn_inv (c\<lparr>c_outgoing := clearPingQueue (outgoing_fail (c_outgoing c) e)\<rparr>)"
    by (intro conn_inv_outgoing assms(1) outgoing_ops_inv) simp_all
  then show ?thesis by (simp add: conn_inv_def heap_inv_def table_inv_def refs_inv_def misc_inv_def)
qed

lemma op_evolve:
  assumes "with_stream r f c = Some (x, c')" "sop_wf op" "\<And>w w'. f w = Some (x, w') \<Longrightarrow> \<exists>e. sop_exec op w = Some (e, w')"
  shows "evolve c c'"
proof -
  obtain s w' where s: "c_heap c r = Some s" "f (in_world s (c_outgoing c) (c_streams c)) = Some (x, w')" "c' = after_section r w' c"
    using assms(1) by (rule with_stream_some)
  obtain e where "sop_exec op (in_world s (c_outgoing c) (c_streams c)) = Some (e, w')" using assms(3) [OF s(2)] by blast
  from with_stream_eq [OF s(1), where f = "sop_exec op", OF this] s(3) show ?thesis
    by (intro evolve.stream_op [OF assms(2)]) simp_all
qed

lemma close_evolve:
  "with_stream r (stream_CloseWithError err) c = Some (x, c') \<Longrightarrow> evolve c c'"
  "with_stream r stream_Close c = Some (y, c') \<Longrightarrow> evolve c c'"
  by (erule op_evolve [where op = "OpCloseWithError err"], simp, simp) (erule op_evolve [where op = OpClose], simp, simp)

lemma frame_evolve:
  "with_stream r (\<lambda>w. stream_processDataFrame ref w data flags) c = Some (x, c') \<Longrightarrow> evolve c c'"
  "with_stream r (\<lambda>w. stream_processResetFrame w flags err) c = Some (x, c') \<Longrightarrow> evolve c c'"
  "with_stream r (\<lambda>w. stream_processWindowFrame ref w increment) c = Some (x, c') \<Longrightarrow> evolve c c'"
  by (erule op_evolve [where op = "DataArrives ref data flags"], simp, simp)
    (erule op_evolve [where op = "ResetArrives flags err"], simp, simp,
     erule op_evolve [where op = "WindowArrives ref increment"], simp, simp)

lemma close_streams_evolves: "close_streams err rs c = Some c' \<Longrightarrow> evolves c c'"
proof (induction rs arbitrary: c)
  case (Cons r rs)
  then obtain x c1 where c1: "with_stream r (stream_CloseWithError err) c = Some (x, c1)" "close_streams err rs c1 = Some c'"
    by (auto split: bind_splits)
  show ?case using close_evolve(1) [OF c1(1)] Cons.IH [OF c1(2)] by (rule converse_rtranclp_into_rtranclp)
qed simp

lemma streams_failLocked_evolves:
  assumes "streams_failLocked ord err c = Some c'" "conn_inv c"
  shows "evolves c c'"
proof (cases "st_err (c_streams c)")
  case None
  let ?c = "c\<lparr>c_streams := (c_streams c)\<lparr>st_err := Some err\<rparr>\<rparr>"
  have "evolve c ?c" by (rule evolve.aside) (use assms(2) in \<open>simp_all add: conn_inv_st_err same_groups_def\<close>)
  moreover have "evolves ?c c'" using assms(1) None by (intro close_streams_evolves) (simp add: streams_failLocked_def)
  ultimately show ?thesis by (rule converse_rtranclp_into_rtranclp)
qed (use assms in \<open>simp add: streams_failLocked_def\<close>)

lemma closeWithError_evolves:
  assumes "conn_closeWithError ord ref err c = Some (x, c')" "conn_inv c"
  shows "evolves c c'"
proof (cases "c_failure c")
  case None
  let ?e = "conn_error ref err"
  let ?c = "c\<lparr>c_failure := Some ?e, c_closedchan := True, c_outgoing := clearPingQueue (outgoing_fail (c_outgoing c) ?e)\<rparr>"
  have i: "conn_inv ?c" using closing_inv [OF assms(2) None] .
  have "\<not> c_closedchan c" using assms(2) None by (simp add: conn_inv_def misc_inv_def)
  then have "streams_failLocked ord ?e ?c = Some c'"
    using assms(1) None by (auto simp: conn_closeWithError_def close_chan_def Let_def split: bind_splits)
  then have "evolves ?c c'" using i by (rule streams_failLocked_evolves)
  moreover have "evolve c ?c" by (rule evolve.aside) (use i in \<open>simp_all add: same_groups_def\<close>)
  ultimately show ?thesis by (rule converse_rtranclp_into_rtranclp [rotated])
qed (use assms in \<open>simp add: conn_closeWithError_def Let_def\<close>)

lemma aside_evolves: "conn_inv c' \<Longrightarrow> c_heap c' = c_heap c \<Longrightarrow> same_groups c c' \<Longrightarrow> evolves c c'"
  by (blast intro: evolve.aside)

lemma processDataFrame_evolves:
  assumes e: "conn_processDataFrame ref sid flags data c = Some (err, c')" and inv: "conn_inv c" and nx: "c_nextref c < queue_cap"
    and sp: "set (c_spawned c) \<subseteq> dom (c_heap c)"
  shows "evolves c c'"
proof (cases "sid \<noteq> 0 \<and> flags_Has flags FlagDataOpen \<and> \<not> isOwnedID (c_streams c) sid \<and> streams_find (c_streams c) sid = None \<and> zlen data \<le> local_window c")
  case True
  then have sid: "st_live (c_streams c) sid = None" by (simp add: streams_find_def)
  let ?r = "c_nextref c"
  define c1 where "c1 = install (newIncomingStream (c_outgoing c) (c_streams c) (local_window c) (z_remoteStreamWindowSize (c_settings c)) ?r sid) c"
  let ?c = "c1\<lparr>c_finishgroup := c_finishgroup c1 + 1, c_shutdowngroup := c_shutdowngroup c1 + 1, c_spawned := c_spawned c1 @ [?r]\<rparr>"
  have i: "conn_inv c1" using incoming_inv [OF inv nx sid] by (simp add: c1_def)
  have "?r \<notin> set (c_spawned c)" using sp conn_ready_fresh(2) [OF inv nx] by auto
  then have fresh: "?r \<in> dom (c_heap c1)" "?r \<notin> set (c_spawned c1)" by (simp_all add: c1_def install_def newIncomingStream_def)
  have s1: "evolve c c1" unfolding c1_def by (rule evolve.incoming [OF sid nx])
  have s2: "evolve c1 ?c" using fresh by (rule evolve.spawn)
  have "(\<exists>err x. with_stream ?r (stream_CloseWithError err) c1 = Some (x, c')) \<or>
      with_stream ?r (\<lambda>w. stream_processDataFrame ref w data flags) ?c = Some (err, c')"
    using e True unfolding conn_processDataFrame_def Let_def by (auto simp: c1_def [symmetric] split: if_splits bind_splits)
  then have "evolve c1 c' \<or> evolve ?c c'" using close_evolve(1) frame_evolve(1) by blast
  with s1 s2 show ?thesis by (meson r_into_rtranclp rtranclp.rtrancl_into_rtrancl)
next
  case False
  then have "c' = c \<or> (\<exists>r. with_stream r (\<lambda>w. stream_processDataFrame ref w data flags) c = Some (err, c'))"
    using e unfolding conn_processDataFrame_def Let_def by (auto split: if_splits option.splits)
  then show ?thesis using frame_evolve(1) by blast
qed

lemma conn_frame_evolves:
  assumes e: "conn_frame ord ref f c = Some (err, c')" and inv: "conn_inv c" "failed_inv c" and nx: "c_nextref c < queue_cap"
    and sp: "set (c_spawned c) \<subseteq> dom (c_heap c)"
  shows "evolves c c'"
proof -
  have i: "conn_inv c'" using conn_frame_ok [OF inv nx, of ord ref f] e by (simp add: frame_ok_def)
  show ?thesis
  proof (cases f)
    case (PingFrame flags data)
    have "c_heap c' = c_heap c" "same_groups c c'" using e PingFrame
      by (auto simp: conn_processPingFrame_def same_groups_def split: if_splits bind_splits)
    with i show ?thesis by (rule aside_evolves)
  next
    case (DataFrame sid flags data)
    then show ?thesis using processDataFrame_evolves [OF _ inv(1) nx sp] e by simp
  next
    case (ResetFrame sid flags er)
    then have "c_heap c' = c_heap c \<and> same_groups c c' \<or> (\<exists>r x. with_stream r (\<lambda>w. stream_processResetFrame w flags er) c = Some (x, c'))"
      using e by (auto simp: conn_processResetFrame_def same_groups_def split: if_splits option.splits)
    then show ?thesis using frame_evolve(2) aside_evolves [OF i] by blast
  next
    case (WindowFrame sid flags increment)
    then have "c_heap c' = c_heap c \<and> same_groups c c' \<or> (\<exists>r x. with_stream r (\<lambda>w. stream_processWindowFrame ref w increment) c = Some (x, c'))"
      using e by (auto simp: conn_processWindowFrame_def same_groups_def split: option.splits)
    then show ?thesis using frame_evolve(3) aside_evolves [OF i] by blast
  next
    case (SettingsFrame flags data)
    have "c_heap c' = c_heap c" "same_groups c c'" using e SettingsFrame
      by (auto simp: conn_processSettingsFrame_def handleSettings_eq same_groups_def split: if_splits prod.splits)
    with i show ?thesis by (rule aside_evolves)
  qed (use e in simp)
qed

lemma processFrame_evolves:
  assumes e: "conn_processFrame ord ref f c = Some (ok, c')" and inv: "conn_inv c" "failed_inv c" and nx: "c_nextref c < queue_cap"
    and sp: "set (c_spawned c) \<subseteq> dom (c_heap c)"
  shows "evolves c c'"
proof -
  obtain err c1 where c1: "conn_frame ord ref f c = Some (err, c1)" "c' = c1 \<or> (\<exists>x. conn_closeWithError ord (ref + 1) err c1 = Some (x, c'))"
    using e by (auto simp: conn_processFrame_def split: bind_splits if_splits)
  have s: "evolves c c1" by (rule conn_frame_evolves [OF c1(1) inv nx sp])
  from c1(2) show ?thesis using s closeWithError_evolves [OF _ evolves_inv [OF s inv(1)]] rtranclp_trans [of evolve c c1 c'] by blast
qed

lemma NewStream_evolves:
  assumes e: "conn_NewStream c = Some (res, c')" and inv: "conn_inv c" and nx: "c_nextref c < queue_cap"
  shows "evolves c c'"
proof -
  obtain a st where a: "allocateLocked (c_streams c) = (a, st)" by fastforce
  have st: "st_live st = st_live (c_streams c)" using a by (auto simp: allocateLocked_def split: option.splits prod.splits)
  let ?c = "c\<lparr>c_streams := st\<rparr>"
  have i: "conn_inv ?c" using inv st by (simp add: conn_inv_def heap_inv_def table_inv_def refs_inv_def misc_inv_def)
  have s: "evolve c ?c" by (rule evolve.aside) (use i in \<open>simp_all add: same_groups_def\<close>)
  show ?thesis
  proof (cases a)
    case (Inl er)
    then show ?thesis using e a s by (auto simp: conn_NewStream_def)
  next
    case (Inr sid)
    have "st_live (c_streams ?c) sid = None"
      using a Inr st by (auto simp: allocateLocked_def split: option.splits prod.splits dest: allocate_loop_free)
    then have "evolve ?c c'" using e a Inr nx evolve.outgoing [of ?c sid] by (auto simp: conn_NewStream_def split: bind_splits)
    with s show ?thesis by auto
  qed
qed

lemma handleStream_evolves:
  assumes "handleStream served r c = Some c'"
  shows "\<exists>c1. evolves c c1 \<and> c' = c1\<lparr>c_shutdowngroup := c_shutdowngroup c1 - 1, c_finishgroup := c_finishgroup c1 - 1\<rparr>"
  using assms unfolding handleStream_def
  by (auto split: option.splits if_splits bind_splits dest!: close_evolve intro: rtranclp.rtrancl_into_rtrancl [OF r_into_rtranclp])

lemma readloop_end_evolves:
  assumes e: "readloop_end ord pord c = Some c'" and inv: "conn_inv c"
  shows "\<exists>c1. evolves c c1 \<and> c' = c1\<lparr>c_finishgroup := c_finishgroup c1 - 1\<rparr>"
proof -
  obtain calls p out where p: "pings_fail pord (c_failure c) (c_pings c) (c_outgoing c) = (calls, p, out)" using prod_cases3 by blast
  obtain er where er: "c_failure c = Some er" using e by (cases "c_failure c") (simp_all add: readloop_end_def conn_Err_def Let_def p)
  note p' = p [unfolded er]
  let ?c = "c\<lparr>c_pings := p, c_outgoing := out, c_calls := c_calls c @ map snd calls\<rparr>"
  obtain c2 where c2: "streams_failLocked ord er ?c = Some c2" using e by (auto simp: readloop_end_def conn_Err_def Let_def p' er split: bind_splits)
  obtain calls2 s where s: "settings_failLocked (Some er) (c_settings c2) = (calls2, s)" by fastforce
  let ?c3 = "c2\<lparr>c_settings := s, c_calls := c_calls c2 @ calls2\<rparr>"
  have c': "c' = ?c3\<lparr>c_finishgroup := c_finishgroup ?c3 - 1\<rparr>" using e by (simp add: readloop_end_def conn_Err_def Let_def p' er c2 s)
  have o: "out = clearPingQueue (c_outgoing c)" "p_err p \<noteq> None" "p_pings p = None" using p er by (auto simp: pings_fail_def Let_def)
  have "outgoing_inv (c_outgoing c)" using inv by (simp add: conn_inv_def refs_inv_def)
  then have "conn_inv (c\<lparr>c_outgoing := out\<rparr>)" unfolding o(1) by (intro conn_inv_outgoing inv outgoing_ops_inv) simp_all
  then have i: "conn_inv ?c" using o by (simp add: conn_inv_def heap_inv_def table_inv_def refs_inv_def misc_inv_def)
  have s1: "evolves c ?c" using i by (rule aside_evolves) (simp_all add: same_groups_def)
  have s2: "evolves ?c c2" by (rule streams_failLocked_evolves [OF c2 i])
  have i2: "conn_inv c2" by (rule evolves_inv [OF s2 i])
  have "z_localStreamWindowSize s = local_window c2" "z_remoteStreamWindowSize s = z_remoteStreamWindowSize (c_settings c2)"
    using s by (auto simp: settings_failLocked_def)
  then have "conn_inv ?c3" using i2 by (simp add: conn_inv_def heap_inv_def table_inv_def refs_inv_def misc_inv_def)
  then have s3: "evolves c2 ?c3" by (rule aside_evolves) (simp_all add: same_groups_def)
  have "evolves c ?c3" using s1 s2 s3 by (meson rtranclp_trans)
  with c' show ?thesis by blast
qed

section \<open>The run of each stream\<close>

text \<open>
  The stream \<open>r\<close> of a connection is in the state of a run of one stream, which has handed the frames
  \<open>sent\<close> to the writer; \<open>p\<close> is where the write loop is with respect to it.
\<close>

definition tracked :: "rawConn \<Rightarrow> wpoint \<Rightarrow> Frame list \<Rightarrow> sref \<Rightarrow> bool" where
  "tracked c p sent r \<longleftrightarrow> (\<exists>s outgoing W R w u. c_heap c r = Some s \<and> created outgoing W R w \<and> stream_reachable w u \<and>
     u_world u = in_world s (c_outgoing c) (c_streams c) \<and> u_point u = p \<and> u_sent u = sent)"

lemma in_world_parts:
  "in_world (rawStream.truncate w) (w_out w) (w_streams w) = w"
  "in_world s out st\<lparr>w_out := out', w_streams := st'\<rparr> = in_world s out' st'"
  by (cases w, simp add: in_world_def rawStream.defs sworld.defs, cases s, simp add: in_world_def rawStream.defs sworld.defs)

lemma tracked_step:
  assumes "tracked c p sent r"
    and "\<And>s u. c_heap c r = Some s \<Longrightarrow> u_world u = in_world s (c_outgoing c) (c_streams c) \<Longrightarrow> u_point u = p \<Longrightarrow> u_sent u = sent \<Longrightarrow>
      \<exists>u' s'. stream_step u u' \<and> c_heap c' r = Some s' \<and> u_world u' = in_world s' (c_outgoing c') (c_streams c') \<and> u_point u' = p' \<and> u_sent u' = sent'"
  shows "tracked c' p' sent' r"
proof -
  obtain s outgoing W R w u where u: "c_heap c r = Some s" "created outgoing W R w" "stream_reachable w u"
    "u_world u = in_world s (c_outgoing c) (c_streams c)" "u_point u = p" "u_sent u = sent" using assms(1) by (auto simp: tracked_def)
  from assms(2) [OF u(1,4,5,6)] obtain u' s' where u': "stream_step u u'" "c_heap c' r = Some s'"
    "u_world u' = in_world s' (c_outgoing c') (c_streams c')" "u_point u' = p'" "u_sent u' = sent'" by blast
  have "stream_reachable w u'" using u(3) u'(1) by (rule stream_reachable.step)
  with u(2) u'(2-5) show ?thesis unfolding tracked_def by blast
qed

text \<open>For the other streams, what happens is the rest of the connection at work.\<close>

lemma tracked_others:
  assumes t: "tracked c p sent r" and inv: "conn_inv c'" and h: "c_heap c' r = c_heap c r"
  shows "tracked c' p sent r"
proof (rule tracked_step [OF t])
  fix s and u :: run
  assume s: "c_heap c r = Some s" and u: "u_world u = in_world s (c_outgoing c) (c_streams c)" "u_point u = p" "u_sent u = sent"
  let ?w = "u_world u\<lparr>w_out := c_outgoing c', w_streams := c_streams c'\<rparr>"
  have w: "?w = in_world s (c_outgoing c') (c_streams c')" using u(1) by (simp only: in_world_parts)
  have "world_inv (local_window c') ?w" unfolding w using world_of_conn [OF inv] h s by simp
  then have "stream_step u (u\<lparr>u_world := ?w\<rparr>)" by (intro stream_step.others) (simp_all add: world_inv_def)
  with w h s u show "\<exists>u' s'. stream_step u u' \<and> c_heap c' r = Some s' \<and> u_world u' = in_world s' (c_outgoing c') (c_streams c') \<and>
      u_point u' = p \<and> u_sent u' = sent" by (intro exI [of _ "u\<lparr>u_world := ?w\<rparr>"] exI [of _ s]) simp
qed

lemma tracked_operation:
  assumes t: "tracked c p sent r" and op: "sop_wf op" "with_stream r (sop_exec op) c = Some (e, c')"
  shows "tracked c' p sent r"
proof (rule tracked_step [OF t])
  fix s and u :: run
  assume s: "c_heap c r = Some s" and u: "u_world u = in_world s (c_outgoing c) (c_streams c)" "u_point u = p" "u_sent u = sent"
  obtain w' where w': "sop_exec op (u_world u) = Some (e, w')" "c' = after_section r w' c"
    using op(2) s u(1) by (auto elim: with_stream_some)
  have "stream_step u (record_effect e w' u)" using op(1) w'(1) by (rule stream_step.operation)
  with w'(2) u show "\<exists>u' s'. stream_step u u' \<and> c_heap c' r = Some s' \<and> u_world u' = in_world s' (c_outgoing c') (c_streams c') \<and>
      u_point u' = p \<and> u_sent u' = sent"
    by (intro exI [of _ "record_effect e w' u"] exI [of _ "rawStream.truncate w'"]) (simp add: record_effect_def after_section_def in_world_parts)
qed

lemma tracked_new:
  assumes "created outgoing W R w" "s_ref w = r"
  shows "tracked (install w c) Idle [] r"
proof -
  have "stream_reachable w (run_start w)" by (rule stream_reachable.start)
  with assms show ?thesis unfolding tracked_def
    by (intro exI [of _ "rawStream.truncate w"] exI [of _ outgoing] exI [of _ W] exI [of _ R] exI [of _ w] exI [of _ "run_start w"])
      (simp add: install_def in_world_parts run_start_def)
qed

text \<open>An address that is not in use has sent nothing.\<close>

definition track :: "rawConn \<Rightarrow> wpoint \<Rightarrow> Frame list \<Rightarrow> sref \<Rightarrow> bool" where
  "track c p sent r \<longleftrightarrow> (if c_heap c r = None then p = Idle \<and> sent = [] else tracked c p sent r)"

lemma track_others: "track c p sent r \<Longrightarrow> conn_inv c' \<Longrightarrow> c_heap c' r = c_heap c r \<Longrightarrow> track c' p sent r"
  using tracked_others [of c p sent r c'] by (simp add: track_def split: if_splits)

definition all_tracked :: "rawConn \<Rightarrow> (sref \<Rightarrow> wpoint) \<Rightarrow> (sref \<Rightarrow> Frame list) \<Rightarrow> bool" where
  "all_tracked c p sent \<longleftrightarrow> (\<forall>r. track c (p r) (sent r) r)"

lemma all_tracked_aside: "all_tracked c p sent \<Longrightarrow> conn_inv c' \<Longrightarrow> c_heap c' = c_heap c \<Longrightarrow> all_tracked c' p sent"
  unfolding all_tracked_def using track_others by metis

lemma conn_created:
  assumes "conn_inv c" "c_nextref c < queue_cap"
  shows "created False (local_window c) (z_remoteStreamWindowSize (c_settings c))
      (newIncomingStream (c_outgoing c) (c_streams c) (local_window c) (z_remoteStreamWindowSize (c_settings c)) (c_nextref c) sid)"
    "newOutgoingStream (c_outgoing c) (c_streams c) (local_window c) (z_remoteStreamWindowSize (c_settings c)) (c_nextref c) sid = Some w \<Longrightarrow>
     created True (local_window c) (z_remoteStreamWindowSize (c_settings c)) w"
  using assms conn_ready_fresh(1) [OF assms] by (auto simp: created_def conn_inv_def misc_inv_def)

lemma install_tracked:
  assumes t: "all_tracked c p sent" and i: "conn_inv (install w c)" and w: "created outgoing W R w" "s_ref w = c_nextref c" and f: "c_heap c (c_nextref c) = None"
  shows "all_tracked (install w c) p sent"
  unfolding all_tracked_def
proof
  fix r
  show "track (install w c) (p r) (sent r) r"
  proof (cases "r = c_nextref c")
    case True
    then have "p r = Idle \<and> sent r = []" using t f unfolding all_tracked_def track_def by metis
    with True tracked_new [OF w(1), of r c] w(2) show ?thesis by (simp add: track_def install_def)
  next
    case False
    then have "c_heap (install w c) r = c_heap c r" using w(2) by (simp add: install_def)
    then show ?thesis using t track_others [OF _ i] unfolding all_tracked_def by blast
  qed
qed

lemma evolve_tracked:
  assumes e: "evolve c c'" and inv: "conn_inv c" and t: "all_tracked c p sent"
  shows "all_tracked c' p sent"
  using e
proof cases
  case (stream_op op r e)
  have i: "conn_inv c'" by (rule evolve_inv [OF e inv])
  obtain s w' where h: "c_heap c r = Some s" "c' = after_section r w' c" using stream_op(2) by (rule with_stream_some)
  show ?thesis unfolding all_tracked_def
  proof
    fix r2
    show "track c' (p r2) (sent r2) r2"
    proof (cases "r2 = r")
      case True
      have "tracked c (p r) (sent r) r" using t h(1) unfolding all_tracked_def track_def by (metis option.distinct(1))
      from tracked_operation [OF this stream_op] True h(2) show ?thesis by (simp add: track_def after_section_def)
    next
      case False
      then have "c_heap c' r2 = c_heap c r2" using h(2) by (simp add: after_section_def)
      then show ?thesis using t track_others [OF _ i] unfolding all_tracked_def by blast
    qed
  qed
next
  case (incoming sid)
  then show ?thesis using install_tracked [OF t _ conn_created(1) [OF inv incoming(3)]] evolve_inv [OF e inv] conn_ready_fresh(2) [OF inv incoming(3)]
    by (simp add: newIncomingStream_def)
next
  case (outgoing sid w)
  have "s_ref w = c_nextref c" using outgoing outgoing_stream_inv [OF inv outgoing(3,2), of "z_remoteStreamWindowSize (c_settings c)"] by auto
  then show ?thesis using install_tracked [OF t _ conn_created(2) [OF inv outgoing(3,4)]] evolve_inv [OF e inv] conn_ready_fresh(2) [OF inv outgoing(3)]
    outgoing(1) by simp
next
  case aside
  then show ?thesis using all_tracked_aside [OF t] by blast
next
  case (spawn r)
  show ?thesis by (rule all_tracked_aside [OF t evolve_inv [OF e inv]]) (simp add: spawn(1))
qed

lemma evolves_tracked: "evolves c c' \<Longrightarrow> conn_inv c \<Longrightarrow> all_tracked c p sent \<Longrightarrow> all_tracked c' p sent"
  by (induction rule: rtranclp_induct) (auto intro: evolve_tracked evolves_inv)

section \<open>The system\<close>

text \<open>Where the write loop and the read loop are.\<close>

datatype writer = Sleeping | Looping | TakenCtrl sref | TakenData sref | WritingCtrl sref resume | WritingData sref | Stopped "sref option"
datatype reader = Reading | ReadEnding | ReadEnded

text \<open>
  The state of a connection at work. The wire holds the frames handed to the writer, each with the
  stream it comes from, if any; \<open>y_served\<close> are the incoming streams whose handler has returned.
\<close>

record system =
  y_conn :: rawConn
  y_writer :: writer
  y_reader :: reader
  y_gone :: bool
  y_wire :: "(sref option \<times> Frame) list"
  y_served :: "sref list"

definition sys_start :: "bool \<Rightarrow> system" where
  "sys_start server = \<lparr>y_conn = NewRawConn server, y_writer = Sleeping, y_reader = Reading, y_gone = False, y_wire = [], y_served = []\<rparr>"

fun after_job :: "job \<Rightarrow> writer" where
  "after_job (Fail_job _) = Stopped None"
| "after_job (Ctrl_job r) = TakenCtrl r"
| "after_job (Data_job r) = TakenData r"
| "after_job Done_job = Sleeping"
| "after_job _ = Looping"

fun after_ctrl :: "sref \<Rightarrow> ctrl_point \<Rightarrow> writer \<times> (sref option \<times> Frame) list" where
  "after_ctrl r CtrlDone = (Looping, [])"
| "after_ctrl r (CtrlWrite f k) = (WritingCtrl r k, [(Some r, f)])"

fun after_data :: "sref \<Rightarrow> Frame option \<Rightarrow> writer \<times> (sref option \<times> Frame) list" where
  "after_data r None = (Looping, [])"
| "after_data r (Some f) = (WritingData r, [(Some r, f)])"

fun at_write :: "writer \<Rightarrow> sref option" where
  "at_write (WritingCtrl r _) = Some r"
| "at_write (WritingData r) = Some r"
| "at_write _ = None"

definition may_fail :: "writer \<Rightarrow> bool" where
  "may_fail wl \<longleftrightarrow> wl = Sleeping \<or> wl = Looping \<or> at_write wl \<noteq> None"

text \<open>The methods a user can call on a stream; frames arrive through the connection only.\<close>

fun user_op :: "sop \<Rightarrow> bool" where
  "user_op (DataArrives _ _ _) \<longleftrightarrow> False"
| "user_op (ResetArrives _ _) \<longleftrightarrow> False"
| "user_op (WindowArrives _ _) \<longleftrightarrow> False"
| "user_op (WindowChanges _) \<longleftrightarrow> False"
| "user_op _ \<longleftrightarrow> True"

inductive sys_step :: "system \<Rightarrow> system \<Rightarrow> bool" where
  frame: "y_reader y = Reading \<Longrightarrow> visits_all ord \<Longrightarrow> c_nextref (y_conn y) < queue_cap \<Longrightarrow> conn_processFrame ord ref f (y_conn y) = Some (ok, c) \<Longrightarrow>
    sys_step y (y\<lparr>y_conn := c, y_reader := if ok then Reading else ReadEnding\<rparr>)"
| read_error: "y_reader y = Reading \<Longrightarrow> visits_all ord \<Longrightarrow> conn_closeWithError ord ref (Some e) (y_conn y) = Some (x, c) \<Longrightarrow>
    sys_step y (y\<lparr>y_conn := c, y_reader := ReadEnding\<rparr>)"
| read_end: "y_reader y = ReadEnding \<Longrightarrow> visits_all ord \<Longrightarrow> readloop_end ord pord (y_conn y) = Some c \<Longrightarrow>
    sys_step y (y\<lparr>y_conn := c, y_reader := ReadEnded\<rparr>)"
| call: "sop_wf op \<Longrightarrow> user_op op \<Longrightarrow> with_stream r (sop_exec op) (y_conn y) = Some (e, c) \<Longrightarrow> sys_step y (y\<lparr>y_conn := c\<rparr>)"
| open_stream: "c_nextref (y_conn y) < queue_cap \<Longrightarrow> conn_NewStream (y_conn y) = Some (res, c) \<Longrightarrow> sys_step y (y\<lparr>y_conn := c\<rparr>)"
| served: "r \<in> set (c_spawned (y_conn y)) \<Longrightarrow> r \<notin> set (y_served y) \<Longrightarrow> handleStream result r (y_conn y) = Some c \<Longrightarrow>
    sys_step y (y\<lparr>y_conn := c, y_served := y_served y @ [r]\<rparr>)"
| close: "visits_all ord \<Longrightarrow> conn_Close ord ref (y_conn y) = Some (x, c) \<Longrightarrow> sys_step y (y\<lparr>y_conn := c\<rparr>)"
| shutdown: "sys_step y (y\<lparr>y_conn := conn_Shutdown (y_conn y)\<rparr>)"
| ping: "y_conn y = c \<Longrightarrow> conn_ping data cb (c_pings c) (c_outgoing c) = Some (calls, p, out) \<Longrightarrow>
    sys_step y (y\<lparr>y_conn := c\<lparr>c_pings := p, c_outgoing := out, c_calls := c_calls c @ map snd calls\<rparr>\<rparr>)"
| timer: "y_conn y = c \<Longrightarrow> sys_step y (y\<lparr>y_conn := c\<lparr>c_outgoing := outgoing_wakeup (c_outgoing c)\<rparr>\<rparr>)"
| wake: "y_writer y = Sleeping \<Longrightarrow> o_writeready (c_outgoing (y_conn y)) \<Longrightarrow> sys_step y (y\<lparr>y_writer := Looping\<rparr>)"
| job: "y_writer y = Looping \<Longrightarrow> writeFrames_next (y_conn y) = Some (j, c) \<Longrightarrow>
    sys_step y (y\<lparr>y_conn := c, y_writer := after_job j, y_wire := y_wire y @ map (Pair None) (job_frames j)\<rparr>)"
| ctrl_start: "y_writer y = TakenCtrl r \<Longrightarrow> with_stream r writeCtrl_start (y_conn y) = Some (pt, c) \<Longrightarrow> after_ctrl r pt = (wl, fs) \<Longrightarrow>
    sys_step y (y\<lparr>y_conn := c, y_writer := wl, y_wire := y_wire y @ fs\<rparr>)"
| ctrl_resume: "y_writer y = WritingCtrl r k \<Longrightarrow> with_stream r (writeCtrl_resume k) (y_conn y) = Some (pt, c) \<Longrightarrow> after_ctrl r pt = (wl, fs) \<Longrightarrow>
    sys_step y (y\<lparr>y_conn := c, y_writer := wl, y_wire := y_wire y @ fs\<rparr>)"
| data_start: "y_writer y = TakenData r \<Longrightarrow> with_stream r writeData_start (y_conn y) = Some (fo, c) \<Longrightarrow> after_data r fo = (wl, fs) \<Longrightarrow>
    sys_step y (y\<lparr>y_conn := c, y_writer := wl, y_wire := y_wire y @ fs\<rparr>)"
| data_finish: "y_writer y = WritingData r \<Longrightarrow> with_stream r (\<lambda>w. Some ((), finishData w)) (y_conn y) = Some (x, c) \<Longrightarrow>
    sys_step y (y\<lparr>y_conn := c, y_writer := Looping\<rparr>)"
| write_error: "may_fail (y_writer y) \<Longrightarrow> visits_all ord \<Longrightarrow> conn_closeWithError ord ref (Some e) (y_conn y) = Some (x, c) \<Longrightarrow>
    sys_step y (y\<lparr>y_conn := c, y_writer := Stopped (at_write (y_writer y))\<rparr>)"
| write_end: "y_writer y = Stopped ro \<Longrightarrow> \<not> y_gone y \<Longrightarrow> y_conn y = c \<Longrightarrow>
    sys_step y (y\<lparr>y_conn := c\<lparr>c_finishgroup := c_finishgroup c - 1\<rparr>, y_gone := True\<rparr>)"

inductive sys_reachable :: "bool \<Rightarrow> system \<Rightarrow> bool" for server where
  start: "sys_reachable server (sys_start server)"
| step: "sys_reachable server y \<Longrightarrow> sys_step y y' \<Longrightarrow> sys_reachable server y'"

section \<open>The invariant of the system\<close>

fun point_of :: "writer \<Rightarrow> sref \<Rightarrow> wpoint" where
  "point_of (TakenCtrl r') r = (if r = r' then CtrlTaken else Idle)"
| "point_of (TakenData r') r = (if r = r' then DataTaken else Idle)"
| "point_of (WritingCtrl r' k) r = (if r = r' then CtrlWriting k else Idle)"
| "point_of (WritingData r') r = (if r = r' then DataWriting else Idle)"
| "point_of (Stopped ro) r = (if ro = Some r then WriteFailed else Idle)"
| "point_of _ r = Idle"

definition sent_by :: "(sref option \<times> Frame) list \<Rightarrow> sref \<Rightarrow> Frame list" where
  "sent_by wire r = map snd (filter (\<lambda>(ro, _). ro = Some r) wire)"

definition groups_inv :: "system \<Rightarrow> bool" where
  "groups_inv y \<longleftrightarrow> (let c = y_conn y in
     c_finishgroup c = (if y_reader y = ReadEnded then 0 else 1) + (if y_gone y then 0 else 1) + zlen (c_spawned c) - zlen (y_served y) \<and>
     c_shutdowngroup c = zlen (c_spawned c) - zlen (y_served y) \<and>
     distinct (c_spawned c) \<and> distinct (y_served y) \<and> set (y_served y) \<subseteq> set (c_spawned c) \<and> set (c_spawned c) \<subseteq> dom (c_heap c))"

definition sys_inv :: "system \<Rightarrow> bool" where
  "sys_inv y \<longleftrightarrow> conn_inv (y_conn y) \<and> failed_inv (y_conn y) \<and>
     all_tracked (y_conn y) (point_of (y_writer y)) (sent_by (y_wire y)) \<and> groups_inv y \<and>
     (y_reader y \<noteq> Reading \<longrightarrow> c_failure (y_conn y) \<noteq> None) \<and> (y_gone y \<longrightarrow> (\<exists>ro. y_writer y = Stopped ro))"

lemma sent_by_simps [simp]:
  "sent_by [] r = []" "sent_by (wire @ fs) r = sent_by wire r @ sent_by fs r"
  "sent_by (map (Pair None) gs) r = []" "sent_by [(Some r', f)] r = (if r = r' then [f] else [])"
  by (auto simp: sent_by_def filter_map o_def)

lemma sys_start_inv: "sys_inv (sys_start server)"
  by (simp add: sys_inv_def sys_start_def NewRawConn_inv groups_inv_def all_tracked_def track_def)
    (simp add: NewRawConn_def failed_inv_def streams_init_def)

subsection \<open>What a step of the connection alone keeps\<close>

definition groups_kept :: "rawConn \<Rightarrow> rawConn \<Rightarrow> bool" where
  "groups_kept c c' \<longleftrightarrow> c_finishgroup c' - zlen (c_spawned c') = c_finishgroup c - zlen (c_spawned c) \<and>
     c_shutdowngroup c' - zlen (c_spawned c') = c_shutdowngroup c - zlen (c_spawned c) \<and>
     (distinct (c_spawned c) \<longrightarrow> distinct (c_spawned c')) \<and> set (c_spawned c) \<subseteq> set (c_spawned c') \<and>
     (set (c_spawned c) \<subseteq> dom (c_heap c) \<longrightarrow> set (c_spawned c') \<subseteq> dom (c_heap c'))"

lemma groups_kept_trans: "groups_kept a b \<Longrightarrow> groups_kept b c \<Longrightarrow> groups_kept a c"
  by (auto simp: groups_kept_def)

lemma evolve_groups:
  assumes "evolve c c'"
  shows "groups_kept c c'"
proof -
  note d = evolve_heap [OF assms]
  from assms show ?thesis
  proof cases
    case (stream_op op r e)
    obtain s w' where "c' = after_section r w' c" using stream_op(2) by (rule with_stream_some)
    then show ?thesis using d by (auto simp: groups_kept_def after_section_def)
  qed (use d in \<open>auto simp: groups_kept_def install_def same_groups_def\<close>)
qed

lemma evolves_groups: "evolves c c' \<Longrightarrow> groups_kept c c'"
proof (induction rule: rtranclp_induct)
  case base
  then show ?case by (simp add: groups_kept_def)
next
  case (step b c)
  then show ?case using groups_kept_trans evolve_groups by blast
qed

lemma evolves_sys_inv:
  assumes inv: "sys_inv y" and e: "evolves (y_conn y) c" and f: "failed_inv c" "y_reader y \<noteq> Reading \<longrightarrow> c_failure c \<noteq> None"
  shows "sys_inv (y\<lparr>y_conn := c\<rparr>)"
proof -
  have i: "conn_inv (y_conn y)" "all_tracked (y_conn y) (point_of (y_writer y)) (sent_by (y_wire y))" "groups_inv y"
    "y_gone y \<longrightarrow> (\<exists>ro. y_writer y = Stopped ro)"
    using inv by (simp_all add: sys_inv_def)
  have "groups_inv (y\<lparr>y_conn := c\<rparr>)" using evolves_groups [OF e] i(3) by (auto simp: groups_inv_def groups_kept_def Let_def)
  with evolves_inv [OF e i(1)] evolves_tracked [OF e i(1,2)] f i(4) show ?thesis by (simp add: sys_inv_def)
qed

lemma sys_inv_aside:
  assumes "sys_inv y" "c_heap c = c_heap (y_conn y)" "same_groups (y_conn y) c" "conn_inv c" "failed_inv c" "c_failure c = c_failure (y_conn y)"
  shows "sys_inv (y\<lparr>y_conn := c\<rparr>)"
  using assms by (intro evolves_sys_inv aside_evolves) (auto simp: sys_inv_def)

lemma section_failed_inv:
  assumes inv: "conn_inv c" "failed_inv c" and r: "c_heap c r = Some s"
    and x: "section_ok (local_window c) (in_world s (c_outgoing c) (c_streams c)) w'"
  shows "failed_inv (after_section r w' c)"
proof -
  let ?c = "after_section r w' c"
  note a = after_section_inv [OF inv(1) r x]
  have st: "sticky (in_world s (c_outgoing c) (c_streams c)) w'" using x by (simp add: section_ok_def)
  have "all_closed ?c" if "all_closed c" unfolding all_closed_def
  proof (intro allI impI)
    fix sid r2
    assume "st_live (c_streams ?c) sid = Some r2"
    then have "st_live (c_streams c) sid = Some r2" using a(2) by (simp add: after_section_def) (metis domI map_le_def)
    with that obtain s2 where s2: "c_heap c r2 = Some s2" "s_err s2 \<noteq> None" unfolding all_closed_def by blast
    then show "\<exists>s. c_heap ?c r2 = Some s \<and> s_err s \<noteq> None" using st r
      by (cases "r2 = r") (auto simp: after_section_def sticky_def)
  qed
  with inv(2) a show ?thesis by (simp add: failed_inv_def after_section_def)
qed

subsection \<open>The write loop\<close>

lemma sys_inv_run:
  assumes "sys_inv y" "c_heap (y_conn y) r = Some s"
  shows "\<exists>outgoing W R w u. created outgoing W R w \<and> stream_reachable w u \<and> u_world u = in_world s (c_outgoing (y_conn y)) (c_streams (y_conn y)) \<and>
    u_point u = point_of (y_writer y) r \<and> u_sent u = sent_by (y_wire y) r"
proof -
  have "track (y_conn y) (point_of (y_writer y) r) (sent_by (y_wire y) r) r" using assms(1) by (simp add: sys_inv_def all_tracked_def)
  with assms(2) show ?thesis by (auto simp: track_def tracked_def)
qed

lemma sys_inv_world:
  assumes "sys_inv y" "c_heap (y_conn y) r = Some s"
  shows "world_inv (local_window (y_conn y)) (in_world s (c_outgoing (y_conn y)) (c_streams (y_conn y)))"
  using assms by (intro world_of_conn) (simp_all add: sys_inv_def)

lemma sys_inv_wired:
  assumes "sys_inv y" "c_heap (y_conn y) r = Some s" "point_of (y_writer y) r \<in> {Idle, CtrlTaken, DataTaken, CtrlWriting AfterFrame}"
  shows "wr_wired (in_world s out st) = 0"
proof -
  obtain outgoing W R w u where u: "created outgoing W R w" "stream_reachable w u" "u_world u = in_world s (c_outgoing (y_conn y)) (c_streams (y_conn y))"
    "u_point u = point_of (y_writer y) r" using sys_inv_run [OF assms(1,2)] by blast
  have "loop_inv u" using reachable_inv [OF u(1,2)] by (simp add: run_inv_def)
  with u(3,4) assms(3) show ?thesis by (simp add: loop_inv_def)
qed

lemma busy_stream:
  assumes "sys_inv y" "point_of (y_writer y) r \<noteq> Idle"
  obtains s where "c_heap (y_conn y) r = Some s"
proof -
  have "track (y_conn y) (point_of (y_writer y) r) (sent_by (y_wire y) r) r" using assms(1) by (simp add: sys_inv_def all_tracked_def)
  with assms(2) that show thesis by (auto simp: track_def split: if_splits)
qed

lemma writer_step_inv:
  assumes inv: "sys_inv y" and s: "c_heap (y_conn y) r = Some s" and run: "\<forall>ro. y_writer y \<noteq> Stopped ro"
    and c: "c = after_section r w' (y_conn y)" "conn_inv c" "failed_inv c"
    and others: "\<And>r2. r2 \<noteq> r \<Longrightarrow> point_of wl r2 = point_of (y_writer y) r2 \<and> sent_by fs r2 = []"
    and step: "\<And>u. u_world u = in_world s (c_outgoing (y_conn y)) (c_streams (y_conn y)) \<Longrightarrow> u_point u = point_of (y_writer y) r \<Longrightarrow>
      \<exists>u'. stream_step u u' \<and> u_world u' = w' \<and> u_point u' = point_of wl r \<and> u_sent u' = u_sent u @ sent_by fs r"
  shows "sys_inv (y\<lparr>y_conn := c, y_writer := wl, y_wire := y_wire y @ fs\<rparr>)"
proof -
  let ?c = "y_conn y" and ?y = "y\<lparr>y_conn := c, y_writer := wl, y_wire := y_wire y @ fs\<rparr>"
  have i: "all_tracked ?c (point_of (y_writer y)) (sent_by (y_wire y))" "groups_inv y" "y_reader y \<noteq> Reading \<longrightarrow> c_failure ?c \<noteq> None" "\<not> y_gone y"
    using inv run by (auto simp: sys_inv_def)
  have "all_tracked c (point_of wl) (sent_by (y_wire y @ fs))" unfolding all_tracked_def
  proof
    fix r2
    have t: "track ?c (point_of (y_writer y) r2) (sent_by (y_wire y) r2) r2" using i(1) by (simp add: all_tracked_def)
    show "track c (point_of wl r2) (sent_by (y_wire y @ fs) r2) r2"
    proof (cases "r2 = r")
      case False
      then have "c_heap c r2 = c_heap ?c r2" by (simp add: c(1) after_section_def)
      from track_others [OF t c(2) this] others [OF False] show ?thesis by simp
    next
      case True
      then have "tracked ?c (point_of (y_writer y) r) (sent_by (y_wire y) r) r" using t s by (simp add: track_def)
      then have "tracked c (point_of wl r) (sent_by (y_wire y) r @ sent_by fs r) r"
      proof (rule tracked_step)
        fix s2 and u :: run
        assume u: "c_heap ?c r = Some s2" "u_world u = in_world s2 (c_outgoing ?c) (c_streams ?c)" "u_point u = point_of (y_writer y) r"
          "u_sent u = sent_by (y_wire y) r"
        then obtain u' where "stream_step u u'" "u_world u' = w'" "u_point u' = point_of wl r" "u_sent u' = u_sent u @ sent_by fs r"
          using step [of u] s by auto
        then show "\<exists>u' s'. stream_step u u' \<and> c_heap c r = Some s' \<and> u_world u' = in_world s' (c_outgoing c) (c_streams c) \<and>
            u_point u' = point_of wl r \<and> u_sent u' = sent_by (y_wire y) r @ sent_by fs r"
          using u(4) by (intro exI [of _ u'] exI [of _ "rawStream.truncate w'"]) (simp add: c(1) after_section_def in_world_parts)
      qed
      with True show ?thesis by (auto simp: track_def tracked_def)
    qed
  qed
  moreover have "groups_inv ?y" using i(2) s unfolding groups_inv_def by (auto simp: c(1) after_section_def Let_def)
  moreover have "c_failure c = c_failure ?c" by (simp add: c(1) after_section_def)
  ultimately show ?thesis using c(2,3) i(3,4) by (simp add: sys_inv_def)
qed

lemma writer_section_inv:
  assumes inv: "sys_inv y" and s: "c_heap (y_conn y) r = Some s" and run: "\<forall>ro. y_writer y \<noteq> Stopped ro"
    and ok: "section_ok (local_window (y_conn y)) (in_world s (c_outgoing (y_conn y)) (c_streams (y_conn y))) w'"
    and others: "\<And>r2. r2 \<noteq> r \<Longrightarrow> point_of wl r2 = point_of (y_writer y) r2 \<and> sent_by fs r2 = []"
    and step: "\<And>u. u_world u = in_world s (c_outgoing (y_conn y)) (c_streams (y_conn y)) \<Longrightarrow> u_point u = point_of (y_writer y) r \<Longrightarrow>
      \<exists>u'. stream_step u u' \<and> u_world u' = w' \<and> u_point u' = point_of wl r \<and> u_sent u' = u_sent u @ sent_by fs r"
  shows "sys_inv (y\<lparr>y_conn := after_section r w' (y_conn y), y_writer := wl, y_wire := y_wire y @ fs\<rparr>)"
proof -
  have i: "conn_inv (y_conn y)" "failed_inv (y_conn y)" using inv by (simp_all add: sys_inv_def)
  show ?thesis by (rule writer_step_inv [OF inv s run refl after_section_inv(1) [OF i(1) s ok] section_failed_inv [OF i s ok] others step])
qed

lemma ctrl_point_inv:
  assumes inv: "sys_inv y" and s: "c_heap (y_conn y) r = Some s" and run: "y_writer y = TakenCtrl r \<or> y_writer y = WritingCtrl r k"
    and ok: "section_ok (local_window (y_conn y)) (in_world s (c_outgoing (y_conn y)) (c_streams (y_conn y))) w'"
    and step: "\<And>u. u_world u = in_world s (c_outgoing (y_conn y)) (c_streams (y_conn y)) \<Longrightarrow> u_point u = point_of (y_writer y) r \<Longrightarrow>
      stream_step u (ctrl_next pt w' u)"
    and wl: "after_ctrl r pt = (wl, fs)"
  shows "sys_inv (y\<lparr>y_conn := after_section r w' (y_conn y), y_writer := wl, y_wire := y_wire y @ fs\<rparr>)"
proof (rule writer_section_inv [OF inv s _ ok])
  show "\<forall>ro. y_writer y \<noteq> Stopped ro" using run by auto
  show "point_of wl r2 = point_of (y_writer y) r2 \<and> sent_by fs r2 = []" if "r2 \<noteq> r" for r2
    using that run wl by (cases pt) auto
  show "\<exists>u'. stream_step u u' \<and> u_world u' = w' \<and> u_point u' = point_of wl r \<and> u_sent u' = u_sent u @ sent_by fs r"
    if "u_world u = in_world s (c_outgoing (y_conn y)) (c_streams (y_conn y))" "u_point u = point_of (y_writer y) r" for u
    using step [OF that] wl by (intro exI [of _ "ctrl_next pt w' u"]) (cases pt; auto simp: ctrl_next_def send_frame_def)
qed

text \<open>The sections of the write loop neither panic nor break the invariant.\<close>

lemma ctrl_start_ok:
  assumes inv: "sys_inv y" and p: "y_writer y = TakenCtrl r"
  shows "\<exists>pt c. with_stream r writeCtrl_start (y_conn y) = Some (pt, c) \<and>
    (\<forall>wl fs. after_ctrl r pt = (wl, fs) \<longrightarrow> sys_inv (y\<lparr>y_conn := c, y_writer := wl, y_wire := y_wire y @ fs\<rparr>))"
proof -
  obtain s where s: "c_heap (y_conn y) r = Some s" using busy_stream [OF inv, of r] p by auto
  let ?w = "in_world s (c_outgoing (y_conn y)) (c_streams (y_conn y))"
  note wi = sys_inv_world [OF inv s]
  have "wr_wired ?w = 0" using sys_inv_wired [OF inv s] p by simp
  from writeCtrl_start_ok [OF wi this] obtain pt w' where w': "writeCtrl_start ?w = Some (pt, w')" "section_ok (local_window (y_conn y)) ?w w'"
    by (auto simp: ctrl_ok_def)
  have "stream_step u (ctrl_next pt w' u)" if "u_world u = ?w" "u_point u = point_of (y_writer y) r" for u
    using that w'(1) p by (intro stream_step.ctrl_start) simp_all
  from ctrl_point_inv [OF inv s disjI1 [OF p] w'(2) this] with_stream_eq [OF s, where f = writeCtrl_start, OF w'(1)] show ?thesis by blast
qed

lemma ctrl_resume_ok:
  assumes inv: "sys_inv y" and p: "y_writer y = WritingCtrl r k"
  shows "\<exists>pt c. with_stream r (writeCtrl_resume k) (y_conn y) = Some (pt, c) \<and>
    (\<forall>wl fs. after_ctrl r pt = (wl, fs) \<longrightarrow> sys_inv (y\<lparr>y_conn := c, y_writer := wl, y_wire := y_wire y @ fs\<rparr>))"
proof -
  obtain s where s: "c_heap (y_conn y) r = Some s" using busy_stream [OF inv, of r] p by auto
  let ?w = "in_world s (c_outgoing (y_conn y)) (c_streams (y_conn y))" and ?W = "local_window (y_conn y)"
  note wi = sys_inv_world [OF inv s]
  have wired: "k = AfterFrame \<longrightarrow> wr_wired ?w = 0" using sys_inv_wired [OF inv s] p by simp
  obtain pt w' where w': "writeCtrl_resume k ?w = Some (pt, w')" using resume_total [OF wi wired] by blast
  have "section_ok ?W (case k of AfterData \<Rightarrow> finishData ?w | AfterFrame \<Rightarrow> ?w) w'"
    using resume_ok [OF wi wired w'] by (simp add: ctrl_ok_def)
  moreover have "section_ok ?W ?w (case k of AfterData \<Rightarrow> finishData ?w | AfterFrame \<Rightarrow> ?w)"
    using finishData_ok [OF wi] section_refl [OF wi] by (cases k) simp_all
  ultimately have ok: "section_ok ?W ?w w'" using section_trans by blast
  have "stream_step u (ctrl_next pt w' u)" if "u_world u = ?w" "u_point u = point_of (y_writer y) r" for u
    using that w' p by (intro stream_step.ctrl_resume [where r = k]) simp_all
  from ctrl_point_inv [OF inv s disjI2 [OF p] ok this] with_stream_eq [OF s, where f = "writeCtrl_resume k", OF w'] show ?thesis by blast
qed

lemma data_start_ok:
  assumes inv: "sys_inv y" and p: "y_writer y = TakenData r"
  shows "\<exists>fo c. with_stream r writeData_start (y_conn y) = Some (fo, c) \<and>
    (\<forall>wl fs. after_data r fo = (wl, fs) \<longrightarrow> sys_inv (y\<lparr>y_conn := c, y_writer := wl, y_wire := y_wire y @ fs\<rparr>))"
proof -
  obtain s where s: "c_heap (y_conn y) r = Some s" using busy_stream [OF inv, of r] p by auto
  let ?w = "in_world s (c_outgoing (y_conn y)) (c_streams (y_conn y))" and ?W = "local_window (y_conn y)"
  note wi = sys_inv_world [OF inv s]
  have "wr_wired ?w = 0" using sys_inv_wired [OF inv s] p by simp
  from writeData_start_ok [OF wi this] obtain fo w' where w': "writeData_start ?w = Some (fo, w')" "section_ok ?W ?w w'" by blast
  have "sys_inv (y\<lparr>y_conn := after_section r w' (y_conn y), y_writer := wl, y_wire := y_wire y @ fs\<rparr>)"
    if wl: "after_data r fo = (wl, fs)" for wl fs
  proof (rule writer_section_inv [OF inv s _ w'(2)])
    show "\<forall>ro. y_writer y \<noteq> Stopped ro" using p by simp
    show "point_of wl r2 = point_of (y_writer y) r2 \<and> sent_by fs r2 = []" if "r2 \<noteq> r" for r2 using that p wl by (cases fo) auto
    show "\<exists>u'. stream_step u u' \<and> u_world u' = w' \<and> u_point u' = point_of wl r \<and> u_sent u' = u_sent u @ sent_by fs r"
      if "u_world u = ?w" "u_point u = point_of (y_writer y) r" for u
      using stream_step.data_start [of u fo w'] that p w'(1) wl
      by (intro exI [of _ "data_next fo w' u"]) (cases fo; auto simp: data_next_def send_frame_def)
  qed
  then show ?thesis using with_stream_eq [OF s, where f = writeData_start, OF w'(1)] by blast
qed

lemma data_finish_ok:
  assumes inv: "sys_inv y" and p: "y_writer y = WritingData r"
  shows "\<exists>x c. with_stream r (\<lambda>w. Some ((), finishData w)) (y_conn y) = Some (x, c) \<and> sys_inv (y\<lparr>y_conn := c, y_writer := Looping\<rparr>)"
proof -
  obtain s where s: "c_heap (y_conn y) r = Some s" using busy_stream [OF inv, of r] p by auto
  let ?w = "in_world s (c_outgoing (y_conn y)) (c_streams (y_conn y))"
  have ok: "section_ok (local_window (y_conn y)) ?w (finishData ?w)" using finishData_ok [OF sys_inv_world [OF inv s]] by blast
  have "sys_inv (y\<lparr>y_conn := after_section r (finishData ?w) (y_conn y), y_writer := Looping, y_wire := y_wire y @ []\<rparr>)"
  proof (rule writer_section_inv [OF inv s _ ok])
    show "\<exists>u'. stream_step u u' \<and> u_world u' = finishData ?w \<and> u_point u' = point_of Looping r \<and> u_sent u' = u_sent u @ sent_by [] r"
      if "u_world u = ?w" "u_point u = point_of (y_writer y) r" for u
      using stream_step.data_finish [of u] that p by (intro exI [of _ "u\<lparr>u_world := finishData ?w, u_point := Idle\<rparr>"]) simp
  qed (use p in auto)
  then show ?thesis using with_stream_eq [OF s, where f = "\<lambda>w. Some ((), finishData w)", OF refl] by simp
qed

lemma sys_inv_idle:
  assumes "sys_inv y" "y_writer y \<in> {Sleeping, Looping}" "wl \<in> {Sleeping, Looping, Stopped None}"
  shows "sys_inv (y\<lparr>y_writer := wl, y_wire := y_wire y @ map (Pair None) fs\<rparr>)"
proof -
  have "point_of wl = point_of (y_writer y)" using assms(2,3) by auto
  moreover have "sent_by (y_wire y @ map (Pair None) fs) = sent_by (y_wire y)" by (rule ext) simp
  ultimately show ?thesis using assms by (auto simp: sys_inv_def groups_inv_def Let_def)
qed

lemma outgoing_job_inv:
  assumes inv: "sys_inv y" and p: "y_writer y = Looping" and wl: "wl \<in> {Sleeping, Looping, Stopped None}"
    and out: "outgoing_inv out" "o_ctrl out = o_ctrl (c_outgoing (y_conn y))" "o_data out = o_data (c_outgoing (y_conn y))"
      "o_err out = o_err (c_outgoing (y_conn y))"
  shows "sys_inv (y\<lparr>y_conn := (y_conn y)\<lparr>c_outgoing := out\<rparr>, y_writer := wl, y_wire := y_wire y @ map (Pair None) fs\<rparr>)"
proof -
  let ?c = "(y_conn y)\<lparr>c_outgoing := out\<rparr>"
  have i: "conn_inv (y_conn y)" "failed_inv (y_conn y)" using inv by (simp_all add: sys_inv_def)
  have "sys_inv (y\<lparr>y_conn := ?c\<rparr>)"
    using conn_inv_outgoing [OF i(1) out(1-3)] i(2) out(4)
    by (intro sys_inv_aside [OF inv]) (simp_all add: same_groups_def failed_inv_def all_closed_def)
  from sys_inv_idle [OF this, of wl fs] p wl show ?thesis by simp
qed

lemma after_take:
  "c_heap c r = Some s \<Longrightarrow> after_section r (in_world s (c_outgoing c) (c_streams c)\<lparr>w_out := out, s_inctrl := a, s_indata := b\<rparr>) c =
     c\<lparr>c_outgoing := out, c_heap := (c_heap c)(r \<mapsto> s\<lparr>s_inctrl := a, s_indata := b\<rparr>)\<rparr>"
  by (cases s) (simp add: after_section_def in_world_def rawStream.defs sworld.defs)

lemma take_job_inv:
  assumes inv: "sys_inv y" and p: "y_writer y = Looping" and s: "c_heap (y_conn y) r = Some s" and c: "conn_inv c"
    "c = (y_conn y)\<lparr>c_outgoing := out, c_heap := (c_heap (y_conn y))(r \<mapsto> s\<lparr>s_inctrl := a, s_indata := b\<rparr>)\<rparr>"
    "o_err out = o_err (c_outgoing (y_conn y))" and wl: "\<And>r2. r2 \<noteq> r \<Longrightarrow> point_of wl r2 = Idle"
    and step: "\<And>u. u_world u = in_world s (c_outgoing (y_conn y)) (c_streams (y_conn y)) \<Longrightarrow> u_point u = Idle \<Longrightarrow>
      stream_step u (u\<lparr>u_world := u_world u\<lparr>w_out := out, s_inctrl := a, s_indata := b\<rparr>, u_point := point_of wl r\<rparr>)"
  shows "sys_inv (y\<lparr>y_conn := c, y_writer := wl, y_wire := y_wire y @ []\<rparr>)"
proof (rule writer_step_inv [OF inv s])
  let ?w = "in_world s (c_outgoing (y_conn y)) (c_streams (y_conn y))"
  show "c = after_section r (?w\<lparr>w_out := out, s_inctrl := a, s_indata := b\<rparr>) (y_conn y)" unfolding c(2) using after_take [OF s] by simp
  have f: "failed_inv (y_conn y)" using inv by (simp add: sys_inv_def)
  have "all_closed c" if "all_closed (y_conn y)" unfolding all_closed_def
  proof (intro allI impI)
    fix sid r2
    assume "st_live (c_streams c) sid = Some r2"
    then have "st_live (c_streams (y_conn y)) sid = Some r2" by (simp add: c(2))
    with that obtain s2 where "c_heap (y_conn y) r2 = Some s2" "s_err s2 \<noteq> None" unfolding all_closed_def by blast
    then show "\<exists>s. c_heap c r2 = Some s \<and> s_err s \<noteq> None" using s unfolding c(2) by (cases "r2 = r") auto
  qed
  then show "failed_inv c" using f c(3) by (simp add: failed_inv_def c(2))
  show "\<exists>u'. stream_step u u' \<and> u_world u' = ?w\<lparr>w_out := out, s_inctrl := a, s_indata := b\<rparr> \<and> u_point u' = point_of wl r \<and>
      u_sent u' = u_sent u @ sent_by [] r"
    if "u_world u = ?w" "u_point u = point_of (y_writer y) r" for u
    using step [of u] that p
    by (intro exI [of _ "u\<lparr>u_world := u_world u\<lparr>w_out := out, s_inctrl := a, s_indata := b\<rparr>, u_point := point_of wl r\<rparr>"]) simp
qed (use p c(1) wl in auto)

lemma take_same:
  "in_world s out st\<lparr>w_out := out', s_inctrl := a, s_indata := s_indata s\<rparr> = in_world s out st\<lparr>w_out := out', s_inctrl := a\<rparr>"
  "in_world s out st\<lparr>w_out := out', s_inctrl := s_inctrl s, s_indata := b\<rparr> = in_world s out st\<lparr>w_out := out', s_indata := b\<rparr>"
  by (cases s, simp add: in_world_def rawStream.defs sworld.defs)+

lemma take_ctrl_ok:
  assumes inv: "sys_inv y" and p: "y_writer y = Looping" and ne: "0 < q_size (o_ctrl (c_outgoing (y_conn y)))"
  shows "\<exists>r q s c. queue_take (o_ctrl (c_outgoing (y_conn y))) = Some (Some r, q) \<and> c_heap (y_conn y) r = Some s \<and>
    c = (y_conn y)\<lparr>c_outgoing := (c_outgoing (y_conn y))\<lparr>o_ctrl := q\<rparr>, c_heap := (c_heap (y_conn y))(r \<mapsto> s\<lparr>s_inctrl := False\<rparr>)\<rparr> \<and>
    sys_inv (y\<lparr>y_conn := c, y_writer := TakenCtrl r\<rparr>)"
proof -
  have i: "conn_inv (y_conn y)" using inv by (simp add: sys_inv_def)
  obtain r q s where q: "queue_take (o_ctrl (c_outgoing (y_conn y))) = Some (Some r, q)" "c_heap (y_conn y) r = Some s"
    "conn_inv ((y_conn y)\<lparr>c_outgoing := (c_outgoing (y_conn y))\<lparr>o_ctrl := q\<rparr>, c_heap := (c_heap (y_conn y))(r \<mapsto> s\<lparr>s_inctrl := False\<rparr>)\<rparr>)"
    using take_ctrl_inv [OF i ne] by blast
  have ref: "s_ref s = r" using i q(2) by (simp add: conn_inv_def heap_inv_def)
  have same: "s\<lparr>s_inctrl := False, s_indata := s_indata s\<rparr> = s\<lparr>s_inctrl := False\<rparr>" by (cases s) simp
  have "sys_inv (y\<lparr>y_conn := (y_conn y)\<lparr>c_outgoing := (c_outgoing (y_conn y))\<lparr>o_ctrl := q\<rparr>, c_heap := (c_heap (y_conn y))(r \<mapsto> s\<lparr>s_inctrl := False\<rparr>)\<rparr>,
      y_writer := TakenCtrl r, y_wire := y_wire y @ []\<rparr>)"
  proof (rule take_job_inv [OF inv p q(2,3), where a = False and b = "s_indata s"])
    fix u :: run
    assume u: "u_world u = in_world s (c_outgoing (y_conn y)) (c_streams (y_conn y))" "u_point u = Idle"
    from stream_step.take_ctrl [OF u(2) refl, of q] q(1) ref u(1)
    show "stream_step u (u\<lparr>u_world := u_world u\<lparr>w_out := (c_outgoing (y_conn y))\<lparr>o_ctrl := q\<rparr>, s_inctrl := False, s_indata := s_indata s\<rparr>,
        u_point := point_of (TakenCtrl r) r\<rparr>)" by (simp add: take_same)
  qed (use same in simp_all)
  with q show ?thesis by auto
qed

lemma take_data_ok:
  assumes inv: "sys_inv y" and p: "y_writer y = Looping" and ne: "0 < q_size (o_data (c_outgoing (y_conn y)))"
  shows "\<exists>r q s c. queue_take (o_data (c_outgoing (y_conn y))) = Some (Some r, q) \<and> c_heap (y_conn y) r = Some s \<and>
    c = (y_conn y)\<lparr>c_outgoing := (c_outgoing (y_conn y))\<lparr>o_data := q\<rparr>, c_heap := (c_heap (y_conn y))(r \<mapsto> s\<lparr>s_indata := False\<rparr>)\<rparr> \<and>
    sys_inv (y\<lparr>y_conn := c, y_writer := TakenData r\<rparr>)"
proof -
  have i: "conn_inv (y_conn y)" using inv by (simp add: sys_inv_def)
  obtain r q s where q: "queue_take (o_data (c_outgoing (y_conn y))) = Some (Some r, q)" "c_heap (y_conn y) r = Some s"
    "conn_inv ((y_conn y)\<lparr>c_outgoing := (c_outgoing (y_conn y))\<lparr>o_data := q\<rparr>, c_heap := (c_heap (y_conn y))(r \<mapsto> s\<lparr>s_indata := False\<rparr>)\<rparr>)"
    using take_data_inv [OF i ne] by blast
  have ref: "s_ref s = r" using i q(2) by (simp add: conn_inv_def heap_inv_def)
  have same: "s\<lparr>s_inctrl := s_inctrl s, s_indata := False\<rparr> = s\<lparr>s_indata := False\<rparr>" by (cases s) simp
  have "sys_inv (y\<lparr>y_conn := (y_conn y)\<lparr>c_outgoing := (c_outgoing (y_conn y))\<lparr>o_data := q\<rparr>, c_heap := (c_heap (y_conn y))(r \<mapsto> s\<lparr>s_indata := False\<rparr>)\<rparr>,
      y_writer := TakenData r, y_wire := y_wire y @ []\<rparr>)"
  proof (rule take_job_inv [OF inv p q(2,3), where a = "s_inctrl s" and b = False])
    fix u :: run
    assume u: "u_world u = in_world s (c_outgoing (y_conn y)) (c_streams (y_conn y))" "u_point u = Idle"
    from stream_step.take_data [OF u(2) refl, of q] q(1) ref u(1)
    show "stream_step u (u\<lparr>u_world := u_world u\<lparr>w_out := (c_outgoing (y_conn y))\<lparr>o_data := q\<rparr>, s_inctrl := s_inctrl s, s_indata := False\<rparr>,
        u_point := point_of (TakenData r) r\<rparr>)" by (simp add: take_same)
  qed (use same in simp_all)
  with q show ?thesis by auto
qed

lemma job_ok:
  assumes inv: "sys_inv y" and p: "y_writer y = Looping"
  shows "\<exists>j c. writeFrames_next (y_conn y) = Some (j, c) \<and>
    sys_inv (y\<lparr>y_conn := c, y_writer := after_job j, y_wire := y_wire y @ map (Pair None) (job_frames j)\<rparr>) \<and>
    (j = Done_job \<longrightarrow> \<not> outgoing_busy (c_outgoing c))"
proof -
  let ?c = "y_conn y" let ?out = "c_outgoing ?c"
  have o: "outgoing_inv ?out" using inv by (simp add: sys_inv_def conn_inv_def refs_inv_def)
  have el: "q_size (o_ctrl ?out) = 0 \<longleftrightarrow> ctrls ?c = []" "q_size (o_data ?out) = 0 \<longleftrightarrow> datas ?c = []"
    using o queue_size_elems by (auto simp: outgoing_inv_def)
  note job = outgoing_job_inv [OF inv p]
  consider (blocked) "0 < o_blocked ?out" | (fails) err where "\<not> 0 < o_blocked ?out" "o_err ?out = Some err"
    | (acks) "\<not> 0 < o_blocked ?out" "o_err ?out = None" "o_pingAcks ?out \<noteq> []"
    | (pings) "\<not> 0 < o_blocked ?out" "o_err ?out = None" "o_pingAcks ?out = []" "o_pingQueue ?out \<noteq> []"
    | (settings) "\<not> 0 < o_blocked ?out" "o_err ?out = None" "o_pingAcks ?out = []" "o_pingQueue ?out = []" "0 < o_settingsAcks ?out"
    | (ctrl) "\<not> 0 < o_blocked ?out" "o_err ?out = None" "o_pingAcks ?out = []" "o_pingQueue ?out = []" "\<not> 0 < o_settingsAcks ?out" "0 < q_size (o_ctrl ?out)"
    | (data) "\<not> 0 < o_blocked ?out" "o_err ?out = None" "o_pingAcks ?out = []" "o_pingQueue ?out = []" "\<not> 0 < o_settingsAcks ?out"
        "\<not> 0 < q_size (o_ctrl ?out)" "0 < q_size (o_data ?out)"
    | (finished) "\<not> 0 < o_blocked ?out" "o_err ?out = None" "o_pingAcks ?out = []" "o_pingQueue ?out = []" "\<not> 0 < o_settingsAcks ?out"
        "\<not> 0 < q_size (o_ctrl ?out)" "\<not> 0 < q_size (o_data ?out)" by (cases "o_err ?out") auto
  then show ?thesis
  proof cases
    case blocked
    then show ?thesis using job [of Looping ?out "[]"] o by (simp add: writeFrames_next_def Let_def)
  next
    case fails
    then show ?thesis using job [of "Stopped None" ?out "[ResetFrame 0 0 err]"] o by (simp add: writeFrames_next_def Let_def)
  next
    case acks
    then show ?thesis using job [of Looping "?out\<lparr>o_pingAcks := []\<rparr>" "map (PingFrame FlagPingAck) (o_pingAcks ?out)"] o
      by (simp add: writeFrames_next_def Let_def outgoing_inv_def outgoing_busy_def)
  next
    case pings
    then show ?thesis using job [of Looping "?out\<lparr>o_pingQueue := []\<rparr>" "map (PingFrame 0) (o_pingQueue ?out)"] o
      by (simp add: writeFrames_next_def Let_def outgoing_inv_def outgoing_busy_def)
  next
    case settings
    then show ?thesis using job [of Looping "?out\<lparr>o_settingsAcks := o_settingsAcks ?out - 1\<rparr>" "[SettingsFrame FlagSettingsAck []]"] o
      by (simp add: writeFrames_next_def Let_def outgoing_inv_def outgoing_busy_def)
  next
    case ctrl
    then show ?thesis using take_ctrl_ok [OF inv p] by (auto simp: writeFrames_next_def Let_def)
  next
    case data
    then show ?thesis using take_data_ok [OF inv p] by (auto simp: writeFrames_next_def Let_def)
  next
    case finished
    have "0 \<le> q_size (o_ctrl ?out)" "0 \<le> q_size (o_data ?out)" using o queue_size_elems by (auto simp: outgoing_inv_def)
    with finished el have nb: "\<not> outgoing_busy (?out\<lparr>o_writeready := False\<rparr>)" by (simp add: outgoing_busy_def)
    then have "outgoing_inv (?out\<lparr>o_writeready := False\<rparr>)" using o by (simp add: outgoing_inv_def)
    with finished nb show ?thesis using job [of Sleeping "?out\<lparr>o_writeready := False\<rparr>" "[]"] by (simp add: writeFrames_next_def Let_def)
  qed
qed

subsection \<open>All steps\<close>

lemma stop_inv:
  assumes inv: "sys_inv y" and p: "may_fail (y_writer y)"
  shows "sys_inv (y\<lparr>y_writer := Stopped (at_write (y_writer y))\<rparr>)"
proof (cases "at_write (y_writer y)")
  case None
  then show ?thesis using sys_inv_idle [OF inv, of "Stopped None" "[]"] p by (auto simp: may_fail_def)
next
  case (Some r)
  then have w: "y_writer y = WritingData r \<or> (\<exists>k. y_writer y = WritingCtrl r k)" by (cases "y_writer y") auto
  then have "point_of (y_writer y) r \<noteq> Idle" by auto
  then obtain s where s: "c_heap (y_conn y) r = Some s" by (rule busy_stream [OF inv])
  let ?w = "in_world s (c_outgoing (y_conn y)) (c_streams (y_conn y))"
  have c: "y_conn y = after_section r ?w (y_conn y)" using s by (simp add: after_section_def fun_upd_idem)
  have "sys_inv (y\<lparr>y_conn := y_conn y, y_writer := Stopped (Some r), y_wire := y_wire y @ []\<rparr>)"
  proof (rule writer_step_inv [OF inv s _ c])
    show "\<exists>u'. stream_step u u' \<and> u_world u' = ?w \<and> u_point u' = point_of (Stopped (Some r)) r \<and> u_sent u' = u_sent u @ sent_by [] r"
      if "u_world u = ?w" "u_point u = point_of (y_writer y) r" for u
    proof -
      have "u_point u = DataWriting \<or> (\<exists>k. u_point u = CtrlWriting k)" using that(2) w by auto
      then have "stream_step u (u\<lparr>u_point := WriteFailed\<rparr>)" using stream_step.write_error by blast
      then show ?thesis using that(1) by (intro exI [of _ "u\<lparr>u_point := WriteFailed\<rparr>"]) simp
    qed
  qed (use inv w in \<open>auto simp: sys_inv_def\<close>)
  with Some show ?thesis by simp
qed

lemma closed_sys_inv:
  assumes inv: "sys_inv y" and ord: "visits_all ord" and c: "conn_closeWithError ord ref err (y_conn y) = Some (x, c)"
  shows "sys_inv (y\<lparr>y_conn := c\<rparr>)" "c_failure c \<noteq> None"
proof -
  have i: "conn_inv (y_conn y)" "failed_inv (y_conn y)" using inv by (simp_all add: sys_inv_def)
  have "failed_inv c" "c_failure c \<noteq> None" using conn_closeWithError_ok [OF ord i, of ref err] c by (auto split: if_splits)
  then show "sys_inv (y\<lparr>y_conn := c\<rparr>)" "c_failure c \<noteq> None" using evolves_sys_inv [OF inv closeWithError_evolves [OF c i(1)]] by simp_all
qed

lemma sys_inv_reader:
  assumes "sys_inv y" "y_reader y \<noteq> ReadEnded" "rd \<noteq> ReadEnded" "rd \<noteq> Reading \<longrightarrow> c_failure (y_conn y) \<noteq> None"
  shows "sys_inv (y\<lparr>y_reader := rd\<rparr>)"
  using assms by (auto simp: sys_inv_def groups_inv_def Let_def)

lemma section_sys_inv:
  assumes inv: "sys_inv y" and op: "sop_wf op" "with_stream r (sop_exec op) (y_conn y) = Some (e, c)"
  shows "sys_inv (y\<lparr>y_conn := c\<rparr>)"
proof -
  have i: "conn_inv (y_conn y)" "failed_inv (y_conn y)" using inv by (simp_all add: sys_inv_def)
  obtain s w' where s: "c_heap (y_conn y) r = Some s" "sop_exec op (in_world s (c_outgoing (y_conn y)) (c_streams (y_conn y))) = Some (e, w')"
    "c = after_section r w' (y_conn y)" using op(2) by (rule with_stream_some)
  have "section_ok (local_window (y_conn y)) (in_world s (c_outgoing (y_conn y)) (c_streams (y_conn y))) w'"
    using section_moves [OF op(1) world_of_conn [OF i(1) s(1)]] s(2) by auto
  then have "failed_inv c" using section_failed_inv [OF i s(1)] s(3) by simp
  moreover have "c_failure c = c_failure (y_conn y)" by (simp add: s(3) after_section_def)
  ultimately show ?thesis using inv evolves_sys_inv [OF inv r_into_rtranclp [of evolve, OF evolve.stream_op [OF op]]] by (simp add: sys_inv_def)
qed

lemma served_sys_inv:
  assumes inv: "sys_inv y" and r: "r \<in> set (c_spawned (y_conn y))" "r \<notin> set (y_served y)"
    and h: "handleStream result r (y_conn y) = Some c" and f: "failed_inv c" "c_failure c = c_failure (y_conn y)"
  shows "sys_inv (y\<lparr>y_conn := c, y_served := y_served y @ [r]\<rparr>)"
proof -
  obtain c1 where c1: "evolves (y_conn y) c1" "c = c1\<lparr>c_shutdowngroup := c_shutdowngroup c1 - 1, c_finishgroup := c_finishgroup c1 - 1\<rparr>"
    using handleStream_evolves [OF h] by blast
  have "failed_inv c1" "c_failure c1 = c_failure (y_conn y)" using f by (simp_all add: c1(2))
  then have i: "sys_inv (y\<lparr>y_conn := c1\<rparr>)" using evolves_sys_inv [OF inv c1(1)] inv by (simp add: sys_inv_def)
  have "set (c_spawned (y_conn y)) \<subseteq> set (c_spawned c1)" using evolves_groups [OF c1(1)] by (simp add: groups_kept_def)
  with i r have "groups_inv (y\<lparr>y_conn := c, y_served := y_served y @ [r]\<rparr>)" by (auto simp: sys_inv_def groups_inv_def Let_def c1(2))
  moreover have "conn_inv c" using i by (simp add: sys_inv_def c1(2))
  moreover have "all_tracked c (point_of (y_writer y)) (sent_by (y_wire y))"
    using all_tracked_aside [of c1 _ _ c] i \<open>conn_inv c\<close> by (simp add: sys_inv_def c1(2))
  ultimately show ?thesis using f inv by (simp add: sys_inv_def)
qed

lemma readloop_end_inv:
  assumes inv: "sys_inv y" and p: "y_reader y = ReadEnding" and e: "readloop_end ord pord (y_conn y) = Some c"
    and f: "failed_inv c" "c_failure c \<noteq> None"
  shows "sys_inv (y\<lparr>y_conn := c, y_reader := ReadEnded\<rparr>)"
proof -
  have i: "conn_inv (y_conn y)" using inv by (simp add: sys_inv_def)
  obtain c1 where c1: "evolves (y_conn y) c1" "c = c1\<lparr>c_finishgroup := c_finishgroup c1 - 1\<rparr>" using readloop_end_evolves [OF e i] by blast
  have "failed_inv c1" "c_failure c1 \<noteq> None" using f by (simp_all add: c1(2))
  then have i1: "sys_inv (y\<lparr>y_conn := c1\<rparr>)" using evolves_sys_inv [OF inv c1(1)] by simp
  then have "groups_inv (y\<lparr>y_conn := c, y_reader := ReadEnded\<rparr>)" using p by (auto simp: sys_inv_def groups_inv_def Let_def c1(2))
  moreover have "conn_inv c" using i1 by (simp add: sys_inv_def c1(2))
  moreover have "all_tracked c (point_of (y_writer y)) (sent_by (y_wire y))"
    using all_tracked_aside [of c1 _ _ c] i1 \<open>conn_inv c\<close> by (simp add: sys_inv_def c1(2))
  ultimately show ?thesis using f inv by (simp add: sys_inv_def)
qed

text \<open>The handler's end and the end of the read loop return, and keep what is known about failures.\<close>

lemma close_kept:
  assumes "conn_inv c" "failed_inv c" "r \<in> dom (c_heap c)"
  shows "\<exists>x c'. with_stream r (stream_CloseWithError err) c = Some (x, c') \<and> conn_inv c' \<and> failed_inv c' \<and> conn_keeps c c'"
    and "\<exists>x c'. with_stream r stream_Close c = Some (x, c') \<and> conn_inv c' \<and> failed_inv c' \<and> conn_keeps c c'"
proof -
  obtain s where s: "c_heap c r = Some s" using assms(3) by auto
  have ok: "\<exists>x w'. stream_CloseWithError e w = Some (x, w') \<and> section_ok (local_window c) w w' \<and> (wr_wired w' = wr_wired w \<or> wr_wired w' = 0)"
    if "world_inv (local_window c) w" for w e
    using closeWithErrorLocked_ok [OF that, of e] closeWithErrorLocked_keeps [of w e] unfolding stream_CloseWithError_def keeps_def by blast
  show "\<exists>x c'. with_stream r (stream_CloseWithError err) c = Some (x, c') \<and> conn_inv c' \<and> failed_inv c' \<and> conn_keeps c c'"
    by (rule stream_section_ok [OF assms(1,2) s ok])
  have "stream_Close = stream_CloseWithError None" by (rule ext) (simp add: stream_Close_def stream_CloseWithError_def)
  moreover have "\<exists>x c'. with_stream r (stream_CloseWithError None) c = Some (x, c') \<and> conn_inv c' \<and> failed_inv c' \<and> conn_keeps c c'"
    by (rule stream_section_ok [OF assms(1,2) s ok])
  ultimately show "\<exists>x c'. with_stream r stream_Close c = Some (x, c') \<and> conn_inv c' \<and> failed_inv c' \<and> conn_keeps c c'"
    by simp
qed

lemma handleStream_ok:
  assumes inv: "conn_inv c" "failed_inv c" and r: "r \<in> dom (c_heap c)"
  shows "\<exists>c'. handleStream result r c = Some c' \<and> failed_inv c' \<and> c_failure c' = c_failure c"
proof (cases result)
  case None
  with close_kept(1) [OF inv r, of "Some (ErrCode ENOTARGET)"] show ?thesis by (auto simp: handleStream_def conn_keeps_def)
next
  case (Some err)
  obtain c1 where c1: "(if err \<noteq> None then do { (_, c) \<leftarrow> with_stream r (stream_CloseWithError err) c; Some c } else Some c) = Some c1"
    "conn_inv c1" "failed_inv c1" "conn_keeps c c1"
    using close_kept(1) [OF inv r, of err] inv conn_keeps_refl [of c] by (cases "err = None") auto
  then have "r \<in> dom (c_heap c1)" using r by (simp add: conn_keeps_def)
  from close_kept(2) [OF c1(2,3) this] obtain x c2 where c2: "with_stream r stream_Close c1 = Some (x, c2)" "failed_inv c2" "conn_keeps c1 c2" by blast
  have "handleStream result r c = Some (c2\<lparr>c_shutdowngroup := c_shutdowngroup c2 - 1, c_finishgroup := c_finishgroup c2 - 1\<rparr>)"
    using Some c1(1) c2(1) by (simp add: handleStream_def)
  with c2 c1(4) show ?thesis by (simp add: conn_keeps_def)
qed

lemma readloop_end_ok:
  assumes ord: "visits_all ord" and inv: "conn_inv c" "failed_inv c" and e: "c_failure c = Some e"
  shows "\<exists>c'. readloop_end ord pord c = Some c' \<and> failed_inv c' \<and> c_failure c' = Some e"
proof -
  obtain calls p out where p: "pings_fail pord (Some e) (c_pings c) (c_outgoing c) = (calls, p, out)" using prod_cases3 by blast
  then have o: "o_err out = o_err (c_outgoing c)" by (auto simp: pings_fail_def Let_def clearPingQueue_def)
  obtain x where st: "st_err (c_streams c) = Some x" using inv(2) e by (auto simp: failed_inv_def)
  obtain calls2 s where s: "settings_failLocked (Some e) (c_settings c) = (calls2, s)" by fastforce
  show ?thesis using inv(2) e st s p o
    by (simp add: readloop_end_def conn_Err_def Let_def streams_failLocked_def failed_inv_def all_closed_def)
qed

lemma sys_step_inv:
  assumes "sys_step y y'" "sys_inv y"
  shows "sys_inv y'"
  using assms
proof (induction rule: sys_step.induct)
  case (frame y ord ref f ok c)
  then have i: "conn_inv (y_conn y)" "failed_inv (y_conn y)" "set (c_spawned (y_conn y)) \<subseteq> dom (c_heap (y_conn y))"
    by (simp_all add: sys_inv_def groups_inv_def Let_def)
  have k: "failed_inv c" "c_failure (y_conn y) \<noteq> None \<longrightarrow> c_failure c \<noteq> None" "\<not> ok \<longrightarrow> c_failure c \<noteq> None"
    using processFrame_ok [OF frame(2) i(1,2) frame(3), of ref f] frame(4) by auto
  have "sys_inv (y\<lparr>y_conn := c\<rparr>)"
    using evolves_sys_inv [OF frame(5) processFrame_evolves [OF frame(4) i(1,2) frame(3) i(3)] k(1)] frame(1) by simp
  from sys_inv_reader [OF this, of "if ok then Reading else ReadEnding"] frame(1) k(3) show ?case by simp
next
  case (read_error y ord ref e x c)
  note cl = closed_sys_inv [OF read_error(4,2,3)]
  from sys_inv_reader [OF cl(1), of ReadEnding] read_error(1) cl(2) show ?case by simp
next
  case (read_end y ord pord c)
  then have i: "conn_inv (y_conn y)" "failed_inv (y_conn y)" "c_failure (y_conn y) \<noteq> None" by (simp_all add: sys_inv_def)
  then obtain e where "c_failure (y_conn y) = Some e" by auto
  from readloop_end_ok [OF read_end(2) i(1,2) this, of pord] have "failed_inv c" "c_failure c \<noteq> None" using read_end(3) by auto
  with readloop_end_inv [OF read_end(4,1,3)] show ?case by simp
next
  case (call op r y e c)
  then show ?case by (intro section_sys_inv)
next
  case (open_stream y res c)
  then have i: "conn_inv (y_conn y)" "failed_inv (y_conn y)" by (simp_all add: sys_inv_def)
  have "failed_inv c" "c_failure c = c_failure (y_conn y)" using NewStream_ok [OF i open_stream(1)] open_stream(2) by auto
  with evolves_sys_inv [OF open_stream(3) NewStream_evolves [OF open_stream(2) i(1) open_stream(1)]] open_stream(3) show ?case
    by (simp add: sys_inv_def)
next
  case (served r y result c)
  then have i: "conn_inv (y_conn y)" "failed_inv (y_conn y)" "r \<in> dom (c_heap (y_conn y))" by (auto simp: sys_inv_def groups_inv_def Let_def)
  have "failed_inv c" "c_failure c = c_failure (y_conn y)" using handleStream_ok [OF i, of result] served(3) by auto
  with served_sys_inv [OF served(4,1,2,3)] show ?case by simp
next
  case (close ord ref y x c)
  then show ?case using closed_sys_inv(1) by (simp add: conn_Close_def)
next
  case (shutdown y)
  then show ?case by (intro sys_inv_aside) (simp_all add: conn_Shutdown_def same_groups_def sys_inv_def)
next
  case (ping y c data cb calls p out)
  then have i: "conn_inv c" "failed_inv c" by (auto simp: sys_inv_def)
  have o: "outgoing_inv (c_outgoing c)" "p_err (c_pings c) = None \<longleftrightarrow> p_pings (c_pings c) \<noteq> None"
    using i(1) by (simp_all add: conn_inv_def refs_inv_def misc_inv_def)
  have out: "out = c_outgoing c \<or> out = addPingQueue (c_outgoing c) data"
    using ping(2) by (auto simp: conn_ping_def addPing_def Let_def split: if_splits bind_splits)
  have "p_err p = None \<longleftrightarrow> p_pings p \<noteq> None" using addPing_cases [OF o(2), of data cb "c_outgoing c"] ping(2) by auto
  moreover have "conn_inv (c\<lparr>c_outgoing := out\<rparr>)" using out i(1) o(1) outgoing_ops_inv(4) [OF o(1)] by (intro conn_inv_outgoing) auto
  ultimately have "conn_inv (c\<lparr>c_pings := p, c_outgoing := out\<rparr>)" by (simp add: conn_inv_def heap_inv_def table_inv_def refs_inv_def misc_inv_def)
  moreover have "o_err out = o_err (c_outgoing c)" using out by (auto simp: addPingQueue_def wakeupLocked_def)
  ultimately show ?case using ping(1,3) i by (intro sys_inv_aside) (simp_all add: same_groups_def failed_inv_def all_closed_def)
next
  case (timer y c)
  then have i: "conn_inv c" "failed_inv c" "outgoing_inv (c_outgoing c)" by (auto simp: sys_inv_def conn_inv_def refs_inv_def)
  have "conn_inv (c\<lparr>c_outgoing := outgoing_wakeup (c_outgoing c)\<rparr>)"
    by (rule conn_inv_outgoing [OF i(1) outgoing_ops_inv(1) [OF i(3)]]) (simp_all add: outgoing_wakeup_def wakeupLocked_def)
  with timer i show ?case by (intro sys_inv_aside) (simp_all add: same_groups_def failed_inv_def all_closed_def outgoing_wakeup_def wakeupLocked_def)
next
  case (wake y)
  then show ?case using sys_inv_idle [of y Looping "[]"] by simp
next
  case (job y j c)
  with job_ok [OF job(3,1)] show ?case by auto
next
  case (ctrl_start y r pt c wl fs)
  with ctrl_start_ok [OF ctrl_start(4,1)] show ?case by auto
next
  case (ctrl_resume y r k pt c wl fs)
  with ctrl_resume_ok [OF ctrl_resume(4,1)] show ?case by auto
next
  case (data_start y r fo c wl fs)
  with data_start_ok [OF data_start(4,1)] show ?case by auto
next
  case (data_finish y r x c)
  with data_finish_ok [OF data_finish(3,1)] show ?case by auto
next
  case (write_error y ord ref e x c)
  have "sys_inv (y\<lparr>y_conn := c\<rparr>)" using closed_sys_inv(1) [OF write_error(4,2,3)] .
  from stop_inv [OF this] write_error(1) show ?case by simp
next
  case (write_end y ro c)
  have i: "conn_inv c" "all_tracked c (point_of (y_writer y)) (sent_by (y_wire y))" using write_end by (auto simp: sys_inv_def)
  have "all_tracked (c\<lparr>c_finishgroup := c_finishgroup c - 1\<rparr>) (point_of (y_writer y)) (sent_by (y_wire y))"
    by (rule all_tracked_aside [OF i(2)]) (use i(1) in simp_all)
  with write_end show ?case by (auto simp: sys_inv_def groups_inv_def Let_def)
qed

lemma sys_reachable_inv: "sys_reachable server y \<Longrightarrow> sys_inv y"
  by (induction rule: sys_reachable.induct) (auto intro: sys_start_inv sys_step_inv)

end
