(* ===== verification/Write_Loop.thy ===== *)
theory Write_Loop
  imports Conn_System
begin

text \<open>
  The write loop left alone: \<^verbatim>\<open>writeFrames\<close> of \<^verbatim>\<open>rawconn_outgoing.go\<close> from its first round to
  its return, with every write succeeding and nothing else happening to the connection. The loop has
  no bound in the code; it ends because every job removes more work than it adds.
\<close>

unbundle bit_operations_syntax

section \<open>The loop\<close>

definition stream_writeData :: "sworld \<Rightarrow> (Frame list \<times> sworld) option" where
  "stream_writeData w = do {
     (fo, w) \<leftarrow> writeData_start w;
     Some (case fo of None \<Rightarrow> ([], w) | Some f \<Rightarrow> ([f], finishData w))
   }"

fun run_job :: "job \<Rightarrow> rawConn \<Rightarrow> (Frame list \<times> rawConn) option" where
  "run_job (Ctrl_job r) c = with_stream r stream_writeCtrl c"
| "run_job (Data_job r) c = with_stream r stream_writeData c"
| "run_job j c = Some (job_frames j, c)"

text \<open>The frames written, the result of \<^verbatim>\<open>writeFrames\<close>, and the connection afterwards.\<close>

fun writeFrames :: "nat \<Rightarrow> rawConn \<Rightarrow> (Frame list \<times> bool \<times> rawConn) option" where
  "writeFrames 0 c = None"
| "writeFrames (Suc n) c =
     (case writeFrames_next c of
        None \<Rightarrow> None
      | Some (Blocked_job, c) \<Rightarrow> None
      | Some (Fail_job err, c) \<Rightarrow> Some (job_frames (Fail_job err), False, c)
      | Some (Done_job, c) \<Rightarrow> Some ([], True, c)
      | Some (j, c) \<Rightarrow>
          (case run_job j c of
             None \<Rightarrow> None
           | Some (fs, c) \<Rightarrow> (case writeFrames n c of None \<Rightarrow> None | Some (gs, ok, c) \<Rightarrow> Some (fs @ gs, ok, c))))"

text \<open>The rounds that are enough: two for each stream with data, because its data may unlock an EOF.\<close>

definition work :: "rawConnOutgoing \<Rightarrow> nat" where
  "work out = 2 * length (queue_elems (o_data out)) + length (queue_elems (o_ctrl out)) + length (o_pingAcks out) +
     length (o_pingQueue out) + nat (o_settingsAcks out)"

section \<open>What the sections schedule\<close>

lemma round_out: "writeCtrl_round w = Some (pt, w') \<Longrightarrow> w_out w' = w_out w"
  unfolding writeCtrl_round_def
  by (auto simp: Let_def cleanupLocked_def prepareDataLocked_def outgoingFlags_def split: if_splits bind_splits prod.splits)

lemma finishData_out: "w_out (finishData w) = w_out w"
  by (simp add: finishData_def Let_def split: prod.splits)

lemma resume_out: "writeCtrl_resume k w = Some (pt, w') \<Longrightarrow> w_out w' = w_out w"
  using round_out [of "case k of AfterData \<Rightarrow> finishData w | AfterFrame \<Rightarrow> w" pt w']
  by (cases k) (simp_all add: writeCtrl_resume_def finishData_out)

lemma start_out: "writeCtrl_start w = Some (pt, w') \<Longrightarrow> w_out w' = w_out w"
  using round_out [of w pt w'] by (auto simp: writeCtrl_start_def cleanupLocked_def split: if_splits)

lemma writeData_indata:
  assumes inv: "world_inv W w" and wired: "wr_wired w = 0" and d: "writeData_start w = Some (fo, w')"
  shows "s_indata w' = s_indata w"
proof -
  obtain data fl w1 w2 where r: "prepareDataLocked w dataFramePayloadSize = Some (data, w1)" "outgoingFlags w1 = (fl, w2)"
    "s_indata w2 = s_indata w" "\<not> activeData w2" using send_data_ok [OF inv wired] by blast
  have "s_indata w3 = s_indata w2" if "scheduleCtrl w2 = Some w3" for w3
    using that by (auto simp: scheduleCtrl_def addCtrl_def split: if_splits bind_splits)
  moreover have "s_indata w1 = s_indata w" using r(1) by (auto simp: prepareDataLocked_def Let_def split: if_splits bind_splits)
  ultimately show ?thesis using d r unfolding writeData_start_def by (auto split: if_splits bind_splits)
qed

lemma writeData_work:
  assumes inv: "world_inv W w" and wired: "wr_wired w = 0" and d: "writeData_start w = Some (fo, w')"
  shows "work (w_out w') \<le> work (w_out w) + 1 \<and> o_err (w_out w') = o_err (w_out w) \<and> o_blocked (w_out w') = o_blocked (w_out w)"
proof -
  have "section_ok W w w'" using writeData_start_ok [OF inv wired] d by auto
  then have "sched w (w_out w') (s_inctrl w') (s_indata w')" by (simp add: section_ok_def)
  then show ?thesis using writeData_indata [OF assms] by (auto simp: sched_def added_def work_def)
qed

section \<open>Whole jobs\<close>

lemma after_section_twice: "after_section r w' (after_section r w c) = after_section r w' c"
  by (simp add: after_section_def)

lemma after_section_world:
  "c_heap (after_section r w c) r = Some (rawStream.truncate w)" "c_outgoing (after_section r w c) = w_out w" "c_streams (after_section r w c) = w_streams w"
  by (simp_all add: after_section_def)

lemma ctrl_run_ok:
  assumes "sys_inv (y\<lparr>y_conn := after_section r w c, y_writer := wl, y_wire := y_wire y @ fs\<rparr>)" "after_ctrl r pt = (wl, fs)"
    and "case pt of CtrlDone \<Rightarrow> 0 < n | CtrlWrite f k \<Rightarrow> owed w + 1 < n"
  shows "\<exists>gs w'. writeCtrl_run n (pt, w) = Some (gs, w') \<and> w_out w' = w_out w \<and>
    sys_inv (y\<lparr>y_conn := after_section r w' c, y_writer := Looping, y_wire := y_wire y @ map (Pair (Some r)) gs\<rparr>)"
  using assms
proof (induction n arbitrary: pt w wl fs y)
  case 0
  then show ?case by (simp split: ctrl_point.splits)
next
  case (Suc n)
  show ?case
  proof (cases pt)
    case CtrlDone
    with Suc.prems show ?thesis by simp
  next
    case (CtrlWrite f k)
    let ?y = "y\<lparr>y_conn := after_section r w c, y_writer := WritingCtrl r k, y_wire := y_wire y @ [(Some r, f)]\<rparr>"
    have inv: "sys_inv ?y" using Suc.prems(1,2) CtrlWrite by simp
    have h: "c_heap (y_conn ?y) r = Some (rawStream.truncate w)" by (simp add: after_section_world)
    have w: "in_world (rawStream.truncate w) (c_outgoing (y_conn ?y)) (c_streams (y_conn ?y)) = w" by (simp add: after_section_world in_world_parts)
    have wi: "world_inv (local_window (y_conn ?y)) w" using sys_inv_world [OF inv h] w by simp
    have wired: "k = AfterFrame \<longrightarrow> wr_wired w = 0" using sys_inv_wired [OF inv h, of "w_out w" "w_streams w"] by (simp add: in_world_parts)
    obtain pt' c1 where r: "with_stream r (writeCtrl_resume k) (y_conn ?y) = Some (pt', c1)"
      "\<forall>wl fs. after_ctrl r pt' = (wl, fs) \<longrightarrow> sys_inv (?y\<lparr>y_conn := c1, y_writer := wl, y_wire := y_wire ?y @ fs\<rparr>)"
      using ctrl_resume_ok [OF inv, of r k] by auto
    obtain w1 where w1: "writeCtrl_resume k w = Some (pt', w1)" "c1 = after_section r w1 c"
      using r(1) h w by (auto elim!: with_stream_some simp: after_section_twice)
    obtain wl' fs' where a: "after_ctrl r pt' = (wl', fs')" by fastforce
    have inv1: "sys_inv (?y\<lparr>y_conn := after_section r w1 c, y_writer := wl', y_wire := y_wire ?y @ fs'\<rparr>)" using r(2) a w1(2) by simp
    have "case pt' of CtrlDone \<Rightarrow> 0 < n | CtrlWrite f k \<Rightarrow> owed w1 + 1 < n"
      using resume_ok [OF wi wired w1(1)] Suc.prems(3) CtrlWrite by (auto split: ctrl_point.splits)
    from Suc.IH [OF inv1 a this] obtain gs w' where g: "writeCtrl_run n (pt', w1) = Some (gs, w')" "w_out w' = w_out w1"
      "sys_inv (?y\<lparr>y_conn := after_section r w' c, y_writer := Looping, y_wire := y_wire ?y @ map (Pair (Some r)) gs\<rparr>)" by blast
    then show ?thesis using CtrlWrite w1(1) resume_out [OF w1(1)] by (intro exI [of _ "f # gs"] exI [of _ w']) simp
  qed
qed

lemma ctrl_job_ok:
  assumes inv: "sys_inv y" and p: "y_writer y = TakenCtrl r"
  shows "\<exists>fs c. with_stream r stream_writeCtrl (y_conn y) = Some (fs, c) \<and> c_outgoing c = c_outgoing (y_conn y) \<and>
    sys_inv (y\<lparr>y_conn := c, y_writer := Looping, y_wire := y_wire y @ map (Pair (Some r)) fs\<rparr>)"
proof -
  obtain s where s: "c_heap (y_conn y) r = Some s" using busy_stream [OF inv, of r] p by auto
  let ?w = "in_world s (c_outgoing (y_conn y)) (c_streams (y_conn y))"
  have i: "world_inv (local_window (y_conn y)) ?w" "wr_wired ?w = 0" using sys_inv_world [OF inv s] sys_inv_wired [OF inv s] p by simp_all
  obtain pt c where r: "with_stream r writeCtrl_start (y_conn y) = Some (pt, c)"
    "\<forall>wl fs. after_ctrl r pt = (wl, fs) \<longrightarrow> sys_inv (y\<lparr>y_conn := c, y_writer := wl, y_wire := y_wire y @ fs\<rparr>)"
    using ctrl_start_ok [OF inv p] by blast
  obtain w1 where w1: "writeCtrl_start ?w = Some (pt, w1)" "c = after_section r w1 (y_conn y)" using r(1) s by (auto elim!: with_stream_some)
  obtain wl fs where a: "after_ctrl r pt = (wl, fs)" by fastforce
  have "owed w1 < owed ?w" if "pt = CtrlWrite f k" for f k using that start_point [OF w1(1)] owed_round [OF i] by auto
  then have "case pt of CtrlDone \<Rightarrow> 0 < (5 :: nat) | CtrlWrite f k \<Rightarrow> owed w1 + 1 < 5" using owed_bound [of ?w] by (fastforce split: ctrl_point.splits)
  from ctrl_run_ok [OF _ a this, of y "y_conn y"] r(2) a w1(2) obtain gs w' where
    g: "writeCtrl_run 5 (pt, w1) = Some (gs, w')" "w_out w' = w_out w1"
    "sys_inv (y\<lparr>y_conn := after_section r w' (y_conn y), y_writer := Looping, y_wire := y_wire y @ map (Pair (Some r)) gs\<rparr>)" by auto
  have "stream_writeCtrl ?w = Some (gs, w')" using w1(1) g(1) by (simp add: stream_writeCtrl_def)
  from with_stream_eq [OF s, where f = stream_writeCtrl, OF this] g(2,3) start_out [OF w1(1)] show ?thesis by (auto simp: after_section_world)
qed

lemma data_job_ok:
  assumes inv: "sys_inv y" and p: "y_writer y = TakenData r"
  shows "\<exists>fs c. with_stream r stream_writeData (y_conn y) = Some (fs, c) \<and> work (c_outgoing c) \<le> work (c_outgoing (y_conn y)) + 1 \<and>
    o_err (c_outgoing c) = o_err (c_outgoing (y_conn y)) \<and> o_blocked (c_outgoing c) = o_blocked (c_outgoing (y_conn y)) \<and>
    sys_inv (y\<lparr>y_conn := c, y_writer := Looping, y_wire := y_wire y @ map (Pair (Some r)) fs\<rparr>)"
proof -
  obtain s where s: "c_heap (y_conn y) r = Some s" using busy_stream [OF inv, of r] p by auto
  let ?w = "in_world s (c_outgoing (y_conn y)) (c_streams (y_conn y))"
  have i: "world_inv (local_window (y_conn y)) ?w" "wr_wired ?w = 0" using sys_inv_world [OF inv s] sys_inv_wired [OF inv s] p by simp_all
  obtain fo c where r: "with_stream r writeData_start (y_conn y) = Some (fo, c)"
    "\<forall>wl fs. after_data r fo = (wl, fs) \<longrightarrow> sys_inv (y\<lparr>y_conn := c, y_writer := wl, y_wire := y_wire y @ fs\<rparr>)"
    using data_start_ok [OF inv p] by blast
  obtain w1 where w1: "writeData_start ?w = Some (fo, w1)" "c = after_section r w1 (y_conn y)" using r(1) s by (auto elim!: with_stream_some)
  note wk = writeData_work [OF i w1(1)]
  show ?thesis
  proof (cases fo)
    case None
    then have "stream_writeData ?w = Some ([], w1)" using w1(1) by (simp add: stream_writeData_def)
    from with_stream_eq [OF s, where f = stream_writeData, OF this] wk r(2) None w1(2) show ?thesis by (auto simp: after_section_world)
  next
    case (Some f)
    let ?y = "y\<lparr>y_conn := c, y_writer := WritingData r, y_wire := y_wire y @ [(Some r, f)]\<rparr>"
    have inv1: "sys_inv ?y" using r(2) Some by simp
    obtain x c2 where c2: "with_stream r (\<lambda>w. Some ((), finishData w)) (y_conn ?y) = Some (x, c2)" "sys_inv (?y\<lparr>y_conn := c2, y_writer := Looping\<rparr>)"
      using data_finish_ok [OF inv1, of r] by auto
    have "c2 = after_section r (finishData w1) (y_conn y)" using c2(1) w1(2)
      by (auto elim!: with_stream_some simp: after_section_world after_section_twice in_world_parts)
    moreover have "stream_writeData ?w = Some ([f], finishData w1)" using w1(1) Some by (simp add: stream_writeData_def)
    moreover have "sys_inv (y\<lparr>y_conn := c2, y_writer := Looping, y_wire := y_wire y @ map (Pair (Some r)) [f]\<rparr>)" using c2(2) by (cases y) simp
    ultimately show ?thesis using with_stream_eq [OF s, where f = stream_writeData and x = "[f]"] wk
      by (intro exI [of _ "[f]"] exI [of _ c2]) (simp add: after_section_world finishData_out)
  qed
qed

lemma next_work:
  assumes n: "writeFrames_next c = Some (j, c')" and o: "outgoing_inv (c_outgoing c)"
  shows "o_err (c_outgoing c') = o_err (c_outgoing c) \<and> o_blocked (c_outgoing c') = o_blocked (c_outgoing c) \<and>
    (case j of Blocked_job \<Rightarrow> 0 < o_blocked (c_outgoing c) | Fail_job e \<Rightarrow> o_err (c_outgoing c) = Some e | Done_job \<Rightarrow> o_err (c_outgoing c) = None
      | Data_job r \<Rightarrow> work (c_outgoing c') + 2 = work (c_outgoing c) | _ \<Rightarrow> work (c_outgoing c') < work (c_outgoing c))"
proof -
  have q: "queue_elems (o_ctrl (c_outgoing c)) = r # queue_elems q" if "queue_take (o_ctrl (c_outgoing c)) = Some (Some r, q)" for r q
    using take_hd [OF _ that] o by (simp add: outgoing_inv_def)
  have d: "queue_elems (o_data (c_outgoing c)) = r # queue_elems q" if "queue_take (o_data (c_outgoing c)) = Some (Some r, q)" for r q
    using take_hd [OF _ that] o by (simp add: outgoing_inv_def)
  show ?thesis using n
    by (auto simp: writeFrames_next_def Let_def work_def bind_eq_Some_conv dest!: q d split: if_splits option.splits)
qed

lemma writeFrames_ok:
  assumes "sys_inv y" "y_writer y = Looping" "o_blocked (c_outgoing (y_conn y)) \<le> 0" "work (c_outgoing (y_conn y)) < n"
  shows "\<exists>fs ok c wire. writeFrames n (y_conn y) = Some (fs, ok, c) \<and> (ok \<longleftrightarrow> o_err (c_outgoing (y_conn y)) = None) \<and>
    sys_inv (y\<lparr>y_conn := c, y_writer := if ok then Sleeping else Stopped None, y_wire := y_wire y @ wire\<rparr>) \<and> map snd wire = fs \<and>
    (ok \<longrightarrow> \<not> outgoing_busy (c_outgoing c))"
  using assms
proof (induction n arbitrary: y)
  case (Suc n)
  have o: "outgoing_inv (c_outgoing (y_conn y))" using Suc.prems(1) by (simp add: sys_inv_def conn_inv_def refs_inv_def)
  obtain j c where j: "writeFrames_next (y_conn y) = Some (j, c)"
    "sys_inv (y\<lparr>y_conn := c, y_writer := after_job j, y_wire := y_wire y @ map (Pair None) (job_frames j)\<rparr>)"
    "j = Done_job \<longrightarrow> \<not> outgoing_busy (c_outgoing c)" using job_ok [OF Suc.prems(1,2)] by blast
  note nw = next_work [OF j(1) o]
  have rest: ?case
    if r: "run_job j c = Some (gs, c2)" and i: "sys_inv (y\<lparr>y_conn := c2, y_writer := Looping, y_wire := y_wire y @ map (Pair ro) gs\<rparr>)"
      and w: "work (c_outgoing c2) < work (c_outgoing (y_conn y))" "o_err (c_outgoing c2) = o_err (c_outgoing (y_conn y))"
        "o_blocked (c_outgoing c2) = o_blocked (c_outgoing (y_conn y))"
      and cont: "j \<noteq> Blocked_job" "j \<noteq> Done_job" "\<forall>e. j \<noteq> Fail_job e" for gs c2 ro
  proof -
    define v where "v = y\<lparr>y_conn := c2, y_writer := Looping, y_wire := y_wire y @ map (Pair ro) gs\<rparr>"
    have v: "y_conn v = c2" "y_writer v = Looping" "sys_inv v" using i by (simp_all add: v_def)
    have "work (c_outgoing (y_conn v)) < n" "o_blocked (c_outgoing (y_conn v)) \<le> 0" using w v(1) Suc.prems(3,4) by simp_all
    from Suc.IH [OF v(3,2) this(2,1)] obtain fs ok c3 wire where f: "writeFrames n c2 = Some (fs, ok, c3)" "ok \<longleftrightarrow> o_err (c_outgoing c2) = None"
      "sys_inv (v\<lparr>y_conn := c3, y_writer := if ok then Sleeping else Stopped None, y_wire := y_wire v @ wire\<rparr>)" "map snd wire = fs"
      "ok \<longrightarrow> \<not> outgoing_busy (c_outgoing c3)" unfolding v(1) by (elim exE conjE) (rule that)
    have i3: "sys_inv (y\<lparr>y_conn := c3, y_writer := if ok then Sleeping else Stopped None, y_wire := y_wire y @ map (Pair ro) gs @ wire\<rparr>)"
      using f(3) by (simp add: v_def)
    have "writeFrames (Suc n) (y_conn y) = Some (gs @ fs, ok, c3)" using j(1) r f(1) cont by (cases j) auto
    with f(1,2,4,5) w(2) i3 show ?thesis by (intro exI [of _ "gs @ fs"] exI [of _ ok] exI [of _ c3] exI [of _ "map (Pair ro) gs @ wire"]) (simp add: o_def)
  qed
  show ?case
  proof (cases j)
    case Blocked_job
    with nw Suc.prems(3) show ?thesis by simp
  next
    case (Fail_job e)
    with j nw show ?thesis by (intro exI [of _ "job_frames j"] exI [of _ False] exI [of _ c] exI [of _ "map (Pair None) (job_frames j)"]) simp
  next
    case Done_job
    with j nw show ?thesis by (intro exI [of _ "[]"] exI [of _ True] exI [of _ c] exI [of _ "[]"]) simp
  next
    case (Ctrl_job r)
    obtain fs c2 where "with_stream r stream_writeCtrl c = Some (fs, c2)" "c_outgoing c2 = c_outgoing c"
      "sys_inv (y\<lparr>y_conn := c2, y_writer := Looping, y_wire := y_wire y @ map (Pair (Some r)) fs\<rparr>)"
      using ctrl_job_ok [OF j(2), of r] Ctrl_job by auto
    with rest [of fs c2 "Some r"] nw Ctrl_job show ?thesis by simp
  next
    case (Data_job r)
    obtain fs c2 where "with_stream r stream_writeData c = Some (fs, c2)" "work (c_outgoing c2) \<le> work (c_outgoing c) + 1"
      "o_err (c_outgoing c2) = o_err (c_outgoing c)" "o_blocked (c_outgoing c2) = o_blocked (c_outgoing c)"
      "sys_inv (y\<lparr>y_conn := c2, y_writer := Looping, y_wire := y_wire y @ map (Pair (Some r)) fs\<rparr>)"
      using data_job_ok [OF j(2), of r] Data_job by auto
    with rest [of fs c2 "Some r"] nw Data_job show ?thesis by simp
  qed (use rest [of "job_frames j" c None] nw j(2) in simp_all)
qed simp

declare writeFrames.simps [simp del]

end
