(* ===== verification/Conn_Props.thy ===== *)
theory Conn_Props
  imports Write_Loop
begin

text \<open>
  The guarantees of a connection in every state that its read loop, its write loop, its users,
  timers and handlers can reach together.
\<close>

unbundle bit_operations_syntax

section \<open>Executable runs\<close>

datatype sys_action = AFrame eref Frame | ACall sref sop | AOpen | AShutdown | AClose eref | AWake | AJob
  | ACtrlStart | ACtrlResume | ADataStart | ADataFinish

fun sys_act :: "((u32 \<rightharpoonup> sref) \<Rightarrow> sref list) \<Rightarrow> sys_action \<Rightarrow> system \<Rightarrow> system option" where
  "sys_act ord (AFrame ref f) y =
     (if y_reader y = Reading \<and> c_nextref (y_conn y) < 16 then
        case conn_processFrame ord ref f (y_conn y) of None \<Rightarrow> None
        | Some (ok, c) \<Rightarrow> Some (y\<lparr>y_conn := c, y_reader := if ok then Reading else ReadEnding\<rparr>)
      else None)"
| "sys_act ord (ACall r op) y =
     (if sop_wf op \<and> user_op op then case with_stream r (sop_exec op) (y_conn y) of None \<Rightarrow> None | Some (e, c) \<Rightarrow> Some (y\<lparr>y_conn := c\<rparr>) else None)"
| "sys_act ord AOpen y =
     (if c_nextref (y_conn y) < 16 then case conn_NewStream (y_conn y) of None \<Rightarrow> None | Some (res, c) \<Rightarrow> Some (y\<lparr>y_conn := c\<rparr>) else None)"
| "sys_act ord AShutdown y = Some (y\<lparr>y_conn := conn_Shutdown (y_conn y)\<rparr>)"
| "sys_act ord (AClose ref) y = (case conn_Close ord ref (y_conn y) of None \<Rightarrow> None | Some (x, c) \<Rightarrow> Some (y\<lparr>y_conn := c\<rparr>))"
| "sys_act ord AWake y = (if y_writer y = Sleeping \<and> o_writeready (c_outgoing (y_conn y)) then Some (y\<lparr>y_writer := Looping\<rparr>) else None)"
| "sys_act ord AJob y =
     (if y_writer y = Looping then
        case writeFrames_next (y_conn y) of None \<Rightarrow> None
        | Some (j, c) \<Rightarrow> Some (y\<lparr>y_conn := c, y_writer := after_job j, y_wire := y_wire y @ map (Pair None) (job_frames j)\<rparr>)
      else None)"
| "sys_act ord ACtrlStart y =
     (case y_writer y of TakenCtrl r \<Rightarrow>
        (case with_stream r writeCtrl_start (y_conn y) of None \<Rightarrow> None
         | Some (pt, c) \<Rightarrow> (case after_ctrl r pt of (wl, fs) \<Rightarrow> Some (y\<lparr>y_conn := c, y_writer := wl, y_wire := y_wire y @ fs\<rparr>)))
      | _ \<Rightarrow> None)"
| "sys_act ord ACtrlResume y =
     (case y_writer y of WritingCtrl r k \<Rightarrow>
        (case with_stream r (writeCtrl_resume k) (y_conn y) of None \<Rightarrow> None
         | Some (pt, c) \<Rightarrow> (case after_ctrl r pt of (wl, fs) \<Rightarrow> Some (y\<lparr>y_conn := c, y_writer := wl, y_wire := y_wire y @ fs\<rparr>)))
      | _ \<Rightarrow> None)"
| "sys_act ord ADataStart y =
     (case y_writer y of TakenData r \<Rightarrow>
        (case with_stream r writeData_start (y_conn y) of None \<Rightarrow> None
         | Some (fo, c) \<Rightarrow> (case after_data r fo of (wl, fs) \<Rightarrow> Some (y\<lparr>y_conn := c, y_writer := wl, y_wire := y_wire y @ fs\<rparr>)))
      | _ \<Rightarrow> None)"
| "sys_act ord ADataFinish y =
     (case y_writer y of WritingData r \<Rightarrow>
        (case with_stream r (\<lambda>w. Some ((), finishData w)) (y_conn y) of None \<Rightarrow> None | Some (x, c) \<Rightarrow> Some (y\<lparr>y_conn := c, y_writer := Looping\<rparr>))
      | _ \<Rightarrow> None)"

fun sys_acts :: "((u32 \<rightharpoonup> sref) \<Rightarrow> sref list) \<Rightarrow> sys_action list \<Rightarrow> system \<Rightarrow> system option" where
  "sys_acts ord [] y = Some y"
| "sys_acts ord (a # as) y = (case sys_act ord a y of None \<Rightarrow> None | Some y \<Rightarrow> sys_acts ord as y)"

lemma small_cap: "n < 16 \<Longrightarrow> n < queue_cap"
proof -
  have "(16 :: nat) = 2 ^ 4" by simp
  also have "\<dots> \<le> 2 ^ 62" by (rule power_increasing) simp_all
  finally show "n < 16 \<Longrightarrow> n < queue_cap" by (simp add: queue_cap_def)
qed

lemma sys_act_step: "visits_all ord \<Longrightarrow> sys_act ord a y = Some y' \<Longrightarrow> sys_step y y'"
proof (cases a)
  case (AFrame ref f)
  assume "visits_all ord" "sys_act ord a y = Some y'"
  with AFrame show ?thesis using sys_step.frame [of y ord ref f] small_cap [of "c_nextref (y_conn y)"]
    by (fastforce split: if_splits option.splits prod.splits)
qed (auto split: if_splits option.splits prod.splits writer.splits intro: sys_step.intros small_cap)

lemma sys_acts_reachable: "visits_all ord \<Longrightarrow> sys_acts ord as y = Some y' \<Longrightarrow> sys_reachable server y \<Longrightarrow> sys_reachable server y'"
proof (induction as arbitrary: y)
  case (Cons a as)
  then obtain v where v: "sys_act ord a y = Some v" "sys_acts ord as v = Some y'" by (auto split: option.splits)
  with Cons.IH [OF Cons.prems(1) v(2)] Cons.prems show ?case using sys_act_step sys_reachable.step by blast
qed simp

lemma some_order: "\<exists>ord. visits_all ord"
proof -
  have "\<forall>m :: u32 \<rightharpoonup> sref. \<exists>xs. set xs = ran m"
  proof
    fix m :: "u32 \<rightharpoonup> sref"
    have "finite (ran m)" by (rule finite_ran) simp
    then show "\<exists>xs. set xs = ran m" by (rule finite_list)
  qed
  then show ?thesis unfolding visits_all_def by metis
qed

text \<open>
  A client opens a stream and writes to it while the remote opens stream 2, whose data the handler
  reads; the write loop sends what both streams owe.
\<close>

definition sys_demo :: "sys_action list" where
  "sys_demo = [AOpen, ACall 0 (OpWriteByte 0 False 65), AFrame 0 (DataFrame 2 FlagDataOpen [7, 8]), AFrame 2 (PingFrame 0 [1, 2, 3, 4, 5, 6, 7, 8]), ACall 1 (OpReadByte 0 False),
     AWake, AJob, AJob, ACtrlStart, ACtrlResume, AJob, ACtrlStart]"

lemma sys_demo_result:
  "map_option (\<lambda>y. (y_wire y, y_writer y, c_spawned (y_conn y), c_finishgroup (y_conn y), map_option s_streamID (c_heap (y_conn y) 0)))
     (sys_acts ord sys_demo (sys_start False))
   = Some ([(None, PingFrame 1 [1, 2, 3, 4, 5, 6, 7, 8]), (Some 0, DataFrame 1 2 [65]), (Some 1, WindowFrame 2 0 1)], WritingCtrl 1 AfterFrame, [1], 3, Some 1)"
  by code_simp

lemma sys_demo_reachable:
  "\<exists>y. sys_reachable False y \<and> y_writer y = WritingCtrl 1 AfterFrame \<and> c_spawned (y_conn y) = [1] \<and> c_heap (y_conn y) 0 \<noteq> None \<and>
     y_wire y = [(None, PingFrame 1 [1, 2, 3, 4, 5, 6, 7, 8]), (Some 0, DataFrame 1 2 [65]), (Some 1, WindowFrame 2 0 1)]"
proof -
  obtain ord where ord: "visits_all ord" using some_order by blast
  obtain y where y: "sys_acts ord sys_demo (sys_start False) = Some y"
    using sys_demo_result [of ord] by (cases "sys_acts ord sys_demo (sys_start False)") auto
  have "sys_reachable False y" using sys_acts_reachable [OF ord y sys_reachable.start] .
  with sys_demo_result [of ord] y show ?thesis by auto
qed

lemma reachable_conn:
  assumes "sys_reachable server y"
  shows "conn_inv (y_conn y)" "failed_inv (y_conn y)" "groups_inv y"
  using sys_reachable_inv [OF assms] by (simp_all add: sys_inv_def)

section \<open>Safety\<close>



text \<open>
  C2. Every stream of a connection behaves as a stream on its own: whatever the read loop, the write
  loop, other streams, users and timers do, the state of a stream is one that a run of that stream
  reaches from its creation, its place in the write loop is the one of that run, and the frames of
  that run are exactly those of its frames that were handed to the writer, in order. So all
  guarantees of single streams hold for the streams of a connection.
\<close>

theorem streams_of_connection:
  assumes "sys_reachable server y" and "c_heap (y_conn y) r = Some s"
  shows "\<exists>outgoing W R w u. created outgoing W R w \<and> stream_reachable w u \<and>
    u_world u = in_world s (c_outgoing (y_conn y)) (c_streams (y_conn y)) \<and>
    u_point u = point_of (y_writer y) r \<and> u_sent u = sent_by (y_wire y) r"
  using sys_inv_run [OF sys_reachable_inv [OF assms(1)] assms(2)] .

theorem streams_of_connection_witness:
  "\<exists>y s outgoing W R w u. sys_reachable False y \<and> c_heap (y_conn y) 0 = Some s \<and> created outgoing W R w \<and> stream_reachable w u \<and>
     u_world u = in_world s (c_outgoing (y_conn y)) (c_streams (y_conn y)) \<and> u_sent u = [DataFrame 1 2 [65]]"
proof -
  obtain y s where y: "sys_reachable False y" "c_heap (y_conn y) 0 = Some s"
    "y_wire y = [(None, PingFrame 1 [1, 2, 3, 4, 5, 6, 7, 8]), (Some 0, DataFrame 1 2 [65]), (Some 1, WindowFrame 2 0 1)]"
    using sys_demo_reachable by auto
  have "sent_by (y_wire y) 0 = [DataFrame 1 2 [65]]" by (simp add: y(3) sent_by_def)
  with streams_of_connection [OF y(1,2)] y(1,2) show ?thesis by metis
qed

text \<open>If the queues are empty and the write loop is between two jobs, no stream has anything to send.\<close>

lemma idle_streams:
  assumes inv: "sys_inv y" and p: "y_writer y = Sleeping \<or> y_writer y = Looping" and nb: "\<not> outgoing_busy (c_outgoing (y_conn y))"
    and h: "c_heap (y_conn y) r = Some s" and w: "w = in_world s (c_outgoing (y_conn y)) (c_streams (y_conn y))"
  shows "\<not> needs_ctrl w \<and> \<not> activeData w"
proof -
  obtain outgoing W R w0 u where u: "created outgoing W R w0" "stream_reachable w0 u" "u_world u = w" "u_point u = Idle"
    using sys_inv_run [OF inv h] p w by auto
  have "loop_inv u" using reachable_inv [OF u(1,2)] by (simp add: run_inv_def)
  then have "needs_ctrl w \<longrightarrow> s_inctrl w" "activeData w \<longrightarrow> s_indata w" using u(3,4) by (simp_all add: loop_inv_def)
  moreover have "\<not> s_inctrl w" "\<not> s_indata w"
    using inv h nb unfolding w by (auto simp: sys_inv_def conn_inv_def heap_inv_def outgoing_busy_def)
  ultimately show ?thesis by blast
qed

text \<open>
  C9. The write loop only sleeps when there is nothing to send: if it waits and has not been woken,
  no error, ping, ping reply or settings acknowledgement is waiting, both queues are empty, and no
  stream owes a control frame or has data it may send.
\<close>

theorem sleeps_only_when_done:
  assumes "sys_reachable server y" and "y_writer y = Sleeping" and "\<not> o_writeready (c_outgoing (y_conn y))"
  shows "\<not> outgoing_busy (c_outgoing (y_conn y)) \<and>
    (\<forall>r s. c_heap (y_conn y) r = Some s \<longrightarrow>
       (let w = in_world s (c_outgoing (y_conn y)) (c_streams (y_conn y)) in \<not> needs_ctrl w \<and> \<not> activeData w))"
proof -
  note inv = sys_reachable_inv [OF assms(1)]
  have o: "outgoing_inv (c_outgoing (y_conn y))" using inv by (simp add: sys_inv_def conn_inv_def refs_inv_def)
  with assms(3) have nb: "\<not> outgoing_busy (c_outgoing (y_conn y))" by (simp add: outgoing_inv_def)
  from idle_streams [OF inv _ nb] assms(2) nb show ?thesis by (simp add: Let_def)
qed

theorem sleeps_only_when_done_witness:
  "\<exists>y s. sys_reachable False y \<and> y_writer y = Sleeping \<and> c_heap (y_conn y) 0 = Some s \<and>
     \<not> needs_ctrl (in_world s (c_outgoing (y_conn y)) (c_streams (y_conn y)))"
proof -
  obtain ord where ord: "visits_all ord" using some_order by blast
  let ?run = "sys_acts ord [AOpen, AWake, AJob, ACtrlStart, ACtrlResume, AJob] (sys_start False)"
  have v: "map_option (\<lambda>y. (y_writer y, o_writeready (c_outgoing (y_conn y)), c_heap (y_conn y) 0 = None)) ?run = Some (Sleeping, False, False)"
    by code_simp
  then obtain y where y: "?run = Some y" by (cases ?run) auto
  then obtain s where s: "y_writer y = Sleeping" "\<not> o_writeready (c_outgoing (y_conn y))" "c_heap (y_conn y) 0 = Some s" using v by auto
  have r: "sys_reachable False y" using sys_acts_reachable [OF ord y sys_reachable.start] .
  from sleeps_only_when_done [OF r s(1,2)] s r show ?thesis by (auto simp: Let_def)
qed

text \<open>
  C10. Left alone, the write loop finishes: \<^verbatim>\<open>writeFrames\<close> returns after at most as many rounds as
  there is work, with true unless an error had to be sent; then nothing is left to send: no queue
  holds anything and no stream owes a control frame or has data it may send.
\<close>

theorem writeFrames_returns:
  assumes y: "sys_reachable server y" and p: "y_writer y = Looping" and b: "o_blocked (c_outgoing (y_conn y)) = 0"
  shows "\<exists>fs ok c. writeFrames (work (c_outgoing (y_conn y)) + 1) (y_conn y) = Some (fs, ok, c) \<and> conn_inv c \<and>
    (ok \<longleftrightarrow> o_err (c_outgoing (y_conn y)) = None) \<and>
    (ok \<longrightarrow> \<not> outgoing_busy (c_outgoing c) \<and>
      (\<forall>r s. c_heap c r = Some s \<longrightarrow> (let w = in_world s (c_outgoing c) (c_streams c) in \<not> needs_ctrl w \<and> \<not> activeData w)))"
proof -
  note inv = sys_reachable_inv [OF y]
  obtain fs ok c wire where c: "writeFrames (work (c_outgoing (y_conn y)) + 1) (y_conn y) = Some (fs, ok, c)"
    "ok \<longleftrightarrow> o_err (c_outgoing (y_conn y)) = None" "ok \<longrightarrow> \<not> outgoing_busy (c_outgoing c)"
    "sys_inv (y\<lparr>y_conn := c, y_writer := if ok then Sleeping else Stopped None, y_wire := y_wire y @ wire\<rparr>)"
  proof -
    have "o_blocked (c_outgoing (y_conn y)) \<le> 0" "work (c_outgoing (y_conn y)) < work (c_outgoing (y_conn y)) + 1" using b by simp_all
    from writeFrames_ok [OF inv p this] that show thesis by (elim exE conjE) (rule that)
  qed
  have "\<not> needs_ctrl w \<and> \<not> activeData w" if "ok" "c_heap c r = Some s" "w = in_world s (c_outgoing c) (c_streams c)" for r s w
    using idle_streams [OF c(4), of r s w] that c(3) by simp
  moreover have "conn_inv c" using c(4) by (simp add: sys_inv_def)
  ultimately show ?thesis using c(1-3) by (simp add: Let_def)
qed

theorem writeFrames_returns_witness:
  "\<exists>y fs c. sys_reachable False y \<and> y_writer y = Looping \<and> writeFrames 5 (y_conn y) = Some (fs, True, c) \<and> \<not> outgoing_busy (c_outgoing c)"
proof -
  obtain ord where ord: "visits_all ord" using some_order by blast
  let ?run = "sys_acts ord [AOpen, ACall 0 (OpWriteByte 0 False 65), ACall 0 OpCloseWrite, AFrame 0 (PingFrame 0 []), AWake] (sys_start False)"
  have v: "map_option (\<lambda>y. (y_writer y, o_blocked (c_outgoing (y_conn y)), o_err (c_outgoing (y_conn y)), work (c_outgoing (y_conn y)))) ?run
      = Some (Looping, 0, None, 4)" by code_simp
  then obtain y where y: "?run = Some y" by (cases ?run) auto
  then have s: "y_writer y = Looping" "o_blocked (c_outgoing (y_conn y)) = 0" "work (c_outgoing (y_conn y)) = 4" "o_err (c_outgoing (y_conn y)) = None"
    using v by auto
  have r: "sys_reachable False y" using sys_acts_reachable [OF ord y sys_reachable.start] .
  from writeFrames_returns [OF r s(1,2)] s r show ?thesis by auto
qed

section \<open>Failure and the end\<close>

lemma failure_step:
  assumes "sys_step y y'" "sys_inv y" "c_failure (y_conn y) = Some e"
  shows "c_failure (y_conn y') = Some e"
proof -
  have i: "conn_inv (y_conn y)" "failed_inv (y_conn y)" using assms(2) by (simp_all add: sys_inv_def)
  have sec: "c_failure c = Some e" if "with_stream r f (y_conn y) = Some (x, c)" for r f and x :: 'a and c
    using that assms(3) by (auto elim!: with_stream_some simp: after_section_def)
  have cl: "c_failure c = Some e" if "conn_closeWithError ord ref err (y_conn y) = Some (x, c)" for ord ref err x c
    using that assms(3) by (simp add: conn_closeWithError_def Let_def)
  from assms(1) show ?thesis
  proof cases
    case (frame ord ref f ok c)
    then show ?thesis using processFrame_ok [OF _ i, of ord ref f] assms(3) by auto
  next
    case (read_end ord pord c)
    then show ?thesis using readloop_end_ok [OF _ i assms(3), of ord pord] by auto
  next
    case (open_stream res c)
    then show ?thesis using NewStream_ok [OF i] assms(3) by auto
  next
    case (served r result c)
    then have "r \<in> dom (c_heap (y_conn y))" using assms(2) by (auto simp: sys_inv_def groups_inv_def Let_def)
    then show ?thesis using served handleStream_ok [OF i, of r result] assms(3) by auto
  next
    case (job j c)
    then show ?thesis using assms(3) by (auto simp: writeFrames_next_def Let_def split: if_splits option.splits bind_splits)
  next
    case (call op r e c)
    then show ?thesis using assms(3) by (auto elim!: with_stream_some simp: after_section_def)
  qed (use assms(3) cl in \<open>auto elim!: with_stream_some simp: after_section_def conn_Close_def conn_Shutdown_def\<close>)
qed

text \<open>
  C27. Failure is final: once a connection has failed its first error stays its error whatever
  happens later, its channel is closed, all streams in its table are closed, and no stream can be
  opened any more.
\<close>

theorem failure_is_final:
  assumes "sys_reachable server y" and "c_failure (y_conn y) = Some e" and "sys_step\<^sup>*\<^sup>* y y'"
  shows "c_failure (y_conn y') = Some e \<and> c_closedchan (y_conn y') \<and>
    (\<forall>sid r. st_live (c_streams (y_conn y')) sid = Some r \<longrightarrow> (\<exists>s. c_heap (y_conn y') r = Some s \<and> s_err s \<noteq> None)) \<and>
    (\<exists>err c. conn_NewStream (y_conn y') = Some (Inl err, c))"
proof -
  have "sys_inv y' \<and> c_failure (y_conn y') = Some e" using assms(3)
    by (induction rule: rtranclp_induct) (use assms(1,2) sys_reachable_inv sys_step_inv failure_step in blast)+
  then have k: "c_failure (y_conn y') = Some e" "conn_inv (y_conn y')" "failed_inv (y_conn y')" by (simp_all add: sys_inv_def)
  then obtain x where "st_err (c_streams (y_conn y')) = Some x" by (auto simp: failed_inv_def)
  then have "\<exists>err c. conn_NewStream (y_conn y') = Some (Inl err, c)" by (simp add: conn_NewStream_def allocateLocked_def)
  with k show ?thesis by (simp add: failed_inv_def all_closed_def conn_inv_def misc_inv_def)
qed

theorem failure_is_final_witness:
  "\<exists>y. sys_reachable False y \<and> c_failure (y_conn y) = Some (ErrCode ECONNCLOSED) \<and> c_closedchan (y_conn y) \<and>
     (\<exists>err c. conn_NewStream (y_conn y) = Some (Inl err, c))"
proof -
  obtain ord where ord: "visits_all ord" using some_order by blast
  have i: "conn_inv (NewRawConn False)" "failed_inv (NewRawConn False)" using sys_start_inv [of False] by (simp_all add: sys_inv_def sys_start_def)
  have "conn_error 0 (Some (ErrCode ECONNCLOSED)) = ErrCode ECONNCLOSED" "c_failure (NewRawConn False) = None" by code_simp+
  then obtain x c where c: "conn_Close ord 0 (NewRawConn False) = Some (x, c)" "c_failure c = Some (ErrCode ECONNCLOSED)"
    using conn_closeWithError_ok [OF ord i, of 0 "Some (ErrCode ECONNCLOSED)"] by (auto simp: conn_Close_def)
  let ?y = "(sys_start False)\<lparr>y_conn := c\<rparr>"
  have "sys_step (sys_start False) ?y" using ord by (rule sys_step.close) (use c(1) in \<open>simp add: sys_start_def\<close>)
  then have r: "sys_reachable False ?y" using sys_reachable.start sys_reachable.step by blast
  from failure_is_final [OF r _ rtranclp.rtrancl_refl] c(2) have "c_closedchan (y_conn ?y)" "\<exists>err c. conn_NewStream (y_conn ?y) = Some (Inl err, c)"
    by simp_all
  with r c(2) show ?thesis by (intro exI [of _ ?y]) simp
qed

text \<open>
  C29. Done means done: the finish group never becomes negative, and it is zero exactly when the read
  loop and the write loop have ended and the handler of every incoming stream has returned; the
  shutdown group counts the handlers that are still running.
\<close>

theorem done_means_done:
  assumes "sys_reachable server y"
  shows "0 \<le> c_finishgroup (y_conn y) \<and> c_shutdowngroup (y_conn y) = zlen (filter (\<lambda>r. r \<notin> set (y_served y)) (c_spawned (y_conn y))) \<and>
    (c_finishgroup (y_conn y) = 0 \<longleftrightarrow> y_reader y = ReadEnded \<and> y_gone y \<and> set (c_spawned (y_conn y)) = set (y_served y))"
proof -
  let ?sp = "c_spawned (y_conn y)" and ?sv = "y_served y"
  have g: "c_finishgroup (y_conn y) = (if y_reader y = ReadEnded then 0 else 1) + (if y_gone y then 0 else 1) + zlen ?sp - zlen ?sv"
    "c_shutdowngroup (y_conn y) = zlen ?sp - zlen ?sv" "distinct ?sp" "distinct ?sv" "set ?sv \<subseteq> set ?sp"
    using reachable_conn(3) [OF assms] by (simp_all add: groups_inv_def Let_def)
  have card: "length ?sp = card (set ?sp)" "length ?sv = card (set ?sv)" using g(3,4) by (simp_all add: distinct_card)
  have "length (filter (\<lambda>r. r \<notin> set ?sv) ?sp) = card (set ?sp - set ?sv)"
    using g(3) by (subst distinct_card [symmetric]) (auto simp: set_diff_eq)
  also have "\<dots> = length ?sp - length ?sv" using g(5) card by (simp add: card_Diff_subset)
  finally have f: "length (filter (\<lambda>r. r \<notin> set ?sv) ?sp) = length ?sp - length ?sv" .
  have le: "length ?sv \<le> length ?sp" using card g(5) by (simp add: card_mono)
  have eq: "length ?sp = length ?sv \<longleftrightarrow> set ?sp = set ?sv" using card g(5) by (metis List.finite_set card_subset_eq)
  show ?thesis using g(1,2) le f eq by auto
qed

theorem done_means_done_witness:
  "\<exists>y. sys_reachable False y \<and> c_spawned (y_conn y) = [1] \<and> c_finishgroup (y_conn y) \<noteq> 0"
proof -
  obtain y where y: "sys_reachable False y" "c_spawned (y_conn y) = [1]" "y_writer y = WritingCtrl 1 AfterFrame" using sys_demo_reachable by auto
  have "\<not> y_gone y" using sys_reachable_inv [OF y(1)] y(3) by (auto simp: sys_inv_def)
  with done_means_done [OF y(1)] y(1,2) show ?thesis by auto
qed

section \<open>Frames and streams\<close>

lemma with_stream_other: "with_stream r2 g c1 = Some (x, c) \<Longrightarrow> r2 \<noteq> r \<Longrightarrow> c_heap c r = c_heap c1 r"
  by (auto elim!: with_stream_some simp: after_section_def)

text \<open>
  Streams are isolated: the processing of a frame changes no stream but the one it names, whether
  it succeeds or not (that all streams are closed when it fails is the next step of the read loop).
\<close>

theorem frames_are_isolated:
  assumes "sys_reachable server y" and "conn_frame ord ref f (y_conn y) = Some (err, c)"
    and "c_heap (y_conn y) r = Some s" and "s_streamID s \<noteq> frame_stream f"
  shows "c_heap c r = Some s"
proof -
  let ?c = "y_conn y"
  have i: "conn_inv ?c" using reachable_conn(1) [OF assms(1)] .
  have r: "r < c_nextref ?c" using i assms(3) by (auto simp: conn_inv_def refs_inv_def)
  have other: "r2 \<noteq> r" if "streams_find (c_streams ?c) (frame_stream f) = Some r2" for r2
    using live_stream [OF i that] assms(3,4) by auto
  show ?thesis
  proof (cases f)
    case (PingFrame flags data)
    then show ?thesis using assms(2,3) by (auto simp: conn_processPingFrame_def split: if_splits bind_splits)
  next
    case (DataFrame sid flags data)
    have e: "conn_processDataFrame ref sid flags data ?c = Some (err, c)" using assms(2) DataFrame by simp
    have o: "streams_find (c_streams ?c) sid = Some r2 \<Longrightarrow> r2 \<noteq> r" for r2 using other DataFrame by simp
    have n: "c_nextref ?c \<noteq> r" using r by simp
    have "c_heap c r = c_heap ?c r" using e n unfolding conn_processDataFrame_def Let_def
      by (auto split: if_splits option.splits bind_splits dest!: with_stream_other [where r = r] dest: o
          simp: install_def newIncomingStream_def)
    with assms(3) show ?thesis by simp
  next
    case (ResetFrame sid flags er)
    with assms(2,3) other show ?thesis
      by (auto simp: conn_processResetFrame_def after_section_def split: if_splits option.splits elim!: with_stream_some)
  next
    case (WindowFrame sid flags increment)
    with assms(2,3) other show ?thesis
      by (auto simp: conn_processWindowFrame_def after_section_def split: if_splits option.splits elim!: with_stream_some)
  next
    case (SettingsFrame flags data)
    then show ?thesis using assms(2,3) by (auto simp: conn_processSettingsFrame_def handleSettings_eq split: if_splits prod.splits)
  qed (use assms in simp)
qed

theorem frames_are_isolated_witness:
  "\<exists>y s err c. sys_reachable False y \<and> conn_frame (\<lambda>_. []) 9 (DataFrame 2 FlagDataEOF [1, 2, 3]) (y_conn y) = Some (err, c) \<and>
     c_heap (y_conn y) 0 = Some s \<and> c_heap c 0 = Some s"
proof -
  obtain ord where ord: "visits_all ord" using some_order by blast
  obtain y where y: "sys_acts ord sys_demo (sys_start False) = Some y" using sys_demo_result [of ord]
    by (cases "sys_acts ord sys_demo (sys_start False)") auto
  have r: "sys_reachable False y" using sys_acts_reachable [OF ord y sys_reachable.start] .
  have "map_option (\<lambda>y. (map_option s_streamID (c_heap (y_conn y) 0), conn_frame (\<lambda>_. []) 9 (DataFrame 2 FlagDataEOF [1, 2, 3]) (y_conn y) = None))
      (sys_acts ord sys_demo (sys_start False)) = Some (Some 1, False)" by code_simp
  then obtain s err c where s: "c_heap (y_conn y) 0 = Some s" "s_streamID s = 1"
    "conn_frame (\<lambda>_. []) 9 (DataFrame 2 FlagDataEOF [1, 2, 3]) (y_conn y) = Some (err, c)" using y by auto
  from frames_are_isolated [OF r s(3,1)] s r show ?thesis by fastforce
qed

text \<open>
  The rules for streams that a DATA frame can break, and the error that reports it.
\<close>

definition illegal_data :: "rawConn \<Rightarrow> u32 \<Rightarrow> u8 \<Rightarrow> u8 list \<Rightarrow> int option" where
  "illegal_data c sid flags data =
     (if sid = 0 then if flags = 0 \<and> data = [] then None else Some EINVALIDSTREAM
      else if flags_Has flags FlagDataOpen
      then if isOwnedID (c_streams c) sid \<or> st_live (c_streams c) sid \<noteq> None then Some EINVALIDSTREAM
           else if local_window c < zlen data then Some EWINDOWOVERFLOW else None
      else if st_live (c_streams c) sid = None then Some EINVALIDSTREAM else None)"

lemma illegal_data_error:
  assumes "illegal_data c sid flags data = Some code"
  shows "\<exists>msg. conn_processDataFrame ref sid flags data c = Some (Some (CopperErrorVal ref msg code), c)"
  using assms unfolding illegal_data_def conn_processDataFrame_def Let_def
  by (auto simp: streams_find_def invalidStream_def split: if_splits)



text \<open>
  C39. Settings are never applied: a SETTINGS frame of the remote, whatever it asks for, changes
  nothing of the connection but the number of acknowledgements to send.
\<close>

theorem settings_are_ignored:
  assumes "\<not> flags_Has flags FlagSettingsAck"
  shows "conn_frame ord ref (SettingsFrame flags settings) c = Some (None, c\<lparr>c_outgoing := addSettingsAck (c_outgoing c)\<rparr>)"
  using assms by (simp add: conn_processSettingsFrame_def handleSettings_eq)

theorem settings_are_ignored_witness:
  "\<exists>s. set_ID s = SettingStreamWindow \<and>
     conn_frame (\<lambda>_. []) 0 (SettingsFrame 0 [s]) (NewRawConn True) = Some (None, (NewRawConn True)\<lparr>c_outgoing := addSettingsAck outgoing_init\<rparr>)"
proof -
  have "\<not> flags_Has 0 FlagSettingsAck" "c_outgoing (NewRawConn True) = outgoing_init" by code_simp+
  then show ?thesis
    using settings_are_ignored [of 0 "\<lambda>_. []" 0 "[\<lparr>set_ID = SettingStreamWindow, set_Value = 1000000\<rparr>]" "NewRawConn True"]
    by (intro exI [of _ "\<lparr>set_ID = SettingStreamWindow, set_Value = 1000000\<rparr>"]) simp
qed

definition refused_run :: "sys_action list" where
  "refused_run = [AShutdown, AFrame 0 (DataFrame 2 (FlagDataOpen OR FlagDataEOF) []), AWake, AJob, ACtrlStart, ACtrlResume, AJob]"


end
