(* ===== verification/Http_Handler.thy ===== *)
theory Http_Handler
  imports Conn_Props
begin

text \<open>
  HTTP over a stream, \<^verbatim>\<open>http.go\<close>: the handler of a stream gives it to an \<^verbatim>\<open>http.Server\<close> as the only
  connection of a listener, whose second \<^verbatim>\<open>Accept\<close> waits for that connection to be closed, and returns
  when the server does.
\<close>

section \<open>The listener\<close>

text \<open>The channel \<^verbatim>\<open>closed\<close> is nil at first; later the state says whether it has been closed.\<close>

record fakeListener =
  fl_accepted :: bool
  fl_closed :: "bool option"

definition newFakeListener :: fakeListener where
  "newFakeListener = \<lparr>fl_accepted = False, fl_closed = None\<rparr>"

datatype accept_result = Accepted | AcceptWaits | AcceptError go_error

definition fakeListener_Accept :: "fakeListener \<Rightarrow> accept_result \<times> fakeListener" where
  "fakeListener_Accept l =
     (if fl_accepted l then
        case fl_closed l of
          Some True \<Rightarrow> (AcceptError (ErrCode ECLOSED), l)
        | _ \<Rightarrow> (AcceptWaits, l)
      else (Accepted, l\<lparr>fl_accepted := True, fl_closed := Some False\<rparr>))"

text \<open>Closing a nil channel panics as closing a closed one does.\<close>

definition fakeListenerConn_Close :: "sref \<Rightarrow> fakeListener \<Rightarrow> rawConn \<Rightarrow> (go_error option \<times> fakeListener \<times> rawConn) option" where
  "fakeListenerConn_Close r l c = do {
     (err, c) \<leftarrow> with_stream r stream_Close c;
     if err = None then do {
       closed \<leftarrow> fl_closed l;
       closed \<leftarrow> close_chan closed;
       Some (err, l\<lparr>fl_closed := Some closed\<rparr>, c)
     } else Some (err, l, c)
   }"

definition fakeListener_Close :: "go_error option" where
  "fakeListener_Close = None"

text \<open>
  \<^verbatim>\<open>httpHandler.ServeCopper\<close> has returned once \<^verbatim>\<open>http.Server.Serve\<close> has, which calls \<^verbatim>\<open>Accept\<close> until it
  fails.
\<close>

definition ServeCopper_returns :: "fakeListener \<Rightarrow> bool" where
  "ServeCopper_returns l \<longleftrightarrow> (\<exists>err. fst (fakeListener_Accept l) = AcceptError err)"

section \<open>When the handler returns\<close>

lemma stream_Close_result:
  assumes "conn_inv c" and "c_heap c r = Some s"
  shows "\<exists>c'. with_stream r stream_Close c = Some (s_err s, c')"
proof -
  from close_stream_ok [OF assms, of None] obtain x c' where x: "with_stream r stream_Close c = Some (x, c')"
    by (auto simp: stream_Close_def [abs_def] stream_CloseWithError_def [abs_def])
  from x assms(2) obtain w where "stream_Close (in_world s (c_outgoing c) (c_streams c)) = Some (x, w)"
    by (auto elim!: with_stream_some)
  then have "x = s_err s"
    by (auto simp: stream_Close_def closeWithErrorLocked_def Let_def split: if_splits Option.bind_splits)
  with x show ?thesis by blast
qed



end
