(* ===== verification/Server_Http.thy ===== *)
theory Server_Http
  imports Server_Requests
begin

text \<open>
  Requests over HTTP, \<^verbatim>\<open>ServeHTTP\<close> of \<^verbatim>\<open>server.go\<close>: where a request goes, what is passed on of its
  headers, and what is replied. Parsing and printing of HTTP messages is \<^verbatim>\<open>net/http\<close>, whose results
  are arguments here; the handling of a request by an endpoint is in the theory of requests.
\<close>

section \<open>Strings and headers\<close>

abbreviation chr :: "char \<Rightarrow> u8" where
  "chr c \<equiv> of_char c"

text \<open>\<^verbatim>\<open>strings.IndexByte\<close>, and \<^verbatim>\<open>strconv.Atoi\<close> for 64-bit integers.\<close>

fun IndexByte :: "go_string \<Rightarrow> u8 \<Rightarrow> int" where
  "IndexByte [] b = -1"
| "IndexByte (c # cs) b = (if c = b then 0 else let i = IndexByte cs b in if i < 0 then -1 else i + 1)"

fun decimal :: "int \<Rightarrow> go_string \<Rightarrow> int option" where
  "decimal n [] = Some n"
| "decimal n (c # cs) = (if 48 \<le> c \<and> c \<le> 57 then decimal (10 * n + (uint c - 48)) cs else None)"

definition Atoi :: "go_string \<Rightarrow> int option" where
  "Atoi s =
     (let neg = (s \<noteq> [] \<and> hd s = chr CHR ''-'');
          digits = (if s \<noteq> [] \<and> (hd s = chr CHR ''-'' \<or> hd s = chr CHR ''+'') then tl s else s)
      in if digits = [] then None
         else case decimal 0 digits of
           None \<Rightarrow> None
         | Some n \<Rightarrow> let v = (if neg then - n else n) in if - (2 ^ 63) \<le> v \<and> v < 2 ^ 63 then Some v else None)"

text \<open>
  A \<^verbatim>\<open>http.Header\<close> is a map from keys to lists of values; \<^verbatim>\<open>Get\<close> and \<^verbatim>\<open>Add\<close> use the canonical form of
  a key (\<^verbatim>\<open>textproto.CanonicalMIMEHeaderKey\<close>: capitals at the start and after hyphens), indexing does
  not.
\<close>

type_synonym header = "(go_string, go_string list) gomap"

definition token_byte :: "u8 \<Rightarrow> bool" where
  "token_byte b \<longleftrightarrow> 48 \<le> b \<and> b \<le> 57 \<or> 65 \<le> b \<and> b \<le> 90 \<or> 97 \<le> b \<and> b \<le> 122 \<or> b \<in> set (str ''!#$%&*+-.^_|~'') \<or> b = 39 \<or> b = 96"

fun capitals :: "bool \<Rightarrow> go_string \<Rightarrow> go_string" where
  "capitals upper [] = []"
| "capitals upper (b # bs) =
     (if upper \<and> 97 \<le> b \<and> b \<le> 122 then b - 32 else if \<not> upper \<and> 65 \<le> b \<and> b \<le> 90 then b + 32 else b) # capitals (b = chr CHR ''-'') bs"

definition canonical :: "go_string \<Rightarrow> go_string" where
  "canonical key = (if \<forall>b \<in> set key. token_byte b then capitals True key else key)"

definition header_values :: "header \<Rightarrow> go_string \<Rightarrow> go_string list" where
  "header_values h key = (case map_of h key of None \<Rightarrow> [] | Some vs \<Rightarrow> vs)"

definition header_Get :: "header \<Rightarrow> go_string \<Rightarrow> go_string" where
  "header_Get h key = (case header_values h (canonical key) of [] \<Rightarrow> [] | v # _ \<Rightarrow> v)"

definition header_Add :: "go_string \<Rightarrow> go_string \<Rightarrow> header \<Rightarrow> header" where
  "header_Add key v h = AList.update (canonical key) (header_values h (canonical key) @ [v]) h"

section \<open>Headers that are passed on\<close>

definition hopHeaders :: "go_string list" where
  "hopHeaders = map str [''Connection'', ''Keep-Alive'', ''Proxy-Authenticate'', ''Proxy-Authorization'', ''Te'', ''Trailers'',
     ''Transfer-Encoding'', ''Upgrade'']"

text \<open>The map is visited in the order of the list.\<close>

definition copyHeaders :: "header \<Rightarrow> header \<Rightarrow> header" where
  "copyHeaders dst src = fold (\<lambda>(k, vv) dst. fold (header_Add k) vv dst) src dst"

text \<open>
  The loop over \<^verbatim>\<open>hopHeaders\<close>: \<^verbatim>\<open>modified\<close> is declared and never set, so each header that is found
  starts from a new copy.
\<close>

fun strip_hop :: "header \<Rightarrow> header \<Rightarrow> go_string list \<Rightarrow> header" where
  "strip_hop req out [] = out"
| "strip_hop req out (h # hs) =
     strip_hop req (if header_values out h \<noteq> [] then AList.delete h (copyHeaders [] req) else out) hs"

definition outreq_Header :: "header \<Rightarrow> header" where
  "outreq_Header req = strip_hop req req hopHeaders"

section \<open>Where a request goes\<close>

text \<open>The service of a path and the path that is left for it; no service is the empty string.\<close>

definition extractHTTPServiceName :: "go_string \<Rightarrow> go_string \<times> go_string" where
  "extractHTTPServiceName path =
     (if 1 < length path \<and> path ! 0 = chr CHR ''/'' then
        let rest = drop 1 path; index = IndexByte rest (chr CHR ''/'')
        in if 0 < index then (take (nat index) rest, drop (nat index) rest) else ([], path)
      else ([], path))"

definition http_distance :: "u32 \<Rightarrow> go_string \<Rightarrow> u32" where
  "http_distance d value = (case Atoi value of Some v \<Rightarrow> if 0 \<le> v then word_of_int v else d | None \<Rightarrow> d)"

text \<open>
  The start of \<^verbatim>\<open>ServeHTTP\<close>, with the path of the request afterwards: the handler of
  \<^verbatim>\<open>http.DefaultServeMux\<close> (\<open>mux\<close> is whether a pattern of it matches), no route, or a search for the
  best endpoint of a name within distances.
\<close>

datatype http_route = Http_mux | Http_noRoute | Http_find go_string u32 u32

definition http_find :: "header \<Rightarrow> go_string \<Rightarrow> http_route" where
  "http_find h service = Http_find (str ''http:'' @ service)
     (http_distance 0 (header_Get h (str ''X-Copper-MinDistance''))) (http_distance 2 (header_Get h (str ''X-Copper-MaxDistance'')))"

definition ServeHTTP_route :: "bool \<Rightarrow> header \<Rightarrow> go_string \<Rightarrow> http_route \<times> go_string" where
  "ServeHTTP_route mux h path =
     (let service = header_Get h (str ''X-Copper-Service'')
      in if length service = 0 then
           if mux then (Http_mux, path)
           else case extractHTTPServiceName path of (service, path) \<Rightarrow>
             if length service = 0 then (Http_noRoute, path) else (http_find h service, path)
         else (http_find h service, path))"

text \<open>
  The loop: each attempt has the server at the time of the search, and what
  \<^verbatim>\<open>handleRequestRLocked\<close> of the endpoint returns if there is one. \<^term>\<open>None\<close> is that it goes on.
\<close>

fun ServeHTTP_loop :: "runtime \<Rightarrow> go_string \<Rightarrow> u32 \<Rightarrow> u32 \<Rightarrow> (server \<times> handleRequestStatus) list \<Rightarrow> handleRequestStatus option" where
  "ServeHTTP_loop rt name minDistance maxDistance [] = None"
| "ServeHTTP_loop rt name minDistance maxDistance ((s, status) # next_tries) =
     (case findEndpointRLocked rt s name minDistance maxDistance of
        None \<Rightarrow> Some StatusNoRoute
      | Some endpoint \<Rightarrow> if status \<noteq> StatusRetry then Some status else ServeHTTP_loop rt name minDistance maxDistance next_tries)"

definition ServeHTTP_status :: "runtime \<Rightarrow> http_route \<Rightarrow> (server \<times> handleRequestStatus) list \<Rightarrow> handleRequestStatus option" where
  "ServeHTTP_status rt route attempts =
     (case route of
        Http_mux \<Rightarrow> Some StatusDone
      | Http_noRoute \<Rightarrow> Some StatusNoRoute
      | Http_find name minDistance maxDistance \<Rightarrow> ServeHTTP_loop rt name minDistance maxDistance attempts)"

text \<open>The code written by \<^verbatim>\<open>ServeHTTP\<close> itself.\<close>

definition ServeHTTP_end :: "handleRequestStatus \<Rightarrow> int option" where
  "ServeHTTP_end status = (if status \<noteq> StatusDone then Some 404 else None)"

section \<open>What is replied\<close>

text \<open>The goroutine that writes the request: the error it closes the stream with, for the one of \<^verbatim>\<open>outreq.Write\<close>.\<close>

definition outreq_written :: "go_error option \<Rightarrow> go_error option" where
  "outreq_written err = (case err of Some e \<Rightarrow> if \<not> isCopperError e then Some e else None | None \<Rightarrow> None)"

record http_response =
  res_StatusCode :: int
  res_Header :: header
  res_Body :: "u8 list"

text \<open>
  The callback, on the results of the first and the second \<^verbatim>\<open>http.ReadResponse\<close> (the second is only
  called after a 100): the reply, for the header that it has already, and the error the stream is
  closed with.
\<close>

definition http_reply :: "header \<Rightarrow> go_error + http_response \<Rightarrow> go_error + http_response \<Rightarrow> http_response \<times> go_error option" where
  "http_reply rw first second =
     (let r = (case first of Inr res \<Rightarrow> if res_StatusCode res = 100 then second else first | Inl err \<Rightarrow> first)
      in case r of
           Inl err \<Rightarrow>
             let text = err_text err
             in (\<lparr>res_StatusCode = 502, res_Header = AList.update (canonical (str ''Content-Length'')) [show_int (zlen text)] rw, res_Body = text\<rparr>, Some err)
         | Inr res \<Rightarrow>
             (\<lparr>res_StatusCode = res_StatusCode res, res_Header = copyHeaders rw (res_Header res), res_Body = res_Body res\<rparr>, None))"

section \<open>Accepting connections\<close>

text \<open>
  The loops of the two acceptors, on what \<^verbatim>\<open>Accept\<close> of the listener returns one after the other: the one
  for clients adds each connection, and both close the server once they fail. For HTTP the loop is
  that of \<^verbatim>\<open>http.Server.Serve\<close>, of which only the error counts.
\<close>

fun server_acceptor :: "runtime \<Rightarrow> eref \<Rightarrow> bool \<Rightarrow> go_error option list \<Rightarrow> server \<Rightarrow> server option" where
  "server_acceptor rt ref allowChanges [] s = Some s"
| "server_acceptor rt ref allowChanges (Some err # rs) s = map_option snd (server_closeWithError rt ref (Some err) s)"
| "server_acceptor rt ref allowChanges (None # rs) s =
     (case server_addClient allowChanges s of
        (Inl err, s) \<Rightarrow> map_option snd (server_closeWithError rt ref (Some err) s)
      | (Inr c, s) \<Rightarrow> server_acceptor rt ref allowChanges rs s)"

definition server_httpacceptor :: "runtime \<Rightarrow> eref \<Rightarrow> go_error option \<Rightarrow> server \<Rightarrow> server option" where
  "server_httpacceptor rt ref err s =
     (case err of None \<Rightarrow> Some s | Some e \<Rightarrow> map_option snd (server_closeWithError rt ref (Some e) s))"

text \<open>A server that has been closed takes no more clients: the acceptors end and leave it as it is.\<close>

lemma closed_server_accepts_none:
  "sv_failure s \<noteq> None \<Longrightarrow> server_acceptor rt ref allowChanges rs s = Some s \<and> server_httpacceptor rt ref err s = Some s"
  by (cases rs; cases "hd rs"; cases err)
    (auto simp: server_httpacceptor_def server_closeWithError_def server_addClient_def Let_def)

section \<open>Services in paths\<close>

lemma IndexByte_append: "b \<notin> set xs \<Longrightarrow> IndexByte (xs @ b # ys) b = zlen xs"
  by (induction xs) auto

lemma IndexByte_none: "b \<notin> set xs \<Longrightarrow> IndexByte xs b = -1"
  by (induction xs) auto

lemma IndexByte_first:
  assumes "IndexByte xs b = int n"
  shows "n < length xs \<and> xs ! n = b \<and> b \<notin> set (take n xs)"
  using assms
proof (induction xs arbitrary: n)
  case (Cons c cs)
  show ?case
  proof (cases "c = b")
    case False
    with Cons.prems have i: "0 \<le> IndexByte cs b" "int n = IndexByte cs b + 1" by (auto simp: Let_def split: if_splits)
    then obtain k where "n = Suc k" "IndexByte cs b = int k" by (metis add.commute int_ops(4) nonneg_int_cases of_nat_Suc of_nat_eq_iff)
    with Cons.IH [of k] False show ?thesis by simp
  qed (use Cons.prems in simp)
qed simp

section \<open>What the headers become\<close>

text \<open>A header as \<^verbatim>\<open>net/http\<close> makes it: with canonical keys, each of them once.\<close>

definition wf_header :: "header \<Rightarrow> bool" where
  "wf_header h \<longleftrightarrow> gm_wf h \<and> (\<forall>k \<in> gm_keys h. canonical k = k)"

lemma header_values_Add: "header_values (header_Add key v h) k = header_values h k @ (if k = canonical key then [v] else [])"
  by (simp add: header_values_def header_Add_def AList.update_conv')

lemma header_values_add_all: "header_values (fold (header_Add key) vs h) k = header_values h k @ (if k = canonical key then vs else [])"
  by (induction vs arbitrary: h) (simp_all add: header_values_Add)

lemma copyHeaders_values:
  assumes "wf_header src"
  shows "header_values (copyHeaders dst src) k = header_values dst k @ header_values src k"
  using assms
proof (induction src arbitrary: dst)
  case Nil
  then show ?case by (simp add: copyHeaders_def header_values_def)
next
  case (Cons p src)
  obtain key vs where p: "p = (key, vs)" by (cases p)
  from Cons.prems have wf: "wf_header src" and key: "canonical key = key" "key \<notin> gm_keys src" by (auto simp: wf_header_def p)
  have none: "header_values src key = []" using map_of_None_keys [THEN iffD2, OF key(2)] by (simp add: header_values_def)
  have "header_values (copyHeaders dst (p # src)) k = header_values (fold (header_Add key) vs dst) k @ header_values src k"
    using Cons.IH [OF wf] by (simp add: copyHeaders_def p)
  moreover have "header_values (p # src) k = (if k = key then vs else header_values src k)" by (simp add: p header_values_def)
  ultimately show ?case using none by (simp add: header_values_add_all key(1))
qed

lemma strip_hop_values:
  assumes "wf_header req" and "distinct hs" and "\<forall>h \<in> set hs. header_values out h = header_values req h"
  shows "header_values (strip_hop req out hs) k =
    (let found = filter (\<lambda>h. header_values req h \<noteq> []) hs
     in if found = [] then header_values out k else if k = last found then [] else header_values req k)"
  using assms(2,3)
proof (induction hs arbitrary: out)
  case (Cons h hs)
  let ?out = "AList.delete h (copyHeaders [] req)"
  have v: "header_values ?out x = (if x = h then [] else header_values req x)" for x
    using copyHeaders_values [OF assms(1), of "[]" x] by (simp add: header_values_def AList.delete_conv')
  show ?case
  proof (cases "header_values req h = []")
    case True
    with Cons show ?thesis by simp
  next
    case False
    with Cons.prems have "header_values (strip_hop req out (h # hs)) k = header_values (strip_hop req ?out hs) k" by simp
    also have "\<dots> = (let found = filter (\<lambda>h. header_values req h \<noteq> []) hs
      in if found = [] then header_values ?out k else if k = last found then [] else header_values req k)"
      using Cons.prems v by (intro Cons.IH) auto
    finally show ?thesis using False v by (simp add: Let_def)
  qed
qed simp

section \<open>Requests over HTTP\<close>

text \<open>
  A request for the path of a service goes to that service: without a header that names another one and
  without a handler of its own, the path of a service and a path within it make the server look for the
  best endpoint of that service, published for HTTP, within the distances of the headers (0 and 2
  without them), and the service gets the path within it. It is answered with 404 if there is no
  endpoint, and tried again until an endpoint does not ask for another attempt.
\<close>

theorem http_request_is_routed:
  assumes "service \<noteq> []" and "chr CHR ''/'' \<notin> set service" and "header_Get h (str ''X-Copper-Service'') = []"
    and "route = Http_find (str ''http:'' @ service) (http_distance 0 (header_Get h (str ''X-Copper-MinDistance'')))
      (http_distance 2 (header_Get h (str ''X-Copper-MaxDistance'')))"
  shows "ServeHTTP_route False h (chr CHR ''/'' # service @ chr CHR ''/'' # rest) = (route, chr CHR ''/'' # rest) \<and>
    http_distance d [] = d \<and>
    ServeHTTP_status rt (Http_find name dmin dmax) ((s, status) # tries) =
      (if findEndpointRLocked rt s name dmin dmax = None then Some StatusNoRoute
       else if status = StatusRetry then ServeHTTP_status rt (Http_find name dmin dmax) tries else Some status) \<and>
    ServeHTTP_end StatusNoRoute = Some 404"
proof -
  have "0 < zlen service" using assms(1) by simp
  with IndexByte_append [OF assms(2), of rest]
  have "extractHTTPServiceName (chr CHR ''/'' # service @ chr CHR ''/'' # rest) = (service, chr CHR ''/'' # rest)"
    using assms(1) unfolding extractHTTPServiceName_def Let_def by simp
  moreover have "Atoi [] = None" by (simp add: Atoi_def)
  ultimately show ?thesis using assms(1,3)
    by (simp add: ServeHTTP_route_def http_find_def http_distance_def ServeHTTP_status_def ServeHTTP_end_def assms(4) split: option.split)
qed

theorem http_request_is_routed_witness:
  "ServeHTTP_route False [(str ''X-Copper-Maxdistance'', [str ''1''])] (str ''/web/index'') = (Http_find (str ''http:web'') 0 1, str ''/index'')"
proof -
  have g: "header_Get [(str ''X-Copper-Maxdistance'', [str ''1''])] (str ''X-Copper-Service'') = []"
    "header_Get [(str ''X-Copper-Maxdistance'', [str ''1''])] (str ''X-Copper-MinDistance'') = []"
    "header_Get [(str ''X-Copper-Maxdistance'', [str ''1''])] (str ''X-Copper-MaxDistance'') = str ''1''"
    by (simp_all add: header_Get_def header_values_def canonical_def token_byte_def)
  have d: "http_distance 0 [] = 0" "http_distance 2 (str ''1'') = 1" by (simp_all add: http_distance_def Atoi_def)
  have w: "str ''web'' \<noteq> []" "chr CHR ''/'' \<notin> set (str ''web'')" by simp_all
  from conjunct1 [OF http_request_is_routed [OF w g(1) refl, of "str ''index''"]]
  show ?thesis unfolding g d by simp
qed

text \<open>
  C38. Hop-by-hop headers are passed on: of the headers that ServeHTTP means to remove from a request only
  the last one that the request has is removed, and all others reach the service as they are.
\<close>

theorem hop_headers_are_passed_on:
  assumes "wf_header h" and "found = filter (\<lambda>k. header_values h k \<noteq> []) hopHeaders"
  shows "header_values (outreq_Header h) k = (if found \<noteq> [] \<and> k = last found then [] else header_values h k)"
proof -
  have "distinct hopHeaders" by (simp add: hopHeaders_def)
  from strip_hop_values [OF assms(1) this, of h k] show ?thesis by (auto simp: outreq_Header_def assms(2) Let_def)
qed

theorem hop_headers_are_passed_on_witness:
  "header_values (outreq_Header [(str ''Connection'', [str ''close'']), (str ''Upgrade'', [str ''x''])]) (str ''Connection'') = [str ''close''] \<and>
   header_values (outreq_Header [(str ''Connection'', [str ''close'']), (str ''Upgrade'', [str ''x''])]) (str ''Upgrade'') = []"
proof -
  let ?h = "[(str ''Connection'', [str ''close'']), (str ''Upgrade'', [str ''x''])]"
  have wf: "wf_header ?h" by (simp add: wf_header_def canonical_def token_byte_def)
  have f: "filter (\<lambda>k. header_values ?h k \<noteq> []) hopHeaders = [str ''Connection'', str ''Upgrade'']"
    by (simp add: hopHeaders_def header_values_def)
  from hop_headers_are_passed_on [OF wf f [symmetric]] show ?thesis by (simp add: header_values_def)
qed

end
