(* ===== verification/Copper_Node.thy ===== *)
theory Copper_Node
  imports Server_Http
begin

text \<open>
  The command \<^verbatim>\<open>copper-node\<close>, \<^verbatim>\<open>cmd/copper-node\<close>: how its configuration becomes listeners and peers
  of a server. Reading the configuration, name lookup and listening are arguments; an error that ends
  the process (\<^verbatim>\<open>log.Fatalf\<close>) is a result on the left.
\<close>

section \<open>Configuration (config.go)\<close>

record ListenAddr =
  la_Type :: go_string
  la_Network :: go_string
  la_Address :: go_string
  la_Changes :: bool

type_synonym DataCenterPeers = "go_string list"

record CopperNodeConfig =
  cf_CPU :: int
  cf_Listen :: "ListenAddr list"
  cf_DCMap :: "(go_string, DataCenterPeers) gomap"

definition defaultPort :: go_string where
  "defaultPort = str ''5323''"

definition defaultListenAddrs :: "ListenAddr list" where
  "defaultListenAddrs =
     [\<lparr>la_Type = [], la_Network = str ''unix'', la_Address = str ''/run/copper/copper.sock'', la_Changes = True\<rparr>,
      \<lparr>la_Type = str ''http'', la_Network = str ''unix'', la_Address = str ''/run/copper/copper.http'', la_Changes = False\<rparr>,
      \<lparr>la_Type = [], la_Network = str ''tcp'', la_Address = str ''localhost:5323'', la_Changes = False\<rparr>,
      \<lparr>la_Type = str ''http'', la_Network = str ''tcp'', la_Address = str ''localhost:5380'', la_Changes = False\<rparr>]"

text \<open>\<^verbatim>\<open>net.JoinHostPort\<close>, and \<^verbatim>\<open>strings.ToLower\<close> on the ASCII characters that addresses are made of.\<close>

definition JoinHostPort :: "go_string \<Rightarrow> go_string \<Rightarrow> go_string" where
  "JoinHostPort host port =
     (if IndexByte host (chr CHR '':'') \<noteq> -1 then str ''['' @ host @ str '']:'' @ port else host @ str '':'' @ port)"

definition ToLower :: "go_string \<Rightarrow> go_string" where
  "ToLower s = map (\<lambda>b. if 65 \<le> b \<and> b \<le> 90 then b + 32 else b) s"

definition peer_address :: "go_string \<Rightarrow> go_string" where
  "peer_address peer = (if IndexByte peer (chr CHR '':'') = -1 then JoinHostPort peer defaultPort else peer)"

fun dc_Contains :: "DataCenterPeers \<Rightarrow> go_string list \<Rightarrow> bool" where
  "dc_Contains [] hostports = False"
| "dc_Contains (peer # peers) hostports =
     (if ToLower (peer_address peer) \<in> set hostports then True else dc_Contains peers hostports)"

fun dc_OtherAddresses :: "DataCenterPeers \<Rightarrow> go_string list \<Rightarrow> go_string list" where
  "dc_OtherAddresses [] hostports = []"
| "dc_OtherAddresses (peer # peers) hostports =
     (if ToLower (peer_address peer) \<in> set hostports then dc_OtherAddresses peers hostports
      else peer_address peer # dc_OtherAddresses peers hostports)"

section \<open>The name of the host (util.go)\<close>

text \<open>The loop that cuts off trailing dots.\<close>

definition trim_dots :: "go_string \<Rightarrow> go_string" where
  "trim_dots cname = rev (dropWhile (\<lambda>b. b = chr CHR ''.'') (rev cname))"

text \<open>On the results of \<^verbatim>\<open>os.Hostname\<close> and \<^verbatim>\<open>net.LookupCNAME\<close>.\<close>

definition fullHostname :: "go_error + go_string \<Rightarrow> go_error + go_string \<Rightarrow> go_error + go_string" where
  "fullHostname hostname cname =
     (case hostname of
        Inl err \<Rightarrow> Inl err
      | Inr host \<Rightarrow>
          (case cname of
             Inl _ \<Rightarrow> Inr host
           | Inr name \<Rightarrow> Inr (if 0 < length (trim_dots name) then trim_dots name else host)))"

section \<open>Listeners (main.go)\<close>

datatype fatal = UnsupportedType go_string | InvalidAddress ListenAddr go_error | NoHostname go_error | PeerFailed go_string go_error

definition HasPrefix :: "go_string \<Rightarrow> go_string \<Rightarrow> bool" where
  "HasPrefix s p \<longleftrightarrow> take (length p) s = p"

text \<open>Whether a listener is for HTTP, and its network if it is not given.\<close>

definition listen_ishttp :: "ListenAddr \<Rightarrow> fatal + bool" where
  "listen_ishttp l =
     (if la_Type l = [] then Inr False else if la_Type l = str ''http'' then Inr True else Inl (UnsupportedType (la_Type l)))"

definition listen_network :: "ListenAddr \<Rightarrow> ListenAddr" where
  "listen_network l =
     (if la_Network l = [] \<and> 0 < length (la_Address l) then
        if la_Address l ! 0 = chr CHR ''/'' \<or> la_Address l ! 0 = chr CHR ''.'' then l\<lparr>la_Network := str ''unix''\<rparr>
        else l\<lparr>la_Network := str ''tcp''\<rparr>
      else l)"

text \<open>
  The address under which this node may be in the list of peers, for a listener on TCP:
  \<^verbatim>\<open>net.SplitHostPort\<close> of the address and the name of the host are arguments.
\<close>

definition listen_hostport :: "(go_string \<Rightarrow> go_error + (go_string \<times> go_string)) \<Rightarrow> go_error + go_string \<Rightarrow> ListenAddr \<Rightarrow> fatal + go_string list" where
  "listen_hostport split self l =
     (if HasPrefix (la_Network l) (str ''tcp'') then
        case split (la_Address l) of
          Inl err \<Rightarrow> Inl (InvalidAddress l err)
        | Inr (host, port) \<Rightarrow>
            if host = [] then
              case self of
                Inl err \<Rightarrow> Inl (NoHostname err)
              | Inr name \<Rightarrow> Inr [ToLower (JoinHostPort name port)]
            else Inr [ToLower (la_Address l)]
      else Inr [])"

text \<open>The listeners in order, with the addresses of this node that come out of them.\<close>

fun node_listeners :: "(go_string \<Rightarrow> go_error + (go_string \<times> go_string)) \<Rightarrow> go_error + go_string \<Rightarrow> ListenAddr list \<Rightarrow>
    fatal + ((bool \<times> ListenAddr) list \<times> go_string list)" where
  "node_listeners split self [] = Inr ([], [])"
| "node_listeners split self (l # ls) =
     (case listen_ishttp l of
        Inl f \<Rightarrow> Inl f
      | Inr ishttp \<Rightarrow>
          (case listen_hostport split self (listen_network l) of
             Inl f \<Rightarrow> Inl f
           | Inr hp \<Rightarrow>
               (case node_listeners split self ls of
                  Inl f \<Rightarrow> Inl f
                | Inr (listeners, hps) \<Rightarrow> Inr ((ishttp, listen_network l) # listeners, hp @ hps))))"

definition node_listen :: "CopperNodeConfig \<Rightarrow> ListenAddr list" where
  "node_listen config = (if length (cf_Listen config) = 0 then defaultListenAddrs else cf_Listen config)"

section \<open>Peers (main.go)\<close>

fun node_addPeers :: "eref \<Rightarrow> u32 \<Rightarrow> go_string list \<Rightarrow> server \<Rightarrow> fatal + server" where
  "node_addPeers ref distance [] s = Inr s"
| "node_addPeers ref distance (addr # addrs) s =
     (case server_AddPeer ref (str ''tcp'') addr distance s of
        (Some err, s) \<Rightarrow> Inl (PeerFailed addr err)
      | (None, s) \<Rightarrow> node_addPeers ref distance addrs s)"

definition dc_distance :: "DataCenterPeers \<Rightarrow> go_string list \<Rightarrow> u32" where
  "dc_distance peers hostports = (if \<not> dc_Contains peers hostports then 2 else 1)"

fun node_peers :: "eref \<Rightarrow> go_string list \<Rightarrow> (go_string, DataCenterPeers) gomap \<Rightarrow> server \<Rightarrow> fatal + server" where
  "node_peers ref hostports [] s = Inr s"
| "node_peers ref hostports ((dc, peers) # dcs) s =
     (case node_addPeers ref (dc_distance peers hostports) (dc_OtherAddresses peers hostports) s of
        Inl f \<Rightarrow> Inl f
      | Inr s \<Rightarrow> node_peers ref hostports dcs s)"

section \<open>Which peers a node has\<close>

lemma dc_Contains_iff: "dc_Contains peers hostports \<longleftrightarrow> (\<exists>p \<in> set peers. ToLower (peer_address p) \<in> set hostports)"
  by (induction peers) auto

lemma dc_OtherAddresses_eq: "dc_OtherAddresses peers hostports = filter (\<lambda>a. ToLower a \<notin> set hostports) (map peer_address peers)"
  by (induction peers) auto

text \<open>The addresses and distances of the peers of a server, all of them on TCP.\<close>

definition has_peers :: "server \<Rightarrow> (go_string \<times> u32) set \<Rightarrow> bool" where
  "has_peers s ps \<longleftrightarrow> (\<forall>k pe. map_of (sv_peers s) k = Some pe \<longrightarrow> pe < sv_fresh s \<and> fst k = str ''tcp'') \<and>
     (\<forall>a d. (a, d) \<in> ps \<longleftrightarrow> (\<exists>pe. map_of (sv_peers s) (str ''tcp'', a) = Some pe \<and> pe_distance (sv_peer s pe) = d))"

lemma has_peers_tcp: "has_peers s ps \<Longrightarrow> map_of (sv_peers s) k = Some pe \<Longrightarrow> fst k = str ''tcp''"
  unfolding has_peers_def by blast

lemma AddPeer_has_peers:
  assumes h: "has_peers s ps" and add: "server_AddPeer ref (str ''tcp'') addr d s = (None, s')"
  shows "has_peers s' (insert (addr, d) ps)"
proof -
  let ?k = "(str ''tcp'', addr)" and ?pe = "sv_fresh s"
  from add have new: "map_of (sv_peers s) ?k = None"
    by (auto simp: server_AddPeer_def addPeerLocked_def fresh_def Let_def split: option.splits)
  from add have s': "sv_fresh s' = Suc ?pe" "map_of (sv_peers s') = (map_of (sv_peers s))(?k \<mapsto> ?pe)"
    "pe_distance (sv_peer s' ?pe) = d" "\<And>q. q \<noteq> ?pe \<Longrightarrow> sv_peer s' q = sv_peer s q"
    by (auto simp: server_AddPeer_def addPeerLocked_def fresh_def Let_def AList.update_conv' split: option.splits)
  have old: "pe \<noteq> ?pe" if "map_of (sv_peers s) k = Some pe" for k pe using h that unfolding has_peers_def by fastforce
  have none: "(addr, d') \<notin> ps" for d' using h new unfolding has_peers_def by simp
  show ?thesis unfolding has_peers_def
  proof (intro conjI allI impI)
    fix k pe assume "map_of (sv_peers s') k = Some pe"
    then show "pe < sv_fresh s'" "fst k = str ''tcp''" using h unfolding s'(1,2) has_peers_def by (cases k; auto split: if_splits simp: less_Suc_eq)+
  next
    fix a d'
    show "((a, d') \<in> insert (addr, d) ps) = (\<exists>pe. map_of (sv_peers s') (str ''tcp'', a) = Some pe \<and> pe_distance (sv_peer s' pe) = d')"
    proof (cases "a = addr")
      case True
      then show ?thesis using none [of d'] by (auto simp: s')
    next
      case False
      have "((a, d') \<in> ps) = (\<exists>pe. map_of (sv_peers s) (str ''tcp'', a) = Some pe \<and> pe_distance (sv_peer s pe) = d')"
        using h unfolding has_peers_def by blast
      with False old s'(4) show ?thesis unfolding s'(2) by (auto; metis)
    qed
  qed
qed

lemma node_addPeers_has_peers:
  "has_peers s ps \<Longrightarrow> node_addPeers ref d addrs s = Inr s' \<Longrightarrow> has_peers s' (ps \<union> (\<lambda>a. (a, d)) ` set addrs)"
proof (induction addrs arbitrary: s ps)
  case (Cons a as)
  from Cons.prems(2) obtain s1 where s1: "server_AddPeer ref (str ''tcp'') a d s = (None, s1)" "node_addPeers ref d as s1 = Inr s'"
    by (auto split: prod.splits option.splits)
  from Cons.IH [OF AddPeer_has_peers [OF Cons.prems(1) s1(1)] s1(2)] show ?case by (simp add: insert_commute Un_commute)
qed simp

lemma node_peers_has_peers:
  "has_peers s ps \<Longrightarrow> node_peers ref hostports dcs s = Inr s' \<Longrightarrow>
    has_peers s' (ps \<union> {(a, dc_distance peers hostports) | a dc peers. (dc, peers) \<in> set dcs \<and> a \<in> set (dc_OtherAddresses peers hostports)})"
proof (induction dcs arbitrary: s ps)
  case (Cons p dcs)
  obtain dc peers where p: "p = (dc, peers)" by (cases p)
  let ?d = "dc_distance peers hostports" and ?as = "dc_OtherAddresses peers hostports"
  from Cons.prems(2) obtain s1 where s1: "node_addPeers ref ?d ?as s = Inr s1" "node_peers ref hostports dcs s1 = Inr s'"
    by (auto simp: p split: sum.splits)
  have "ps \<union> (\<lambda>a. (a, ?d)) ` set ?as \<union> {(a, dc_distance peers hostports) | a dc peers. (dc, peers) \<in> set dcs \<and> a \<in> set (dc_OtherAddresses peers hostports)} =
    ps \<union> {(a, dc_distance peers hostports) | a dc peers. (dc, peers) \<in> set (p # dcs) \<and> a \<in> set (dc_OtherAddresses peers hostports)}"
    by (auto simp: p)
  with Cons.IH [OF node_addPeers_has_peers [OF Cons.prems(1) s1(1)] s1(2)] show ?case by simp
qed simp

text \<open>
  A node connects to the others: if a node starts, its peers are the addresses of the configuration
  that are not its own, at distance 1 in the data centers that list one of its own addresses and at
  distance 2 in the others.
\<close>

lemma node_peers_are_the_others:
  assumes "node_peers ref hostports dcmap NewServer = Inr s"
  shows "(\<exists>pe. map_of (sv_peers s) (network, addr) = Some pe \<and> pe_distance (sv_peer s pe) = d) \<longleftrightarrow>
    network = str ''tcp'' \<and> ToLower addr \<notin> set hostports \<and>
    (\<exists>dc peers. (dc, peers) \<in> set dcmap \<and> (\<exists>p \<in> set peers. addr = peer_address p) \<and>
       d = (if \<exists>p \<in> set peers. ToLower (peer_address p) \<in> set hostports then 1 else 2))"
proof -
  have "has_peers NewServer {}" by (simp add: has_peers_def NewServer_def)
  from node_peers_has_peers [OF this assms]
  have h: "has_peers s {(a, dc_distance peers hostports) | a dc peers. (dc, peers) \<in> set dcmap \<and> a \<in> set (dc_OtherAddresses peers hostports)}"
    by simp
  have e: "(\<exists>pe. map_of (sv_peers s) (network, addr) = Some pe \<and> pe_distance (sv_peer s pe) = d) \<longleftrightarrow>
    network = str ''tcp'' \<and> (\<exists>dc peers. d = dc_distance peers hostports \<and> (dc, peers) \<in> set dcmap \<and> addr \<in> set (dc_OtherAddresses peers hostports))"
  proof (cases "network = str ''tcp''")
    case True
    show ?thesis unfolding True using h unfolding has_peers_def by blast
  next
    case False
    then have "map_of (sv_peers s) (network, addr) = None"
      using has_peers_tcp [OF h, of "(network, addr)"] by (cases "map_of (sv_peers s) (network, addr)") simp_all
    with False show ?thesis by simp
  qed
  have o: "addr \<in> set (dc_OtherAddresses peers hostports) \<longleftrightarrow> ToLower addr \<notin> set hostports \<and> (\<exists>p \<in> set peers. addr = peer_address p)" for peers
    unfolding dc_OtherAddresses_eq by auto
  have d: "dc_distance peers hostports = (if \<exists>p \<in> set peers. ToLower (peer_address p) \<in> set hostports then 1 else 2)" for peers
    unfolding dc_distance_def dc_Contains_iff by simp
  show ?thesis unfolding e o d by blast
qed

end
