(* ===== verification/Spec2Isabelle.thy ===== *)
theory Spec2Isabelle
  imports Stream_Props Container_Props Discovery_Props Relay Http_Handler Copper_Node
begin

text \<open>
  This development verifies \<^verbatim>\<open>copper\<close>, a multiplexing RPC library in Go: its transport, many
  bidirectional byte streams over one network connection with flow control per stream, the server
  on top of it, which publishes services of its clients and sends requests to them, and the RPC
  protocol between clients and servers.

  \<^bold>\<open>The program.\<close> A connection (\<^verbatim>\<open>rawconn.go\<close>) owns a table of live streams
  (\<^verbatim>\<open>rawconn_streams.go\<close>), pings (\<^verbatim>\<open>rawconn_pings.go\<close>), settings
  (\<^verbatim>\<open>rawconn_settings.go\<close>) and an outgoing side (\<^verbatim>\<open>rawconn_outgoing.go\<close>) with two
  queues of streams that have something to send (\<^verbatim>\<open>rawstream_queue.go\<close>). Its read loop parses
  frames (\<^verbatim>\<open>frame.go\<close>) and gives them to streams (\<^verbatim>\<open>rawstream.go\<close>); its write loop takes
  streams out of the queues and lets them write control and data frames. A stream has a read and a
  write buffer (\<^verbatim>\<open>buffer.go\<close>), and its users wait on condition variables with deadlines
  (\<^verbatim>\<open>cond.go\<close>).

  A server (\<^verbatim>\<open>server.go\<close>) has clients (\<^verbatim>\<open>server_client.go\<close>), which publish endpoints under a
  name and a priority (\<^verbatim>\<open>server_pubs.go\<close>), subscribe to services (\<^verbatim>\<open>server_subs.go\<close>), set
  weighted routes (\<^verbatim>\<open>server_routes.go\<close>) and watch the directory (\<^verbatim>\<open>server_changes.go\<close>), and
  peers whose services it can use (\<^verbatim>\<open>server_peers.go\<close>). A request takes an endpoint of a publication
  or waits in its queue for one; the endpoints of a publication share their capacity.

  Clients and servers talk in length-prefixed messages over streams (\<^verbatim>\<open>rpc_io.go\<close>, \<^verbatim>\<open>rpc_conv.go\<close>,
  \<^verbatim>\<open>rpc_client.go\<close>, \<^verbatim>\<open>rpc_server.go\<close>, \<^verbatim>\<open>client.go\<close>, \<^verbatim>\<open>handler.go\<close>); a peer is another server
  that is a client. The stream of a request is copied to that of an endpoint (\<^verbatim>\<open>passthru.go\<close>), and
  requests over HTTP are turned into such requests (\<^verbatim>\<open>ServeHTTP\<close>, \<^verbatim>\<open>http.go\<close>). The command
  \<^verbatim>\<open>copper-node\<close> sets up a server with listeners and peers.

  \<^bold>\<open>The theories of the transport.\<close>
  \<^item> \<open>Copper_Prelude\<close>: machine integers, Go slices, indexing, \<^verbatim>\<open>copy\<close>, \<^verbatim>\<open>make\<close> and channels
    with their panics (a panic is \<^term>\<open>None\<close>), big-endian numbers, and the lemmas all theories share.
  \<^item> \<open>Copper_Errors\<close>: \<^verbatim>\<open>errors.go\<close>, \<^verbatim>\<open>util.go\<close>. Error values with the identity Go gives them.
  \<^item> \<open>Interfaces\<close>: the contracts of queues and byte stores as locales, interpreted in \<open>Buffer\<close> and
    \<open>Stream_Queue\<close> on the model's own operations.
  \<^item> \<open>Buffer\<close>, \<open>Stream_Queue\<close>, \<open>Container_Props\<close>: the circular containers; they refine lists.
  \<^item> \<open>Frames\<close>: reading and writing frames over an arbitrary writer; both round trips, and the errors.
  \<^item> \<open>Cond\<close>: \<^verbatim>\<open>condWithDeadline\<close>; waiting is split where it releases the lock.
  \<^item> \<open>Conn_Streams\<close>, \<open>Outgoing\<close>, \<open>Conn_Pings\<close>: the parts of the connection; allocation of ids, and
    that every ping callback is called exactly once.
  \<^item> \<open>Raw_Stream\<close>: the record of a stream and one definition for each method, split into the sections
    that run under the lock of the stream (\<open>writeCtrl_start\<close>, \<open>writeCtrl_resume\<close>, \<open>finishData\<close>, and so
    on); a method that has to wait returns \<open>Blocked\<close> and is called again. \<open>sworld\<close> is a stream with the
    outgoing state and the table it shares with its connection.
  \<^item> \<open>Stream_Inv\<close>: the invariant of a stream, and that every section keeps it, wakes the waiters it
    has to wake, schedules what it has to send and never panics.
  \<^item> \<open>Stream_Run\<close>, \<open>Stream_Props\<close>: a step relation for the life of one stream (operations, timers,
    frames, write loop, write errors, in any interleaving) and the guarantees in all reachable states.
  \<^item> \<open>Raw_Conn\<close>: the connection, with a heap of streams; the operations of \<^verbatim>\<open>rawconn.go\<close>, the
    settings, and one round of the write loop (\<open>writeFrames_next\<close>).
  \<^item> \<open>Conn_Inv\<close>, \<open>Conn_Run\<close>: the invariant of the connection, kept by each of its operations.
  \<^item> \<open>Conn_System\<close>: a step relation for the whole connection at work, and the simulation that gives
    each stream of it a run of \<open>Stream_Run\<close>.
  \<^item> \<open>Write_Loop\<close>: \<^verbatim>\<open>writeFrames\<close> from start to end, left alone.
  \<^item> \<open>Conn_Props\<close>: the guarantees of a connection in all reachable states.
  \<^item> \<open>Http_Handler\<close>: the listener with one connection of \<^verbatim>\<open>http.go\<close>, on a stream of a connection.
  \<^item> \<open>Relay\<close>: \<^verbatim>\<open>passthru\<close> and \<^verbatim>\<open>passthruBoth\<close>, as the calls they make for what the streams return.

  \<^bold>\<open>The theories of the server.\<close> The objects of the server live in heaps, one per kind of object;
  an operation is a function on the whole server, \<^term>\<open>None\<close> if it panics.
  \<^item> \<open>Server_State\<close>: the records, the heaps, Go maps as association lists, and the record \<open>runtime\<close> of
    the choices that Go leaves open (the order of maps and of equal elements).
  \<^item> \<open>Server_Changes\<close>, \<open>Server_Subs\<close>, \<open>Server_Pubs\<close>, \<open>Server_Routes\<close>, \<open>Server_Peers\<close>, \<open>Server_Client\<close>:
    one theory per file of the server, with \<open>findEndpointRLocked\<close> of \<^verbatim>\<open>server.go\<close> in \<open>Server_Peers\<close>
    and the rest of it in \<open>Server_Client\<close>. \<open>Server_Changes\<close> also relates a stream of changes to what its
    reader knows (\<open>cs_view\<close>), and \<open>Server_Peers\<close> states which endpoint is best.
  \<^item> \<open>Server_Pool\<close>, \<open>Server_Publish\<close>: the accounting of a publication (\<open>pubs_inv\<close>: members, loads, ready
    endpoints, totals, queue) and what each operation of \<^verbatim>\<open>server_pubs.go\<close> does to it.
  \<^item> \<open>Server_Frame\<close>: what operations on subscriptions, routes and peers leave alone (\<open>sub_rel\<close>, \<open>quiet\<close>).
  \<^item> \<open>Server_Requests\<close>: \<open>handleRequestRLocked\<close> as the datatype \<open>request\<close> of the points where it can be
    interrupted, with one definition per section between them; who holds which endpoint
    (\<open>hold_inv\<close>) and waits on which channel (\<open>wait_inv\<close>), kept by each section.
  \<^item> \<open>Server_Effects\<close>, \<open>Server_Directory\<close>: what publishing and unpublishing do to requests, to the two
    directories (\<open>dir_inv\<close>) and to the readers of change streams (\<open>watch_inv\<close>).
  \<^item> \<open>Server_System\<close>: the operations of clients and peers (\<open>server_op\<close>), requests and readers together as
    a step relation (\<open>sv_step\<close>); \<open>Server_Props\<close>: the guarantees in its reachable states.
  \<^item> \<open>Server_Discovery\<close>: \<open>listenChanges\<close>, and that the remotes of a peer follow the changes it reads.
  \<^item> \<open>Peer_Frame\<close>, \<open>Peer_Run\<close>: what operations leave alone of the peers, and the goroutines of all peers, the
    operations of clients and requests to remotes as a step relation (\<open>peers_step\<close>) with its invariant.
  \<^item> \<open>Server_Http\<close>: \<open>ServeHTTP\<close> and the acceptors; \<open>Copper_Node\<close>: the configuration of \<^verbatim>\<open>copper-node\<close>.

  \<^bold>\<open>The theories of the RPC protocol.\<close> What the protobuf library does is an argument (\<open>codec\<close>); theorems
  ask of it that the messages at hand survive encoding and decoding (\<open>carried\<close>).
  \<^item> \<open>Rpc_Wire\<close>: the messages with their getters, the conversions, and the reading and writing of messages.
  \<^item> \<open>Rpc_Calls\<close>: the methods of \<^verbatim>\<open>rpcClient\<close> and \<^verbatim>\<open>rpcWrapServer\<close> for every type of request.
  \<^item> \<open>Rpc_Client\<close>: the streams of changes, handler maps, \<^verbatim>\<open>rpcWrapClient\<close> and the client.
  \<^item> \<open>Rpc_Props\<close>: the guarantees of requests over RPC; \<open>Discovery_Props\<close>: those of peers, and of two
    servers that discover each other's services.

  \<^bold>\<open>What is shown.\<close> Neither a stream nor a connection can panic. The bytes a stream sends and delivers
  are those its user wrote and its remote sent, in order; windows are conserved and respected; OPEN
  comes first and the closing frame once and last. Each stream of a connection behaves as a stream on
  its own. The write loop sleeps only when nothing is left to send, and left alone it returns. A
  failure is final and closes all streams; the groups behind \<^verbatim>\<open>Done\<close> and \<^verbatim>\<open>Shutdown\<close> count what
  still runs. Frames survive writing and reading in both directions. In a server, however requests,
  clients and peers interleave, endpoints never serve more than they offered and queues never exceed
  their size, no waiting request is forgotten, the directories agree with the publications, readers
  of changes end up with the directory, the best endpoint is found and routes are weighted. A request
  over RPC has the effect and the result of a call of the server, and leaves it in a reachable state.
  The remotes of a peer are what it has been told over its present connection, so two servers end up
  with each other's services. Relaying loses no bytes. A few theorems show where the code does not do what it means to: settings are never applied, copper error
  values lose their code on the wire, a deadline is forgotten after it has expired once, a failed
  allocation of an id poisons the next one, a stream refused during shutdown can stay in the table for
  ever, a request can wait beside a free endpoint, a route without options panics the server, a stream
  that is closed for writing too early is refused, all hop-by-hop headers of an HTTP request but one are
  passed on, and an HTTP handler does not return when its connection fails.

  \<^bold>\<open>Bounds and fuel.\<close> A queue or buffer of more than 2^62 elements cannot be allocated
  (\<open>queue_cap\<close>, \<open>buffer_room\<close>); the steps that create streams are limited accordingly. \<open>writeCtrl_run\<close>
  has fuel for five sections because a stream owes at most four control frames (\<open>owed\<close>), and
  \<open>writeFrames\<close> for one round more than the \<open>work\<close> that waits; both theorems show that this is enough.
  The identity of an error created while a frame is processed is an argument (\<open>eref\<close>), as are the
  current time and the order in which Go iterates over a map. The methods of subscriptions and routes
  call each other; \<open>sub_getEndpoints\<close> and \<open>sub_choose\<close> have fuel for two nested subscriptions, because the
  subscriptions a route makes disable routes. Target ids are 64-bit words that wrap; a step that
  publishes is taken only when the next id is not in use (\<open>target_free\<close>).

  \<^bold>\<open>Locks.\<close> A section of a stream is one step, with the outgoing queues and the table it changes. The
  queues have a lock of their own, so the write loop may take a stream out in the middle of a section
  that schedules twice; the steps \<open>again_ctrl\<close> and \<open>again_data\<close> of a stream cover what that leaves
  behind. Closing all streams of a failing connection releases the lock around each stream; the
  model closes them in one step. In the server, every operation under the write lock is one step, and
  so is every section of a request under the lock of its publication; write operations wait while a
  request is between two sections that hold the lock for reading (\<open>holds_lock\<close>).

  \<^bold>\<open>Not modelled.\<close> The network connection, its buffered reader and writer and the deadlines on it
  (\<^verbatim>\<open>rawconn_reader.go\<close>, \<^verbatim>\<open>rawconn_writer.go\<close>) appear as steps that may fail; the timers of
  the write loop and of \<^verbatim>\<open>connectloop\<close> only as wakeups at any time. That operations under the write lock
  do not panic is shown for requests and for the channels of waiters, not for the index bookkeeping of
  subscriptions. The encoding of messages by protobuf, the parsing of HTTP by \<^verbatim>\<open>net/http\<close>, and
  listening, dialling and name lookup are outside; their results are arguments. The String methods of
  frames, logging (\<^verbatim>\<open>log.go\<close>), the locked random source, reading the configuration file and the
  benchmarks have no logic of their own and are left out.
\<close>

end
